(* ===== verification/Prelude.thy ===== *)
theory Prelude
  imports Main "HOL-Library.Word" "HOL-Library.Multiset"
begin

text \<open>
  Shared vocabulary of the development: the ways kernel code can fail to return
  (\<open>fault\<close>), the result type and its sequencing combinator, checked C \<open>int\<close>
  arithmetic, the rounding macros of \<open>libs/types.h\<close>, and the generic lemmas the components
  share.  The collection \<open>res_simps\<close> holds the rewrite rules that take a sequence of
  fallible steps apart; \<open>kinv\<close> collects invariant-preservation rules.
\<close>

unbundle bit_operations_syntax

named_theorems res_simps "equations that resolve sequencing of fallible kernel steps"
named_theorems kinv "invariant preservation rules of kernel operations"

declare Let_def [simp]

section \<open>Faults and results\<close>

text \<open>
  A kernel function that does not return normally panics (\<open>panic\<close>), fails an
  \<open>assert\<close> (which panics), spins for ever in \<open>while(1);\<close>, reads or writes outside an
  array, overflows a signed \<open>int\<close> (undefined behaviour in C), dereferences a null
  pointer, or divides by zero.
\<close>

datatype fault =
    Panic string
  | Assertion string
  | Spin
  | Out_of_bounds
  | Signed_overflow
  | Null_deref
  | Divide_error

type_synonym 'a res = "fault + 'a"

definition bindR :: "'a res \<Rightarrow> ('a \<Rightarrow> 'b res) \<Rightarrow> 'b res" where
  "bindR m f = (case m of Inl e \<Rightarrow> Inl e | Inr x \<Rightarrow> f x)"

definition assertR :: "bool \<Rightarrow> string \<Rightarrow> unit res" where
  "assertR b msg = (if b then Inr () else Inl (Assertion msg))"

definition deref :: "'a option \<Rightarrow> 'a res" where
  "deref p = (case p of None \<Rightarrow> Inl Null_deref | Some x \<Rightarrow> Inr x)"

abbreviation returns :: "'a res \<Rightarrow> bool" where
  "returns m \<equiv> (\<exists>x. m = Inr x)"

lemma bindR_Inr [simp, res_simps]: "bindR (Inr x) f = f x"
  by (simp add: bindR_def)

lemma bindR_Inl [simp, res_simps]: "bindR (Inl e) f = Inl e"
  by (simp add: bindR_def)

lemma bindR_assoc: "bindR (bindR m f) g = bindR m (\<lambda>x. bindR (f x) g)"
  by (simp add: bindR_def split: sum.splits)

lemma bindR_eq_Inr [res_simps]: "bindR m f = Inr y \<longleftrightarrow> (\<exists>x. m = Inr x \<and> f x = Inr y)"
  by (simp add: bindR_def split: sum.splits)

lemma bindR_eq_Inl [res_simps]:
  "bindR m f = Inl e \<longleftrightarrow> m = Inl e \<or> (\<exists>x. m = Inr x \<and> f x = Inl e)"
  by (auto simp add: bindR_def split: sum.splits)

lemma bindR_cong [fundef_cong]:
  "m = m' \<Longrightarrow> (\<And>x. m' = Inr x \<Longrightarrow> f x = f' x) \<Longrightarrow> bindR m f = bindR m' f'"
  by (simp add: bindR_def split: sum.splits)

lemma bindR_if [res_simps]:
  "bindR (if b then m else n) f = (if b then bindR m f else bindR n f)"
  by simp

lemma assertR_True [simp, res_simps]: "assertR True msg = Inr ()"
  by (simp add: assertR_def)

lemma assertR_Inr [res_simps]: "assertR b msg = Inr u \<longleftrightarrow> b"
  by (simp add: assertR_def)

lemma assertR_Inl [res_simps]: "assertR b msg = Inl e \<longleftrightarrow> \<not> b \<and> e = Assertion msg"
  by (auto simp: assertR_def)

lemma deref_simps [simp, res_simps]: "deref (Some x) = Inr x" "deref None = Inl Null_deref"
  by (simp_all add: deref_def)

lemma deref_Inr [res_simps]: "deref p = Inr x \<longleftrightarrow> p = Some x"
  by (auto simp: deref_def split: option.splits)

section \<open>C integers\<close>

text \<open>
  A C \<open>int\<close> is modelled by an \<open>int\<close>; an operation that can leave the 32-bit range is
  written through \<open>chk32\<close>, which faults where C has undefined behaviour.  Unsigned values
  are \<open>32 word\<close>s and wrap.
\<close>

definition INT_MAX :: int where "INT_MAX = 2147483647"
definition INT_MIN :: int where "INT_MIN = - 2147483648"

definition in_int :: "int \<Rightarrow> bool" where
  "in_int n \<longleftrightarrow> INT_MIN \<le> n \<and> n \<le> INT_MAX"

definition chk32 :: "int \<Rightarrow> int res" where
  "chk32 n = (if in_int n then Inr n else Inl Signed_overflow)"

lemma chk32_Inr [res_simps]: "chk32 n = Inr m \<longleftrightarrow> in_int n \<and> m = n"
  by (auto simp: chk32_def)

lemma chk32_in_int [simp]: "in_int n \<Longrightarrow> chk32 n = Inr n"
  by (simp add: chk32_def)

text \<open>Division of C rounds towards zero.\<close>

definition cdiv :: "int \<Rightarrow> int \<Rightarrow> int" where
  "cdiv a b = sgn a * sgn b * (\<bar>a\<bar> div \<bar>b\<bar>)"

lemma cdiv_nonneg: "0 \<le> a \<Longrightarrow> 0 < b \<Longrightarrow> cdiv a b = a div b"
  by (cases "a = 0") (auto simp: cdiv_def)

text \<open>\<open>ROUNDDOWN\<close> and \<open>ROUNDUP\<close> of \<open>libs/types.h\<close>, on 32-bit unsigned values.\<close>

definition ROUNDDOWN :: "32 word \<Rightarrow> 32 word \<Rightarrow> 32 word" where
  "ROUNDDOWN a n = a - a mod n"

definition ROUNDUP :: "32 word \<Rightarrow> 32 word \<Rightarrow> 32 word" where
  "ROUNDUP a n = ROUNDDOWN (a + n - 1) n"

section \<open>Generic lemmas\<close>

lemma image_mset_swap:
  assumes "finite A" "i \<in> A" "j \<in> A"
  shows "image_mset (f(i := f j, j := f i)) (mset_set A) = image_mset f (mset_set A)"
proof -
  define t where "t x = (if x = i then j else if x = j then i else x)" for x
  have "f(i := f j, j := f i) = f \<circ> t"
    by (auto simp: fun_eq_iff t_def)
  then have "image_mset (f(i := f j, j := f i)) (mset_set A) = image_mset f (image_mset t (mset_set A))"
    by (simp add: multiset.map_comp)
  also have "image_mset t (mset_set A) = mset_set (t ` A)"
    by (rule image_mset_mset_set) (simp add: inj_on_def t_def)
  also have "t ` A = A"
    using assms(2,3) by (auto simp: t_def image_iff)
  finally show ?thesis .
qed

lemma image_mset_set_inj:
  assumes "image_mset f (mset_set A) = mset_set R" "finite A" "finite R"
  shows "bij_betw f A R"
proof -
  from assms have "f ` A = R" by (metis finite_set_mset_mset_set set_image_mset)
  moreover have "card A = card R" using assms by (metis size_image_mset size_mset_set)
  ultimately show ?thesis using assms(2) by (simp add: bij_betw_def eq_card_imp_inj_on)
qed

lemma image_mset_cong_set:
  "finite A \<Longrightarrow> (\<And>i. i \<in> A \<Longrightarrow> f i = g i) \<Longrightarrow> image_mset f (mset_set A) = image_mset g (mset_set A)"
  by (rule image_mset_cong) simp

lemma unat_bounds: "unat (w :: 32 word) < 4294967296" "unat (v :: 64 word) < 18446744073709551616"
  "unat (b :: 8 word) < 256"
  using unsigned_less [of w, where ?'a = nat] unsigned_less [of v, where ?'a = nat]
    unsigned_less [of b, where ?'a = nat] by simp_all

text \<open>Long division in two steps.\<close>

lemma two_step_div:
  fixes h l b B :: nat
  assumes "0 < b"
  shows "(h * B + l) div b = (h div b) * B + ((h mod b) * B + l) div b"
    and "(h * B + l) mod b = ((h mod b) * B + l) mod b"
proof -
  have "h * B + l = (h div b * b + h mod b) * B + l" by simp
  also have "\<dots> = ((h mod b) * B + l) + (h div b) * B * b" by (simp only: algebra_simps)
  finally have e: "h * B + l = ((h mod b) * B + l) + (h div b) * B * b" .
  show "(h * B + l) div b = (h div b) * B + ((h mod b) * B + l) div b"
    unfolding e using assms by simp
  show "(h * B + l) mod b = ((h mod b) * B + l) mod b" unfolding e by simp
qed

lemma sint64: "sint (w :: 64 word) = (if uint w < 2 ^ 63 then uint w else uint w - 2 ^ 64)"
proof -
  have "sint w = (uint w + 2 ^ 63) mod 2 ^ 64 - 2 ^ 63"
    by (simp add: sint_uint signed_take_bit_eq_take_bit_shift take_bit_eq_mod)
  moreover have "0 \<le> uint w" "uint w < 2 ^ 64" using uint_lt2p [of w] by simp_all
  ultimately show ?thesis by (cases "uint w < 2 ^ 63") (simp_all add: mod_add_if_z)
qed

lemma unat_neg_sint:
  assumes "- (2 ^ 63) < sint (w :: 64 word)" "sint w < 0"
  shows "unat (- w) = nat \<bar>sint w\<bar>"
proof -
  from assms have u: "sint w = uint w - 2 ^ 64" "uint w \<noteq> 0" by (auto simp: sint64 split: if_splits)
  have "uint (- w) = 2 ^ 64 - uint w"
    using u(2) uint_lt2p [of w] by (simp add: uint_word_ariths zmod_zminus1_eq_if)
  then show ?thesis using u assms by (simp add: unat_eq_nat_uint)
qed

lemma unat_pos_sint:
  assumes "0 \<le> sint (w :: 64 word)"
  shows "unat w = nat \<bar>sint w\<bar>"
proof -
  have "uint w < 2 ^ 64" using uint_lt2p [of w] by simp
  have "uint w < 2 ^ 63"
  proof (rule ccontr)
    assume "\<not> uint w < 2 ^ 63"
    then have "sint w = uint w - 2 ^ 64" by (rule trans [OF sint64 if_not_P])
    with assms \<open>uint w < 2 ^ 64\<close> show False by linarith
  qed
  then have "sint w = uint w" by (rule trans [OF sint64 if_P])
  with assms show ?thesis by (simp only: unat_eq_nat_uint abs_of_nonneg)
qed

end
