(* ===== verification/Cstring.thy ===== *)
theory Cstring
  imports Prelude
begin

text \<open>
  The string and memory routines of \<open>libs/string.c\<close> over a byte
  memory.  An address is a \<open>nat\<close>: an object never reaches past the end of the address
  space.  A loop that runs until it meets a null byte is a \<open>partial_function\<close> whose value
  is \<open>None\<close> when there is none; the specifications show that on a terminated string it
  returns.  A counted loop is a recursion on its counter.  The portable C bodies
  come first; the assembly routines \<open>libs/x86.h\<close> replaces five of them by are modelled
  beside them and shown to agree with them.
\<close>

type_synonym byte = "8 word"
type_synonym mem = "nat \<Rightarrow> byte"

section \<open>The routines\<close>

partial_function (option) strlen_loop :: "mem \<Rightarrow> nat \<Rightarrow> nat \<Rightarrow> nat option" where
  "strlen_loop m s cnt = (if m s \<noteq> 0 then strlen_loop m (s + 1) (cnt + 1) else Some cnt)"

definition strlen :: "mem \<Rightarrow> nat \<Rightarrow> nat option" where
  "strlen m s = strlen_loop m s 0"

text \<open>The loop of \<open>strnlen\<close>, on the number \<open>len - cnt\<close> of characters still allowed.\<close>

fun strnlen_loop :: "mem \<Rightarrow> nat \<Rightarrow> nat \<Rightarrow> nat \<Rightarrow> nat" where
  "strnlen_loop m s cnt 0 = cnt"
| "strnlen_loop m s cnt (Suc left) = (if m s \<noteq> 0 then strnlen_loop m (s + 1) (cnt + 1) left else cnt)"

definition strnlen :: "mem \<Rightarrow> nat \<Rightarrow> nat \<Rightarrow> nat" where
  "strnlen m s len = strnlen_loop m s 0 len"

partial_function (option) strcpy_loop :: "nat \<Rightarrow> nat \<Rightarrow> mem \<Rightarrow> mem option" where
  "strcpy_loop p src m =
     (let m1 = m(p := m src) in if m1 p \<noteq> 0 then strcpy_loop (p + 1) (src + 1) m1 else Some m1)"

definition strcpy :: "nat \<Rightarrow> nat \<Rightarrow> mem \<Rightarrow> mem option" where
  "strcpy dst src m = strcpy_loop dst src m"

fun strncpy :: "nat \<Rightarrow> nat \<Rightarrow> nat \<Rightarrow> mem \<Rightarrow> mem" where
  "strncpy p src 0 m = m"
| "strncpy p src (Suc len) m =
     (let m1 = m(p := m src) in strncpy (p + 1) (if m1 p \<noteq> 0 then src + 1 else src) len m1)"

text \<open>The difference of two characters read as \<open>unsigned char\<close>.\<close>

definition uchar_diff :: "byte \<Rightarrow> byte \<Rightarrow> int" where
  "uchar_diff a b = uint a - uint b"

partial_function (option) strcmp :: "mem \<Rightarrow> nat \<Rightarrow> nat \<Rightarrow> int option" where
  "strcmp m s1 s2 =
     (if m s1 \<noteq> 0 \<and> m s1 = m s2 then strcmp m (s1 + 1) (s2 + 1)
      else Some (uchar_diff (m s1) (m s2)))"

fun strncmp :: "mem \<Rightarrow> nat \<Rightarrow> nat \<Rightarrow> nat \<Rightarrow> int" where
  "strncmp m s1 s2 0 = 0"
| "strncmp m s1 s2 (Suc n) =
     (if m s1 \<noteq> 0 \<and> m s1 = m s2 then strncmp m (s1 + 1) (s2 + 1) n
      else uchar_diff (m s1) (m s2))"

text \<open>\<open>strchr\<close> returns \<open>Some None\<close> for the null pointer.\<close>

partial_function (option) strchr :: "mem \<Rightarrow> nat \<Rightarrow> byte \<Rightarrow> nat option option" where
  "strchr m s c =
     (if m s \<noteq> 0 then (if m s = c then Some (Some s) else strchr m (s + 1) c) else Some None)"

partial_function (option) strfind :: "mem \<Rightarrow> nat \<Rightarrow> byte \<Rightarrow> nat option" where
  "strfind m s c =
     (if m s \<noteq> 0 then (if m s = c then Some s else strfind m (s + 1) c) else Some s)"

fun memset :: "nat \<Rightarrow> byte \<Rightarrow> nat \<Rightarrow> mem \<Rightarrow> mem" where
  "memset p c 0 m = m"
| "memset p c (Suc n) m = memset (p + 1) c n (m(p := c))"

fun copy_up :: "nat \<Rightarrow> nat \<Rightarrow> nat \<Rightarrow> mem \<Rightarrow> mem" where
  "copy_up d s 0 m = m"
| "copy_up d s (Suc n) m = copy_up (d + 1) (s + 1) n (m(d := m s))"

text \<open>The descending loop, with \<open>d + n\<close> and \<open>s + n\<close> the pointers the code decrements.\<close>

fun copy_down :: "nat \<Rightarrow> nat \<Rightarrow> nat \<Rightarrow> mem \<Rightarrow> mem" where
  "copy_down d s 0 m = m"
| "copy_down d s (Suc n) m = copy_down d s n (m(d + n := m (s + n)))"

definition memmove :: "nat \<Rightarrow> nat \<Rightarrow> nat \<Rightarrow> mem \<Rightarrow> mem" where
  "memmove dst src n m =
     (if src < dst \<and> src + n > dst then copy_down dst src n m else copy_up dst src n m)"

definition memcpy :: "nat \<Rightarrow> nat \<Rightarrow> nat \<Rightarrow> mem \<Rightarrow> mem" where
  "memcpy dst src n m = copy_up dst src n m"

fun memcmp :: "mem \<Rightarrow> nat \<Rightarrow> nat \<Rightarrow> nat \<Rightarrow> int" where
  "memcmp m s1 s2 0 = 0"
| "memcmp m s1 s2 (Suc n) =
     (if m s1 \<noteq> m s2 then uchar_diff (m s1) (m s2) else memcmp m (s1 + 1) (s2 + 1) n)"

subsection \<open>The assembly routines\<close>

text \<open>\<open>libs/x86.h\<close> replaces five of the bodies by assembly; the registers \<open>esi\<close> and
  \<open>edi\<close> are the arguments of the loops and \<open>ecx\<close> their counter.  \<open>movsb\<close> moves one
  byte, \<open>movsl\<close> four at once, read before they are written.\<close>

partial_function (option) arch_strcmp :: "mem \<Rightarrow> nat \<Rightarrow> nat \<Rightarrow> int option" where
  "arch_strcmp m esi edi =
     (let al = m esi
      in if al \<noteq> m edi then Some (if al < m edi then - 1 else 1)
         else if al \<noteq> 0 then arch_strcmp m (esi + 1) (edi + 1) else Some 0)"

partial_function (option) arch_strcpy :: "nat \<Rightarrow> nat \<Rightarrow> mem \<Rightarrow> mem option" where
  "arch_strcpy edi esi m =
     (let al = m esi; m1 = m(edi := al) in if al \<noteq> 0 then arch_strcpy (edi + 1) (esi + 1) m1 else Some m1)"

fun rep_stosb :: "nat \<Rightarrow> nat \<Rightarrow> byte \<Rightarrow> mem \<Rightarrow> mem" where
  "rep_stosb 0 edi al m = m"
| "rep_stosb (Suc ecx) edi al m = rep_stosb ecx (edi + 1) al (m(edi := al))"

definition arch_memset :: "nat \<Rightarrow> byte \<Rightarrow> nat \<Rightarrow> mem \<Rightarrow> mem" where
  "arch_memset s c n m = rep_stosb n s c m"

fun rep_movsb :: "nat \<Rightarrow> nat \<Rightarrow> nat \<Rightarrow> mem \<Rightarrow> mem" where
  "rep_movsb 0 edi esi m = m"
| "rep_movsb (Suc ecx) edi esi m = rep_movsb ecx (edi + 1) (esi + 1) (m(edi := m esi))"

fun rep_movsl :: "nat \<Rightarrow> nat \<Rightarrow> nat \<Rightarrow> mem \<Rightarrow> mem" where
  "rep_movsl 0 edi esi m = m"
| "rep_movsl (Suc ecx) edi esi m = rep_movsl ecx (edi + 4) (esi + 4)
     (m(edi := m esi, edi + 1 := m (esi + 1), edi + 2 := m (esi + 2), edi + 3 := m (esi + 3)))"

definition arch_memcpy :: "nat \<Rightarrow> nat \<Rightarrow> nat \<Rightarrow> mem \<Rightarrow> mem" where
  "arch_memcpy dst src n m =
     (let m1 = rep_movsl (n div 4) dst src m; edi = dst + 4 * (n div 4); esi = src + 4 * (n div 4); ecx = n mod 4
      in if ecx = 0 then m1 else rep_movsb ecx edi esi m1)"

text \<open>With the direction flag set, \<open>rep movsb\<close> walks down; \<open>edi + ecx\<close> and \<open>esi + ecx\<close>
  are one above the registers, so that an empty move needs no negative address.\<close>

fun rep_movsb_down :: "nat \<Rightarrow> nat \<Rightarrow> nat \<Rightarrow> mem \<Rightarrow> mem" where
  "rep_movsb_down 0 edi esi m = m"
| "rep_movsb_down (Suc ecx) edi esi m = rep_movsb_down ecx edi esi (m(edi + ecx := m (esi + ecx)))"

definition arch_memmove :: "nat \<Rightarrow> nat \<Rightarrow> nat \<Rightarrow> mem \<Rightarrow> mem" where
  "arch_memmove dst src n m = (if dst < src then arch_memcpy dst src n m else rep_movsb_down n dst src m)"

subsection \<open>strtol\<close>

abbreviation chr :: "char \<Rightarrow> byte" where
  "chr c \<equiv> of_char c"

partial_function (option) skip_blanks :: "mem \<Rightarrow> nat \<Rightarrow> nat option" where
  "skip_blanks m s = (if m s = chr (CHR '' '') \<or> m s = chr (CHR 0x09) then skip_blanks m (s + 1) else Some s)"

text \<open>The value of a digit character, if it is one; characters are compared as signed.\<close>

definition digit_of :: "byte \<Rightarrow> int option" where
  "digit_of c =
     (if sint (chr (CHR ''0'')) \<le> sint c \<and> sint c \<le> sint (chr (CHR ''9''))
      then Some (sint c - sint (chr (CHR ''0'')))
      else if sint (chr (CHR ''a'')) \<le> sint c \<and> sint c \<le> sint (chr (CHR ''z''))
      then Some (sint c - sint (chr (CHR ''a'')) + 10)
      else if sint (chr (CHR ''A'')) \<le> sint c \<and> sint c \<le> sint (chr (CHR ''Z''))
      then Some (sint c - sint (chr (CHR ''A'')) + 10)
      else None)"

text \<open>The digit loop.  A value that leaves the range of \<open>long\<close> is the fault the code's own
  remark on overflow warns of.\<close>

partial_function (option) strtol_digits :: "mem \<Rightarrow> nat \<Rightarrow> int \<Rightarrow> int \<Rightarrow> (int \<times> nat) res option" where
  "strtol_digits m s base val =
     (case digit_of (m s) of
        None \<Rightarrow> Some (Inr (val, s))
      | Some dig \<Rightarrow>
          if dig \<ge> base then Some (Inr (val, s))
          else if in_int (val * base + dig) then strtol_digits m (s + 1) base (val * base + dig)
          else Some (Inl Signed_overflow))"

definition strtol :: "mem \<Rightarrow> nat \<Rightarrow> int \<Rightarrow> (int \<times> nat) res option" where
  "strtol m s base =
     Option.bind (skip_blanks m s) (\<lambda>s0.
     let (s1, neg) = (if m s0 = chr (CHR ''+'') then (s0 + 1, False)
                      else if m s0 = chr (CHR ''-'') then (s0 + 1, True) else (s0, False));
         (s2, base2) =
           (if (base = 0 \<or> base = 16) \<and> m s1 = chr (CHR ''0'') \<and> m (s1 + 1) = chr (CHR ''x'')
            then (s1 + 2, 16)
            else if base = 0 \<and> m s1 = chr (CHR ''0'') then (s1 + 1, 8)
            else if base = 0 then (s1, 10) else (s1, base))
     in map_option (map_sum id (\<lambda>(v, e). (if neg then - v else v, e))) (strtol_digits m s2 base2 0))"

section \<open>Strings and blocks\<close>

text \<open>A null-terminated string at an address, and a block of bytes.\<close>

fun cstr :: "mem \<Rightarrow> nat \<Rightarrow> byte list \<Rightarrow> bool" where
  "cstr m s [] \<longleftrightarrow> m s = 0"
| "cstr m s (x # xs) \<longleftrightarrow> m s = x \<and> x \<noteq> 0 \<and> cstr m (s + 1) xs"

definition block :: "mem \<Rightarrow> nat \<Rightarrow> nat \<Rightarrow> byte list" where
  "block m s n = map m [s..<s + n]"

lemma block_simps [simp]: "length (block m s n) = n" "i < n \<Longrightarrow> block m s n ! i = m (s + i)"
  by (simp_all add: block_def)

lemma block_eqI: "(\<And>i. i < n \<Longrightarrow> m (s + i) = m' (s' + i)) \<Longrightarrow> block m s n = block m' s' n"
  by (simp add: list_eq_iff_nth_eq)

lemma cstr_iff:
  "cstr m s xs \<longleftrightarrow> block m s (length xs) = xs \<and> 0 \<notin> set xs \<and> m (s + length xs) = 0"
proof (induction xs arbitrary: s)
  case (Cons x xs)
  have "[s..<Suc (s + length xs)] = s # [Suc s..<Suc s + length xs]"
    using upt_conv_Cons [of s "Suc (s + length xs)"] by simp
  then show ?case using Cons.IH [of "s + 1"] by (auto simp: block_def)
qed (simp add: block_def)

lemma cstr_cong: "(\<And>a. s \<le> a \<Longrightarrow> a \<le> s + length xs \<Longrightarrow> m' a = m a) \<Longrightarrow> cstr m' s xs = cstr m s xs"
  by (induction xs arbitrary: s) auto

lemma strlen_loop_cstr: "cstr m s xs \<Longrightarrow> strlen_loop m s c = Some (c + length xs)"
  by (induction xs arbitrary: s c) (subst strlen_loop.simps, auto)+

lemma strlen_cstr: "cstr m s xs \<Longrightarrow> strlen m s = Some (length xs)"
  by (simp add: strlen_def strlen_loop_cstr)

lemma strnlen_loop_cstr: "cstr m s xs \<Longrightarrow> strnlen_loop m s c n = c + min (length xs) n"
proof (induction n arbitrary: s c xs)
  case (Suc n)
  then show ?case by (cases xs) auto
qed simp

lemma strnlen_cstr: "cstr m s xs \<Longrightarrow> strnlen m s n = min (length xs) n"
  by (simp add: strnlen_def strnlen_loop_cstr)

lemma copy_up_outside: "a < d \<or> d + n \<le> a \<Longrightarrow> copy_up d s n m a = m a"
  by (induction d s n m rule: copy_up.induct) auto

lemma copy_up_inside:
  "d \<le> s \<or> s + n \<le> d \<Longrightarrow> i < n \<Longrightarrow> copy_up d s n m (d + i) = m (s + i)"
proof (induction d s n m arbitrary: i rule: copy_up.induct)
  case (2 d s n m)
  show ?case
  proof (cases i)
    case 0
    then show ?thesis by (simp add: copy_up_outside)
  next
    case (Suc j)
    with 2 have "copy_up (d + 1) (s + 1) n (m(d := m s)) (d + 1 + j) = (m(d := m s)) (s + 1 + j)"
      by (intro "2.IH") auto
    also have "\<dots> = m (s + i)" using 2 Suc by auto
    finally show ?thesis using Suc by (simp add: add.commute)
  qed
qed simp

lemma copy_down_outside: "a < d \<or> d + n \<le> a \<Longrightarrow> copy_down d s n m a = m a"
  by (induction d s n m rule: copy_down.induct) auto

lemma copy_down_inside:
  "s \<le> d \<Longrightarrow> i < n \<Longrightarrow> copy_down d s n m (d + i) = m (s + i)"
proof (induction d s n m arbitrary: i rule: copy_down.induct)
  case (2 d s n m)
  show ?case
  proof (cases "i = n")
    case True
    then show ?thesis by (simp add: copy_down_outside)
  next
    case False
    with 2 have "copy_down d s n (m(d + n := m (s + n))) (d + i) = (m(d + n := m (s + n))) (s + i)"
      by (intro "2.IH") auto
    with False 2 show ?thesis by simp
  qed
qed simp

lemma memmove_spec:
  "block (memmove dst src n m) dst n = block m src n"
  "a < dst \<or> dst + n \<le> a \<Longrightarrow> memmove dst src n m a = m a"
proof -
  show "block (memmove dst src n m) dst n = block m src n"
  proof (rule block_eqI)
    fix i assume "i < n"
    then show "memmove dst src n m (dst + i) = m (src + i)"
      by (cases "src < dst \<and> src + n > dst") (auto simp: memmove_def copy_up_inside copy_down_inside)
  qed
  show "memmove dst src n m a = m a" if "a < dst \<or> dst + n \<le> a"
    using that by (simp add: memmove_def copy_up_outside copy_down_outside)
qed

lemma memset_apply: "memset p c n m a = (if p \<le> a \<and> a < p + n then c else m a)"
  by (induction p c n m rule: memset.induct) (auto simp: fun_upd_def)

lemma strcpy_loop_spec:
  assumes "cstr m src xs" "p + length xs < src \<or> src + length xs < p"
  shows "\<exists>m'. strcpy_loop p src m = Some m' \<and> cstr m' p xs \<and>
    (\<forall>a. a < p \<or> p + length xs < a \<longrightarrow> m' a = m a)"
  using assms
proof (induction xs arbitrary: p src m)
  case Nil
  then show ?case by (subst strcpy_loop.simps) auto
next
  case (Cons x xs)
  let ?m = "m(p := x)"
  have "cstr ?m (src + 1) xs"
    using Cons.prems by (subst cstr_cong [of _ _ _ m]) auto
  with Cons.IH [of ?m "src + 1" "p + 1"] Cons.prems obtain m' where
    m': "strcpy_loop (p + 1) (src + 1) ?m = Some m'" "cstr m' (p + 1) xs"
      "\<forall>a. a < p + 1 \<or> p + 1 + length xs < a \<longrightarrow> m' a = ?m a" by (auto simp: fun_upd_def)
  then have "m' p = x" by simp
  with m' Cons.prems show ?case
    by (subst strcpy_loop.simps) (auto intro!: exI [of _ m'])
qed

text \<open>Comparison of two strings: the sign is that of the first differing character.\<close>

lemma uchar_diff_zero [simp]: "uchar_diff a b = 0 \<longleftrightarrow> a = b"
  by (simp add: uchar_diff_def word_uint_eq_iff)

lemma uchar_diff_less: "uchar_diff a b < 0 \<longleftrightarrow> a < b"
  by (simp add: uchar_diff_def word_less_def)

text \<open>\<open>bytes_less\<close> is the dictionary order on byte strings.\<close>

definition bytes_less :: "byte list \<Rightarrow> byte list \<Rightarrow> bool" where
  "bytes_less xs ys \<longleftrightarrow> (xs, ys) \<in> lexord {(a, b). a < b}"

lemma bytes_less_simps [simp]:
  "\<not> bytes_less xs []" "bytes_less [] (y # ys)"
  "bytes_less (x # xs) (y # ys) \<longleftrightarrow> x < y \<or> x = y \<and> bytes_less xs ys"
  by (simp_all add: bytes_less_def)

lemma strcmp_spec:
  "cstr m s1 xs \<Longrightarrow> cstr m s2 ys \<Longrightarrow>
   \<exists>r. strcmp m s1 s2 = Some r \<and> (r = 0 \<longleftrightarrow> xs = ys) \<and> (r < 0 \<longleftrightarrow> bytes_less xs ys)"
proof (induction xs arbitrary: ys s1 s2)
  case Nil
  then show ?case
    by (cases ys; subst strcmp.simps) (auto simp: uchar_diff_less word_gt_0)
next
  case (Cons x xs)
  show ?case
  proof (cases ys)
    case Nil
    with Cons.prems show ?thesis by (subst strcmp.simps) (auto simp: uchar_diff_less)
  next
    case ys: (Cons y ys')
    show ?thesis
    proof (cases "x = y")
      case True
      with Cons.IH [of "s1 + 1" "s2 + 1" ys'] Cons.prems ys show ?thesis by (subst strcmp.simps) auto
    next
      case False
      with Cons.prems ys show ?thesis by (subst strcmp.simps) (auto simp: uchar_diff_less)
    qed
  qed
qed

lemma strncmp_zero:
  "cstr m s1 xs \<Longrightarrow> cstr m s2 ys \<Longrightarrow> strncmp m s1 s2 n = 0 \<longleftrightarrow> take n xs = take n ys"
proof (induction n arbitrary: s1 s2 xs ys)
  case (Suc n)
  then show ?case by (cases xs; cases ys) auto
qed simp

lemma memcmp_zero: "memcmp m s1 s2 n = 0 \<longleftrightarrow> block m s1 n = block m s2 n"
proof (induction n arbitrary: s1 s2)
  case (Suc n)
  have "[s..<s + Suc n] = s # [s + 1..<s + 1 + n]" for s
    using upt_conv_Cons [of s "s + Suc n"] by simp
  with Suc show ?case by (simp add: block_def)
qed (simp add: block_def)

lemma strchr_spec:
  "cstr m s xs \<Longrightarrow> strchr m s c =
     Some (if c \<in> set xs then Some (s + length (takeWhile (\<lambda>x. x \<noteq> c) xs)) else None)"
  by (induction xs arbitrary: s) (subst strchr.simps, auto)+

lemma strfind_spec:
  "cstr m s xs \<Longrightarrow> strfind m s c = Some (s + length (takeWhile (\<lambda>x. x \<noteq> c) xs))"
  by (induction xs arbitrary: s) (subst strfind.simps, auto)+

lemma strncpy_outside: "a < p \<or> p + n \<le> a \<Longrightarrow> strncpy p src n m a = m a"
  by (induction p src n m rule: strncpy.induct) auto

text \<open>Byte \<open>i\<close> of a string padded with null bytes.\<close>

definition padded :: "byte list \<Rightarrow> nat \<Rightarrow> byte" where
  "padded xs i = (if i < length xs then xs ! i else 0)"

lemma padded_simps [simp]: "padded [] i = 0" "padded (x # xs) 0 = x" "padded (x # xs) (Suc i) = padded xs i"
  by (simp_all add: padded_def)

lemma strncpy_inside:
  "cstr m src xs \<Longrightarrow> p + n \<le> src \<or> src + length xs < p \<Longrightarrow> i < n \<Longrightarrow>
   strncpy p src n m (p + i) = padded xs i"
proof (induction n arbitrary: p src m xs i)
  case (Suc n)
  let ?m = "m(p := m src)"
  have cs: "cstr ?m src xs" using Suc.prems by (subst cstr_cong [of _ _ _ m]) auto
  show ?case
  proof (cases i)
    case 0
    have "m src = padded xs 0" using Suc.prems(1) by (cases xs) auto
    with 0 show ?thesis by (simp add: strncpy_outside)
  next
    case (Suc j)
    show ?thesis
    proof (cases xs)
      case Nil
      with Suc.prems Suc.IH [of ?m src "[]" "p + 1" j] Suc cs show ?thesis by (auto simp: fun_upd_def)
    next
      case (Cons x ys)
      with cs have "cstr ?m (src + 1) ys" by auto
      with Cons Suc.prems Suc.IH [of ?m "src + 1" ys "p + 1" j] Suc show ?thesis by (auto simp: fun_upd_def)
    qed
  qed
qed simp

lemma strncpy_spec:
  assumes "cstr m src xs" "p + n \<le> src \<or> src + length xs < p"
  shows "block (strncpy p src n m) p n = map (padded xs) [0..<n]"
  using strncpy_inside [OF assms] by (intro nth_equalityI) simp_all

section \<open>The assembly routines\<close>

lemma rep_stosb_memset: "rep_stosb n p c m = memset p c n m"
  by (induction n arbitrary: p m) simp_all

lemma rep_movsb_copy_up: "rep_movsb n d s m = copy_up d s n m"
  by (induction n arbitrary: d s m) simp_all

lemma rep_movsb_down_copy_down: "rep_movsb_down n d s m = copy_down d s n m"
  by (induction n arbitrary: d s m) simp_all

lemma copy_up_add: "copy_up d s (a + b) m = copy_up (d + a) (s + a) b (copy_up d s a m)"
  by (induction a arbitrary: d s m) simp_all

lemma rep_movsl_copy_up:
  "d \<le> s \<or> s + 4 * n \<le> d \<Longrightarrow> rep_movsl n d s m = copy_up d s (4 * n) m"
proof (induction n arbitrary: d s m)
  case (Suc n)
  have four: "4 * Suc n = Suc (Suc (Suc (Suc (4 * n))))" by simp
  have "m(d := m s, d + 1 := m (s + 1), d + 2 := m (s + 2), d + 3 := m (s + 3)) = copy_up d s 4 m"
    using Suc.prems by (auto simp: eval_nat_numeral fun_upd_def fun_eq_iff)
  moreover have "copy_up d s (4 * Suc n) m = copy_up (d + 4) (s + 4) (4 * n) (copy_up d s 4 m)"
    using copy_up_add [of d s 4 "4 * n" m] by simp
  ultimately show ?case using Suc by auto
qed simp

lemma arch_memcpy_copy_up:
  assumes "dst \<le> src \<or> src + n \<le> dst"
  shows "arch_memcpy dst src n m = copy_up dst src n m"
proof -
  let ?q = "4 * (n div 4)"
  have n: "n = ?q + n mod 4" by simp
  have "dst \<le> src \<or> src + ?q \<le> dst" using assms by linarith
  then have "arch_memcpy dst src n m = copy_up (dst + ?q) (src + ?q) (n mod 4) (copy_up dst src ?q m)"
    by (simp add: arch_memcpy_def Let_def rep_movsl_copy_up rep_movsb_copy_up)
  also have "\<dots> = copy_up dst src n m" using copy_up_add [of dst src ?q "n mod 4" m] n by simp
  finally show ?thesis .
qed

lemma copies_agree:
  assumes "\<And>i. i < n \<Longrightarrow> f (d + i) = g (d + i)" "\<And>a. a < d \<or> d + n \<le> a \<Longrightarrow> f a = g a"
  shows "f = (g :: mem)"
proof
  fix a show "f a = g a"
    using assms(1) [of "a - d"] assms(2) [of a] by (cases "d \<le> a \<and> a < d + n") auto
qed

lemma arch_memmove_memmove: "arch_memmove dst src n m = memmove dst src n m"
proof (cases "dst < src")
  case True
  then show ?thesis by (simp add: arch_memmove_def memmove_def arch_memcpy_copy_up)
next
  case False
  show ?thesis
    by (rule copies_agree [of n _ dst])
      (use False in \<open>auto simp: arch_memmove_def memmove_def rep_movsb_down_copy_down copy_up_inside
        copy_down_inside copy_up_outside copy_down_outside\<close>)
qed

lemma arch_strcpy_strcpy: "arch_strcpy dst src m = strcpy dst src m"
proof -
  have "arch_strcpy d s m = Some m'" if "strcpy_loop d s m = Some m'" for d s m m'
    by (rule strcpy_loop.raw_induct [of "\<lambda>d s m m'. arch_strcpy d s m = Some m'", OF _ that])
      (subst arch_strcpy.simps, auto simp: Let_def split: if_splits)
  moreover have "strcpy_loop d s m = Some m'" if "arch_strcpy d s m = Some m'" for d s m m'
    by (rule arch_strcpy.raw_induct [of "\<lambda>d s m m'. strcpy_loop d s m = Some m'", OF _ that])
      (subst strcpy_loop.simps, auto simp: Let_def split: if_splits)
  ultimately show ?thesis unfolding strcpy_def by (metis not_None_eq)
qed

lemma sgn_uchar_diff: "sgn (uchar_diff a b) = (if a = b then 0 else if a < b then - 1 else 1)"
  by (auto simp: uchar_diff_def sgn_if word_less_def word_uint_eq_iff)

lemma arch_strcmp_strcmp: "arch_strcmp m s1 s2 = map_option sgn (strcmp m s1 s2)"
proof -
  have a: "arch_strcmp m s1 s2 = Some (sgn r)" if "strcmp m s1 s2 = Some r" for s1 s2 r
    by (rule strcmp.raw_induct [of "\<lambda>m s1 s2 r. arch_strcmp m s1 s2 = Some (sgn r)", OF _ that])
      (subst arch_strcmp.simps, auto simp: Let_def sgn_uchar_diff split: if_splits)
  have b: "\<exists>r. strcmp m s1 s2 = Some r" if "arch_strcmp m s1 s2 = Some r'" for s1 s2 r'
    by (rule arch_strcmp.raw_induct [of "\<lambda>m s1 s2 _. \<exists>r. strcmp m s1 s2 = Some r", OF _ that])
      (subst strcmp.simps, auto simp: Let_def split: if_splits)
  show ?thesis
  proof (cases "strcmp m s1 s2")
    case None
    with b have "arch_strcmp m s1 s2 = None" by (metis not_None_eq)
    with None show ?thesis by simp
  qed (simp add: a)
qed

section \<open>Properties\<close>

text \<open>C15: the assembly routines compute what the portable bodies compute: \<open>memset\<close>,
  \<open>strcpy\<close> and \<open>memmove\<close> on every input, \<open>strcmp\<close> up to the size of the result, and
  \<open>memcpy\<close>, which moves four bytes at a time, unless the destination starts inside the
  source.\<close>

theorem arch_routines_agree:
  assumes "d \<le> s \<or> s + n \<le> d"
  shows "arch_memcpy d s n m = memcpy d s n m \<and> arch_memmove dst src k m = memmove dst src k m \<and>
    arch_memset dst c k m = memset dst c k m \<and> arch_strcpy dst src m = strcpy dst src m \<and>
    arch_strcmp m dst src = map_option sgn (strcmp m dst src)"
  using arch_memcpy_copy_up [OF assms]
  by (simp add: memcpy_def arch_memmove_memmove arch_memset_def rep_stosb_memset arch_strcpy_strcpy arch_strcmp_strcmp)

theorem arch_routines_agree_witness:
  "arch_memcpy 1 3 6 (\<lambda>a. of_nat a) 6 = 8 \<and> arch_memmove 4 2 5 (\<lambda>a. of_nat a) 8 = 6"
  using arch_routines_agree [of 1 3 6 "\<lambda>a. of_nat a" 4 2 5 0]
  by (simp add: memcpy_def memmove_def eval_nat_numeral)

text \<open>C14: \<open>memmove\<close> copies the bytes that were at the source to the destination, whatever the
  overlap of the two areas, and writes nothing else.\<close>

theorem memmove_overlapping:
  "block (memmove dst src n m) dst n = block m src n \<and>
   (\<forall>a. \<not> (dst \<le> a \<and> a < dst + n) \<longrightarrow> memmove dst src n m a = m a)"
  using memmove_spec(1) [of dst src n m] memmove_spec(2) [of _ dst n src m] by (auto simp: not_le)

theorem memmove_overlapping_witness:
  "block (memmove 2 0 4 (\<lambda>a. of_nat a)) 2 4 = [0, 1, 2, 3] \<and> memmove 2 0 4 (\<lambda>a. of_nat a) 7 = 7"
  using memmove_overlapping [of 2 0 4 "\<lambda>a. of_nat a"] by (simp add: block_def upt_rec)

text \<open>\<open>strcmp\<close> returns on two terminated strings; it is zero exactly when they are equal
  and negative exactly when the first comes before the second in dictionary order of unsigned
  bytes.\<close>

theorem strcmp_lexicographic:
  assumes "cstr m s1 xs" "cstr m s2 ys"
  shows "\<exists>r. strcmp m s1 s2 = Some r \<and> (r = 0 \<longleftrightarrow> xs = ys) \<and>
    (r < 0 \<longleftrightarrow> (xs, ys) \<in> lexord {(a, b). a < b})"
  using strcmp_spec [OF assms] by (simp add: bytes_less_def)

text \<open>\<open>strcpy\<close> of a terminated string to a place that does not overlap it returns, leaves
  that string there and writes only its bytes and the terminator; \<open>strncpy\<close> writes exactly
  the given number of bytes, the string cut off or padded with null bytes.\<close>

theorem strcpy_strncpy_copy:
  assumes "cstr m src xs" "dst + length xs < src \<or> src + length xs < dst"
    and "p + n \<le> src \<or> src + length xs < p"
  shows "(\<exists>m'. strcpy dst src m = Some m' \<and> cstr m' dst xs \<and>
      (\<forall>a. a < dst \<or> dst + length xs < a \<longrightarrow> m' a = m a)) \<and>
    (\<forall>i < n. strncpy p src n m (p + i) = (if i < length xs then xs ! i else 0)) \<and>
    (\<forall>a. a < p \<or> p + n \<le> a \<longrightarrow> strncpy p src n m a = m a)"
  using strcpy_loop_spec [OF assms(1,2)] strncpy_inside [OF assms(1,3)] strncpy_outside
  by (simp add: strcpy_def padded_def)

end
