(* ===== verification/Printf.thy ===== *)
theory Printf
  imports Cstring
begin

text \<open>
  Formatted output: \<open>do_div\<close> of \<open>libs/x86.h\<close>, the routines of
  \<open>libs/printfmt.c\<close>, and \<open>readline\<close> of \<open>kern/libs/readline.c\<close>.  What the code
  sends to \<open>putch\<close> is collected as a list of bytes.  A \<open>va_list\<close> is the list of the
  32-bit words on the stack: an \<open>int\<close>, a \<open>long\<close> and a pointer take one word, a
  \<open>long long\<close> two, the low one first.  Reading past the list is \<open>Out_of_bounds\<close>.
\<close>

section \<open>64-bit division\<close>

text \<open>The \<open>divl\<close> instruction divides a double word by a word and faults when the divisor is
  zero or the quotient does not fit.\<close>

definition divl :: "32 word \<Rightarrow> 32 word \<Rightarrow> 32 word \<Rightarrow> (32 word \<times> 32 word) res" where
  "divl upper low base =
     (let d = unat upper * 2 ^ 32 + unat low
      in if base = 0 \<or> d div unat base \<ge> 2 ^ 32 then Inl Divide_error
         else Inr (of_nat (d div unat base), of_nat (d mod unat base)))"

definition do_div :: "64 word \<Rightarrow> 32 word \<Rightarrow> (64 word \<times> 32 word) res" where
  "do_div n base =
     (let low = (ucast n :: 32 word); high = (ucast (drop_bit 32 n) :: 32 word)
      in if high \<noteq> 0 \<and> base = 0 then Inl Divide_error
         else let upper = (if high \<noteq> 0 then high mod base else high);
                  high' = (if high \<noteq> 0 then high div base else high)
              in bindR (divl upper low base) (\<lambda>(lo, md).
                   Inr (push_bit 32 (ucast high') OR ucast lo, md)))"

section \<open>Numbers\<close>

definition hexdigits :: "byte list" where
  "hexdigits = map of_char ''0123456789abcdef'' @ [0]"

definition digit_char :: "32 word \<Rightarrow> byte res" where
  "digit_char md = (if unat md < length hexdigits then Inr (hexdigits ! unat md) else Inl Out_of_bounds)"

text \<open>\<open>while (-- width > 0) putch(padc)\<close> writes \<open>width - 1\<close> characters.\<close>

partial_function (option) printnum :: "64 word \<Rightarrow> 32 word \<Rightarrow> int \<Rightarrow> byte \<Rightarrow> byte list res option" where
  "printnum num base width padc =
     (case do_div num base of
        Inl e \<Rightarrow> Some (Inl e)
      | Inr (result, md) \<Rightarrow>
          Option.bind
            (if num \<ge> ucast base then printnum result base (width - 1) padc
             else Some (Inr (replicate (nat (width - 1)) padc)))
            (\<lambda>r. Some (bindR r (\<lambda>out. bindR (digit_char md) (\<lambda>c. Inr (out @ [c]))))))"

text \<open>The arguments of \<open>getuint\<close> and \<open>getint\<close>: one word, or two for \<open>long long\<close>.\<close>

definition va_word :: "32 word list \<Rightarrow> (32 word \<times> 32 word list) res" where
  "va_word ap = (case ap of [] \<Rightarrow> Inl Out_of_bounds | w # ap' \<Rightarrow> Inr (w, ap'))"

definition va_quad :: "32 word list \<Rightarrow> (64 word \<times> 32 word list) res" where
  "va_quad ap = (case ap of lo # hi # ap' \<Rightarrow> Inr (push_bit 32 (ucast hi) OR ucast lo, ap') | _ \<Rightarrow> Inl Out_of_bounds)"

definition getuint :: "32 word list \<Rightarrow> int \<Rightarrow> (64 word \<times> 32 word list) res" where
  "getuint ap lflag =
     (if lflag \<ge> 2 then va_quad ap
      else if lflag \<noteq> 0 then bindR (va_word ap) (\<lambda>(w, ap'). Inr (ucast w, ap'))
      else bindR (va_word ap) (\<lambda>(w, ap'). Inr (ucast w, ap')))"

definition getint :: "32 word list \<Rightarrow> int \<Rightarrow> (64 word \<times> 32 word list) res" where
  "getint ap lflag =
     (if lflag \<ge> 2 then va_quad ap
      else if lflag \<noteq> 0 then bindR (va_word ap) (\<lambda>(w, ap'). Inr (scast w, ap'))
      else bindR (va_word ap) (\<lambda>(w, ap'). Inr (scast w, ap')))"

section \<open>Format strings\<close>

definition E_UNSPECIFIED :: int where "E_UNSPECIFIED = 1"
definition E_BAD_PROC :: int where "E_BAD_PROC = 2"
definition E_INVAL :: int where "E_INVAL = 3"
definition E_NO_MEM :: int where "E_NO_MEM = 4"
definition E_NO_FREE_PROC :: int where "E_NO_FREE_PROC = 5"
definition E_FAULT :: int where "E_FAULT = 6"
definition E_SWAP_FAULT :: int where "E_SWAP_FAULT = 7"
definition E_INVAL_ELF :: int where "E_INVAL_ELF = 8"
definition E_KILLED :: int where "E_KILLED = 9"
definition E_PANIC :: int where "E_PANIC = 10"
definition MAXERROR :: int where "MAXERROR = 10"

definition error_string :: "int \<Rightarrow> string option" where
  "error_string e =
     (if e = E_UNSPECIFIED then Some ''unspecified error''
      else if e = E_BAD_PROC then Some ''bad process''
      else if e = E_INVAL then Some ''invalid parameter''
      else if e = E_NO_MEM then Some ''out of memory''
      else if e = E_NO_FREE_PROC then Some ''out of processes''
      else if e = E_FAULT then Some ''segmentation fault''
      else if e = E_SWAP_FAULT then Some ''swap disk read/write fault''
      else if e = E_INVAL_ELF then Some ''invalid elf file''
      else if e = E_KILLED then Some ''process is killed''
      else if e = E_PANIC then Some ''panic failure''
      else None)"

abbreviation str :: "string \<Rightarrow> byte list" where
  "str s \<equiv> map of_char s"

record fmt_st =
  fs_fmt :: nat
  fs_ap :: "32 word list"
  fs_out :: "byte list"
  fs_padc :: byte
  fs_width :: int
  fs_precision :: int
  fs_lflag :: int
  fs_altflag :: bool

text \<open>The loop that reads a width.\<close>

partial_function (option) parse_width :: "mem \<Rightarrow> nat \<Rightarrow> byte \<Rightarrow> int \<Rightarrow> (int \<times> nat) res option" where
  "parse_width m fmt ch precision =
     (let v = precision * 10 + sint ch - sint (chr (CHR ''0''))
      in if \<not> in_int v then Some (Inl Signed_overflow)
         else let ch' = m fmt
              in if sint ch' < sint (chr (CHR ''0'')) \<or> sint ch' > sint (chr (CHR ''9''))
                 then Some (Inr (v, fmt))
                 else parse_width m (fmt + 1) ch' v)"

text \<open>The loop that writes the characters of a string: the bytes and the width left.\<close>

partial_function (option) print_chars ::
  "mem \<Rightarrow> bool \<Rightarrow> nat \<Rightarrow> int \<Rightarrow> int \<Rightarrow> byte list \<Rightarrow> (byte list \<times> int) option" where
  "print_chars m altflag p precision width out =
     (let ch = m p
      in if ch \<noteq> 0 \<and> (precision < 0 \<or> precision - 1 \<ge> 0)
         then print_chars m altflag (p + 1) (if precision < 0 then precision else precision - 1)
                (width - 1)
                (out @ [if altflag \<and> (sint ch < sint (chr (CHR '' '')) \<or> sint ch > sint (chr (CHR ''~'')))
                        then chr (CHR ''?'') else ch])
         else Some (out, width))"

text \<open>The string format: padding on the left unless \<open>-\<close> was given, the characters, and blanks up
  to the width.\<close>

definition print_str :: "mem \<Rightarrow> bool \<Rightarrow> byte \<Rightarrow> nat \<Rightarrow> int \<Rightarrow> int \<Rightarrow> byte list option" where
  "print_str m altflag padc p precision width =
     (let (left, width1) =
            (if width > 0 \<and> padc \<noteq> chr (CHR ''-'')
             then let w = width - int (strnlen m p (unat (word_of_int precision :: 32 word)))
                  in (replicate (nat w) padc, min w 0)
             else ([], width))
      in map_option (\<lambda>(out, w). left @ out @ replicate (nat w) (chr (CHR '' '')))
           (print_chars m altflag p precision width1 []))"

text \<open>Signed decimal, as written by \<open>%d\<close>.\<close>

definition print_signed :: "64 word \<Rightarrow> int \<Rightarrow> byte \<Rightarrow> byte list res option" where
  "print_signed num width padc =
     (if sint num < 0
      then map_option (map_sum id ((#) (chr (CHR ''-'')))) (printnum (- num) 10 width padc)
      else printnum num 10 width padc)"

text \<open>\<open>%e\<close>: the text of an error code, or \<open>error\<close> and its number (a nested call with default
  width and padding).\<close>

definition print_error :: "int \<Rightarrow> byte list res option" where
  "print_error err =
     (if \<not> in_int (- err) then Some (Inl Signed_overflow)
      else let e = (if err < 0 then - err else err)
           in case (if e > MAXERROR then None else error_string e) of
                None \<Rightarrow> map_option (map_sum id ((@) (str ''error ''))) (print_signed (word_of_int e) (-1) (chr (CHR '' '')))
              | Some p \<Rightarrow> Some (Inr (str p)))"

text \<open>After an unknown conversion: back to the character behind the last \<open>%\<close>.\<close>

partial_function (option) back_to_percent :: "mem \<Rightarrow> nat \<Rightarrow> nat option" where
  "back_to_percent m fmt = (if m (fmt - 1) \<noteq> chr (CHR ''%'') then back_to_percent m (fmt - 1) else Some fmt)"

text \<open>One pass through the \<open>switch\<close>: read the next flag (\<open>goto reswitch\<close>), or convert an
  argument and leave (\<open>break\<close>).\<close>

datatype fmt_next = Reswitch fmt_st | Break fmt_st | Fault fault

definition out_res :: "fmt_st \<Rightarrow> byte list res option \<Rightarrow> fmt_next option" where
  "out_res st r = map_option (\<lambda>x. case x of Inl e \<Rightarrow> Fault e | Inr out \<Rightarrow> Break (st\<lparr>fs_out := fs_out st @ out\<rparr>)) r"

definition next_res :: "'a res \<Rightarrow> ('a \<Rightarrow> fmt_next option) \<Rightarrow> fmt_next option" where
  "next_res r f = (case r of Inl e \<Rightarrow> Some (Fault e) | Inr x \<Rightarrow> f x)"

definition process_precision :: "fmt_st \<Rightarrow> int \<Rightarrow> fmt_st" where
  "process_precision st precision =
     (if fs_width st < 0 then st\<lparr>fs_width := precision, fs_precision := -1\<rparr>
      else st\<lparr>fs_precision := precision\<rparr>)"

definition print_unsigned :: "fmt_st \<Rightarrow> byte list \<Rightarrow> 32 word \<Rightarrow> fmt_next option" where
  "print_unsigned st prefix base =
     next_res (getuint (fs_ap st) (fs_lflag st)) (\<lambda>(num, ap).
       out_res (st\<lparr>fs_ap := ap, fs_out := fs_out st @ prefix\<rparr>)
         (printnum num base (fs_width st) (fs_padc st)))"

definition fmt_switch :: "mem \<Rightarrow> fmt_st \<Rightarrow> fmt_next option" where
  "fmt_switch m st0 =
     (let ch = m (fs_fmt st0); st = st0\<lparr>fs_fmt := fs_fmt st0 + 1\<rparr>
      in if ch = chr (CHR ''-'') then Some (Reswitch (st\<lparr>fs_padc := ch\<rparr>))
         else if ch = chr (CHR ''0'') then Some (Reswitch (st\<lparr>fs_padc := ch\<rparr>))
         else if chr (CHR ''1'') \<le> ch \<and> ch \<le> chr (CHR ''9'') then
           Option.bind (parse_width m (fs_fmt st) ch 0) (\<lambda>r.
           next_res r (\<lambda>(precision, fmt).
             Some (Reswitch (process_precision (st\<lparr>fs_fmt := fmt\<rparr>) precision))))
         else if ch = chr (CHR ''*'') then
           next_res (va_word (fs_ap st)) (\<lambda>(w, ap).
             Some (Reswitch (process_precision (st\<lparr>fs_ap := ap\<rparr>) (sint w))))
         else if ch = chr (CHR ''.'') then
           Some (Reswitch (if fs_width st < 0 then st\<lparr>fs_width := 0\<rparr> else st))
         else if ch = chr (CHR ''#'') then Some (Reswitch (st\<lparr>fs_altflag := True\<rparr>))
         else if ch = chr (CHR ''l'') then Some (Reswitch (st\<lparr>fs_lflag := fs_lflag st + 1\<rparr>))
         else if ch = chr (CHR ''c'') then
           next_res (va_word (fs_ap st)) (\<lambda>(w, ap). out_res (st\<lparr>fs_ap := ap\<rparr>) (Some (Inr [ucast w])))
         else if ch = chr (CHR ''e'') then
           next_res (va_word (fs_ap st)) (\<lambda>(w, ap). out_res (st\<lparr>fs_ap := ap\<rparr>) (print_error (sint w)))
         else if ch = chr (CHR ''s'') then
           next_res (va_word (fs_ap st)) (\<lambda>(w, ap).
             out_res (st\<lparr>fs_ap := ap\<rparr>)
               (map_option Inr
                 (if w = 0
                  then print_str (\<lambda>a. padded (str ''(null)'') a) (fs_altflag st) (fs_padc st) 0 (fs_precision st) (fs_width st)
                  else print_str m (fs_altflag st) (fs_padc st) (unat w) (fs_precision st) (fs_width st))))
         else if ch = chr (CHR ''d'') then
           next_res (getint (fs_ap st) (fs_lflag st)) (\<lambda>(num, ap).
             out_res (st\<lparr>fs_ap := ap\<rparr>) (print_signed num (fs_width st) (fs_padc st)))
         else if ch = chr (CHR ''u'') then print_unsigned st [] 10
         else if ch = chr (CHR ''o'') then print_unsigned st [] 8
         else if ch = chr (CHR ''p'') then print_unsigned (st\<lparr>fs_lflag := 0\<rparr>) (str ''0x'') 16
         else if ch = chr (CHR ''x'') then print_unsigned st [] 16
         else if ch = chr (CHR ''%'') then out_res st (Some (Inr [ch]))
         else map_option (\<lambda>fmt. Break (st\<lparr>fs_fmt := fmt, fs_out := fs_out st @ str ''%''\<rparr>))
                (back_to_percent m (fs_fmt st - 1)))"

text \<open>The outer loop: copy until a \<open>%\<close> (\<open>False\<close>), then the \<open>switch\<close> (\<open>True\<close>).\<close>

partial_function (option) vprintfmt_loop :: "mem \<Rightarrow> bool \<Rightarrow> fmt_st \<Rightarrow> byte list res option" where
  "vprintfmt_loop m sw st =
     (if \<not> sw then
        (let ch = m (fs_fmt st); st1 = st\<lparr>fs_fmt := fs_fmt st + 1\<rparr>
         in if ch = chr (CHR ''%'') then
              vprintfmt_loop m True
                (st1\<lparr>fs_padc := chr (CHR '' ''), fs_width := -1, fs_precision := -1, fs_lflag := 0, fs_altflag := False\<rparr>)
            else if ch = 0 then Some (Inr (fs_out st))
            else vprintfmt_loop m False (st1\<lparr>fs_out := fs_out st @ [ch]\<rparr>))
      else
        Option.bind (fmt_switch m st) (\<lambda>n. case n of
            Fault e \<Rightarrow> Some (Inl e)
          | Reswitch st' \<Rightarrow> vprintfmt_loop m True st'
          | Break st' \<Rightarrow> vprintfmt_loop m False st'))"

definition vprintfmt :: "mem \<Rightarrow> nat \<Rightarrow> 32 word list \<Rightarrow> byte list res option" where
  "vprintfmt m fmt ap =
     vprintfmt_loop m False
       \<lparr>fs_fmt = fmt, fs_ap = ap, fs_out = [], fs_padc = chr (CHR '' ''), fs_width = -1, fs_precision = -1,
        fs_lflag = 0, fs_altflag = False\<rparr>"

section \<open>Printing into a buffer\<close>

record sprintbuf =
  sb_buf :: nat
  sb_ebuf :: int
  sb_cnt :: int

definition sprintputch :: "byte \<Rightarrow> sprintbuf \<times> mem \<Rightarrow> sprintbuf \<times> mem" where
  "sprintputch ch bm =
     (let (b, m) = bm; b1 = b\<lparr>sb_cnt := sb_cnt b + 1\<rparr>
      in if int (sb_buf b1) < sb_ebuf b1
         then (b1\<lparr>sb_buf := sb_buf b1 + 1\<rparr>, m(sb_buf b1 := ch)) else (b1, m))"

text \<open>\<open>vsnprintf\<close>: the value and the memory.  The formatter reads the memory it was given; a
  caller that formats a string into itself is not covered.\<close>

definition vsnprintf :: "nat \<Rightarrow> nat \<Rightarrow> nat \<Rightarrow> 32 word list \<Rightarrow> mem \<Rightarrow> (int \<times> mem) res option" where
  "vsnprintf buf sz fmt ap m =
     (let b = \<lparr>sb_buf = buf, sb_ebuf = int buf + int sz - 1, sb_cnt = 0\<rparr>
      in if buf = 0 \<or> int (sb_buf b) > sb_ebuf b then Some (Inr (- E_INVAL, m))
         else map_option (map_sum id (\<lambda>out.
                let (b', m') = fold sprintputch out (b, m) in (sb_cnt b', m'(sb_buf b' := 0))))
              (vprintfmt m fmt ap))"

section \<open>Reading a line\<close>

definition BUFSIZE :: nat where "BUFSIZE = 1024"

text \<open>The loop of \<open>readline\<close> on the characters still to come from \<open>getchar\<close>: the text in the
  buffer and the input left.  \<open>None\<close>: the input ends and the loop waits for ever;
  \<open>Some None\<close>: the null pointer, for a negative character.\<close>

fun readline_loop :: "int list \<Rightarrow> int list \<Rightarrow> (int list \<times> int list) option option" where
  "readline_loop buf [] = None"
| "readline_loop buf (c # cs) =
     (if c < 0 then Some None
      else if c \<ge> 32 \<and> length buf < BUFSIZE - 1 then readline_loop (buf @ [c]) cs
      else if c = 8 \<and> length buf > 0 then readline_loop (butlast buf) cs
      else if c = 10 \<or> c = 13 then Some (Some (buf, cs))
      else readline_loop buf cs)"

definition readline :: "int list \<Rightarrow> (int list \<times> int list) option option" where
  "readline inp = readline_loop [] (filter (\<lambda>c. c \<noteq> 0) inp)"

section \<open>Division\<close>

lemma unat_halves:
  "unat n = unat (ucast (drop_bit 32 n) :: 32 word) * 4294967296 + unat (ucast n :: 32 word)" for n :: "64 word"
proof -
  have "unat (ucast (drop_bit 32 n) :: 32 word) = unat n div 4294967296 mod 4294967296"
    by (simp add: unsigned_ucast_eq drop_bit_eq_div take_bit_eq_mod unat_div)
  moreover have "unat (ucast n :: 32 word) = unat n mod 4294967296"
    by (simp add: unsigned_ucast_eq take_bit_eq_mod)
  moreover have "unat n div 4294967296 < 4294967296"
    using unat_bounds(2) [of n] by (simp add: div_less_iff_less_mult)
  ultimately show ?thesis by simp
qed

lemma divl_ok:
  assumes "upper < base"
  shows "divl upper low base = Inr (of_nat ((unat upper * 4294967296 + unat low) div unat base),
     of_nat ((unat upper * 4294967296 + unat low) mod unat base))"
    and "(unat upper * 4294967296 + unat low) div unat base < 4294967296"
proof -
  have "unat upper + 1 \<le> unat base" using assms by (simp add: word_less_nat_alt)
  then have "unat upper * 4294967296 + 4294967296 \<le> unat base * 4294967296"
    using mult_le_mono1 [of "unat upper + 1" "unat base" 4294967296] by simp
  moreover have b: "0 < unat base" using assms by (simp add: word_less_nat_alt)
  ultimately show lt: "(unat upper * 4294967296 + unat low) div unat base < 4294967296"
    using unat_bounds(1) [of low] by (simp add: div_less_iff_less_mult mult.commute)
  have "base \<noteq> 0" using b by auto
  with lt show "divl upper low base = Inr (of_nat ((unat upper * 4294967296 + unat low) div unat base),
     of_nat ((unat upper * 4294967296 + unat low) mod unat base))" by (simp add: divl_def)
qed

lemma join_words:
  "push_bit 32 (ucast hi) OR ucast lo = (of_nat (unat hi * 4294967296 + unat lo) :: 64 word)"
  for hi lo :: "32 word"
proof -
  have "push_bit 32 (ucast hi) AND (ucast lo :: 64 word) = 0"
  proof (rule bit_word_eqI)
    fix n
    show "bit (push_bit 32 (ucast hi) AND (ucast lo :: 64 word)) n = bit (0 :: 64 word) n"
      by (auto simp: bit_simps dest: bit_imp_le_length)
  qed
  then have "push_bit 32 (ucast hi) OR (ucast lo :: 64 word) = push_bit 32 (ucast hi) + ucast lo"
    by (simp add: disjunctive_add_eq_or)
  also have "\<dots> = of_nat (unat hi * 4294967296 + unat lo)"
    by (simp add: push_bit_eq_mult mult.commute)
  finally show ?thesis .
qed

lemma do_div_spec:
  assumes "base \<noteq> 0"
  shows "do_div n base = Inr (of_nat (unat n div unat base), of_nat (unat n mod unat base))"
proof -
  let ?lo = "ucast n :: 32 word" and ?hi = "ucast (drop_bit 32 n) :: 32 word"
  let ?u = "if ?hi \<noteq> 0 then ?hi mod base else ?hi" and ?h = "if ?hi \<noteq> 0 then ?hi div base else ?hi"
  have b: "0 < unat base" using assms by (simp add: unat_gt_0)
  have u: "unat ?u = unat ?hi mod unat base" and h: "unat ?h = unat ?hi div unat base"
    by (auto simp: unat_mod unat_div)
  have "?u < base" using b by (simp only: word_less_nat_alt u) simp
  note d = divl_ok [OF this, of ?lo]
  let ?d = "unat ?u * 4294967296 + unat ?lo"
  have q: "unat n div unat base = unat ?h * 4294967296 + ?d div unat base"
    and r: "unat n mod unat base = ?d mod unat base"
    unfolding unat_halves [of n] u h by (rule two_step_div [OF b])+
  have "do_div n base = Inr (push_bit 32 (ucast ?h) OR ucast (of_nat (?d div unat base) :: 32 word),
      of_nat (?d mod unat base))"
    using assms unfolding do_div_def Let_def d(1) by simp
  also have "push_bit 32 (ucast ?h) OR ucast (of_nat (?d div unat base) :: 32 word) =
      (of_nat (unat n div unat base) :: 64 word)"
    unfolding join_words q using d(2) by (simp add: unat_of_nat)
  finally show ?thesis unfolding r .
qed

section \<open>Digits\<close>

text \<open>The digits of a number, most significant first, and their value.\<close>

fun digits :: "nat \<Rightarrow> nat \<Rightarrow> nat list" where
  "digits b n = (if n < b \<or> b < 2 then [n] else digits b (n div b) @ [n mod b])"

declare digits.simps [simp del]

definition digits_val :: "nat \<Rightarrow> nat list \<Rightarrow> nat" where
  "digits_val b ds = foldl (\<lambda>a d. a * b + d) 0 ds"

lemma digits_val_digits: "digits_val b (digits b n) = n"
  by (induction b n rule: digits.induct) (subst digits.simps, auto simp: digits_val_def)

lemma digits_range: "2 \<le> b \<Longrightarrow> set (digits b n) \<subseteq> {..<b}"
proof (induction b n rule: digits.induct)
  case (1 b n)
  then show ?case by (subst digits.simps) auto
qed

lemma digits_nonempty: "digits b n \<noteq> []"
  by (subst digits.simps) simp

lemma digits_hd: "2 \<le> b \<Longrightarrow> 0 < n \<Longrightarrow> hd (digits b n) \<noteq> 0"
proof (induction b n rule: digits.induct)
  case (1 b n)
  show ?case
  proof (cases "n < b")
    case True
    with 1 show ?thesis by (simp add: digits.simps [of b n])
  next
    case False
    with 1 have "hd (digits b (n div b)) \<noteq> 0" by (auto simp: div_greater_zero_iff)
    with False 1 show ?thesis by (simp add: digits.simps [of b n] digits_nonempty)
  qed
qed

definition digit_byte :: "nat \<Rightarrow> byte" where
  "digit_byte d = hexdigits ! d"

lemma digit_char_of_nat: "d < 16 \<Longrightarrow> digit_char (of_nat d) = Inr (digit_byte d)"
  by (simp add: digit_char_def digit_byte_def unat_of_nat hexdigits_def)

lemma printnum_spec:
  assumes "2 \<le> unat base" "unat base \<le> 16"
  shows "printnum num base width padc =
    Some (Inr (replicate (nat (width - int (length (digits (unat base) (unat num))))) padc @
      map digit_byte (digits (unat base) (unat num))))"
proof (induction "unat num" arbitrary: num width rule: less_induct)
  case less
  let ?b = "unat base" and ?n = "unat num"
  have "base \<noteq> 0" using assms by auto
  note d = do_div_spec [OF this, of num]
  have dig: "digit_char (of_nat (?n mod ?b)) = Inr (digit_byte (?n mod ?b))"
    by (rule digit_char_of_nat) (use assms in \<open>simp add: less_le_trans [OF mod_less_divisor]\<close>)
  have ge: "num \<ge> ucast base \<longleftrightarrow> ?b \<le> ?n"
    using unat_bounds(1) [of base] by (simp add: word_le_nat_alt unsigned_ucast_eq take_bit_nat_eq_self)
  show ?case
  proof (cases "?n < ?b")
    case True
    then have "digits ?b ?n = [?n]" by (simp add: digits.simps [of ?b ?n])
    with True ge d dig show ?thesis by (subst printnum.simps) (simp add: not_le [symmetric])
  next
    case False
    have lt: "?n div ?b < ?n" using False assms by (intro div_less_dividend) auto
    then have u: "unat (of_nat (?n div ?b) :: 64 word) = ?n div ?b"
      using unat_bounds(2) [of num] by (simp add: unat_of_nat)
    have ds: "digits ?b ?n = digits ?b (?n div ?b) @ [?n mod ?b]"
      using False assms by (simp add: digits.simps [of ?b ?n])
    have w: "width - 1 - int (length (digits ?b (?n div ?b))) = width - int (length (digits ?b ?n))"
      by (simp add: ds)
    from less [of "of_nat (?n div ?b)" "width - 1"] lt u have
      "printnum (of_nat (?n div ?b)) base (width - 1) padc =
        Some (Inr (replicate (nat (width - int (length (digits ?b ?n)))) padc @ map digit_byte (digits ?b (?n div ?b))))"
      by (simp add: w)
    with False ge d dig show ?thesis by (subst printnum.simps) (simp add: ds)
  qed
qed

section \<open>Reading back what was printed\<close>

lemma digit_of_table: "list_all (\<lambda>d. digit_of (digit_byte d) = Some (int d) \<and> digit_byte d \<noteq> 0 \<and>
    digit_byte d \<notin> {chr (CHR '' ''), chr (CHR 0x09), chr (CHR ''+''), chr (CHR ''-'')}) [0..<16]"
  by code_simp

lemma digit_of_byte:
  assumes "d < 16"
  shows "digit_of (digit_byte d) = Some (int d)" "digit_byte d \<noteq> 0"
    "digit_byte d \<notin> {chr (CHR '' ''), chr (CHR 0x09), chr (CHR ''+''), chr (CHR ''-'')}"
  using digit_of_table assms unfolding list_all_iff by simp_all

lemma digit_of_zero: "digit_of 0 = None"
  by code_simp

lemma foldl_digits_mono: "(a :: nat) \<le> foldl (\<lambda>a d. a * b + d) a ds" if "1 \<le> b"
proof (induction ds arbitrary: a)
  case (Cons d ds)
  have "a \<le> a * b + d" using that by (simp add: trans_le_add1)
  also have "\<dots> \<le> foldl (\<lambda>a d. a * b + d) (a * b + d) ds" by (rule Cons.IH)
  finally show ?case by simp
qed simp

lemma strtol_digits_spec:
  assumes "cstr m s (map digit_byte ds)" "set ds \<subseteq> {..<b}" "2 \<le> b" "b \<le> 16"
    "int (foldl (\<lambda>a d. a * b + d) a ds) \<le> INT_MAX"
  shows "strtol_digits m s (int b) (int a) = Some (Inr (int (foldl (\<lambda>a d. a * b + d) a ds), s + length ds))"
  using assms
proof (induction ds arbitrary: s a)
  case Nil
  then show ?case by (subst strtol_digits.simps) (simp add: digit_of_zero)
next
  case (Cons d ds)
  have d: "d < b" "digit_of (m s) = Some (int d)" using Cons.prems digit_of_byte(1) [of d] by auto
  have v: "int a * int b + int d = int (a * b + d)" by simp
  have "int (a * b + d) \<le> int (foldl (\<lambda>a d. a * b + d) a (d # ds))"
    using foldl_digits_mono [of b "a * b + d" ds] Cons.prems(3) by (simp only: of_nat_le_iff foldl.simps)
  then have "int (a * b + d) \<le> INT_MAX" using Cons.prems(5) by (rule order_trans)
  then have "in_int (int a * int b + int d)" unfolding v in_int_def INT_MIN_def
    using of_nat_0_le_iff [of "a * b + d"] by linarith
  then have "strtol_digits m s (int b) (int a) = strtol_digits m (s + 1) (int b) (int (a * b + d))"
    using d by (subst strtol_digits.simps) (simp del: of_nat_add of_nat_mult add: v)
  also have "\<dots> = Some (Inr (int (foldl (\<lambda>a d. a * b + d) (a * b + d) ds), s + 1 + length ds))"
    by (rule Cons.IH) (use Cons.prems in auto)
  finally show ?case by simp
qed

text \<open>Decimal text of an integer.\<close>

definition decimal :: "int \<Rightarrow> byte list" where
  "decimal v = (if v < 0 then [chr (CHR ''-'')] else []) @ map digit_byte (digits 10 (nat \<bar>v\<bar>))"

lemma sign_bytes: "chr (CHR ''-'') \<noteq> chr (CHR '' '')" "chr (CHR ''-'') \<noteq> chr (CHR 0x09)"
  "chr (CHR ''-'') \<noteq> chr (CHR ''+'')" "chr (CHR ''-'') \<noteq> (0 :: byte)"
  by code_simp+

lemma print_signed_spec:
  assumes "- (2 ^ 63) < sint num"
  shows "print_signed num (-1) padc = Some (Inr (decimal (sint num)))"
proof -
  have b: "unat (10 :: 32 word) = 10" by simp
  have pn: "printnum n 10 (-1) padc = Some (Inr (map digit_byte (digits 10 (unat n))))" for n
    using printnum_spec [of 10 n "-1" padc] by simp
  show ?thesis
  proof (cases "sint num < 0")
    case True
    with assms have "unat (- num) = nat \<bar>sint num\<bar>" by (simp add: unat_neg_sint)
    with True pn show ?thesis by (simp add: print_signed_def decimal_def)
  next
    case False
    then have "unat num = nat \<bar>sint num\<bar>" by (simp add: unat_pos_sint)
    with False pn show ?thesis by (simp add: print_signed_def decimal_def)
  qed
qed

lemma decimal_nonzero: "0 \<notin> set (decimal v)"
  using digits_range [of 10 "nat \<bar>v\<bar>"] digit_of_byte(2) sign_bytes(4)
  by (auto simp: decimal_def)

lemma skip_blanks_none: "m s \<notin> {chr (CHR '' ''), chr (CHR 0x09)} \<Longrightarrow> skip_blanks m s = Some s"
  by (subst skip_blanks.simps) simp

lemma strtol_decimal:
  assumes c: "cstr m s (decimal v)" and r: "\<bar>v\<bar> \<le> INT_MAX"
  shows "strtol m s 10 = Some (Inr (v, s + length (decimal v)))"
proof -
  let ?ds = "digits 10 (nat \<bar>v\<bar>)"
  have val: "int (foldl (\<lambda>a d. a * 10 + d) 0 ?ds) = \<bar>v\<bar>"
    using digits_val_digits [of 10 "nat \<bar>v\<bar>"] by (simp add: digits_val_def)
  have rng: "set ?ds \<subseteq> {..<10}" by (rule digits_range) simp
  have dig: "strtol_digits m t 10 0 = Some (Inr (\<bar>v\<bar>, t + length ?ds))" if "cstr m t (map digit_byte ?ds)" for t
    using strtol_digits_spec [OF that rng, of 0] val r by simp
  show ?thesis
  proof (cases "v < 0")
    case True
    with c have ms: "m s = chr (CHR ''-'')" "cstr m (s + 1) (map digit_byte ?ds)"
      by (simp_all add: decimal_def)
    then have "skip_blanks m s = Some s" by (intro skip_blanks_none) (simp only: sign_bytes, simp)
    with ms dig [OF ms(2)] True show ?thesis by (simp add: strtol_def decimal_def sign_bytes)
  next
    case False
    with c have ms: "cstr m s (map digit_byte ?ds)" by (simp add: decimal_def)
    obtain d ds where ds: "?ds = d # ds" using digits_nonempty by (metis neq_Nil_conv)
    with ms rng have "m s = digit_byte d" "d < 16" by auto
    then have c1: "m s \<notin> {chr (CHR '' ''), chr (CHR 0x09), chr (CHR ''+''), chr (CHR ''-'')}"
      using digit_of_byte(3) [of d] by metis
    then have "skip_blanks m s = Some s" by (intro skip_blanks_none) blast
    with c1 dig [OF ms] False show ?thesis by (simp add: strtol_def decimal_def)
  qed
qed

lemma fmt_d_table: "list_all (\<lambda>c. chr (CHR ''d'') \<noteq> (chr c :: byte)) (''-0*.#lces'')"
    "\<not> (chr (CHR ''1'') \<le> (chr (CHR ''d'') :: byte) \<and> (chr (CHR ''d'') :: byte) \<le> chr (CHR ''9''))"
  by code_simp+

lemma fmt_switch_d:
  "m (fs_fmt st) = chr (CHR ''d'') \<Longrightarrow> fmt_switch m st =
     next_res (getint (fs_ap st) (fs_lflag st)) (\<lambda>(num, ap).
       out_res (st\<lparr>fs_fmt := fs_fmt st + 1, fs_ap := ap\<rparr>) (print_signed num (fs_width st) (fs_padc st)))"
  unfolding fmt_switch_def using fmt_d_table by (simp split del: if_split)

lemma vprintfmt_d:
  assumes "cstr m fmt (str ''%d'')"
  shows "vprintfmt m fmt [w] = Some (Inr (decimal (sint w)))"
proof -
  from assms have c: "m fmt = chr (CHR ''%'')" "m (fmt + 1) = chr (CHR ''d'')" "m (fmt + 2) = 0" by auto
  have ne: "(0 :: byte) \<noteq> chr (CHR ''%'')" by code_simp
  have "sint (scast w :: 64 word) = sint w" by (rule sint_up_scast) (simp add: is_up)
  moreover have "- (2 ^ 31) \<le> sint w" using sint_ge [of w] by simp
  ultimately have "print_signed (scast w) (-1) p = Some (Inr (decimal (sint w)))" for p
    using print_signed_spec [of "scast w" p] by simp
  then show ?thesis
    unfolding vprintfmt_def using c ne
    by (subst vprintfmt_loop.simps, simp, subst vprintfmt_loop.simps)
      (simp add: fmt_switch_d getint_def va_word_def next_res_def out_res_def vprintfmt_loop.simps [of m False])
qed

section \<open>Buffers\<close>

lemma fold_sprintputch:
  assumes "fold sprintputch out (\<lparr>sb_buf = b, sb_ebuf = int b + int k, sb_cnt = c\<rparr>, m) = (bf, m')"
  shows "sb_cnt bf = c + int (length out) \<and> sb_buf bf = b + min k (length out) \<and>
    m' = (\<lambda>a. if b \<le> a \<and> a < b + min k (length out) then out ! (a - b) else m a)"
  using assms
proof (induction out arbitrary: b k c m)
  case (Cons x xs)
  show ?case
  proof (cases k)
    case 0
    with Cons.prems Cons.IH [of b 0 "c + 1" m] show ?thesis by (auto simp: sprintputch_def fun_eq_iff)
  next
    case (Suc k')
    then have "sprintputch x (\<lparr>sb_buf = b, sb_ebuf = int b + int k, sb_cnt = c\<rparr>, m) =
        (\<lparr>sb_buf = b + 1, sb_ebuf = int (b + 1) + int k', sb_cnt = c + 1\<rparr>, m(b := x))"
      by (simp add: sprintputch_def)
    with Cons.prems have "fold sprintputch xs
        (\<lparr>sb_buf = b + 1, sb_ebuf = int (b + 1) + int k', sb_cnt = c + 1\<rparr>, m(b := x)) = (bf, m')"
      by (simp only: fold.simps comp_apply)
    from Cons.IH [OF this] have
      r: "sb_cnt bf = c + 1 + int (length xs)" "sb_buf bf = b + 1 + min k' (length xs)"
        "m' = (\<lambda>a. if b + 1 \<le> a \<and> a < b + 1 + min k' (length xs) then xs ! (a - (b + 1)) else (m(b := x)) a)"
      by blast+
    have "(if b + 1 \<le> a \<and> a < b + 1 + min k' (length xs) then xs ! (a - (b + 1)) else (m(b := x)) a) =
        (if b \<le> a \<and> a < b + min k (length (x # xs)) then (x # xs) ! (a - b) else m a)" for a
      using Suc by (cases "a \<le> b") (auto simp: nth_Cons' not_le)
    with r Suc show ?thesis by (simp add: fun_eq_iff)
  qed
qed (auto simp: fun_eq_iff)

lemma vsnprintf_spec:
  assumes "buf \<noteq> 0" "0 < sz" "vprintfmt m fmt ap = Some (Inr out)"
  shows "vsnprintf buf sz fmt ap m = Some (Inr (int (length out),
    \<lambda>a. if buf \<le> a \<and> a < buf + min (sz - 1) (length out) then out ! (a - buf)
        else if a = buf + min (sz - 1) (length out) then 0 else m a))"
proof -
  let ?b = "\<lparr>sb_buf = buf, sb_ebuf = int buf + int (sz - 1), sb_cnt = 0\<rparr>"
  obtain bf m' where f: "fold sprintputch out (?b, m) = (bf, m')" by fastforce
  note r = fold_sprintputch [OF f]
  have e: "int buf + int sz - 1 = int buf + int (sz - 1)" using assms(2) by (simp add: of_nat_diff)
  have "vsnprintf buf sz fmt ap m = Some (Inr (sb_cnt bf, m'(sb_buf bf := 0)))"
    using assms f unfolding vsnprintf_def e by (simp add: e)
  with r show ?thesis by (auto simp: fun_eq_iff)
qed

section \<open>Lines\<close>

lemma readline_loop_bound:
  "length buf < BUFSIZE \<Longrightarrow> readline_loop buf cs = Some (Some (l, rest)) \<Longrightarrow> length l < BUFSIZE"
  by (induction buf cs rule: readline_loop.induct) (auto split: if_splits)

lemma readline_loop_plain:
  "\<forall>c \<in> set xs. 32 \<le> c \<Longrightarrow> length buf + length xs < BUFSIZE \<Longrightarrow> e \<in> {10, 13} \<Longrightarrow>
   readline_loop buf (xs @ e # rest) = Some (Some (buf @ xs, rest))"
  by (induction xs arbitrary: buf) auto

section \<open>Properties\<close>

text \<open>\<open>do_div\<close>, two 32-bit divisions, never faults on a non-zero divisor and computes
  the 64-bit quotient and the remainder.\<close>

theorem do_div_correct:
  assumes "base \<noteq> 0"
  shows "\<exists>q r. do_div n base = Inr (q, r) \<and> unat q = unat n div unat base \<and> unat r = unat n mod unat base"
proof -
  have "unat n div unat base \<le> unat n" by simp
  then have "unat n div unat base < 18446744073709551616" using unat_bounds(2) [of n] by linarith
  then have "unat (of_nat (unat n div unat base) :: 64 word) = unat n div unat base"
    by (simp add: unat_of_nat)
  moreover have "unat n mod unat base < unat base" using assms by (simp add: unat_gt_0)
  then have "unat (of_nat (unat n mod unat base) :: 32 word) = unat n mod unat base"
    using unat_bounds(1) [of base] by (simp add: unat_of_nat)
  ultimately show ?thesis using do_div_spec [OF assms, of n] by auto
qed

text \<open>C16: what \<open>%d\<close> prints for a 32-bit argument is read back by \<open>strtol\<close> in base 10 as the same
  number, to its last character, unless the number is the least \<open>int\<close>.\<close>

theorem print_decimal_reads_back:
  assumes "cstr m fmt (str ''%d'')" "sint w \<noteq> INT_MIN"
  shows "\<exists>out. vprintfmt m fmt [w] = Some (Inr out) \<and>
    (\<forall>m' s. cstr m' s out \<longrightarrow> strtol m' s 10 = Some (Inr (sint w, s + length out)))"
proof -
  have "- (2 ^ 31) \<le> sint w" "sint w < 2 ^ 31" using sint_ge [of w] sint_lt [of w] by simp_all
  with assms(2) have "\<bar>sint w\<bar> \<le> INT_MAX" by (simp add: INT_MIN_def INT_MAX_def)
  with strtol_decimal vprintfmt_d [OF assms(1), of w] show ?thesis by auto
qed

theorem print_decimal_reads_back_witness:
  "\<exists>out. vprintfmt (\<lambda>a. padded (str ''%d'') a) 0 [42] = Some (Inr out) \<and>
     (\<forall>m' s. cstr m' s out \<longrightarrow> strtol m' s 10 = Some (Inr (42, s + length out)))"
proof -
  have "cstr (\<lambda>a. padded (str ''%d'') a) 0 (str ''%d'')"
    using fmt_d_table(1) by simp
  moreover have "sint (42 :: 32 word) = 42" by simp
  ultimately show ?thesis using print_decimal_reads_back [of "\<lambda>a. padded (str ''%d'') a" 0 42]
    by (simp add: INT_MIN_def)
qed

text \<open>C17: \<open>vsnprintf\<close> writes at most the given number of bytes, always ends them with a null byte,
  keeps the longest prefix of the text that fits, and returns the length of the whole text.\<close>

theorem vsnprintf_bounded:
  assumes "buf \<noteq> 0" "0 < sz" "vprintfmt m fmt ap = Some (Inr out)"
  shows "\<exists>m'. vsnprintf buf sz fmt ap m = Some (Inr (int (length out), m')) \<and>
    (\<forall>a. a < buf \<or> buf + sz \<le> a \<longrightarrow> m' a = m a) \<and>
    block m' buf (min (sz - 1) (length out)) = take (sz - 1) out \<and> m' (buf + min (sz - 1) (length out)) = 0"
proof -
  let ?m = "\<lambda>a. if buf \<le> a \<and> a < buf + min (sz - 1) (length out) then out ! (a - buf)
        else if a = buf + min (sz - 1) (length out) then 0 else m a"
  have "block ?m buf (min (sz - 1) (length out)) = take (sz - 1) out"
    by (rule nth_equalityI) simp_all
  with vsnprintf_spec [OF assms] assms(2) show ?thesis by (intro exI [of _ ?m]) auto
qed

theorem vsnprintf_bounded_witness:
  "\<exists>m' (out :: byte list). vsnprintf 100 2 0 [42] (\<lambda>a. padded (str ''%d'') a) = Some (Inr (int (length out), m')) \<and>
     m' (100 + min 1 (length out)) = 0"
proof -
  have "cstr (\<lambda>a. padded (str ''%d'') a) 0 (str ''%d'')" using fmt_d_table(1) by simp
  from vsnprintf_bounded [OF _ _ vprintfmt_d [OF this], of 100 2 42] obtain m' where
    "vsnprintf 100 2 0 [42] (\<lambda>a. padded (str ''%d'') a) = Some (Inr (int (length (decimal (sint (42 :: 32 word)))), m'))"
    "m' (100 + min 1 (length (decimal (sint (42 :: 32 word))))) = 0" by auto
  then show ?thesis by blast
qed

text \<open>\<open>readline\<close> never puts more than 1023 characters into its buffer of 1024, and returns a
  line of printable characters that fits unchanged.\<close>

theorem readline_buffer:
  "(\<forall>l rest. readline inp = Some (Some (l, rest)) \<longrightarrow> length l < BUFSIZE) \<and>
   (\<forall>xs rest. inp = xs @ 10 # rest \<and> (\<forall>c \<in> set xs. 32 \<le> c) \<and> length xs < BUFSIZE \<longrightarrow>
      (\<exists>r. readline inp = Some (Some (xs, r))))"
proof (intro conjI allI impI)
  fix l rest assume "readline inp = Some (Some (l, rest))"
  then show "length l < BUFSIZE"
    using readline_loop_bound [of "[]" "filter (\<lambda>c. c \<noteq> 0) inp" l rest]
    by (simp only: readline_def) (simp add: BUFSIZE_def)
next
  fix xs rest assume a: "inp = xs @ 10 # rest \<and> (\<forall>c \<in> set xs. 32 \<le> c) \<and> length xs < BUFSIZE"
  then have "filter (\<lambda>c. c \<noteq> 0) xs = xs" by (auto simp: filter_id_conv)
  with a readline_loop_plain [of xs "[]" 10] show "\<exists>r. readline inp = Some (Some (xs, r))"
    by (simp add: readline_def)
qed

end
