(* ===== verification/Clist.thy ===== *)
theory Clist
  imports Prelude
begin

text \<open>
  The circular doubly linked list of \<open>libs/list.h\<close> at the level of its pointers.  A
  \<open>list_store\<close> holds the \<open>prev\<close> and \<open>next\<close> field of every \<open>list_entry\<close>; the
  operations are the inline functions of the header.  The predicate \<open>ring st h xs\<close> says
  that the store holds, headed by \<open>h\<close>, the list of entries \<open>xs\<close>; the lemmas show
  that every operation acts on \<open>xs\<close> as the corresponding list function, and leaves the
  other lists alone.  The interface is the locale \<open>linked_list\<close>, interpreted on these
  definitions; the other components represent a list by its sequence of elements.
\<close>

section \<open>The store and the operations\<close>

record 'n list_store =
  prev_of :: "'n \<Rightarrow> 'n"
  next_of :: "'n \<Rightarrow> 'n"

definition list_next :: "'n list_store \<Rightarrow> 'n \<Rightarrow> 'n" where
  "list_next st e = next_of st e"

definition list_prev :: "'n list_store \<Rightarrow> 'n \<Rightarrow> 'n" where
  "list_prev st e = prev_of st e"

definition list_init :: "'n \<Rightarrow> 'n list_store \<Rightarrow> 'n list_store" where
  "list_init e st = st\<lparr>prev_of := (prev_of st)(e := e), next_of := (next_of st)(e := e)\<rparr>"

text \<open>\<open>__list_add\<close>: the assignments in the order of the code.\<close>

definition list_add_between :: "'n \<Rightarrow> 'n \<Rightarrow> 'n \<Rightarrow> 'n list_store \<Rightarrow> 'n list_store" where
  "list_add_between e p n st =
     (let st1 = st\<lparr>prev_of := (prev_of st)(n := e)\<rparr>;
          st2 = st1\<lparr>next_of := (next_of st1)(p := e)\<rparr>;
          st3 = st2\<lparr>next_of := (next_of st2)(e := n)\<rparr>
      in st3\<lparr>prev_of := (prev_of st3)(e := p)\<rparr>)"

definition list_add_before :: "'n \<Rightarrow> 'n \<Rightarrow> 'n list_store \<Rightarrow> 'n list_store" where
  "list_add_before l e st = list_add_between e (prev_of st l) l st"

definition list_add_after :: "'n \<Rightarrow> 'n \<Rightarrow> 'n list_store \<Rightarrow> 'n list_store" where
  "list_add_after l e st = list_add_between e l (next_of st l) st"

definition list_add :: "'n \<Rightarrow> 'n \<Rightarrow> 'n list_store \<Rightarrow> 'n list_store" where
  "list_add l e st = list_add_after l e st"

text \<open>\<open>__list_del\<close>.\<close>

definition list_del_between :: "'n \<Rightarrow> 'n \<Rightarrow> 'n list_store \<Rightarrow> 'n list_store" where
  "list_del_between p n st =
     (let st1 = st\<lparr>next_of := (next_of st)(p := n)\<rparr>
      in st1\<lparr>prev_of := (prev_of st1)(n := p)\<rparr>)"

definition list_del :: "'n \<Rightarrow> 'n list_store \<Rightarrow> 'n list_store" where
  "list_del e st = list_del_between (prev_of st e) (next_of st e) st"

definition list_del_init :: "'n \<Rightarrow> 'n list_store \<Rightarrow> 'n list_store" where
  "list_del_init e st = list_init e (list_del e st)"

definition list_empty :: "'n list_store \<Rightarrow> 'n \<Rightarrow> bool" where
  "list_empty st l \<longleftrightarrow> next_of st l = l"

lemmas list_ops_defs = list_next_def list_prev_def list_init_def list_add_between_def
  list_add_before_def list_add_after_def list_add_def list_del_between_def list_del_def
  list_del_init_def list_empty_def Let_def

section \<open>Rings\<close>

text \<open>\<open>chain st a xs b\<close>: following \<open>next\<close> from \<open>a\<close> visits \<open>xs\<close> and then \<open>b\<close>, and the
  \<open>prev\<close> fields lead back.\<close>

fun chain :: "'n list_store \<Rightarrow> 'n \<Rightarrow> 'n list \<Rightarrow> 'n \<Rightarrow> bool" where
  "chain st a [] b \<longleftrightarrow> next_of st a = b \<and> prev_of st b = a"
| "chain st a (x # xs) b \<longleftrightarrow> next_of st a = x \<and> prev_of st x = a \<and> chain st x xs b"

definition ring :: "'n list_store \<Rightarrow> 'n \<Rightarrow> 'n list \<Rightarrow> bool" where
  "ring st h xs \<longleftrightarrow> distinct (h # xs) \<and> chain st h xs h"

lemma chain_append:
  "chain st a (xs @ y # ys) b \<longleftrightarrow> chain st a xs y \<and> chain st y ys b"
  by (induction xs arbitrary: a) auto

text \<open>A chain depends only on \<open>next\<close> of its front part and \<open>prev\<close> of its rear part.\<close>

lemma chain_cong:
  "(\<And>x. x \<in> set (a # xs) \<Longrightarrow> next_of st x = next_of st' x) \<Longrightarrow>
   (\<And>x. x \<in> set (xs @ [b]) \<Longrightarrow> prev_of st x = prev_of st' x) \<Longrightarrow>
   chain st a xs b = chain st' a xs b"
  by (induction xs arbitrary: a) auto

lemma chain_first: "chain st a xs b \<Longrightarrow> next_of st a = hd (xs @ [b])"
  by (cases xs) auto

lemma chain_last: "chain st a xs b \<Longrightarrow> prev_of st b = last (a # xs)"
  by (induction xs arbitrary: a) auto

lemma ring_init: "ring (list_init h st) h []"
  by (simp add: ring_def list_init_def)

lemma ring_next: "ring st h xs \<Longrightarrow> list_next st h = (case xs of [] \<Rightarrow> h | x # _ \<Rightarrow> x)"
  by (auto simp: ring_def list_next_def split: list.splits)

lemma ring_prev: "ring st h xs \<Longrightarrow> list_prev st h = (if xs = [] then h else last xs)"
  by (auto simp: ring_def list_prev_def dest: chain_last)

lemma ring_empty: "ring st h xs \<Longrightarrow> list_empty st h \<longleftrightarrow> xs = []"
  by (cases xs) (auto simp: ring_def list_empty_def)

text \<open>Insertion between the two parts of a list.\<close>

lemma chain_insert:
  assumes "chain st a xs b" "e \<notin> set (a # xs @ [b])" "distinct (a # xs)" "distinct (xs @ [b])"
  shows "chain (list_add_between e a (next_of st a) st) a (e # xs) b"
  using assms
proof (cases xs)
  case Nil
  then show ?thesis using assms by (auto simp: list_ops_defs)
next
  case (Cons x ys)
  have "chain (list_add_between e a (next_of st a) st) x ys b = chain st x ys b"
    by (rule chain_cong) (use assms Cons in \<open>auto simp: list_ops_defs\<close>)
  then show ?thesis using assms Cons by (auto simp: list_ops_defs)
qed

lemma ring_add_after_head:
  "ring st h xs \<Longrightarrow> e \<notin> set (h # xs) \<Longrightarrow> ring (list_add_after h e st) h (e # xs)"
  using chain_insert [of st h xs h e] by (auto simp: ring_def list_add_after_def)

lemma ring_add_after_elem:
  assumes r: "ring st h (us @ a # vs)" and e: "e \<notin> set (h # us @ a # vs)"
  shows "ring (list_add_after a e st) h (us @ a # e # vs)"
proof -
  let ?st = "list_add_between e a (next_of st a) st"
  from r have c: "chain st h us a" "chain st a vs h" by (auto simp: ring_def chain_append)
  have "chain ?st a (e # vs) h"
    by (rule chain_insert) (use r e c in \<open>auto simp: ring_def\<close>)
  moreover have "next_of st a = hd (vs @ [h])" using c(2) by (rule chain_first)
  then have "next_of st a \<notin> set (us @ [a])" using r by (cases vs) (auto simp: ring_def)
  then have "chain ?st h us a = chain st h us a"
    by (intro chain_cong) (use r e in \<open>auto simp: ring_def list_ops_defs\<close>)
  ultimately show ?thesis
    using r e c unfolding ring_def list_add_after_def chain_append by auto
qed

text \<open>Insertion before an entry (the head counts as the end of the list).\<close>

lemma ring_add_before_elem:
  assumes r: "ring st h (us @ b # vs)" and e: "e \<notin> set (h # us @ b # vs)"
  shows "ring (list_add_before b e st) h (us @ e # b # vs)"
proof (cases us rule: rev_cases)
  case Nil
  with r have "next_of st h = b" "prev_of st b = h" by (auto simp: ring_def)
  then have "list_add_before b e st = list_add_after h e st"
    by (simp add: list_add_before_def list_add_after_def)
  with Nil ring_add_after_head [of st h "b # vs" e] r e show ?thesis by simp
next
  case (snoc ws a)
  with r have "next_of st a = b" "prev_of st b = a" by (auto simp: ring_def chain_append)
  then have "list_add_before b e st = list_add_after a e st"
    by (simp add: list_add_before_def list_add_after_def)
  with snoc ring_add_after_elem [of st h ws a "b # vs" e] r e show ?thesis by simp
qed

lemma ring_add_before_head:
  assumes r: "ring st h xs" and e: "e \<notin> set (h # xs)"
  shows "ring (list_add_before h e st) h (xs @ [e])"
proof (cases xs rule: rev_cases)
  case Nil
  with r have "next_of st h = h" "prev_of st h = h" by (auto simp: ring_def)
  then have "list_add_before h e st = list_add_after h e st"
    by (simp add: list_add_before_def list_add_after_def)
  with Nil ring_add_after_head [of st h "[]" e] r e show ?thesis by simp
next
  case (snoc ws a)
  with r have "next_of st a = h" "prev_of st h = a" by (auto simp: ring_def chain_append)
  then have "list_add_before h e st = list_add_after a e st"
    by (simp add: list_add_before_def list_add_after_def)
  with snoc ring_add_after_elem [of st h ws a "[]" e] r e show ?thesis by simp
qed

text \<open>Deletion.\<close>

lemma chain_del:
  "chain st a (us @ e # vs) b \<Longrightarrow> distinct (a # us @ e # vs) \<Longrightarrow> distinct (us @ e # vs @ [b]) \<Longrightarrow>
   chain (list_del e st) a (us @ vs) b"
proof (induction us arbitrary: a)
  case Nil
  show ?case
  proof (cases vs)
    case Nil
    then show ?thesis using Nil.prems by (auto simp: list_ops_defs)
  next
    case (Cons v ws)
    have "chain (list_del e st) v ws b = chain st v ws b"
      by (rule chain_cong) (use Cons Nil.prems in \<open>auto simp: list_ops_defs\<close>)
    then show ?thesis using Cons Nil.prems by (auto simp: list_ops_defs)
  qed
next
  case (Cons u us)
  have p: "prev_of st e = last (u # us)"
    using Cons.prems(1) by (auto simp: chain_append dest: chain_last)
  have n: "next_of st e = hd (vs @ [b])"
    using Cons.prems(1) by (auto simp: chain_append dest: chain_first)
  have "prev_of st e \<noteq> a" using p Cons.prems(2) by (auto split: if_splits)
  moreover have "next_of st e \<noteq> u" using n Cons.prems by (cases vs) auto
  moreover have "chain (list_del e st) u (us @ vs) b"
    using Cons by auto
  ultimately show ?case using Cons.prems(1) by (auto simp: list_ops_defs)
qed

lemma ring_del:
  "ring st h (us @ e # vs) \<Longrightarrow> ring (list_del e st) h (us @ vs)"
  using chain_del [of st h us e vs h] by (auto simp: ring_def)

lemma ring_cong:
  "(\<And>x. x \<in> set (h # xs) \<Longrightarrow> next_of st' x = next_of st x \<and> prev_of st' x = prev_of st x) \<Longrightarrow>
   ring st' h xs = ring st h xs"
  unfolding ring_def using chain_cong [of h xs st' st h] by auto

lemma ring_del_init:
  assumes "ring st h (us @ e # vs)"
  shows "ring (list_del_init e st) h (us @ vs)" and "list_empty (list_del_init e st) e"
proof -
  have "ring (list_del_init e st) h (us @ vs) = ring (list_del e st) h (us @ vs)"
    by (rule ring_cong) (use assms in \<open>auto simp: ring_def list_del_init_def list_init_def\<close>)
  then show "ring (list_del_init e st) h (us @ vs)" using assms by (simp add: ring_del)
qed (simp add: list_del_init_def list_empty_def list_init_def)

text \<open>The neighbours of an entry belong to its ring, so an operation on one ring leaves every
  disjoint ring alone.\<close>

lemma ring_neighbours:
  assumes "ring st h xs" "x \<in> set (h # xs)"
  shows "next_of st x \<in> set (h # xs)" "prev_of st x \<in> set (h # xs)"
proof -
  consider "x = h" | us vs where "xs = us @ x # vs" using assms(2) by (auto dest: split_list)
  then have "next_of st x \<in> set (h # xs) \<and> prev_of st x \<in> set (h # xs)"
  proof cases
    case 1
    then show ?thesis using ring_next [OF assms(1)] ring_prev [OF assms(1)]
      by (cases xs) (auto simp: list_next_def list_prev_def)
  next
    case 2
    with assms(1) have "chain st h us x" "chain st x vs h" by (auto simp: ring_def chain_append)
    then have "next_of st x = hd (vs @ [h])" "prev_of st x = last (h # us)"
      by (auto dest: chain_first chain_last)
    with 2 show ?thesis by (cases vs; cases us) auto
  qed
  then show "next_of st x \<in> set (h # xs)" "prev_of st x \<in> set (h # xs)" by auto
qed

lemma ring_frame_del:
  assumes "ring st h xs" "e \<in> set xs" "ring st h' ys" "set (h # xs) \<inter> set (h' # ys) = {}"
  shows "ring (list_del_init e st) h' ys"
proof -
  have "next_of st e \<in> set (h # xs)" "prev_of st e \<in> set (h # xs)"
    using ring_neighbours [OF assms(1), of e] assms(2) by auto
  with assms(2,4) have "x \<noteq> e \<and> x \<noteq> next_of st e \<and> x \<noteq> prev_of st e" if "x \<in> set (h' # ys)" for x
    using that by fastforce
  then have "ring (list_del_init e st) h' ys = ring st h' ys"
    by (intro ring_cong) (simp add: list_ops_defs)
  with assms(3) show ?thesis by simp
qed

lemma ring_frame_add_before:
  assumes "ring st h xs" "l \<in> set (h # xs)" "ring st h' ys"
    "set (h # xs) \<inter> set (h' # ys) = {}" "e \<notin> set (h' # ys)"
  shows "ring (list_add_before l e st) h' ys"
proof -
  have "prev_of st l \<in> set (h # xs)"
    using ring_neighbours [OF assms(1,2)] by auto
  with assms(2,4,5) have "x \<noteq> e \<and> x \<noteq> l \<and> x \<noteq> prev_of st l" if "x \<in> set (h' # ys)" for x
    using that by fastforce
  then have "ring (list_add_before l e st) h' ys = ring st h' ys"
    by (intro ring_cong) (simp add: list_ops_defs)
  with assms(3) show ?thesis by simp
qed

section \<open>The walk over a list\<close>

text \<open>
  \<open>while ((le = list_next(le)) != list)\<close>, the loop every user of the header writes: the
  entries it visits.  The fuel bounds the number of turns; \<open>list_walk_ring\<close> shows that one
  turn more than the length of the list is enough.
\<close>

fun list_walk :: "nat \<Rightarrow> 'n list_store \<Rightarrow> 'n \<Rightarrow> 'n \<Rightarrow> 'n list option" where
  "list_walk 0 st h le = None"
| "list_walk (Suc n) st h le =
     (let le' = list_next st le
      in if le' = h then Some [] else map_option ((#) le') (list_walk n st h le'))"

lemma list_walk_chain:
  "chain st a xs h \<Longrightarrow> h \<notin> set xs \<Longrightarrow> length xs < n \<Longrightarrow> list_walk n st h a = Some xs"
proof (induction xs arbitrary: a n)
  case Nil
  then show ?case by (cases n) (auto simp: list_next_def)
next
  case (Cons x xs)
  then show ?case by (cases n) (auto simp: list_next_def)
qed

lemma list_walk_ring: "ring st h xs \<Longrightarrow> length xs < n \<Longrightarrow> list_walk n st h h = Some xs"
  by (rule list_walk_chain) (auto simp: ring_def)

section \<open>The interface\<close>

locale linked_list =
  fixes init :: "'n \<Rightarrow> 's \<Rightarrow> 's"
    and add :: "'n \<Rightarrow> 'n \<Rightarrow> 's \<Rightarrow> 's"
    and add_before :: "'n \<Rightarrow> 'n \<Rightarrow> 's \<Rightarrow> 's"
    and del :: "'n \<Rightarrow> 's \<Rightarrow> 's"
    and empty :: "'s \<Rightarrow> 'n \<Rightarrow> bool"
    and first :: "'s \<Rightarrow> 'n \<Rightarrow> 'n"
    and repr :: "'s \<Rightarrow> 'n \<Rightarrow> 'n list \<Rightarrow> bool"
  assumes repr_init: "repr (init h s) h []"
    and repr_add: "repr s h xs \<Longrightarrow> e \<notin> set (h # xs) \<Longrightarrow> repr (add h e s) h (e # xs)"
    and repr_add_before: "repr s h xs \<Longrightarrow> e \<notin> set (h # xs) \<Longrightarrow> repr (add_before h e s) h (xs @ [e])"
    and repr_insert: "repr s h (us @ b # vs) \<Longrightarrow> e \<notin> set (h # us @ b # vs) \<Longrightarrow>
      repr (add_before b e s) h (us @ e # b # vs)"
    and repr_del: "repr s h (us @ e # vs) \<Longrightarrow> repr (del e s) h (us @ vs)"
    and repr_del_empty: "repr s h (us @ e # vs) \<Longrightarrow> empty (del e s) e"
    and repr_empty: "repr s h xs \<Longrightarrow> empty s h \<longleftrightarrow> xs = []"
    and repr_first: "repr s h (x # xs) \<Longrightarrow> first s h = x"
    and repr_distinct: "repr s h xs \<Longrightarrow> distinct (h # xs)"
begin

lemma add_before_all:
  "repr s h xs \<Longrightarrow> distinct (xs @ es) \<Longrightarrow> h \<notin> set es \<Longrightarrow>
   repr (fold (add_before h) es s) h (xs @ es)"
proof (induction es arbitrary: s xs)
  case Nil
  then show ?case by simp
next
  case (Cons e es)
  from Cons.prems repr_distinct [of s h xs] have "repr (add_before h e s) h (xs @ [e])"
    by (intro repr_add_before) auto
  from Cons.IH [OF this] Cons.prems show ?case by simp
qed

lemma remove_first:
  assumes "repr s h (x # xs)"
  shows "repr (del (first s h) s) h xs" and "\<not> empty s h" and "empty (del (first s h) s) x"
  using repr_del [of s h "[]" x xs] repr_first [OF assms] repr_empty [OF assms]
    repr_del_empty [of s h "[]" x xs] assms by auto

end

interpretation clist: linked_list list_init list_add list_add_before list_del_init list_empty
  list_next ring
proof (unfold_locales, goal_cases)
  case 1 show ?case by (rule ring_init)
next
  case 2 then show ?case unfolding list_add_def by (rule ring_add_after_head)
next
  case 3 then show ?case by (rule ring_add_before_head)
next
  case 4 then show ?case by (rule ring_add_before_elem)
next
  case 5 then show ?case by (rule ring_del_init(1))
next
  case 6 then show ?case by (rule ring_del_init(2))
next
  case 7 then show ?case by (rule ring_empty)
next
  case 8 then show ?case by (auto dest: ring_next)
next
  case 9 then show ?case by (simp add: ring_def)
qed

section \<open>Properties\<close>

text \<open>Inserting an entry that is not linked with \<open>list_add_before\<close> on the head of a
  well-formed circular list appends it at the end, keeps the list well formed, and leaves every
  other disjoint list as it was.\<close>

theorem list_add_before_appends:
  assumes "ring st h xs" "e \<notin> set (h # xs)"
    and "ring st h' ys" "set (h # xs) \<inter> set (h' # ys) = {}" "e \<notin> set (h' # ys)"
  shows "ring (list_add_before h e st) h (xs @ [e]) \<and> ring (list_add_before h e st) h' ys"
  using clist.repr_add_before [OF assms(1,2)] ring_frame_add_before [OF assms(1) _ assms(3-5)] by simp

text \<open>\<open>list_del_init\<close> of a linked entry takes exactly that entry out, keeps the order
  of the others and leaves the entry linked to itself, so that \<open>list_empty\<close> of it is true.\<close>

theorem list_del_init_unlinks:
  assumes "ring st h (us @ e # vs)"
  shows "ring (list_del_init e st) h (us @ vs) \<and> list_empty (list_del_init e st) e"
  using clist.repr_del [OF assms] clist.repr_del_empty [OF assms] by simp

end
