(* ===== verification/Proc_Struct.thy ===== *)
theory Proc_Struct
  imports Clist
begin

text \<open>
  The process control block of \<open>kern/process/proc.h\<close>, its states and wait reasons, the
  trap frame of \<open>kern/trap/trap.h\<close>, and \<open>alloc_proc\<close>, which initialises a block.  A
  process pointer is a \<open>nat\<close>; a pointer that may be NULL is an \<open>option\<close>.  The list
  links of the block are represented by the lists they are linked in (see \<open>Clist\<close>), except
  \<open>thread_group\<close>, which has no head and is kept as a link store.
\<close>

type_synonym ptr = nat

datatype proc_state = PROC_UNINIT | PROC_SLEEPING | PROC_RUNNABLE | PROC_ZOMBIE

definition PROC_NAME_LEN :: nat where "PROC_NAME_LEN = 15"
definition MAX_PROCESS :: int where "MAX_PROCESS = 4096"
definition MAX_PID :: int where "MAX_PID = MAX_PROCESS * 2"
definition PROC_MAX_DEADLINE :: int where "PROC_MAX_DEADLINE = 7000"

definition PF_EXITING :: "32 word" where "PF_EXITING = 1"
definition WT_INTERRUPTED :: "32 word" where "WT_INTERRUPTED = 0x80000000"
definition WT_CHILD :: "32 word" where "WT_CHILD = 1 OR WT_INTERRUPTED"
definition WT_TIMER :: "32 word" where "WT_TIMER = 2 OR WT_INTERRUPTED"
definition WT_KSWAPD :: "32 word" where "WT_KSWAPD = 3"

lemmas wait_defs = WT_INTERRUPTED_def WT_CHILD_def WT_TIMER_def WT_KSWAPD_def

record kcontext =
  c_eip :: "32 word"
  c_esp :: "32 word"
  c_ebx :: "32 word"
  c_ecx :: "32 word"
  c_edx :: "32 word"
  c_esi :: "32 word"
  c_edi :: "32 word"
  c_ebp :: "32 word"

definition zero_context :: kcontext where
  "zero_context = \<lparr>c_eip = 0, c_esp = 0, c_ebx = 0, c_ecx = 0, c_edx = 0, c_esi = 0,
     c_edi = 0, c_ebp = 0\<rparr>"

record proc_struct =
  p_state :: proc_state
  p_pid :: int
  p_runs :: int
  p_kstack :: "32 word"
  p_need_resched :: bool
  p_parent :: "ptr option"
  p_mm :: "ptr option"
  p_context :: kcontext
  p_tf :: "32 word option"
  p_cr3 :: "32 word"
  p_flags :: "32 word"
  p_name :: string
  p_exit_code :: int
  p_wait_state :: "32 word"
  p_cptr :: "ptr option"
  p_yptr :: "ptr option"
  p_optr :: "ptr option"
  p_rq :: "nat option"
  p_time_slice :: int
  p_isRT :: bool
  p_compute_time :: int
  p_period_time :: int
  p_ct :: int
  p_pt :: int

text \<open>
  The assignments of \<open>alloc_proc\<close> to the block \<open>g\<close> that \<open>kmalloc\<close> returned.
  The fields \<open>exit_code\<close>, \<open>isRT\<close>, \<open>compute_time\<close>, \<open>period_time\<close>, \<open>ct\<close> and
  \<open>pt\<close> are not assigned and keep what the memory held.  (\<open>memset(proc->name, 0,
  PROC_NAME_LEN)\<close> clears the name; the two \<open>list_init\<close>s make \<open>proc\<close> a thread group of
  its own and unlink it from the run queues.)
\<close>

definition alloc_proc :: "32 word \<Rightarrow> proc_struct \<Rightarrow> proc_struct" where
  "alloc_proc boot_cr3 g = g\<lparr>
     p_state := PROC_UNINIT, p_pid := -1, p_runs := 0, p_kstack := 0, p_need_resched := False,
     p_parent := None, p_mm := None, p_context := zero_context, p_tf := None,
     p_cr3 := boot_cr3, p_flags := 0, p_name := [], p_wait_state := 0,
     p_cptr := None, p_optr := None, p_yptr := None, p_rq := None, p_time_slice := 0\<rparr>"

text \<open>\<open>set_proc_name\<close>: at most \<open>PROC_NAME_LEN\<close> characters, zero-padded; the model keeps
  the characters before the terminating zero.\<close>

definition set_proc_name :: "string \<Rightarrow> proc_struct \<Rightarrow> proc_struct" where
  "set_proc_name nm p = p\<lparr>p_name := take PROC_NAME_LEN nm\<rparr>"

definition get_proc_name :: "proc_struct \<Rightarrow> string" where
  "get_proc_name p = take PROC_NAME_LEN (p_name p)"

lemma get_set_proc_name: "get_proc_name (set_proc_name nm p) = take PROC_NAME_LEN nm"
  by (simp add: get_proc_name_def set_proc_name_def)

end
