(* ===== verification/Pid_Alloc.thy ===== *)
theory Pid_Alloc
  imports Proc_Struct
begin

text \<open>
  \<open>get_pid\<close> of \<open>kern/process/proc.c\<close>.  Its two static variables, \<open>last_pid\<close> and
  \<open>next_safe\<close>, are arguments and results; the process list is given by the pids on it.  The
  pids strictly between the two are free, so that most calls return without a scan; otherwise
  the list is scanned, from the start again (\<open>goto repeat\<close>) whenever the candidate runs into
  \<open>next_safe\<close>.  The scan is a recursion on the list; the repetition is a
  \<open>partial_function\<close>, shown to return as long as a pid is free.
\<close>

datatype pid_scan_result = Scan_done int int | Scan_repeat int int

fun pid_scan :: "int list \<Rightarrow> int \<Rightarrow> int \<Rightarrow> pid_scan_result" where
  "pid_scan [] last_pid next_safe = Scan_done last_pid next_safe"
| "pid_scan (pid # ps) last_pid next_safe =
     (if pid = last_pid then
        (let last_pid = last_pid + 1
         in if last_pid \<ge> next_safe
            then Scan_repeat (if last_pid \<ge> MAX_PID then 1 else last_pid) MAX_PID
            else pid_scan ps last_pid next_safe)
      else if pid > last_pid \<and> next_safe > pid then pid_scan ps last_pid pid
      else pid_scan ps last_pid next_safe)"

partial_function (option) pid_repeat :: "int list \<Rightarrow> int \<Rightarrow> int \<Rightarrow> (int \<times> int) option" where
  "pid_repeat pids last_pid next_safe =
     (case pid_scan pids last_pid next_safe of
        Scan_done l n \<Rightarrow> Some (l, n)
      | Scan_repeat l n \<Rightarrow> pid_repeat pids l n)"

definition get_pid :: "int list \<Rightarrow> int \<Rightarrow> int \<Rightarrow> (int \<times> int) option" where
  "get_pid pids last_pid next_safe =
     (let last_pid = last_pid + 1
      in if last_pid \<ge> MAX_PID then pid_repeat pids 1 MAX_PID
         else if last_pid \<ge> next_safe then pid_repeat pids last_pid MAX_PID
         else Some (last_pid, next_safe))"

section \<open>Correctness\<close>

text \<open>What is known of the pids seen so far.\<close>

definition pid_gap :: "int set \<Rightarrow> int \<Rightarrow> int \<Rightarrow> bool" where
  "pid_gap Q l n \<longleftrightarrow> (\<forall>q \<in> Q. q \<noteq> l \<and> \<not> (l < q \<and> q < n))"

lemma pid_scan_done:
  "pid_scan ps l n = Scan_done l' n' \<Longrightarrow> pid_gap Q l n \<Longrightarrow> l < n \<Longrightarrow> n \<le> MAX_PID \<Longrightarrow>
   pid_gap (Q \<union> set ps) l' n' \<and> l \<le> l' \<and> l' < n' \<and> n' \<le> MAX_PID"
proof (induction ps l n arbitrary: Q rule: pid_scan.induct)
  case (2 pid ps l n)
  consider (eq) "pid = l" "l + 1 < n" | (low) "pid > l" "n > pid" | (other) "pid \<noteq> l" "\<not> (pid > l \<and> n > pid)"
    using 2(4) by (force split: if_splits)
  then show ?case
  proof cases
    case eq
    have "pid_gap (insert pid Q) (l + 1) n" using 2(5) eq by (force simp: pid_gap_def)
    with 2(1) [of "l + 1" "insert pid Q"] 2(4,7) eq show ?thesis by simp
  next
    case low
    have "pid_gap (insert pid Q) l pid" using 2(5) low by (force simp: pid_gap_def)
    with 2(2) [of "insert pid Q"] 2(4,7) low show ?thesis by simp
  next
    case other
    have "pid_gap (insert pid Q) l n" using 2(5) other by (force simp: pid_gap_def)
    with 2(3) [of "insert pid Q"] 2(4,6,7) other show ?thesis by (auto split: if_splits)
  qed
qed auto

text \<open>A repetition starts from a larger candidate, or from 1 when the pids above were all
  taken; a candidate never passes a free pid.\<close>

lemma pid_scan_repeat:
  "pid_scan ps l n = Scan_repeat l' n' \<Longrightarrow> l < n \<Longrightarrow> n \<le> MAX_PID \<Longrightarrow>
   n' = MAX_PID \<and> (l < l' \<and> l' < MAX_PID \<or> l' = 1) \<and>
   (f \<notin> set ps \<and> l \<le> f \<and> f < MAX_PID \<longrightarrow> l < l' \<and> l' \<le> f)"
proof (induction ps l n rule: pid_scan.induct)
  case (2 pid ps l n)
  show ?case
  proof (cases "pid = l")
    case True
    show ?thesis
    proof (cases "l + 1 \<ge> n")
      case True
      with 2 \<open>pid = l\<close> show ?thesis by auto
    next
      case False
      with 2(1) [of "l + 1"] 2(4-6) True show ?thesis by auto
    qed
  next
    case False
    with 2 show ?thesis by (auto split: if_splits)
  qed
qed simp

lemma pid_repeat_returns:
  assumes f: "f \<notin> set pids" "1 \<le> f" "f < MAX_PID"
  shows "1 \<le> l \<Longrightarrow> l < MAX_PID \<Longrightarrow> \<exists>l' n'. pid_repeat pids l MAX_PID = Some (l', n') \<and>
    pid_gap (set pids) l' n' \<and> 1 \<le> l' \<and> l' < n' \<and> n' \<le> MAX_PID"
proof (induction "nat (if l \<le> f then f - l else MAX_PID + MAX_PID - l)" arbitrary: l rule: less_induct)
  case less
  show ?case
  proof (cases "pid_scan pids l MAX_PID")
    case (Scan_done l' n')
    have "pid_gap {} l MAX_PID" by (simp add: pid_gap_def)
    from pid_scan_done [OF Scan_done this] less.prems Scan_done show ?thesis
      by (subst pid_repeat.simps) auto
  next
    case (Scan_repeat l' n')
    note r = pid_scan_repeat [OF Scan_repeat, of f]
    have l': "n' = MAX_PID" "1 \<le> l'" "l' < MAX_PID" using r less.prems f by auto
    have "nat (if l' \<le> f then f - l' else MAX_PID + MAX_PID - l') <
        nat (if l \<le> f then f - l else MAX_PID + MAX_PID - l)"
      using r less.prems f l' by (auto split: if_splits)
    from less.hyps [OF this l'(2,3)] l'(1) Scan_repeat show ?thesis by (subst pid_repeat.simps) simp
  qed
qed

lemma free_pid:
  assumes "int (card (set pids)) < MAX_PID - 1"
  obtains f where "f \<notin> set pids" "1 \<le> f" "f < MAX_PID"
proof -
  have "\<not> {1..<MAX_PID} \<subseteq> set pids"
  proof
    assume "{1..<MAX_PID} \<subseteq> set pids"
    then have "card {1..<MAX_PID} \<le> card (set pids)" by (intro card_mono) auto
    with assms show False by simp
  qed
  then obtain f where "f \<in> {1..<MAX_PID}" "f \<notin> set pids" by blast
  then show ?thesis by (intro that [of f]) auto
qed

text \<open>The invariant of the static variables, and the contract of \<open>get_pid\<close>.\<close>

definition pid_state_wf :: "int set \<Rightarrow> int \<Rightarrow> int \<Rightarrow> bool" where
  "pid_state_wf Q last_pid next_safe \<longleftrightarrow> 1 \<le> last_pid \<and> last_pid \<le> MAX_PID \<and> next_safe \<le> MAX_PID \<and>
     (\<forall>q \<in> Q. \<not> (last_pid < q \<and> q < next_safe))"

lemma pid_state_init: "pid_state_wf Q MAX_PID MAX_PID"
  by (simp add: pid_state_wf_def MAX_PID_def MAX_PROCESS_def)

lemma pid_state_mono: "pid_state_wf Q l n \<Longrightarrow> Q' \<subseteq> insert l Q \<Longrightarrow> pid_state_wf Q' l n"
  by (auto simp: pid_state_wf_def)

lemma get_pid_spec:
  assumes wf: "pid_state_wf (set pids) l n" and free: "int (card (set pids)) < MAX_PID - 1"
  shows "\<exists>pid n'. get_pid pids l n = Some (pid, n') \<and> 1 \<le> pid \<and> pid < MAX_PID \<and> pid \<notin> set pids \<and>
    pid_state_wf (insert pid (set pids)) pid n'"
proof -
  from free_pid [OF free] obtain f where f: "f \<notin> set pids" "1 \<le> f" "f < MAX_PID" .
  have "\<exists>l' n'. get_pid pids l n = Some (l', n') \<and> pid_gap (set pids) l' n' \<and> 1 \<le> l' \<and> l' < n' \<and> n' \<le> MAX_PID"
  proof (cases "l + 1 \<ge> MAX_PID \<or> l + 1 \<ge> n")
    case True
    have "1 < MAX_PID" by (simp add: MAX_PID_def MAX_PROCESS_def)
    with True wf pid_repeat_returns [OF f, of 1] pid_repeat_returns [OF f, of "l + 1"] show ?thesis
      by (auto simp: get_pid_def pid_state_wf_def)
  next
    case False
    with wf show ?thesis by (force simp: get_pid_def pid_state_wf_def pid_gap_def)
  qed
  then show ?thesis by (force simp: pid_gap_def pid_state_wf_def)
qed

section \<open>Properties\<close>

text \<open>C13: as long as fewer processes exist than pids, \<open>get_pid\<close> returns a pid in range that no
  process has, and leaves its static variables so that the pids between them are free.\<close>

theorem get_pid_fresh:
  assumes "pid_state_wf (set pids) last_pid next_safe" "int (card (set pids)) < MAX_PID - 1"
  shows "\<exists>pid next_safe'. get_pid pids last_pid next_safe = Some (pid, next_safe') \<and>
    1 \<le> pid \<and> pid < MAX_PID \<and> pid \<notin> set pids \<and> pid_state_wf (insert pid (set pids)) pid next_safe'"
  by (rule get_pid_spec [OF assms])

theorem get_pid_fresh_witness:
  "\<exists>pid next_safe'. get_pid [3, 1, 2] MAX_PID MAX_PID = Some (pid, next_safe') \<and> pid \<notin> {1, 2, 3}"
  using get_pid_fresh [OF pid_state_init, of "[3, 1, 2]"] by (auto simp: MAX_PID_def MAX_PROCESS_def)

end
