(* ===== verification/Prio_Heap.thy ===== *)
theory Prio_Heap
  imports Prelude
begin

text \<open>
  The array heap of \<open>kern/libs/heap.c\<close> and \<open>libs/heap.h\<close>: a process heap is an array
  of (process, deadline) entries and a \<open>size\<close>.  Indices and sizes are C \<open>int\<close>s, so the
  size can become \<open>-1\<close>, as \<open>heap_pop\<close> on an empty heap makes it.  The functional
  contract is the locale \<open>priority_queue\<close>, interpreted on the code's operations: on a
  well-formed heap they maintain heap order and act on the multiset of entries as insertion and
  extraction of a minimum.
\<close>

section \<open>Data\<close>

definition MAX_HEAP_SIZE :: int where "MAX_HEAP_SIZE = 1024"

record heap_entry =
  he_proc :: nat
  he_x :: int

record process_heap =
  entry :: "int \<Rightarrow> heap_entry"
  hsize :: int

section \<open>Private functions\<close>

definition get_father :: "int \<Rightarrow> int" where
  "get_father x = cdiv (x - 1) 2"

definition get_lc :: "int \<Rightarrow> int" where
  "get_lc x = 2 * x + 1"

definition get_rc :: "int \<Rightarrow> int" where
  "get_rc x = 2 * x + 2"

text \<open>\<open>__min\<close>: the child position with the smaller value; the right child wins a tie.\<close>

definition min_pos :: "int \<Rightarrow> int \<Rightarrow> int \<Rightarrow> int" where
  "min_pos x y lc_pos = (if x < y then lc_pos else lc_pos + 1)"

text \<open>\<open>__exchange\<close>: field by field, in the order of the code.\<close>

definition exchange :: "process_heap \<Rightarrow> int \<Rightarrow> int \<Rightarrow> process_heap" where
  "exchange h x y =
     (let tmp = he_x (entry h y); p = he_proc (entry h y);
          e1 = (entry h)(y := (entry h y)\<lparr>he_x := he_x (entry h x)\<rparr>);
          e2 = e1(x := (e1 x)\<lparr>he_x := tmp\<rparr>);
          e3 = e2(y := (e2 y)\<lparr>he_proc := he_proc (e2 x)\<rparr>);
          e4 = e3(x := (e3 x)\<lparr>he_proc := p\<rparr>)
      in h\<lparr>entry := e4\<rparr>)"

lemma exchange_swap:
  "exchange h x y = h\<lparr>entry := (entry h)(x := entry h y, y := entry h x)\<rparr>"
  by (cases "x = y") (auto simp: exchange_def Let_def fun_eq_iff)

lemma exchange_simps [simp]:
  "hsize (exchange h x y) = hsize h"
  "entry (exchange h x y) = (entry h)(x := entry h y, y := entry h x)"
  by (simp_all add: exchange_swap)

lemma get_father_pos: "0 < x \<Longrightarrow> get_father x = (x - 1) div 2"
  by (simp add: get_father_def cdiv_nonneg)

lemma get_father_0 [simp]: "get_father 0 = 0"
  by (simp add: get_father_def cdiv_def)

lemma get_father_bounds: "0 < x \<Longrightarrow> 0 \<le> get_father x \<and> get_father x < x"
  by (simp add: get_father_pos)

lemma get_father_children:
  assumes "0 < i" "0 \<le> f"
  shows "get_father i = f \<longleftrightarrow> i = get_lc f \<or> i = get_rc f"
proof -
  have "(i - 1) div 2 = f \<longleftrightarrow> i = 2 * f + 1 \<or> i = 2 * f + 2" by linarith
  with assms show ?thesis by (simp add: get_father_pos get_lc_def get_rc_def)
qed

lemma get_father_shrinks: "get_father x \<noteq> x \<Longrightarrow> \<bar>get_father x\<bar> < \<bar>x\<bar>"
proof (cases "x < 0")
  case True
  then have "get_father x = - ((1 - x) div 2)"
    by (simp add: get_father_def cdiv_def)
  then show "get_father x \<noteq> x \<Longrightarrow> ?thesis" using True by linarith
next
  case False
  then show "get_father x \<noteq> x \<Longrightarrow> ?thesis"
    using get_father_bounds [of x] by (cases "x = 0") auto
qed

text \<open>The loop of \<open>__rearrange_bottomup\<close>: \<open>son_val\<close> is read once, before the loop.\<close>

function bottomup_loop :: "process_heap \<Rightarrow> int \<Rightarrow> int \<Rightarrow> process_heap" where
  "bottomup_loop h son_pos son_val =
     (let father_pos = get_father son_pos
      in if father_pos \<noteq> son_pos then
           (if he_x (entry h father_pos) > son_val
            then bottomup_loop (exchange h father_pos son_pos) father_pos son_val
            else h)
         else h)"
  by pat_completeness auto
termination
  by (relation "measure (\<lambda>(h, s, v). nat \<bar>s\<bar>)") (auto dest: get_father_shrinks)

declare bottomup_loop.simps [simp del]

definition rearrange_bottomup :: "process_heap \<Rightarrow> process_heap" where
  "rearrange_bottomup h =
     (let son_pos = hsize h - 1; son_val = he_x (entry h son_pos)
      in bottomup_loop h son_pos son_val)"

text \<open>The loop of \<open>__rearrange_topdown\<close> returns the heap, \<open>father_pos\<close> and \<open>lc_pos\<close>,
  which the code after the loop reads.  The conjunct \<open>0 \<le> father_pos\<close> only makes the
  function total: the code starts at \<open>0\<close> and moves to children.\<close>

function topdown_loop :: "process_heap \<Rightarrow> int \<Rightarrow> int \<Rightarrow> process_heap \<times> int \<times> int" where
  "topdown_loop h father_pos father_val =
     (let lc_pos = get_lc father_pos
      in if lc_pos < hsize h - 1 \<and> 0 \<le> father_pos then
           (let rc_pos = lc_pos + 1;
                lc_val = he_x (entry h lc_pos);
                rc_val = he_x (entry h rc_pos);
                chosen_pos = min_pos lc_val rc_val lc_pos
            in if father_val > he_x (entry h chosen_pos)
               then topdown_loop (exchange h father_pos chosen_pos) chosen_pos father_val
               else (h, father_pos, lc_pos))
         else (h, father_pos, lc_pos))"
  by pat_completeness auto
termination
  by (relation "measure (\<lambda>(h, f, v). nat (hsize h - f))")
    (auto simp: get_lc_def min_pos_def)

declare topdown_loop.simps [simp del]

definition rearrange_topdown :: "process_heap \<Rightarrow> process_heap" where
  "rearrange_topdown h =
     (let father_val = he_x (entry h 0);
          (h', father_pos, lc_pos) = topdown_loop h 0 father_val
      in if lc_pos = hsize h' - 1 then
           (if father_val > he_x (entry h' lc_pos) then exchange h' father_pos lc_pos else h')
         else h')"

section \<open>Operations\<close>

definition heap_init :: "process_heap \<Rightarrow> process_heap" where
  "heap_init h = h\<lparr>hsize := 0\<rparr>"

definition heap_empty :: "process_heap \<Rightarrow> bool" where
  "heap_empty h \<longleftrightarrow> hsize h = 0"

definition heap_push :: "process_heap \<Rightarrow> heap_entry \<Rightarrow> process_heap res" where
  "heap_push h elm =
     (let pos = hsize h
      in if pos \<ge> MAX_HEAP_SIZE then Inl Spin
         else if pos < 0 then Inl Out_of_bounds
         else Inr (rearrange_bottomup
                (h\<lparr>entry := (entry h)(pos := elm), hsize := hsize h + 1\<rparr>)))"

definition heap_gettop :: "process_heap \<Rightarrow> heap_entry res" where
  "heap_gettop h = (if heap_empty h then Inl Spin else Inr (entry h 0))"

text \<open>\<open>heap_pop\<close> only prints a message when the heap is empty and goes on.\<close>

definition heap_pop :: "process_heap \<Rightarrow> heap_entry \<times> process_heap" where
  "heap_pop h =
     (let ret = entry h 0;
          h1 = (if hsize h > 1 then h\<lparr>entry := (entry h)(0 := entry h (hsize h - 1))\<rparr> else h);
          h2 = h1\<lparr>hsize := hsize h1 - 1\<rparr>
      in (ret, rearrange_topdown h2))"

text \<open>\<open>heap_print\<close>: the deadlines it prints, in the order of the array.\<close>

definition heap_print :: "process_heap \<Rightarrow> int list" where
  "heap_print h = map (\<lambda>i. he_x (entry h i)) [0..hsize h - 1]"

section \<open>Invariant and abstraction\<close>

definition heap_ordered :: "process_heap \<Rightarrow> bool" where
  "heap_ordered h \<longleftrightarrow>
     (\<forall>i. 0 < i \<and> i < hsize h \<longrightarrow> he_x (entry h (get_father i)) \<le> he_x (entry h i))"

definition heap_wf :: "process_heap \<Rightarrow> bool" where
  "heap_wf h \<longleftrightarrow> 0 \<le> hsize h \<and> hsize h \<le> MAX_HEAP_SIZE \<and> heap_ordered h"

definition heap_mset :: "process_heap \<Rightarrow> heap_entry multiset" where
  "heap_mset h = image_mset (entry h) (mset_set {0..<hsize h})"

lemma size_heap_mset [simp]: "size (heap_mset h) = nat (hsize h)"
  by (simp add: heap_mset_def)

lemma set_heap_mset: "set_mset (heap_mset h) = entry h ` {0..<hsize h}"
  by (simp add: heap_mset_def)

lemma heap_mset_exchange:
  "0 \<le> x \<Longrightarrow> x < hsize h \<Longrightarrow> 0 \<le> y \<Longrightarrow> y < hsize h \<Longrightarrow> heap_mset (exchange h x y) = heap_mset h"
  unfolding heap_mset_def exchange_simps by (rule image_mset_swap) auto

text \<open>The root is a minimum of an ordered heap.\<close>

lemma heap_root_le:
  assumes "heap_ordered h"
  shows "0 \<le> i \<Longrightarrow> i < hsize h \<Longrightarrow> he_x (entry h 0) \<le> he_x (entry h i)"
proof (induction "nat i" arbitrary: i rule: less_induct)
  case less
  show ?case
  proof (cases "i = 0")
    case False
    with less.prems have i: "0 < i" by simp
    from get_father_bounds [OF i] less.prems have "he_x (entry h 0) \<le> he_x (entry h (get_father i))"
      by (intro less.hyps) auto
    also have "\<dots> \<le> he_x (entry h i)" using assms i less.prems by (simp add: heap_ordered_def)
    finally show ?thesis .
  qed simp
qed

section \<open>Filtering up\<close>

definition up_inv :: "process_heap \<Rightarrow> int \<Rightarrow> bool" where
  "up_inv h s \<longleftrightarrow>
     (\<forall>i. 0 < i \<and> i < hsize h \<and> i \<noteq> s \<longrightarrow> he_x (entry h (get_father i)) \<le> he_x (entry h i)) \<and>
     (\<forall>i. 0 < s \<and> 0 < i \<and> i < hsize h \<and> get_father i = s \<longrightarrow>
        he_x (entry h (get_father s)) \<le> he_x (entry h i))"

lemma up_inv_exchange:
  assumes inv: "up_inv h s" and s: "0 < s" "s < hsize h"
    and gt: "he_x (entry h (get_father s)) > he_x (entry h s)"
  shows "up_inv (exchange h (get_father s) s) (get_father s)"
proof -
  let ?f = "get_father s"
  have f: "0 \<le> ?f" "?f < s" using get_father_bounds [OF s(1)] by auto
  have up: "he_x (entry h (get_father i)) \<le> he_x (entry h i)" if "0 < i" "i < hsize h" "i \<noteq> s" for i
    using inv that by (simp add: up_inv_def)
  have gp: "he_x (entry h ?f) \<le> he_x (entry h i)" if "0 < i" "i < hsize h" "get_father i = s" for i
    using inv that s by (simp add: up_inv_def)
  have lt: "get_father i < i" "0 \<le> get_father i" if "0 < i" for i
    using get_father_bounds [OF that] by auto
  have ff: "he_x (entry h (get_father ?f)) \<le> he_x (entry h ?f)" if "0 < ?f"
    using up [OF that] f s by auto
  show ?thesis
    unfolding up_inv_def exchange_simps
  proof (intro conjI allI impI; elim conjE)
    fix i
    assume i: "0 < i" "i < hsize h" "i \<noteq> ?f"
    show "he_x (((entry h)(?f := entry h s, s := entry h ?f)) (get_father i))
        \<le> he_x (((entry h)(?f := entry h s, s := entry h ?f)) i)"
      using up [OF i(1,2)] gp [OF i(1,2)] gt f lt [OF i(1)] i(3)
      by (cases "i = s"; cases "get_father i = s"; cases "get_father i = ?f") auto
  next
    fix i
    assume i: "0 < ?f" "0 < i" "i < hsize h" "get_father i = ?f"
    have "get_father ?f \<noteq> ?f" "get_father ?f \<noteq> s" "i \<noteq> ?f"
      using lt [OF i(1)] lt [OF i(2)] i f by auto
    then show "he_x (((entry h)(?f := entry h s, s := entry h ?f)) (get_father ?f))
        \<le> he_x (((entry h)(?f := entry h s, s := entry h ?f)) i)"
      using ff [OF i(1)] up [OF i(2,3)] i by (cases "i = s") auto
  qed
qed

lemma bottomup_loop_spec:
  "up_inv h s \<Longrightarrow> 0 \<le> s \<Longrightarrow> s < hsize h \<Longrightarrow> v = he_x (entry h s) \<Longrightarrow>
   heap_ordered (bottomup_loop h s v) \<and> hsize (bottomup_loop h s v) = hsize h \<and>
   heap_mset (bottomup_loop h s v) = heap_mset h"
proof (induction h s v rule: bottomup_loop.induct)
  case (1 h s v)
  let ?f = "get_father s"
  consider (root) "s = 0" | (stop) "0 < s" "\<not> he_x (entry h ?f) > v" | (up) "0 < s" "he_x (entry h ?f) > v"
    using "1.prems"(2) by linarith
  then show ?case
  proof cases
    case root
    then have "bottomup_loop h s v = h" by (simp add: bottomup_loop.simps [of h 0 v])
    with root show ?thesis using "1.prems"
      by (auto simp: heap_ordered_def up_inv_def)
  next
    case stop
    have "heap_ordered h" using "1.prems" stop unfolding heap_ordered_def up_inv_def
      by (metis not_less)
    with stop show ?thesis by (simp add: bottomup_loop.simps [of h s v])
  next
    case up
    have f: "0 \<le> ?f" "?f < s" using get_father_bounds [OF up(1)] by auto
    have "up_inv (exchange h ?f s) ?f" using "1.prems" up by (intro up_inv_exchange) auto
    moreover have "bottomup_loop h s v = bottomup_loop (exchange h ?f s) ?f v"
      using up f by (simp add: bottomup_loop.simps [of h s v])
    ultimately show ?thesis
      using "1.IH" [OF refl _ up(2)] f "1.prems" heap_mset_exchange [of ?f h s] by simp
  qed
qed

lemma heap_push_spec:
  assumes "heap_wf h" "hsize h < MAX_HEAP_SIZE"
  obtains h' where "heap_push h e = Inr h'" "heap_wf h'" "hsize h' = hsize h + 1"
    "heap_mset h' = add_mset e (heap_mset h)"
proof -
  let ?n = "hsize h"
  let ?h = "h\<lparr>entry := (entry h)(?n := e), hsize := ?n + 1\<rparr>"
  have n: "0 \<le> ?n" and ord: "heap_ordered h" using assms by (auto simp: heap_wf_def)
  have lt: "get_father i < i" if "0 < i" for i using get_father_bounds [OF that] by simp
  have "up_inv ?h ?n"
    using ord lt unfolding up_inv_def heap_ordered_def by fastforce
  then have
    *: "heap_ordered (rearrange_bottomup ?h)" "hsize (rearrange_bottomup ?h) = ?n + 1"
       "heap_mset (rearrange_bottomup ?h) = heap_mset ?h"
    using bottomup_loop_spec [of ?h ?n] n
    by (auto simp: rearrange_bottomup_def Let_def)
  have "{0..<?n + 1} = insert ?n {0..<?n}" using n by auto
  then have "heap_mset ?h = add_mset e (image_mset ((entry h)(?n := e)) (mset_set {0..<?n}))"
    by (simp add: heap_mset_def)
  also have "image_mset ((entry h)(?n := e)) (mset_set {0..<?n}) = heap_mset h"
    unfolding heap_mset_def by (rule image_mset_cong_set) auto
  finally have "heap_mset ?h = add_mset e (heap_mset h)" .
  with * n assms(2) show ?thesis
    by (intro that [of "rearrange_bottomup ?h"]) (auto simp: heap_push_def Let_def heap_wf_def)
qed

section \<open>Filtering down\<close>

definition down_inv :: "process_heap \<Rightarrow> int \<Rightarrow> bool" where
  "down_inv h f \<longleftrightarrow>
     (\<forall>i. 0 < i \<and> i < hsize h \<and> get_father i \<noteq> f \<longrightarrow> he_x (entry h (get_father i)) \<le> he_x (entry h i)) \<and>
     (\<forall>i. 0 < f \<and> 0 < i \<and> i < hsize h \<and> get_father i = f \<longrightarrow>
        he_x (entry h (get_father f)) \<le> he_x (entry h i))"

definition is_father_min :: "process_heap \<Rightarrow> int \<Rightarrow> int \<Rightarrow> bool" where
  "is_father_min h f v \<longleftrightarrow>
     (\<forall>i. 0 < i \<and> i < hsize h \<and> get_father i = f \<longrightarrow> v \<le> he_x (entry h i))"

lemma down_inv_ordered:
  "down_inv h f \<Longrightarrow> is_father_min h f (he_x (entry h f)) \<Longrightarrow> heap_ordered h"
  unfolding down_inv_def is_father_min_def heap_ordered_def by metis

lemma down_inv_exchange:
  assumes inv: "down_inv h f" and c: "0 < c" "c < hsize h" "get_father c = f" and f: "0 \<le> f"
    and gt: "he_x (entry h f) > he_x (entry h c)" and min: "is_father_min h f (he_x (entry h c))"
  shows "down_inv (exchange h f c) c"
proof -
  have lt: "get_father i < i" "0 \<le> get_father i" if "0 < i" for i
    using get_father_bounds [OF that] by auto
  have fc: "f < c" using lt [OF c(1)] c(3) by simp
  have up: "he_x (entry h (get_father i)) \<le> he_x (entry h i)" if "0 < i" "i < hsize h" "get_father i \<noteq> f" for i
    using inv that by (simp add: down_inv_def)
  have sib: "he_x (entry h c) \<le> he_x (entry h i)" if "0 < i" "i < hsize h" "get_father i = f" for i
    using min that by (simp add: is_father_min_def)
  have gp: "he_x (entry h (get_father f)) \<le> he_x (entry h c)" if "0 < f"
    using inv that c by (simp add: down_inv_def)
  show ?thesis
    unfolding down_inv_def exchange_simps
  proof (intro conjI allI impI; elim conjE)
    fix i
    assume i: "0 < i" "i < hsize h" "get_father i \<noteq> c"
    show "he_x (((entry h)(f := entry h c, c := entry h f)) (get_father i))
        \<le> he_x (((entry h)(f := entry h c, c := entry h f)) i)"
      using up [OF i(1,2)] sib [OF i(1,2)] gp gt fc lt [OF i(1)] i c(3)
      by (cases "i = c"; cases "i = f"; cases "get_father i = f") auto
  next
    fix i
    assume i: "0 < c" "0 < i" "i < hsize h" "get_father i = c"
    have "get_father c \<noteq> c" "i \<noteq> c" "i \<noteq> f"
      using lt [OF c(1)] lt [OF i(2)] i fc by auto
    then show "he_x (((entry h)(f := entry h c, c := entry h f)) (get_father c))
        \<le> he_x (((entry h)(f := entry h c, c := entry h f)) i)"
      using up [OF i(2,3)] i c fc by auto
  qed
qed

text \<open>What the loop leaves: the hole is at \<open>f'\<close>, and either it has at most one child left to
  look at, or no child is smaller.\<close>

lemma topdown_loop_spec:
  "down_inv h f \<Longrightarrow> 0 \<le> f \<Longrightarrow> f < hsize h \<Longrightarrow> v = he_x (entry h f) \<Longrightarrow>
   topdown_loop h f v = (h', f', lc) \<Longrightarrow>
   down_inv h' f' \<and> 0 \<le> f' \<and> f' < hsize h \<and> lc = get_lc f' \<and> v = he_x (entry h' f') \<and>
   hsize h' = hsize h \<and> heap_mset h' = heap_mset h \<and>
   (lc \<ge> hsize h - 1 \<or> is_father_min h' f' v)"
proof (induction h f v rule: topdown_loop.induct)
  case (1 h f v)
  let ?lc = "get_lc f"
  let ?c = "min_pos (he_x (entry h ?lc)) (he_x (entry h (?lc + 1))) ?lc"
  show ?case
  proof (cases "?lc < hsize h - 1")
    case False
    then have "topdown_loop h f v = (h, f, ?lc)" by (simp add: topdown_loop.simps [of h f v] Let_def)
    with "1.prems" False show ?thesis by simp
  next
    case inside: True
    have c: "0 < ?c" "?c < hsize h" "get_father ?c = f"
      using inside "1.prems"(2) get_father_children [of ?c f]
      by (auto simp: min_pos_def get_lc_def get_rc_def)
    have "i = ?lc \<or> i = ?lc + 1" if "0 < i" "get_father i = f" for i
      using that "1.prems"(2) get_father_children [of i f] by (auto simp: get_lc_def get_rc_def)
    moreover have "he_x (entry h ?c) \<le> he_x (entry h ?lc)" "he_x (entry h ?c) \<le> he_x (entry h (?lc + 1))"
      by (auto simp: min_pos_def)
    ultimately have min: "is_father_min h f (he_x (entry h ?c))"
      unfolding is_father_min_def by metis
    show ?thesis
    proof (cases "v > he_x (entry h ?c)")
      case False
      then have "topdown_loop h f v = (h, f, ?lc)"
        using inside "1.prems"(2) by (simp add: topdown_loop.simps [of h f v] Let_def)
      then have "h' = h" "f' = f" "lc = ?lc" using "1.prems"(5) by auto
      moreover have "is_father_min h f v" using min False by (auto simp: is_father_min_def)
      ultimately show ?thesis using "1.prems" by simp
    next
      case True
      then have eq: "topdown_loop h f v = topdown_loop (exchange h f ?c) ?c v"
        using inside "1.prems"(2) by (simp add: topdown_loop.simps [of h f v] Let_def)
      have "down_inv (exchange h f ?c) ?c"
        using "1.prems" c True min by (intro down_inv_exchange) auto
      moreover have "v = he_x (entry (exchange h f ?c) ?c)" using "1.prems"(4) by simp
      moreover have "topdown_loop (exchange h f ?c) ?c v = (h', f', lc)" using eq "1.prems"(5) by simp
      moreover have "?lc < hsize h - 1 \<and> 0 \<le> f" using inside "1.prems"(2) by simp
      ultimately have "down_inv h' f' \<and> 0 \<le> f' \<and> f' < hsize h \<and> lc = get_lc f' \<and> v = he_x (entry h' f') \<and>
        hsize h' = hsize h \<and> heap_mset h' = heap_mset (exchange h f ?c) \<and>
        (lc \<ge> hsize h - 1 \<or> is_father_min h' f' v)"
        using "1.IH" [OF refl _ refl refl refl refl True] c unfolding exchange_simps by (metis less_imp_le)
      moreover have "heap_mset (exchange h f ?c) = heap_mset h"
        by (rule heap_mset_exchange) (use c "1.prems"(2,3) in \<open>auto\<close>)
      ultimately show ?thesis by metis
    qed
  qed
qed

lemma rearrange_topdown_spec:
  assumes inv: "down_inv h 0" and n: "0 \<le> hsize h"
  shows "heap_ordered (rearrange_topdown h) \<and> hsize (rearrange_topdown h) = hsize h \<and>
    heap_mset (rearrange_topdown h) = heap_mset h"
proof (cases "hsize h = 0")
  case True
  then have "rearrange_topdown h = h"
    by (simp add: rearrange_topdown_def topdown_loop.simps get_lc_def)
  with True show ?thesis by (simp add: heap_ordered_def)
next
  case False
  obtain h' f lc where loop: "topdown_loop h 0 (he_x (entry h 0)) = (h', f, lc)"
    using prod_cases3 by blast
  let ?v = "he_x (entry h 0)"
  from topdown_loop_spec [OF inv _ _ refl loop] False n have
    td: "down_inv h' f" "0 \<le> f" "f < hsize h" "lc = get_lc f" "?v = he_x (entry h' f)"
      "hsize h' = hsize h" "heap_mset h' = heap_mset h"
    and out: "lc \<ge> hsize h - 1 \<or> is_father_min h' f ?v" by auto
  have kids: "i = lc \<or> i = lc + 1" if "0 < i" "get_father i = f" for i
    using that td(2,4) get_father_children [of i f] by (auto simp: get_lc_def get_rc_def)
  show ?thesis
  proof (cases "lc = hsize h - 1 \<and> ?v > he_x (entry h' lc)")
    case True
    then have eq: "rearrange_topdown h = exchange h' f lc"
      using True by (auto simp: rearrange_topdown_def loop td(6))
    have lc: "0 < lc" "lc < hsize h'" "get_father lc = f"
      using True td get_father_children [of lc f] by (auto simp: get_lc_def)
    have "is_father_min h' f (he_x (entry h' lc))"
      unfolding is_father_min_def using kids True td(6) by fastforce
    then have d: "down_inv (exchange h' f lc) lc"
      using td lc True by (intro down_inv_exchange) auto
    have "\<not> (0 < i \<and> i < hsize h' \<and> get_father i = lc)" for i
      using get_father_bounds [of i] True td(6) by auto
    then have "heap_ordered (exchange h' f lc)"
      by (intro down_inv_ordered [OF d]) (auto simp: is_father_min_def)
    with eq td lc heap_mset_exchange [of f h' lc] show ?thesis by simp
  next
    case False
    then have eq: "rearrange_topdown h = h'"
      using td(6) by (auto simp: rearrange_topdown_def loop)
    have "is_father_min h' f ?v"
      using out
    proof
      assume "lc \<ge> hsize h - 1"
      then show ?thesis unfolding is_father_min_def using kids False td(6) by fastforce
    qed
    then have "heap_ordered h'" using down_inv_ordered [OF td(1)] td(5) by simp
    with eq td show ?thesis by simp
  qed
qed

lemma heap_gettop_spec:
  assumes "heap_wf h" "hsize h \<noteq> 0"
  shows "heap_gettop h = Inr (entry h 0)" "entry h 0 \<in># heap_mset h"
    "e \<in># heap_mset h \<Longrightarrow> he_x (entry h 0) \<le> he_x e"
  using assms heap_root_le [of h]
  by (auto simp: heap_gettop_def heap_empty_def heap_wf_def set_heap_mset)

lemma heap_pop_spec:
  assumes wf: "heap_wf h" and ne: "hsize h \<noteq> 0"
  obtains h' where "heap_pop h = (entry h 0, h')" "heap_wf h'" "hsize h' = hsize h - 1"
    "heap_mset h = add_mset (entry h 0) (heap_mset h')"
proof -
  let ?n = "hsize h - 1"
  define h1 where "h1 = (if hsize h > 1 then h\<lparr>entry := (entry h)(0 := entry h ?n)\<rparr> else h)"
  define h2 where "h2 = h1\<lparr>hsize := hsize h1 - 1\<rparr>"
  have n: "0 \<le> ?n" "?n \<le> MAX_HEAP_SIZE" and ord: "heap_ordered h"
    using wf ne by (auto simp: heap_wf_def)
  have h2: "hsize h2 = ?n" by (simp add: h2_def h1_def)
  have e2: "entry h2 i = (if i = 0 \<and> 0 < ?n then entry h ?n else entry h i)" for i
    by (simp add: h2_def h1_def)
  have "get_father i < i" if "0 < i" for i using get_father_bounds [OF that] by simp
  then have "down_inv h2 0"
    using ord unfolding down_inv_def heap_ordered_def h2 e2 by auto
  from rearrange_topdown_spec [OF this] h2 n
  have td: "heap_ordered (rearrange_topdown h2)" "hsize (rearrange_topdown h2) = ?n"
    "heap_mset (rearrange_topdown h2) = heap_mset h2" by auto
  have m: "heap_mset h = add_mset (entry h 0) (heap_mset h2)"
  proof (cases "?n = 0")
    case True
    have atLeastLessThan1_int: "{0..<1} = {0::int}" by auto
    from True have "heap_mset h = {#entry h 0#}" "heap_mset h2 = {#}"
      using h2 by (simp_all add: heap_mset_def atLeastLessThan1_int)
    then show ?thesis by simp
  next
    case False
    with n have s: "{0..<hsize h} = insert 0 (insert ?n {1..<?n})" "{0..<?n} = insert 0 {1..<?n}" by auto
    have "image_mset (entry h2) (mset_set {1..<?n}) = image_mset (entry h) (mset_set {1..<?n})"
      by (rule image_mset_cong_set) (auto simp: e2)
    then show ?thesis
      using False n unfolding heap_mset_def h2 s by (simp add: e2)
  qed
  show ?thesis
    by (rule that [of "rearrange_topdown h2"])
      (use td n m in \<open>auto simp: heap_pop_def heap_wf_def h2_def h1_def Let_def\<close>)
qed

section \<open>The contract\<close>

text \<open>A bounded priority queue whose operations may fail: what a scheduler relies on.\<close>

locale priority_queue =
  fixes push :: "'q \<Rightarrow> 'e \<Rightarrow> 'q res"
    and top :: "'q \<Rightarrow> 'e res"
    and pop :: "'q \<Rightarrow> 'e \<times> 'q"
    and is_empty :: "'q \<Rightarrow> bool"
    and invar :: "'q \<Rightarrow> bool"
    and elems :: "'q \<Rightarrow> 'e multiset"
    and key :: "'e \<Rightarrow> int"
    and cap :: nat
  assumes push_ok: "invar q \<Longrightarrow> size (elems q) < cap \<Longrightarrow>
      \<exists>q'. push q e = Inr q' \<and> invar q' \<and> elems q' = add_mset e (elems q)"
    and push_full: "invar q \<Longrightarrow> size (elems q) \<ge> cap \<Longrightarrow> push q e = Inl Spin"
    and top_ok: "invar q \<Longrightarrow> elems q \<noteq> {#} \<Longrightarrow>
      \<exists>e. top q = Inr e \<and> e \<in># elems q \<and> (\<forall>e' \<in># elems q. key e \<le> key e')"
    and pop_ok: "invar q \<Longrightarrow> top q = Inr e \<Longrightarrow>
      \<exists>q'. pop q = (e, q') \<and> invar q' \<and> elems q = add_mset e (elems q')"
    and empty_iff: "invar q \<Longrightarrow> is_empty q \<longleftrightarrow> elems q = {#}"
    and top_empty: "is_empty q \<Longrightarrow> top q = Inl Spin"
begin

text \<open>Popping a non-empty queue yields an entry of least key, and keeps the rest.\<close>

lemma pop_min:
  assumes "invar q" "\<not> is_empty q"
  obtains e q' where "top q = Inr e" "pop q = (e, q')" "invar q'"
    "elems q = add_mset e (elems q')" "\<forall>e' \<in># elems q'. key e \<le> key e'"
proof -
  from assms have "elems q \<noteq> {#}" by (simp add: empty_iff)
  with top_ok [OF assms(1)] obtain e where e: "top q = Inr e" "\<forall>e' \<in># elems q. key e \<le> key e'"
    by blast
  from pop_ok [OF assms(1) e(1)] obtain q' where "pop q = (e, q')" "invar q'" "elems q = add_mset e (elems q')"
    by blast
  with e that show ?thesis by simp
qed

text \<open>Draining: successive pops yield keys in ascending order.\<close>

fun drain :: "nat \<Rightarrow> 'q \<Rightarrow> 'e list" where
  "drain 0 q = []"
| "drain (Suc n) q = fst (pop q) # drain n (snd (pop q))"

lemma drain_sorted:
  "invar q \<Longrightarrow> n = size (elems q) \<Longrightarrow> mset (drain n q) = elems q \<and> sorted (map key (drain n q))"
proof (induction n arbitrary: q)
  case 0
  then show ?case by simp
next
  case (Suc n)
  then have "elems q \<noteq> {#}" by auto
  with Suc.prems(1) have "\<not> is_empty q" by (simp add: empty_iff)
  with Suc.prems(1) obtain e q' where p: "pop q = (e, q')" "invar q'" "elems q = add_mset e (elems q')"
    and le: "\<forall>e' \<in># elems q'. key e \<le> key e'" by (rule pop_min) blast
  from p Suc.prems have "n = size (elems q')" by simp
  from Suc.IH [OF p(2) this] have IH: "mset (drain n q') = elems q'" "sorted (map key (drain n q'))" by auto
  then have "set (drain n q') = set_mset (elems q')" by (metis set_mset_mset)
  with IH p le show ?case by simp
qed

end

interpretation ph: priority_queue heap_push heap_gettop heap_pop heap_empty heap_wf heap_mset he_x
  "nat MAX_HEAP_SIZE"
proof (unfold_locales, goal_cases)
  case (1 q e)
  then have "hsize q < MAX_HEAP_SIZE" by (auto simp: MAX_HEAP_SIZE_def)
  with 1(1) show ?case by (rule heap_push_spec) blast
next
  case (2 q e)
  then show ?case by (auto simp: heap_push_def MAX_HEAP_SIZE_def)
next
  case (3 q)
  then have "hsize q \<noteq> 0" by (auto simp: heap_mset_def)
  with 3(1) show ?case using heap_gettop_spec [of q] by blast
next
  case (4 q e)
  then have "hsize q \<noteq> 0" "e = entry q 0" by (auto simp: heap_gettop_def heap_empty_def split: if_splits)
  with 4(1) show ?case using heap_pop_spec [of q] by metis
next
  case (5 q)
  then show ?case using size_heap_mset [of q]
    by (auto simp: heap_empty_def heap_wf_def simp flip: size_eq_0_iff_empty simp del: size_heap_mset)
next
  case (6 q)
  then show ?case by (simp add: heap_gettop_def)
qed

section \<open>Filling and emptying\<close>

fun push_all :: "heap_entry list \<Rightarrow> process_heap \<Rightarrow> process_heap res" where
  "push_all [] h = Inr h"
| "push_all (e # es) h = bindR (heap_push h e) (push_all es)"

fun pop_all :: "nat \<Rightarrow> process_heap \<Rightarrow> heap_entry list" where
  "pop_all 0 h = []"
| "pop_all (Suc n) h = fst (heap_pop h) # pop_all n (snd (heap_pop h))"

lemma pop_all_drain: "pop_all n h = ph.drain n h"
  by (induction n arbitrary: h) simp_all

lemma heap_init_wf: "heap_wf (heap_init h)" "heap_mset (heap_init h) = {#}"
  by (simp_all add: heap_wf_def heap_ordered_def heap_mset_def heap_init_def MAX_HEAP_SIZE_def)

lemma heap_init_size [simp]: "hsize (heap_init h) = 0"
  by (simp add: heap_init_def)

lemma push_all_spec:
  "heap_wf h \<Longrightarrow> nat (hsize h) + length es \<le> nat MAX_HEAP_SIZE \<Longrightarrow>
   \<exists>h'. push_all es h = Inr h' \<and> heap_wf h' \<and> heap_mset h' = mset es + heap_mset h"
proof (induction es arbitrary: h)
  case (Cons e es)
  then have "hsize h < MAX_HEAP_SIZE" "0 \<le> hsize h" by (auto simp: heap_wf_def MAX_HEAP_SIZE_def)
  with heap_push_spec [OF Cons.prems(1), of e] obtain h1 where
    h1: "heap_push h e = Inr h1" "heap_wf h1" "hsize h1 = hsize h + 1"
      "heap_mset h1 = add_mset e (heap_mset h)" by metis
  have "nat (hsize h1) + length es \<le> nat MAX_HEAP_SIZE" using Cons.prems(2) h1(3) \<open>0 \<le> hsize h\<close> by simp
  from Cons.IH [OF h1(2) this] h1 show ?case by auto
qed simp

text \<open>Heap order, as a check over the used slots.\<close>

lemma heap_ordered_list: "heap_ordered h \<longleftrightarrow>
    list_all (\<lambda>i. he_x (entry h (get_father i)) \<le> he_x (entry h i)) [1..hsize h - 1]"
  by (auto simp: heap_ordered_def list_all_iff)

section \<open>Properties\<close>

text \<open>\<open>heap_push\<close> on a well-formed heap with room keeps the heap well formed and adds
  exactly the pushed entry; on a full heap it never returns.\<close>

theorem heap_push_refines:
  assumes "heap_wf h"
  shows "if hsize h < MAX_HEAP_SIZE
    then \<exists>h'. heap_push h e = Inr h' \<and> heap_wf h' \<and> heap_mset h' = add_mset e (heap_mset h)
    else heap_push h e = Inl Spin"
proof -
  have "size (heap_mset h) < nat MAX_HEAP_SIZE \<longleftrightarrow> hsize h < MAX_HEAP_SIZE"
    using assms by (auto simp: heap_wf_def MAX_HEAP_SIZE_def)
  then show ?thesis using ph.push_ok [OF assms, of e] ph.push_full [OF assms, of e] by auto
qed

text \<open>C6: pushing up to 1024 entries into an initialised heap succeeds, and popping as many
  gives the same entries back in ascending order of their keys.\<close>

theorem heap_sorts:
  assumes "length xs \<le> nat MAX_HEAP_SIZE"
  shows "\<exists>h. push_all xs (heap_init h0) = Inr h \<and>
    mset (pop_all (length xs) h) = mset xs \<and> sorted (map he_x (pop_all (length xs) h))"
proof -
  from push_all_spec [OF heap_init_wf(1) [of h0], of xs] assms heap_init_wf(2) [of h0]
  obtain h where h: "push_all xs (heap_init h0) = Inr h" "heap_wf h" "heap_mset h = mset xs"
    by (auto simp: heap_init_def)
  with ph.drain_sorted [of h "length xs"] show ?thesis by (simp add: pop_all_drain)
qed

theorem heap_sorts_witness:
  "\<exists>h. push_all [\<lparr>he_proc = 1, he_x = 5\<rparr>, \<lparr>he_proc = 2, he_x = 3\<rparr>, \<lparr>he_proc = 3, he_x = 4\<rparr>]
      (heap_init \<lparr>entry = (\<lambda>_. \<lparr>he_proc = 0, he_x = 0\<rparr>), hsize = 0\<rparr>) = Inr h \<and>
    mset (pop_all 3 h) = {#\<lparr>he_proc = 1, he_x = 5\<rparr>, \<lparr>he_proc = 2, he_x = 3\<rparr>, \<lparr>he_proc = 3, he_x = 4\<rparr>#} \<and>
    sorted (map he_x (pop_all 3 h))"
  using heap_sorts [of "[\<lparr>he_proc = 1, he_x = 5\<rparr>, \<lparr>he_proc = 2, he_x = 3\<rparr>, \<lparr>he_proc = 3, he_x = 4\<rparr>]"
      "\<lparr>entry = (\<lambda>_. \<lparr>he_proc = 0, he_x = 0\<rparr>), hsize = 0\<rparr>"]
  by (simp add: MAX_HEAP_SIZE_def numeral_3_eq_3 del: push_all.simps pop_all.simps)

text \<open>\<open>heap_pop\<close> of an empty heap does not fail: it hands out the stale slot 0 and
  leaves the size at -1, so the heap no longer counts as empty and the next \<open>heap_push\<close>
  writes outside the array.\<close>

theorem heap_pop_empty_corrupts:
  assumes "heap_empty h"
  shows "fst (heap_pop h) = entry h 0 \<and> hsize (snd (heap_pop h)) = -1 \<and>
    \<not> heap_empty (snd (heap_pop h)) \<and> heap_push (snd (heap_pop h)) e = Inl Out_of_bounds"
proof -
  from assms have "heap_pop h = (entry h 0, h\<lparr>hsize := -1\<rparr>)"
    by (simp add: heap_empty_def heap_pop_def rearrange_topdown_def topdown_loop.simps get_lc_def)
  then show ?thesis by (simp add: heap_empty_def heap_push_def MAX_HEAP_SIZE_def)
qed

end
