(* ===== verification/Sched_State.thy ===== *)
theory Sched_State
  imports Proc_Struct Prio_Heap
begin

text \<open>
  The state the scheduler works on: the process blocks, \<open>current\<close> and \<open>idleproc\<close>
  (\<open>kern/process/proc.c\<close>), the four run queues and their ring, the timer list
  (\<open>kern/schedule/sched.c\<close>), the deadline heap (\<open>sched_MY.c\<close>) and the registers
  \<open>proc_run\<close> writes.  A run queue pointer is its index in \<open>__rq\<close>; a timer pointer is a
  \<open>nat\<close>.  Also the record of operations \<open>struct sched_class\<close> and the frame lemmas the
  components share.
\<close>

record run_queue =
  run_list :: "ptr list"
  proc_num :: "32 word"
  max_time_slice :: int

record timer_t =
  tm_expires :: "32 word"
  tm_proc :: "ptr option"

record sched_st =
  procs :: "ptr \<Rightarrow> proc_struct"
  current :: ptr
  idleproc :: ptr
  rqs :: "nat \<Rightarrow> run_queue"
  rq_ring :: "nat list_store"
  heap :: process_heap
  timer :: "nat \<Rightarrow> timer_t"
  timer_list :: "nat list"
  esp0 :: "32 word"
  cr3 :: "32 word"

definition NUM_RQ :: nat where "NUM_RQ = 4"

text \<open>Update of one process block and of one run queue.\<close>

definition upd_proc :: "ptr \<Rightarrow> (proc_struct \<Rightarrow> proc_struct) \<Rightarrow> sched_st \<Rightarrow> sched_st" where
  "upd_proc p f s = s\<lparr>procs := (procs s)(p := f (procs s p))\<rparr>"

definition upd_rq :: "nat \<Rightarrow> (run_queue \<Rightarrow> run_queue) \<Rightarrow> sched_st \<Rightarrow> sched_st" where
  "upd_rq q f s = s\<lparr>rqs := (rqs s)(q := f (rqs s q))\<rparr>"

lemma upd_proc_simps [simp]:
  "procs (upd_proc p f s) = (procs s)(p := f (procs s p))"
  "current (upd_proc p f s) = current s"
  "idleproc (upd_proc p f s) = idleproc s"
  "rqs (upd_proc p f s) = rqs s"
  "rq_ring (upd_proc p f s) = rq_ring s"
  "heap (upd_proc p f s) = heap s"
  "timer (upd_proc p f s) = timer s"
  "timer_list (upd_proc p f s) = timer_list s"
  by (simp_all add: upd_proc_def)

lemma upd_rq_simps [simp]:
  "procs (upd_rq q f s) = procs s"
  "current (upd_rq q f s) = current s"
  "idleproc (upd_rq q f s) = idleproc s"
  "rqs (upd_rq q g s) = (rqs s)(q := g (rqs s q))"
  "rq_ring (upd_rq q f s) = rq_ring s"
  "heap (upd_rq q f s) = heap s"
  "timer (upd_rq q f s) = timer s"
  "timer_list (upd_rq q f s) = timer_list s"
  by (simp_all add: upd_rq_def)

text \<open>\<open>list_empty(&(proc->run_link))\<close> is false when the process is linked in a run queue;
  \<open>list_del_init\<close> of the link takes it out of that queue.\<close>

definition run_linked :: "ptr \<Rightarrow> sched_st \<Rightarrow> bool" where
  "run_linked p s \<longleftrightarrow> list_ex (\<lambda>q. p \<in> set (run_list (rqs s q))) [0..<NUM_RQ]"

definition run_link_del :: "ptr \<Rightarrow> sched_st \<Rightarrow> sched_st" where
  "run_link_del p s = s\<lparr>rqs := (\<lambda>q. (rqs s q)\<lparr>run_list := remove1 p (run_list (rqs s q))\<rparr>)\<rparr>"

lemma run_link_del_simps [simp]:
  "procs (run_link_del p s) = procs s"
  "current (run_link_del p s) = current s"
  "idleproc (run_link_del p s) = idleproc s"
  "rqs (run_link_del p s) = (\<lambda>q. (rqs s q)\<lparr>run_list := remove1 p (run_list (rqs s q))\<rparr>)"
  "rq_ring (run_link_del p s) = rq_ring s"
  "heap (run_link_del p s) = heap s"
  "timer (run_link_del p s) = timer s"
  "timer_list (run_link_del p s) = timer_list s"
  by (simp_all add: run_link_del_def)

lemma run_linked_iff: "run_linked p s \<longleftrightarrow> (\<exists>q < NUM_RQ. p \<in> set (run_list (rqs s q)))"
  by (auto simp: run_linked_def list_ex_iff)

section \<open>Scheduling classes\<close>

record sched_class =
  sc_name :: string
  sc_init :: "nat \<Rightarrow> sched_st \<Rightarrow> sched_st res"
  sc_enqueue :: "nat \<Rightarrow> ptr \<Rightarrow> sched_st \<Rightarrow> sched_st res"
  sc_dequeue :: "nat \<Rightarrow> ptr \<Rightarrow> sched_st \<Rightarrow> sched_st res"
  sc_pick_next :: "nat \<Rightarrow> sched_st \<Rightarrow> ptr option res"
  sc_proc_tick :: "nat \<Rightarrow> ptr \<Rightarrow> sched_st \<Rightarrow> sched_st res"

text \<open>The parts of the state no scheduling class looks at may change: two states agree for the
  class when the queues, the heap and the scheduling fields of the blocks agree.\<close>

definition same_sched :: "sched_st \<Rightarrow> sched_st \<Rightarrow> bool" where
  "same_sched s s' \<longleftrightarrow> rqs s' = rqs s \<and> rq_ring s' = rq_ring s \<and> heap s' = heap s \<and>
     (\<forall>x. p_pt (procs s' x) = p_pt (procs s x) \<and> p_rq (procs s' x) = p_rq (procs s x) \<and>
          p_time_slice (procs s' x) = p_time_slice (procs s x))"

text \<open>The parts of the state a scheduling class may not change: who runs, the timers, and of
  every block the process state, the wait reason, the deadline and the run count.\<close>

definition same_kernel :: "sched_st \<Rightarrow> sched_st \<Rightarrow> bool" where
  "same_kernel s s' \<longleftrightarrow> current s' = current s \<and> idleproc s' = idleproc s \<and>
     timer s' = timer s \<and> timer_list s' = timer_list s \<and>
     (\<forall>x. p_state (procs s' x) = p_state (procs s x) \<and> p_pt (procs s' x) = p_pt (procs s x) \<and>
          p_runs (procs s' x) = p_runs (procs s x) \<and> p_wait_state (procs s' x) = p_wait_state (procs s x))"

lemma same_kernelD:
  assumes "same_kernel s s'"
  shows "current s' = current s" "idleproc s' = idleproc s" "timer s' = timer s"
    "timer_list s' = timer_list s" "p_state (procs s' x) = p_state (procs s x)"
    "p_pt (procs s' x) = p_pt (procs s x)" "p_runs (procs s' x) = p_runs (procs s x)"
    "p_wait_state (procs s' x) = p_wait_state (procs s x)"
  using assms by (simp_all add: same_kernel_def)

lemma same_kernel_trans: "same_kernel s s' \<Longrightarrow> same_kernel s' s'' \<Longrightarrow> same_kernel s s''"
  by (simp add: same_kernel_def)

lemma same_sched_trans: "same_sched s s' \<Longrightarrow> same_sched s' s'' \<Longrightarrow> same_sched s s''"
  by (simp add: same_sched_def)

text \<open>
  What \<open>schedule\<close> relies on, for a class working on the queue \<open>rq\<close>: the class represents
  a finite set of waiting processes; \<open>enqueue\<close> adds one while there is room; \<open>pick_next\<close>
  names one of them that its policy prefers to every other; \<open>dequeue\<close> of that one removes it.
\<close>

locale sched_policy =
  fixes cls :: sched_class
    and rq :: nat
    and waiting :: "sched_st \<Rightarrow> ptr set"
    and ok :: "sched_st \<Rightarrow> bool"
    and room :: "sched_st \<Rightarrow> bool"
    and prefers :: "sched_st \<Rightarrow> ptr \<Rightarrow> ptr \<Rightarrow> bool"
  assumes enqueue_ok: "ok s \<Longrightarrow> room s \<Longrightarrow> p \<notin> waiting s \<Longrightarrow>
      \<exists>s'. sc_enqueue cls rq p s = Inr s' \<and> ok s' \<and> waiting s' = insert p (waiting s)"
    and enqueue_kernel: "sc_enqueue cls rq p s = Inr s' \<Longrightarrow> same_kernel s s'"
    and pick_ok: "ok s \<Longrightarrow> waiting s \<noteq> {} \<Longrightarrow>
      \<exists>p. sc_pick_next cls rq s = Inr (Some p) \<and> p \<in> waiting s \<and>
        (\<forall>x \<in> waiting s. prefers s p x)"
    and dequeue_ok: "ok s \<Longrightarrow> p \<in> waiting s \<Longrightarrow> sc_pick_next cls rq s = Inr (Some p) \<Longrightarrow>
      \<exists>s'. sc_dequeue cls rq p s = Inr s' \<and> ok s' \<and> waiting s' = waiting s - {p}"
    and dequeue_kernel: "sc_dequeue cls rq p s = Inr s' \<Longrightarrow> same_kernel s s'"
    and finite_waiting: "ok s \<Longrightarrow> finite (waiting s)"
    and ok_same: "ok s \<Longrightarrow> same_sched s s' \<Longrightarrow>
      ok s' \<and> waiting s' = waiting s \<and> (room s \<longrightarrow> room s')"

section \<open>A concrete state\<close>

text \<open>A machine before \<open>sched_init\<close>: every block blank, every queue and the heap empty,
  the idle process 0 running.  The examples of the development start from it.\<close>

definition blank_proc :: proc_struct where
  "blank_proc = alloc_proc 0 \<lparr>p_state = PROC_UNINIT, p_pid = 0, p_runs = 0, p_kstack = 0,
     p_need_resched = False, p_parent = None, p_mm = None, p_context = zero_context, p_tf = None,
     p_cr3 = 0, p_flags = 0, p_name = [], p_exit_code = 0, p_wait_state = 0, p_cptr = None,
     p_yptr = None, p_optr = None, p_rq = None, p_time_slice = 0, p_isRT = False,
     p_compute_time = 0, p_period_time = 0, p_ct = 0, p_pt = 0\<rparr>"

definition blank_st :: sched_st where
  "blank_st = \<lparr>procs = (\<lambda>_. blank_proc), current = 0, idleproc = 0,
     rqs = (\<lambda>_. \<lparr>run_list = [], proc_num = 0, max_time_slice = 0\<rparr>),
     rq_ring = \<lparr>prev_of = id, next_of = id\<rparr>,
     heap = \<lparr>entry = (\<lambda>_. \<lparr>he_proc = 0, he_x = 0\<rparr>), hsize = 0\<rparr>,
     timer = (\<lambda>_. \<lparr>tm_expires = 0, tm_proc = None\<rparr>), timer_list = [], esp0 = 0, cr3 = 0\<rparr>"

text \<open>A real-time process with \<open>pt\<close> ticks to its deadline, in the queue \<open>rq\<close>.\<close>

definition rt_proc :: "nat option \<Rightarrow> int \<Rightarrow> int \<Rightarrow> int \<Rightarrow> proc_struct" where
  "rt_proc rq c ct pt = blank_proc\<lparr>p_state := PROC_RUNNABLE, p_isRT := True, p_rq := rq,
     p_compute_time := c, p_period_time := 20, p_ct := ct, p_pt := pt\<rparr>"

end
