(* ===== verification/Sched_EDF.thy ===== *)
theory Sched_EDF
  imports Sched_State
begin

text \<open>
  The earliest-deadline-first class of \<open>kern/schedule/sched_MY.c\<close>.  The abstraction is
  \<open>edf_repr s R\<close>: the heap is well formed and holds, for each process of the finite set
  \<open>R\<close>, exactly one entry, whose key is the current deadline \<open>pt\<close> of the process.  Every
  operation is shown to act on \<open>R\<close>, and a timer tick to lower every deadline by one or to
  panic because of a missed one.  The class is an instance of \<open>sched_policy\<close> with the
  policy \<open>pt p \<le> pt x\<close>.
\<close>

section \<open>The operations\<close>

definition MY_init :: "nat \<Rightarrow> sched_st \<Rightarrow> sched_st res" where
  "MY_init rq s =
     Inr (upd_rq rq (\<lambda>q. q\<lparr>proc_num := 0\<rparr>) (s\<lparr>heap := heap_init (heap s)\<rparr>))"

definition MY_enqueue :: "nat \<Rightarrow> ptr \<Rightarrow> sched_st \<Rightarrow> sched_st res" where
  "MY_enqueue rq p s =
     (let s1 = upd_proc p (\<lambda>b. b\<lparr>p_rq := Some rq\<rparr>) s;
          s2 = upd_rq rq (\<lambda>q. q\<lparr>proc_num := proc_num q + 1\<rparr>) s1;
          elm = \<lparr>he_proc = p, he_x = p_pt (procs s2 p)\<rparr>
      in bindR (heap_push (heap s2) elm) (\<lambda>h. Inr (s2\<lparr>heap := h\<rparr>)))"

definition MY_dequeue :: "nat \<Rightarrow> ptr \<Rightarrow> sched_st \<Rightarrow> sched_st res" where
  "MY_dequeue rq p s =
     bindR (assertR (\<not> heap_empty (heap s) \<and> p_rq (procs s p) = Some rq)
              ''!heap_empty(heap) && proc->rq == rq'') (\<lambda>_.
       let s1 = upd_rq rq (\<lambda>q. q\<lparr>proc_num := proc_num q - 1\<rparr>) s
       in if \<not> heap_empty (heap s1)
          then (let (elm, h) = heap_pop (heap s1) in Inr (s1\<lparr>heap := h\<rparr>))
          else Inr s1)"

definition MY_pick_next :: "nat \<Rightarrow> sched_st \<Rightarrow> ptr option res" where
  "MY_pick_next rq s =
     (if heap_empty (heap s) then Inl (Panic ''sched_MY.c pick_next: heap is empty!'')
      else bindR (heap_gettop (heap s)) (\<lambda>elm. Inr (Some (he_proc elm))))"

text \<open>\<open>heap_exist_earlier_deadline\<close>.\<close>

definition heap_exist_earlier_deadline :: "process_heap \<Rightarrow> int \<Rightarrow> bool res" where
  "heap_exist_earlier_deadline h deadline =
     bindR (heap_gettop h) (\<lambda>elm. Inr (he_x elm < deadline))"

text \<open>\<open>tick_decrease_pt_heap\<close>: one turn of the loop, then the loop over the indices.\<close>

definition tick_entry :: "int \<Rightarrow> sched_st \<Rightarrow> sched_st res" where
  "tick_entry i s =
     bindR (chk32 (he_x (entry (heap s) i) - 1)) (\<lambda>x.
     let s1 = s\<lparr>heap := (heap s)\<lparr>entry := (entry (heap s))(i := (entry (heap s) i)\<lparr>he_x := x\<rparr>)\<rparr>\<rparr>;
         p = he_proc (entry (heap s1) i)
     in bindR (chk32 (p_pt (procs s1 p) - 1)) (\<lambda>pt.
     let s2 = upd_proc p (\<lambda>b. b\<lparr>p_pt := pt\<rparr>) s1; b = procs s2 p
     in if p_pt b = 0 \<and> p_ct b < p_compute_time b
        then Inl (Panic ''pt == 0 but ct (process in run queue)'')
        else if p_pt b < 0 then Inl (Panic ''pt of RT proc < 0! RT schedule failure!'')
        else Inr s2))"

fun tick_entries :: "int list \<Rightarrow> sched_st \<Rightarrow> sched_st res" where
  "tick_entries [] s = Inr s"
| "tick_entries (i # is) s = bindR (tick_entry i s) (tick_entries is)"

definition tick_decrease_pt_heap :: "sched_st \<Rightarrow> sched_st res" where
  "tick_decrease_pt_heap s = tick_entries [0..hsize (heap s) - 1] s"

text \<open>The first half of \<open>MY_proc_tick\<close>: accounting for the process that ran.\<close>

definition tick_current :: "ptr \<Rightarrow> sched_st \<Rightarrow> sched_st res" where
  "tick_current p s =
     (if \<not> p_isRT (procs s p) then Inr (upd_proc p (\<lambda>b. b\<lparr>p_need_resched := True\<rparr>) s)
      else
        bindR (if p_ct (procs s p) < p_compute_time (procs s p)
               then bindR (chk32 (p_ct (procs s p) + 1)) (\<lambda>ct.
                    bindR (chk32 (p_pt (procs s p) - 1)) (\<lambda>pt.
                      Inr (upd_proc p (\<lambda>b. b\<lparr>p_ct := ct, p_pt := pt\<rparr>) s)))
               else Inr s) (\<lambda>s1.
        let b = procs s1 p
        in if p_pt b = 0 \<and> p_ct b < p_compute_time b
           then Inl (Panic ''pt == 0 but ct (current process)'')
           else if p_ct b = p_compute_time b
           then bindR (chk32 (p_pt b + p_period_time b)) (\<lambda>pt.
                  Inr (upd_proc p (\<lambda>b. b\<lparr>p_need_resched := True, p_ct := 0, p_pt := pt\<rparr>) s1))
           else Inr s1))"

definition MY_proc_tick :: "nat \<Rightarrow> ptr \<Rightarrow> sched_st \<Rightarrow> sched_st res" where
  "MY_proc_tick rq p s =
     bindR (tick_current p s) (\<lambda>s1.
     bindR (tick_decrease_pt_heap s1) (\<lambda>s2.
     bindR (heap_exist_earlier_deadline (heap s2) (p_pt (procs s2 p))) (\<lambda>earlier.
       Inr (if earlier then upd_proc p (\<lambda>b. b\<lparr>p_need_resched := True\<rparr>) s2 else s2))))"

text \<open>The variants of the two scans that walk the run list instead of the heap; nothing calls
  them.  They look at real-time processes only.\<close>

fun rq_exist_earlier_deadline_walk :: "ptr list \<Rightarrow> int \<Rightarrow> sched_st \<Rightarrow> bool" where
  "rq_exist_earlier_deadline_walk [] deadline s = False"
| "rq_exist_earlier_deadline_walk (p # ps) deadline s =
     (if p_isRT (procs s p) \<and> p_pt (procs s p) < deadline then True
      else rq_exist_earlier_deadline_walk ps deadline s)"

definition rq_exist_earlier_deadline :: "nat \<Rightarrow> int \<Rightarrow> sched_st \<Rightarrow> bool" where
  "rq_exist_earlier_deadline rq deadline s =
     rq_exist_earlier_deadline_walk (run_list (rqs s rq)) deadline s"

fun tick_decrease_RT_walk :: "ptr list \<Rightarrow> sched_st \<Rightarrow> sched_st res" where
  "tick_decrease_RT_walk [] s = Inr s"
| "tick_decrease_RT_walk (p # ps) s =
     (if p_isRT (procs s p) then
        bindR (chk32 (p_pt (procs s p) - 1)) (\<lambda>pt.
        let s1 = upd_proc p (\<lambda>b. b\<lparr>p_pt := pt\<rparr>) s; b = procs s1 p
        in if p_pt b = 0 \<and> p_ct b < p_compute_time b
           then Inl (Panic ''pt == 0 but ct (process in run queue)'')
           else if p_pt b < 0 then Inl (Panic ''pt of RT proc < 0! RT schedule failure!'')
           else tick_decrease_RT_walk ps s1)
      else tick_decrease_RT_walk ps s)"

definition tick_decrease_RT_pt :: "nat \<Rightarrow> ptr \<Rightarrow> sched_st \<Rightarrow> sched_st res" where
  "tick_decrease_RT_pt rq currentproc s = tick_decrease_RT_walk (run_list (rqs s rq)) s"

definition MY_sched_class :: sched_class where
  "MY_sched_class = \<lparr>sc_name = ''MY_scheduler'', sc_init = MY_init, sc_enqueue = MY_enqueue,
     sc_dequeue = MY_dequeue, sc_pick_next = MY_pick_next, sc_proc_tick = MY_proc_tick\<rparr>"

lemma MY_sched_class_simps [simp]:
  "sc_init MY_sched_class = MY_init" "sc_enqueue MY_sched_class = MY_enqueue"
  "sc_dequeue MY_sched_class = MY_dequeue" "sc_pick_next MY_sched_class = MY_pick_next"
  "sc_proc_tick MY_sched_class = MY_proc_tick"
  by (simp_all add: MY_sched_class_def)

section \<open>The set of waiting processes\<close>

definition edf_entry :: "sched_st \<Rightarrow> ptr \<Rightarrow> heap_entry" where
  "edf_entry s p = \<lparr>he_proc = p, he_x = p_pt (procs s p)\<rparr>"

definition edf_repr :: "nat \<Rightarrow> sched_st \<Rightarrow> ptr set \<Rightarrow> bool" where
  "edf_repr rq s R \<longleftrightarrow> heap_wf (heap s) \<and> finite R \<and>
     heap_mset (heap s) = image_mset (edf_entry s) (mset_set R) \<and>
     (\<forall>p \<in> R. p_rq (procs s p) = Some rq)"

definition edf_waiting :: "sched_st \<Rightarrow> ptr set" where
  "edf_waiting s = he_proc ` set_mset (heap_mset (heap s))"

definition edf_ok :: "nat \<Rightarrow> sched_st \<Rightarrow> bool" where
  "edf_ok rq s \<longleftrightarrow> edf_repr rq s (edf_waiting s)"

definition edf_room :: "sched_st \<Rightarrow> bool" where
  "edf_room s \<longleftrightarrow> hsize (heap s) < MAX_HEAP_SIZE"

definition edf_prefers :: "sched_st \<Rightarrow> ptr \<Rightarrow> ptr \<Rightarrow> bool" where
  "edf_prefers s p x \<longleftrightarrow> p_pt (procs s p) \<le> p_pt (procs s x)"

lemma edf_entry_simps [simp]:
  "he_proc (edf_entry s p) = p" "he_x (edf_entry s p) = p_pt (procs s p)"
  by (simp_all add: edf_entry_def)

lemma edf_repr_waiting: "edf_repr rq s R \<Longrightarrow> edf_waiting s = R"
  by (auto simp: edf_repr_def edf_waiting_def image_image)

lemma edf_ok_repr: "edf_ok rq s \<longleftrightarrow> (\<exists>R. edf_repr rq s R)"
  using edf_repr_waiting by (auto simp: edf_ok_def)

lemma edf_repr_size: "edf_repr rq s R \<Longrightarrow> hsize (heap s) = int (card R)"
  using size_heap_mset [of "heap s"] by (auto simp: edf_repr_def heap_wf_def)

lemma edf_repr_empty: "edf_repr rq s R \<Longrightarrow> heap_empty (heap s) \<longleftrightarrow> R = {}"
  using edf_repr_size [of rq s R] by (auto simp: heap_empty_def) (simp add: edf_repr_def)

lemma edf_repr_cong:
  assumes "edf_repr rq s R" "heap s' = heap s"
    "\<And>p. p \<in> R \<Longrightarrow> p_pt (procs s' p) = p_pt (procs s p) \<and> p_rq (procs s' p) = p_rq (procs s p)"
  shows "edf_repr rq s' R"
proof -
  have "image_mset (edf_entry s') (mset_set R) = image_mset (edf_entry s) (mset_set R)"
    using assms by (intro image_mset_cong) (auto simp: edf_entry_def edf_repr_def)
  with assms show ?thesis by (simp add: edf_repr_def)
qed

section \<open>Enqueue, pick, dequeue\<close>

lemma MY_init_spec: "\<exists>s'. MY_init rq s = Inr s' \<and> edf_repr rq s' {}"
  by (simp add: edf_repr_def MY_init_def heap_init_def heap_wf_def heap_ordered_def heap_mset_def
      MAX_HEAP_SIZE_def)

lemma MY_enqueue_spec:
  assumes r: "edf_repr rq s R" and p: "p \<notin> R" and c: "hsize (heap s) < MAX_HEAP_SIZE"
  obtains h where "MY_enqueue rq p s =
      Inr ((upd_rq rq (\<lambda>q. q\<lparr>proc_num := proc_num q + 1\<rparr>)
             (upd_proc p (\<lambda>b. b\<lparr>p_rq := Some rq\<rparr>) s))\<lparr>heap := h\<rparr>)"
    "edf_repr rq ((upd_rq rq (\<lambda>q. q\<lparr>proc_num := proc_num q + 1\<rparr>)
             (upd_proc p (\<lambda>b. b\<lparr>p_rq := Some rq\<rparr>) s))\<lparr>heap := h\<rparr>) (insert p R)"
proof -
  let ?e = "\<lparr>he_proc = p, he_x = p_pt (procs s p)\<rparr>"
  from r have wf: "heap_wf (heap s)" by (simp add: edf_repr_def)
  from heap_push_spec [OF wf c, of ?e] obtain h where h: "heap_push (heap s) ?e = Inr h"
    "heap_wf h" "heap_mset h = add_mset ?e (heap_mset (heap s))" by metis
  let ?s = "(upd_rq rq (\<lambda>q. q\<lparr>proc_num := proc_num q + 1\<rparr>)
             (upd_proc p (\<lambda>b. b\<lparr>p_rq := Some rq\<rparr>) s))\<lparr>heap := h\<rparr>"
  have "image_mset (edf_entry ?s) (mset_set R) = image_mset (edf_entry s) (mset_set R)"
    using r by (intro image_mset_cong) (auto simp: edf_entry_def edf_repr_def)
  then have "edf_repr rq ?s (insert p R)"
    using r p h by (auto simp: edf_repr_def edf_entry_def)
  with h show ?thesis by (intro that [of h]) (simp_all add: MY_enqueue_def)
qed

lemma MY_pick_next_spec:
  assumes r: "edf_repr rq s R" and ne: "R \<noteq> {}"
  obtains p where "MY_pick_next rq s = Inr (Some p)" "p \<in> R"
    "heap_gettop (heap s) = Inr (edf_entry s p)"
    "\<forall>x \<in> R. p_pt (procs s p) \<le> p_pt (procs s x)"
proof -
  from r have wf: "heap_wf (heap s)" and m: "heap_mset (heap s) = image_mset (edf_entry s) (mset_set R)"
    and fin: "finite R" by (auto simp: edf_repr_def)
  have "\<not> heap_empty (heap s)" using edf_repr_empty [OF r] ne by simp
  with ph.pop_min [OF wf] obtain e where top: "heap_gettop (heap s) = Inr e" by metis
  have "heap_mset (heap s) \<noteq> {#}" using m fin ne by (simp add: mset_set_empty_iff)
  with ph.top_ok [OF wf] top have e: "e \<in># heap_mset (heap s)" "\<forall>e' \<in># heap_mset (heap s). he_x e \<le> he_x e'"
    by auto
  from e(1) m fin obtain p where p: "p \<in> R" "e = edf_entry s p" by auto
  with e(2) m fin have "\<forall>x \<in> R. p_pt (procs s p) \<le> p_pt (procs s x)" by auto
  with p top \<open>\<not> heap_empty (heap s)\<close> show ?thesis
    by (intro that [of p]) (auto simp: MY_pick_next_def)
qed

lemma MY_dequeue_spec:
  assumes r: "edf_repr rq s R" and p: "MY_pick_next rq s = Inr (Some p)"
  obtains h where "MY_dequeue rq p s =
      Inr ((upd_rq rq (\<lambda>q. q\<lparr>proc_num := proc_num q - 1\<rparr>) s)\<lparr>heap := h\<rparr>)"
    "edf_repr rq ((upd_rq rq (\<lambda>q. q\<lparr>proc_num := proc_num q - 1\<rparr>) s)\<lparr>heap := h\<rparr>) (R - {p})"
proof -
  from p have "\<not> heap_empty (heap s)" by (auto simp: MY_pick_next_def split: if_splits)
  with edf_repr_empty [OF r] have "R \<noteq> {}" by simp
  from MY_pick_next_spec [OF r this] p have pR: "p \<in> R" and top: "heap_gettop (heap s) = Inr (edf_entry s p)"
    by auto
  from r have wf: "heap_wf (heap s)" by (simp add: edf_repr_def)
  from ph.pop_ok [OF wf top] obtain h where h: "heap_pop (heap s) = (edf_entry s p, h)" "heap_wf h"
    "heap_mset (heap s) = add_mset (edf_entry s p) (heap_mset h)" by blast
  let ?s = "(upd_rq rq (\<lambda>q. q\<lparr>proc_num := proc_num q - 1\<rparr>) s)\<lparr>heap := h\<rparr>"
  have "edf_entry ?s = edf_entry s" by (auto simp: edf_entry_def fun_eq_iff)
  moreover have "mset_set R = add_mset p (mset_set (R - {p}))"
    using pR r by (metis edf_repr_def mset_set.remove)
  ultimately have "edf_repr rq ?s (R - {p})"
    using r h by (auto simp: edf_repr_def)
  then show ?thesis using h \<open>\<not> heap_empty (heap s)\<close> pR r
    by (intro that [of h]) (auto simp: MY_dequeue_def edf_repr_def)
qed

lemma MY_enqueue_ok:
  assumes "edf_repr rq s R" "p \<notin> R" "hsize (heap s) < MAX_HEAP_SIZE"
  shows "\<exists>s'. MY_enqueue rq p s = Inr s' \<and> edf_repr rq s' (insert p R)"
  by (rule MY_enqueue_spec [OF assms]) blast

lemma MY_dequeue_ok:
  assumes "edf_repr rq s R" "MY_pick_next rq s = Inr (Some p)"
  shows "\<exists>s'. MY_dequeue rq p s = Inr s' \<and> edf_repr rq s' (R - {p})"
  by (rule MY_dequeue_spec [OF assms]) blast

lemma MY_enqueue_kernel: "MY_enqueue rq p s = Inr s' \<Longrightarrow> same_kernel s s'"
  by (auto simp: MY_enqueue_def res_simps same_kernel_def)

lemma MY_dequeue_kernel: "MY_dequeue rq p s = Inr s' \<Longrightarrow> same_kernel s s'"
  by (auto simp: MY_dequeue_def res_simps same_kernel_def split: if_splits prod.splits)

interpretation edf: sched_policy MY_sched_class rq edf_waiting "edf_ok rq" edf_room edf_prefers for rq
proof (unfold_locales, goal_cases)
  case (1 s p)
  then obtain R where r: "edf_repr rq s R" by (auto simp: edf_ok_repr)
  with 1 have "p \<notin> R" "hsize (heap s) < MAX_HEAP_SIZE"
    by (simp_all add: edf_repr_waiting edf_room_def)
  from MY_enqueue_ok [OF r this] obtain s' where "MY_enqueue rq p s = Inr s'"
    "edf_repr rq s' (insert p R)" by blast
  with edf_repr_waiting [OF r] edf_repr_waiting show ?case by (auto simp: edf_ok_repr)
next
  case 2
  then show ?case by (simp add: MY_enqueue_kernel)
next
  case (3 s)
  then obtain R where r: "edf_repr rq s R" by (auto simp: edf_ok_repr)
  with 3 have "R \<noteq> {}" by (simp add: edf_repr_waiting)
  from MY_pick_next_spec [OF r this] show ?case
    using edf_repr_waiting [OF r] by (metis MY_sched_class_simps(4) edf_prefers_def)
next
  case (4 s p)
  then obtain R where r: "edf_repr rq s R" by (auto simp: edf_ok_repr)
  have "MY_pick_next rq s = Inr (Some p)" using 4 by simp
  from MY_dequeue_ok [OF r this] obtain s' where "MY_dequeue rq p s = Inr s'"
    "edf_repr rq s' (R - {p})" by blast
  with edf_repr_waiting [OF r] edf_repr_waiting show ?case by (auto simp: edf_ok_repr)
next
  case 5
  then show ?case by (simp add: MY_dequeue_kernel)
next
  case (6 s)
  then show ?case by (simp add: edf_ok_def edf_repr_def)
next
  case (7 s s')
  then have w: "edf_waiting s' = edf_waiting s" by (simp add: edf_waiting_def same_sched_def)
  moreover have "edf_repr rq s' (edf_waiting s)"
    by (rule edf_repr_cong [of rq s]) (use 7 in \<open>auto simp: edf_ok_def same_sched_def\<close>)
  ultimately show ?case using 7 by (simp add: edf_ok_def edf_room_def same_sched_def)
qed

section \<open>The timer tick\<close>

text \<open>The process in each slot of the heap; the slots and the waiting processes correspond one
  to one.\<close>

definition slot :: "sched_st \<Rightarrow> int \<Rightarrow> ptr" where
  "slot s i = he_proc (entry (heap s) i)"

lemma edf_repr_slots:
  "edf_repr rq s R \<longleftrightarrow> heap_wf (heap s) \<and> finite R \<and> bij_betw (slot s) {0..<hsize (heap s)} R \<and>
     (\<forall>i \<in> {0..<hsize (heap s)}. he_x (entry (heap s) i) = p_pt (procs s (slot s i))) \<and>
     (\<forall>p \<in> R. p_rq (procs s p) = Some rq)" (is "?L \<longleftrightarrow> ?R")
proof
  let ?A = "{0..<hsize (heap s)}"
  assume L: ?L
  then have m: "image_mset (entry (heap s)) (mset_set ?A) = image_mset (edf_entry s) (mset_set R)"
    and fin: "finite R" by (auto simp: edf_repr_def heap_mset_def)
  have slot: "slot s = (\<lambda>i. he_proc (entry (heap s) i))" by (simp add: fun_eq_iff slot_def)
  from arg_cong [OF m, of "image_mset he_proc"] have "image_mset (slot s) (mset_set ?A) = mset_set R"
    by (simp add: multiset.map_comp comp_def slot)
  then have bij: "bij_betw (slot s) ?A R" using fin by (intro image_mset_set_inj) auto
  have "entry (heap s) i \<in># image_mset (edf_entry s) (mset_set R)" if "i \<in> ?A" for i
    using that m by (metis atLeastLessThan_iff finite_atLeastLessThan_int finite_set_mset_mset_set
        image_eqI set_image_mset)
  then have "he_x (entry (heap s) i) = p_pt (procs s (slot s i))" if "i \<in> ?A" for i
    using that fin by (fastforce simp: slot_def)
  with L bij show ?R by (simp add: edf_repr_def)
next
  let ?A = "{0..<hsize (heap s)}"
  assume R: ?R
  have "heap_mset (heap s) = image_mset (\<lambda>i. edf_entry s (slot s i)) (mset_set ?A)"
    unfolding heap_mset_def
    by (rule image_mset_cong_set) (use R in \<open>auto simp: edf_entry_def slot_def\<close>)
  also have "\<dots> = image_mset (edf_entry s) (image_mset (slot s) (mset_set ?A))"
    by (simp add: multiset.map_comp comp_def)
  also have "image_mset (slot s) (mset_set ?A) = mset_set R"
    using R by (metis bij_betw_imp_inj_on bij_betw_imp_surj_on image_mset_mset_set)
  finally show ?L using R by (simp add: edf_repr_def)
qed

text \<open>The state after the entries \<open>I\<close> have been ticked.\<close>

definition dec_state :: "sched_st \<Rightarrow> int set \<Rightarrow> sched_st" where
  "dec_state s I = s\<lparr>
     heap := (heap s)\<lparr>entry := (\<lambda>i. if i \<in> I then (entry (heap s) i)\<lparr>he_x := he_x (entry (heap s) i) - 1\<rparr>
                                    else entry (heap s) i)\<rparr>,
     procs := (\<lambda>p. if p \<in> slot s ` I then (procs s p)\<lparr>p_pt := p_pt (procs s p) - 1\<rparr> else procs s p)\<rparr>"

definition tick_ok :: "proc_struct \<Rightarrow> bool" where
  "tick_ok b \<longleftrightarrow> in_int (p_pt b - 1) \<and> 1 \<le> p_pt b \<and> (p_pt b = 1 \<longrightarrow> p_compute_time b \<le> p_ct b)"

lemma dec_state_simps [simp]:
  "hsize (heap (dec_state s I)) = hsize (heap s)" "slot (dec_state s I) = slot s"
  "current (dec_state s I) = current s" "idleproc (dec_state s I) = idleproc s"
  "rqs (dec_state s I) = rqs s" "rq_ring (dec_state s I) = rq_ring s"
  "timer (dec_state s I) = timer s" "timer_list (dec_state s I) = timer_list s"
  by (simp_all add: dec_state_def slot_def fun_eq_iff)

lemma dec_state_procs:
  "procs (dec_state s I) p =
     (if p \<in> slot s ` I then (procs s p)\<lparr>p_pt := p_pt (procs s p) - 1\<rparr> else procs s p)"
  by (simp add: dec_state_def)

lemma dec_state_entry:
  "entry (heap (dec_state s I)) i =
     (if i \<in> I then (entry (heap s) i)\<lparr>he_x := he_x (entry (heap s) i) - 1\<rparr> else entry (heap s) i)"
  by (simp add: dec_state_def)

lemma dec_state_regs: "esp0 (dec_state s I) = esp0 s" "cr3 (dec_state s I) = cr3 s"
  by (simp_all add: dec_state_def)

lemma dec_state_empty [simp]: "dec_state s {} = s"
  by (simp add: dec_state_def)

lemma dec_state_insert:
  "i \<notin> I \<Longrightarrow> slot s i \<notin> slot s ` I \<Longrightarrow> dec_state (dec_state s {i}) I = dec_state s (insert i I)"
proof -
  assume i: "i \<notin> I" "slot s i \<notin> slot s ` I"
  have "procs (dec_state (dec_state s {i}) I) p = procs (dec_state s (insert i I)) p" for p
    using i(2) by (cases "p = slot s i") (simp_all add: dec_state_procs)
  then have p: "procs (dec_state (dec_state s {i}) I) = procs (dec_state s (insert i I))" ..
  have "entry (heap (dec_state (dec_state s {i}) I)) j = entry (heap (dec_state s (insert i I))) j" for j
    using i(1) by (cases "j = i") (simp_all add: dec_state_entry)
  then have h: "entry (heap (dec_state (dec_state s {i}) I)) = entry (heap (dec_state s (insert i I)))" ..
  show ?thesis
    by (intro sched_st.equality process_heap.equality) (simp_all add: p h dec_state_regs)
qed

lemma tick_entry_spec:
  assumes "he_x (entry (heap s) i) = p_pt (procs s (slot s i))"
  shows "tick_ok (procs s (slot s i)) \<Longrightarrow> tick_entry i s = Inr (dec_state s {i})"
    and "\<not> tick_ok (procs s (slot s i)) \<Longrightarrow> \<exists>e. tick_entry i s = Inl e"
  using assms
  by (auto simp: tick_entry_def tick_ok_def dec_state_def slot_def upd_proc_def chk32_def fun_eq_iff)

lemma tick_entries_spec:
  assumes "distinct is" "inj_on (slot s) (set is)"
    "\<forall>i \<in> set is. he_x (entry (heap s) i) = p_pt (procs s (slot s i))"
  shows "tick_entries is s = Inr s' \<longleftrightarrow> (\<forall>i \<in> set is. tick_ok (procs s (slot s i))) \<and> s' = dec_state s (set is)"
  using assms
proof (induction "is" arbitrary: s)
  case Nil
  then show ?case by auto
next
  case (Cons i "is")
  show ?case
  proof (cases "tick_ok (procs s (slot s i))")
    case False
    with tick_entry_spec(2) [of s i] Cons.prems(3) obtain e where "tick_entry i s = Inl e" by auto
    with False show ?thesis by simp
  next
    case True
    with tick_entry_spec(1) [of s i] Cons.prems(3) have t: "tick_entry i s = Inr (dec_state s {i})" by simp
    have new: "slot s i \<notin> slot s ` set is" using Cons.prems(1,2) by auto
    have other: "procs (dec_state s {i}) (slot s j) = procs s (slot s j)"
      "entry (heap (dec_state s {i})) j = entry (heap s) j" if "j \<in> set is" for j
    proof -
      from that new Cons.prems(1) have "slot s j \<noteq> slot s i" "j \<noteq> i" by (metis image_eqI, auto)
      then show "procs (dec_state s {i}) (slot s j) = procs s (slot s j)"
        "entry (heap (dec_state s {i})) j = entry (heap s) j" by (auto simp: dec_state_def)
    qed
    have "tick_entries is (dec_state s {i}) = Inr s' \<longleftrightarrow>
        (\<forall>j \<in> set is. tick_ok (procs s (slot s j))) \<and> s' = dec_state (dec_state s {i}) (set is)"
      using Cons.IH [of "dec_state s {i}"] Cons.prems other by (simp add: inj_on_def)
    with t True new Cons.prems(1) dec_state_insert [of i "set is" s] show ?thesis by simp
  qed
qed

lemma tick_decrease_spec:
  assumes r: "edf_repr rq s R"
  shows "tick_decrease_pt_heap s = Inr s' \<longleftrightarrow>
    (\<forall>p \<in> R. tick_ok (procs s p)) \<and> s' = dec_state s {0..<hsize (heap s)}"
proof -
  let ?A = "{0..<hsize (heap s)}"
  have A: "set [0..hsize (heap s) - 1] = ?A" by auto
  from r have bij: "bij_betw (slot s) ?A R"
    and x: "\<forall>i \<in> ?A. he_x (entry (heap s) i) = p_pt (procs s (slot s i))"
    by (auto simp: edf_repr_slots)
  have "(\<forall>i \<in> ?A. tick_ok (procs s (slot s i))) \<longleftrightarrow> (\<forall>p \<in> R. tick_ok (procs s p))"
    using bij_betw_imp_surj_on [OF bij] by auto
  then show ?thesis
    using tick_entries_spec [of "[0..hsize (heap s) - 1]" s s'] bij_betw_imp_inj_on [OF bij] x
    unfolding tick_decrease_pt_heap_def A by simp
qed

lemma dec_state_repr:
  assumes r: "edf_repr rq s R"
  shows "edf_repr rq (dec_state s {0..<hsize (heap s)}) R"
    and "procs (dec_state s {0..<hsize (heap s)}) p =
      (if p \<in> R then (procs s p)\<lparr>p_pt := p_pt (procs s p) - 1\<rparr> else procs s p)"
proof -
  let ?A = "{0..<hsize (heap s)}"
  let ?s = "dec_state s ?A"
  from r have bij: "bij_betw (slot s) ?A R" and wf: "heap_wf (heap s)"
    by (auto simp: edf_repr_slots)
  from bij have img: "slot s ` ?A = R" by (rule bij_betw_imp_surj_on)
  show procs: "procs ?s p = (if p \<in> R then (procs s p)\<lparr>p_pt := p_pt (procs s p) - 1\<rparr> else procs s p)" for p
    using img by (simp add: dec_state_procs)
  have "heap_ordered (heap ?s)"
    using wf get_father_bounds unfolding heap_wf_def heap_ordered_def
    by (fastforce simp: dec_state_def)
  then have "heap_wf (heap ?s)" using wf by (simp add: heap_wf_def)
  moreover have "he_x (entry (heap ?s) i) = p_pt (procs ?s (slot s i))" if "i \<in> ?A" for i
    using that r procs img by (auto simp: edf_repr_slots dec_state_def)
  ultimately show "edf_repr rq ?s R"
    using r bij procs by (simp add: edf_repr_slots)
qed

text \<open>Accounting touches only the current process, so it keeps the representation.\<close>

lemma tick_current_frame:
  assumes "tick_current p s = Inr s'"
  shows "heap s' = heap s" "q \<noteq> p \<Longrightarrow> procs s' q = procs s q" "current s' = current s"
    "idleproc s' = idleproc s" "p_state (procs s' p) = p_state (procs s p)"
    "p_rq (procs s' p) = p_rq (procs s p)" "rqs s' = rqs s" "timer_list s' = timer_list s"
  using assms
  by (auto simp: tick_current_def res_simps split: if_splits)

lemma tick_current_repr:
  assumes "edf_repr rq s R" "p \<notin> R" "tick_current p s = Inr s'"
  shows "edf_repr rq s' R"
  using assms tick_current_frame [OF assms(3)]
  by (intro edf_repr_cong [OF assms(1)]) metis+

text \<open>The tick as a whole: it returns exactly when the accounting returns, nothing waiting misses
  its deadline and something is waiting; then every waiting deadline is one lower and the
  current process is marked for rescheduling if it is no longer the most urgent.\<close>

lemma MY_proc_tick_spec:
  assumes r: "edf_repr rq s R" and p: "p \<notin> R" and ret: "MY_proc_tick rq p s = Inr s'"
  obtains s1 where "tick_current p s = Inr s1" "edf_repr rq s' R" "R \<noteq> {}"
    "\<And>x. x \<in> R \<Longrightarrow> tick_ok (procs s x) \<and> procs s' x = (procs s x)\<lparr>p_pt := p_pt (procs s x) - 1\<rparr>"
    "procs s' p = (procs s1 p)\<lparr>p_need_resched := p_need_resched (procs s1 p) \<or>
        (\<exists>x \<in> R. p_pt (procs s' x) < p_pt (procs s1 p))\<rparr>"
    "\<And>x. x \<notin> insert p R \<Longrightarrow> procs s' x = procs s x"
    "current s' = current s" "idleproc s' = idleproc s"
proof -
  from ret obtain s1 s2 b where s1: "tick_current p s = Inr s1"
    and s2: "tick_decrease_pt_heap s1 = Inr s2"
    and b: "heap_exist_earlier_deadline (heap s2) (p_pt (procs s2 p)) = Inr b"
    and s': "s' = (if b then upd_proc p (\<lambda>b. b\<lparr>p_need_resched := True\<rparr>) s2 else s2)"
    by (auto simp: MY_proc_tick_def res_simps)
  note fr = tick_current_frame [OF s1]
  from tick_current_repr [OF r p s1] have r1: "edf_repr rq s1 R" .
  from s2 tick_decrease_spec [OF r1] have ok: "\<forall>x \<in> R. tick_ok (procs s1 x)"
    and s2': "s2 = dec_state s1 {0..<hsize (heap s1)}" by auto
  note d = dec_state_repr [OF r1, folded s2']
  have ne: "R \<noteq> {}"
    using b edf_repr_empty [OF d(1)]
    by (auto simp: heap_exist_earlier_deadline_def heap_gettop_def res_simps split: if_splits)
  from MY_pick_next_spec [OF d(1) ne] obtain t where t: "t \<in> R"
      "heap_gettop (heap s2) = Inr (edf_entry s2 t)" "\<forall>x \<in> R. p_pt (procs s2 t) \<le> p_pt (procs s2 x)"
    by metis
  with b have b': "b \<longleftrightarrow> (\<exists>x \<in> R. p_pt (procs s2 x) < p_pt (procs s2 p))"
    by (auto simp: heap_exist_earlier_deadline_def intro: le_less_trans)
  have procs2: "procs s2 x = (if x \<in> R then (procs s1 x)\<lparr>p_pt := p_pt (procs s1 x) - 1\<rparr> else procs s1 x)" for x
    by (rule d(2))
  have rep: "edf_repr rq s' R"
    by (rule edf_repr_cong [OF d(1)]) (auto simp: s')
  have cur: "current s2 = current s" "idleproc s2 = idleproc s"
    using fr by (simp_all add: s2')
  have xR: "procs s1 x = procs s x" if "x \<in> R" for x using that p fr(2) by metis
  have pR: "procs s2 p = procs s1 p" using procs2 p by simp
  have sR: "procs s' x = procs s2 x" if "x \<noteq> p" for x using that by (simp add: s')
  have pts: "(\<exists>x \<in> R. p_pt (procs s' x) < p_pt (procs s1 p)) \<longleftrightarrow> b"
  proof -
    have "procs s' x = procs s2 x" if "x \<in> R" for x using that p sR by metis
    then show ?thesis using b' pR by simp
  qed
  show ?thesis
  proof (rule that [OF s1 rep ne])
    show "tick_ok (procs s x) \<and> procs s' x = (procs s x)\<lparr>p_pt := p_pt (procs s x) - 1\<rparr>" if "x \<in> R" for x
    proof -
      have "x \<noteq> p" using that p by metis
      moreover have "tick_ok (procs s1 x)" using ok that by blast
      ultimately show ?thesis using that sR [of x] procs2 [of x] xR [OF that] by simp
    qed
    show "procs s' p = (procs s1 p)\<lparr>p_need_resched := p_need_resched (procs s1 p) \<or>
        (\<exists>x \<in> R. p_pt (procs s' x) < p_pt (procs s1 p))\<rparr>"
      unfolding pts using pR by (simp add: s')
    show "procs s' x = procs s x" if "x \<notin> insert p R" for x
      using that sR procs2 fr(2) by simp
    show "current s' = current s" "idleproc s' = idleproc s" using cur by (simp_all add: s')
  qed
qed

lemma MY_proc_tick_returns:
  assumes r: "edf_repr rq s R" and p: "p \<notin> R" and ne: "R \<noteq> {}"
    and s1: "tick_current p s = Inr s1" and ok: "\<forall>x \<in> R. tick_ok (procs s x)"
  shows "\<exists>s'. MY_proc_tick rq p s = Inr s'"
proof -
  note fr = tick_current_frame [OF s1]
  from tick_current_repr [OF r p s1] have r1: "edf_repr rq s1 R" .
  have "\<forall>x \<in> R. tick_ok (procs s1 x)" using ok fr(2) p by metis
  with tick_decrease_spec [OF r1] obtain s2 where s2: "tick_decrease_pt_heap s1 = Inr s2"
    and s2': "s2 = dec_state s1 {0..<hsize (heap s1)}" by blast
  have "\<not> heap_empty (heap s2)"
    using edf_repr_empty [OF dec_state_repr(1) [OF r1, folded s2']] ne by simp
  with s1 s2 show ?thesis
    by (simp add: MY_proc_tick_def heap_exist_earlier_deadline_def heap_gettop_def)
qed

text \<open>With nothing waiting, the tick reads the top of an empty heap, which never returns.\<close>

lemma MY_proc_tick_empty:
  assumes r: "edf_repr rq s {}" and s1: "tick_current p s = Inr s1"
  shows "MY_proc_tick rq p s = Inl Spin"
proof -
  from tick_current_repr [OF r _ s1] have r1: "edf_repr rq s1 {}" by simp
  with tick_decrease_spec [OF r1] have "tick_decrease_pt_heap s1 = Inr s1"
    using edf_repr_size [OF r1] by simp
  moreover have "heap_gettop (heap s1) = Inl Spin"
    using edf_repr_empty [OF r1] by (simp add: ph.top_empty)
  ultimately show ?thesis
    using s1 by (simp add: MY_proc_tick_def heap_exist_earlier_deadline_def)
qed

section \<open>Properties\<close>

text \<open>The heap of one waiting process.\<close>

definition one_waiting :: "proc_struct \<Rightarrow> sched_st" where
  "one_waiting b = blank_st\<lparr>procs := (procs blank_st)(1 := rt_proc None 4 0 9, 2 := b\<lparr>p_rq := Some 0\<rparr>),
     current := 1, heap := \<lparr>entry = (\<lambda>_. \<lparr>he_proc = 2, he_x = p_pt b\<rparr>), hsize = 1\<rparr>\<rparr>"

lemma one_waiting_repr: "edf_repr 0 (one_waiting b) {2}"
proof -
  have "{0..<1} = {0::int}" by auto
  then show ?thesis
    by (simp add: edf_repr_def one_waiting_def heap_wf_def heap_ordered_def heap_mset_def edf_entry_def
        MAX_HEAP_SIZE_def)
qed

text \<open>C3: when a timer tick returns, every waiting process had at least one tick left before
  its deadline and has exactly one less after it; and if the running process is not marked for
  rescheduling, no waiting process has an earlier deadline than the running one.\<close>

theorem tick_counts_down:
  assumes "edf_repr rq s R" "p \<notin> R" "MY_proc_tick rq p s = Inr s'"
  shows "edf_repr rq s' R \<and>
    (\<forall>x \<in> R. 1 \<le> p_pt (procs s x) \<and> p_pt (procs s' x) = p_pt (procs s x) - 1 \<and>
       (p_pt (procs s' x) = 0 \<longrightarrow> p_compute_time (procs s x) \<le> p_ct (procs s x))) \<and>
    (\<not> p_need_resched (procs s' p) \<longrightarrow> (\<forall>x \<in> R. p_pt (procs s' p) \<le> p_pt (procs s' x)))"
proof (rule MY_proc_tick_spec [OF assms], goal_cases)
  case s1: (1 s1)
  from s1(5) have "p_pt (procs s' p) = p_pt (procs s1 p)"
    "p_need_resched (procs s' p) \<longleftrightarrow> p_need_resched (procs s1 p) \<or>
        (\<exists>x \<in> R. p_pt (procs s' x) < p_pt (procs s1 p))" by simp_all
  with s1(2,4) show ?thesis by (auto simp: tick_ok_def not_less)
qed

theorem tick_counts_down_witness:
  "\<exists>s'. MY_proc_tick 0 1 (one_waiting (rt_proc None 3 0 12)) = Inr s' \<and>
     p_pt (procs s' 2) = 11 \<and> \<not> p_need_resched (procs s' 1) \<and> p_pt (procs s' 1) \<le> p_pt (procs s' 2)"
proof -
  let ?s = "one_waiting (rt_proc None 3 0 12)"
  have pt: "p_pt (procs ?s 2) = 12" by (simp add: one_waiting_def rt_proc_def)
  obtain s' where s': "MY_proc_tick 0 1 ?s = Inr s'" "\<not> p_need_resched (procs s' 1)"
    by (simp add: one_waiting_def rt_proc_def blank_st_def blank_proc_def alloc_proc_def MY_proc_tick_def
        tick_current_def tick_decrease_pt_heap_def tick_entry_def upd_proc_def in_int_def INT_MAX_def
        INT_MIN_def heap_exist_earlier_deadline_def heap_gettop_def heap_empty_def)
  from tick_counts_down [OF one_waiting_repr _ this(1)] this pt show ?thesis by auto
qed

text \<open>C4: a process whose deadline passes while it waits stops the kernel: if a waiting process
  has no tick left, or one tick left and work to do, the tick does not return.\<close>

theorem tick_missed_deadline:
  assumes "edf_repr rq s R" "p \<notin> R" "x \<in> R"
    and "p_pt (procs s x) \<le> 0 \<or> p_pt (procs s x) = 1 \<and> p_ct (procs s x) < p_compute_time (procs s x)"
  shows "\<exists>e. MY_proc_tick rq p s = Inl e"
proof (cases "MY_proc_tick rq p s")
  case (Inr s')
  obtain s1 where "tick_current p s = Inr s1" "\<And>x. x \<in> R \<Longrightarrow> tick_ok (procs s x)"
    by (rule MY_proc_tick_spec [OF assms(1,2) Inr]) blast
  with assms(3,4) show ?thesis by (force simp: tick_ok_def)
qed simp

theorem tick_missed_deadline_witness:
  "\<exists>e. MY_proc_tick 0 1 (one_waiting (blank_proc\<lparr>p_state := PROC_RUNNABLE\<rparr>)) = Inl e"
  by (rule tick_missed_deadline [OF one_waiting_repr, of _ 2])
    (simp_all add: one_waiting_def blank_proc_def alloc_proc_def)

text \<open>C9: with no process waiting, a timer tick during any process but the idle one reads the
  top of the empty heap and spins for ever inside the interrupt.\<close>

theorem tick_alone_hangs:
  assumes "edf_repr rq s {}" "tick_current p s = Inr s1"
  shows "MY_proc_tick rq p s = Inl Spin"
  by (rule MY_proc_tick_empty [OF assms])

theorem tick_alone_hangs_witness: "MY_proc_tick 0 1 blank_st = Inl Spin"
  by (rule tick_alone_hangs)
    (simp_all add: edf_repr_def blank_st_def blank_proc_def alloc_proc_def heap_wf_def heap_ordered_def
      heap_mset_def MAX_HEAP_SIZE_def tick_current_def)

end
