(* ===== verification/Sched_RR.thy ===== *)
theory Sched_RR
  imports Sched_State
begin

text \<open>
  The round-robin class of \<open>kern/schedule/sched_RR.c\<close> and the multi-level feedback queue
  of \<open>kern/schedule/sched_MLFQ.c\<close>, which runs the round-robin operations on a ring of four
  queues.  Both are instances of \<open>sched_policy\<close>: round robin prefers the process that has
  waited longest, the feedback queue the process of the first non-empty level.  The loops over
  the ring carry fuel; \<open>NUM_RQ\<close> turns are enough because the ring has \<open>NUM_RQ\<close> queues
  (\<open>mlfq_pick_spec\<close>, \<open>MLFQ_init_spec\<close>).
\<close>

section \<open>Round robin\<close>

definition RR_init :: "nat \<Rightarrow> sched_st \<Rightarrow> sched_st res" where
  "RR_init rq s = Inr (upd_rq rq (\<lambda>q. q\<lparr>run_list := [], proc_num := 0\<rparr>) s)"

definition RR_enqueue :: "nat \<Rightarrow> ptr \<Rightarrow> sched_st \<Rightarrow> sched_st res" where
  "RR_enqueue rq p s =
     bindR (assertR (\<not> run_linked p s) ''list_empty(&(proc->run_link))'') (\<lambda>_.
       let s1 = upd_rq rq (\<lambda>q. q\<lparr>run_list := run_list q @ [p]\<rparr>) s;
           slice = p_time_slice (procs s1 p); max = max_time_slice (rqs s1 rq);
           s2 = (if slice = 0 \<or> slice > max
                 then upd_proc p (\<lambda>b. b\<lparr>p_time_slice := max\<rparr>) s1 else s1);
           s3 = upd_proc p (\<lambda>b. b\<lparr>p_rq := Some rq\<rparr>) s2
       in Inr (upd_rq rq (\<lambda>q. q\<lparr>proc_num := proc_num q + 1\<rparr>) s3))"

definition RR_dequeue :: "nat \<Rightarrow> ptr \<Rightarrow> sched_st \<Rightarrow> sched_st res" where
  "RR_dequeue rq p s =
     bindR (assertR (run_linked p s \<and> p_rq (procs s p) = Some rq)
              ''!list_empty(&(proc->run_link)) && proc->rq == rq'') (\<lambda>_.
       Inr (upd_rq rq (\<lambda>q. q\<lparr>proc_num := proc_num q - 1\<rparr>) (run_link_del p s)))"

definition RR_pick_next :: "nat \<Rightarrow> sched_st \<Rightarrow> ptr option res" where
  "RR_pick_next rq s = Inr (case run_list (rqs s rq) of [] \<Rightarrow> None | p # _ \<Rightarrow> Some p)"

definition RR_proc_tick :: "nat \<Rightarrow> ptr \<Rightarrow> sched_st \<Rightarrow> sched_st res" where
  "RR_proc_tick rq p s =
     (let s1 = (if p_time_slice (procs s p) > 0
                then upd_proc p (\<lambda>b. b\<lparr>p_time_slice := p_time_slice b - 1\<rparr>) s else s)
      in Inr (if p_time_slice (procs s1 p) = 0
              then upd_proc p (\<lambda>b. b\<lparr>p_need_resched := True\<rparr>) s1 else s1))"

definition RR_sched_class :: sched_class where
  "RR_sched_class = \<lparr>sc_name = ''RR_scheduler'', sc_init = RR_init, sc_enqueue = RR_enqueue,
     sc_dequeue = RR_dequeue, sc_pick_next = RR_pick_next, sc_proc_tick = RR_proc_tick\<rparr>"

section \<open>Multi-level feedback queue\<close>

text \<open>\<open>MLFQ_init\<close> sets the file's \<open>sched_class\<close> to the round-robin class; the
  operations below call it directly.\<close>

fun mlfq_init_loop :: "nat \<Rightarrow> nat \<Rightarrow> nat \<Rightarrow> sched_st \<Rightarrow> sched_st res" where
  "mlfq_init_loop 0 list le s = Inl Spin"
| "mlfq_init_loop (Suc n) list le s =
     bindR (sc_init RR_sched_class le s) (\<lambda>s1.
       let le' = list_next (rq_ring s1) le
       in if le' \<noteq> list then mlfq_init_loop n list le' s1 else Inr s1)"

definition MLFQ_init :: "nat \<Rightarrow> sched_st \<Rightarrow> sched_st res" where
  "MLFQ_init rq s = mlfq_init_loop NUM_RQ rq rq s"

definition MLFQ_enqueue :: "nat \<Rightarrow> ptr \<Rightarrow> sched_st \<Rightarrow> sched_st res" where
  "MLFQ_enqueue rq p s =
     bindR (assertR (\<not> run_linked p s) ''list_empty(&(proc->run_link))'') (\<lambda>_.
       let nrq = (case p_rq (procs s p) of
                    None \<Rightarrow> rq
                  | Some r \<Rightarrow> if p_time_slice (procs s p) = 0
                      then (let n = list_next (rq_ring s) r in if n = rq then r else n)
                      else rq)
       in sc_enqueue RR_sched_class nrq p s)"

definition MLFQ_dequeue :: "nat \<Rightarrow> ptr \<Rightarrow> sched_st \<Rightarrow> sched_st res" where
  "MLFQ_dequeue rq p s =
     bindR (assertR (run_linked p s) ''!list_empty(&(proc->run_link))'') (\<lambda>_.
     bindR (deref (p_rq (procs s p))) (\<lambda>r. sc_dequeue RR_sched_class r p s))"

fun mlfq_pick_loop :: "nat \<Rightarrow> nat \<Rightarrow> nat \<Rightarrow> sched_st \<Rightarrow> ptr option res" where
  "mlfq_pick_loop 0 list le s = Inl Spin"
| "mlfq_pick_loop (Suc n) list le s =
     bindR (sc_pick_next RR_sched_class le s) (\<lambda>next.
       if next \<noteq> None then Inr next
       else (let le' = list_next (rq_ring s) le
             in if le' \<noteq> list then mlfq_pick_loop n list le' s else Inr next))"

definition MLFQ_pick_next :: "nat \<Rightarrow> sched_st \<Rightarrow> ptr option res" where
  "MLFQ_pick_next rq s = mlfq_pick_loop NUM_RQ rq rq s"

text \<open>\<open>RR_proc_tick\<close> does not look at the queue it is given, so a null one is harmless.\<close>

definition MLFQ_proc_tick :: "nat \<Rightarrow> ptr \<Rightarrow> sched_st \<Rightarrow> sched_st res" where
  "MLFQ_proc_tick rq p s =
     sc_proc_tick RR_sched_class (case p_rq (procs s p) of None \<Rightarrow> rq | Some r \<Rightarrow> r) p s"

definition MLFQ_sched_class :: sched_class where
  "MLFQ_sched_class = \<lparr>sc_name = ''MLFQ_scheduler'', sc_init = MLFQ_init,
     sc_enqueue = MLFQ_enqueue, sc_dequeue = MLFQ_dequeue, sc_pick_next = MLFQ_pick_next,
     sc_proc_tick = MLFQ_proc_tick\<rparr>"

lemma RR_sched_class_simps [simp]:
  "sc_init RR_sched_class = RR_init" "sc_enqueue RR_sched_class = RR_enqueue"
  "sc_dequeue RR_sched_class = RR_dequeue" "sc_pick_next RR_sched_class = RR_pick_next"
  "sc_proc_tick RR_sched_class = RR_proc_tick"
  by (simp_all add: RR_sched_class_def)

lemma MLFQ_sched_class_simps [simp]:
  "sc_init MLFQ_sched_class = MLFQ_init" "sc_enqueue MLFQ_sched_class = MLFQ_enqueue"
  "sc_dequeue MLFQ_sched_class = MLFQ_dequeue" "sc_pick_next MLFQ_sched_class = MLFQ_pick_next"
  "sc_proc_tick MLFQ_sched_class = MLFQ_proc_tick"
  by (simp_all add: MLFQ_sched_class_def)

section \<open>The invariant of the queues\<close>

text \<open>
  The ring links the four queues in order; every queue is duplicate free and records itself in
  the blocks it holds; no block refers to a queue outside the array.
\<close>

definition queues_wf :: "sched_st \<Rightarrow> bool" where
  "queues_wf s \<longleftrightarrow> ring (rq_ring s) 0 [1, 2, 3] \<and>
     (\<forall>q < NUM_RQ. distinct (run_list (rqs s q)) \<and>
        (\<forall>p \<in> set (run_list (rqs s q)). p_rq (procs s p) = Some q)) \<and>
     (\<forall>p r. p_rq (procs s p) = Some r \<longrightarrow> r < NUM_RQ)"

definition mlfq_waiting :: "sched_st \<Rightarrow> ptr set" where
  "mlfq_waiting s = (\<Union>q \<in> {..<NUM_RQ}. set (run_list (rqs s q)))"

definition queue_pos :: "ptr list \<Rightarrow> ptr \<Rightarrow> nat" where
  "queue_pos xs p = length (takeWhile (\<lambda>y. y \<noteq> p) xs)"

definition level :: "sched_st \<Rightarrow> ptr \<Rightarrow> nat" where
  "level s p = the (p_rq (procs s p))"

definition mlfq_prefers :: "sched_st \<Rightarrow> ptr \<Rightarrow> ptr \<Rightarrow> bool" where
  "mlfq_prefers s p x \<longleftrightarrow> level s p < level s x \<or>
     level s p = level s x \<and>
       queue_pos (run_list (rqs s (level s p))) p \<le> queue_pos (run_list (rqs s (level s x))) x"

definition rr_ok :: "sched_st \<Rightarrow> bool" where
  "rr_ok s \<longleftrightarrow> queues_wf s \<and> (\<forall>q \<in> {1, 2, 3}. run_list (rqs s q) = [])"

lemma queues_wfD:
  assumes "queues_wf s"
  shows "ring (rq_ring s) 0 [1, 2, 3]"
    and "q < NUM_RQ \<Longrightarrow> distinct (run_list (rqs s q))"
    and "q < NUM_RQ \<Longrightarrow> p \<in> set (run_list (rqs s q)) \<Longrightarrow> p_rq (procs s p) = Some q"
    and "p_rq (procs s p) = Some r \<Longrightarrow> r < NUM_RQ"
  using assms unfolding queues_wf_def by blast+

lemma queues_wfI:
  assumes "ring (rq_ring s) 0 [1, 2, 3]"
    and "\<And>q. q < NUM_RQ \<Longrightarrow> distinct (run_list (rqs s q))"
    and "\<And>q p. q < NUM_RQ \<Longrightarrow> p \<in> set (run_list (rqs s q)) \<Longrightarrow> p_rq (procs s p) = Some q"
    and "\<And>p r. p_rq (procs s p) = Some r \<Longrightarrow> r < NUM_RQ"
  shows "queues_wf s"
  using assms unfolding queues_wf_def by blast

lemma less_NUM_RQ: "q < NUM_RQ \<longleftrightarrow> q = 0 \<or> q = 1 \<or> q = 2 \<or> q = 3"
  by (auto simp: NUM_RQ_def)

lemma run_linked_waiting: "run_linked p s \<longleftrightarrow> p \<in> mlfq_waiting s"
  by (auto simp: run_linked_iff mlfq_waiting_def)

lemma queue_pos_hd [simp]: "queue_pos (p # xs) p = 0"
  by (simp add: queue_pos_def)

lemma ring_succ:
  "queues_wf s \<Longrightarrow> q < NUM_RQ \<Longrightarrow> list_next (rq_ring s) q = (if q = 3 then 0 else Suc q)"
  using queues_wfD(1) [of s] unfolding less_NUM_RQ
  by (auto simp: ring_def list_next_def)

lemma queues_wf_same:
  "queues_wf s \<Longrightarrow> same_sched s s' \<Longrightarrow> queues_wf s'"
  unfolding queues_wf_def same_sched_def by metis

lemma RR_enqueue_spec:
  assumes wf: "queues_wf s" and p: "p \<notin> mlfq_waiting s" and q: "q < NUM_RQ"
  obtains s' where "RR_enqueue q p s = Inr s'" "queues_wf s'"
    "\<forall>r. run_list (rqs s' r) = (if r = q then run_list (rqs s q) @ [p] else run_list (rqs s r))"
    "current s' = current s" "idleproc s' = idleproc s"
    "\<forall>x. x \<noteq> p \<longrightarrow> procs s' x = procs s x"
    "\<exists>t. procs s' p = (procs s p)\<lparr>p_time_slice := t, p_rq := Some q\<rparr>"
proof -
  let ?slice = "p_time_slice (procs s p)"
  let ?max = "max_time_slice (rqs s q)"
  let ?t = "if ?slice = 0 \<or> ?slice > ?max then ?max else ?slice"
  let ?b = "(procs s p)\<lparr>p_time_slice := ?t, p_rq := Some q\<rparr>"
  let ?r = "(rqs s q)\<lparr>run_list := run_list (rqs s q) @ [p], proc_num := proc_num (rqs s q) + 1\<rparr>"
  let ?s = "s\<lparr>procs := (procs s)(p := ?b), rqs := (rqs s)(q := ?r)\<rparr>"
  have "\<not> run_linked p s" using p by (simp add: run_linked_waiting)
  then have eq: "RR_enqueue q p s = Inr ?s"
    by (auto simp: RR_enqueue_def upd_proc_def upd_rq_def)
  have new: "p \<notin> set (run_list (rqs s r))" if "r < NUM_RQ" for r
    using p that by (auto simp: mlfq_waiting_def)
  have "queues_wf ?s"
  proof (rule queues_wfI)
    show "ring (rq_ring ?s) 0 [1, 2, 3]" using queues_wfD(1) [OF wf] by simp
    show "distinct (run_list (rqs ?s r))" if "r < NUM_RQ" for r
      using that new queues_wfD(2) [OF wf] by simp
    show "p_rq (procs ?s x) = Some r" if "r < NUM_RQ" "x \<in> set (run_list (rqs ?s r))" for r x
      using that new [of r] queues_wfD(3) [OF wf, of r x] by (auto split: if_splits)
    show "r < NUM_RQ" if "p_rq (procs ?s x) = Some r" for r x
      using that q queues_wfD(4) [OF wf, of x r] by (auto split: if_splits)
  qed
  moreover have "\<exists>t. procs ?s p = (procs s p)\<lparr>p_time_slice := t, p_rq := Some q\<rparr>"
    by (rule exI [of _ ?t]) simp
  ultimately show ?thesis using eq by (intro that [of ?s]) simp_all
qed

lemma RR_dequeue_spec:
  assumes wf: "queues_wf s" and p: "p \<in> set (run_list (rqs s q))" and q: "q < NUM_RQ"
  obtains s' where "RR_dequeue q p s = Inr s'" "queues_wf s'" "procs s' = procs s"
    "\<forall>r. run_list (rqs s' r) = remove1 p (run_list (rqs s r))"
    "current s' = current s" "idleproc s' = idleproc s"
proof -
  have "run_linked p s" "p_rq (procs s p) = Some q"
    using p q queues_wfD(3) [OF wf q p] by (auto simp: run_linked_iff)
  then have eq: "RR_dequeue q p s = Inr (upd_rq q (\<lambda>q. q\<lparr>proc_num := proc_num q - 1\<rparr>) (run_link_del p s))"
    by (simp add: RR_dequeue_def)
  have "queues_wf (upd_rq q (\<lambda>q. q\<lparr>proc_num := proc_num q - 1\<rparr>) (run_link_del p s))"
  proof (rule queues_wfI, goal_cases)
    case 1
    then show ?case using queues_wfD(1) [OF wf] by simp
  next
    case (2 r)
    then show ?case using queues_wfD(2) [OF wf] by simp
  next
    case (3 r x)
    then have "x \<in> set (run_list (rqs s r))" using set_remove1_subset by (fastforce split: if_splits)
    with 3 queues_wfD(3) [OF wf] show ?case by simp
  next
    case (4 x r)
    then show ?case using queues_wfD(4) [OF wf, of x r] by simp
  qed
  with eq show ?thesis
    by (intro that [of "upd_rq q (\<lambda>q. q\<lparr>proc_num := proc_num q - 1\<rparr>) (run_link_del p s)"]) auto
qed

lemma waiting_remove:
  assumes wf: "queues_wf s" and l: "\<forall>r. run_list (rqs s' r) = remove1 p (run_list (rqs s r))"
  shows "mlfq_waiting s' = mlfq_waiting s - {p}"
  using queues_wfD(2) [OF wf] l by (auto simp: mlfq_waiting_def)

lemma mlfq_pick_loop_spec:
  assumes wf: "queues_wf s"
  shows "q + n = NUM_RQ \<Longrightarrow> 0 < n \<Longrightarrow> \<forall>r < q. run_list (rqs s r) = [] \<Longrightarrow>
    (mlfq_waiting s = {} \<and> mlfq_pick_loop n 0 q s = Inr None) \<or>
    (\<exists>r p xs. r < NUM_RQ \<and> run_list (rqs s r) = p # xs \<and> mlfq_pick_loop n 0 q s = Inr (Some p) \<and>
       (\<forall>r' < r. run_list (rqs s r') = []))"
proof (induction n arbitrary: q)
  case 0
  then show ?case by simp
next
  case (Suc n)
  have q: "q < NUM_RQ" using Suc.prems by simp
  show ?case
  proof (cases "run_list (rqs s q)")
    case (Cons p xs)
    with q Suc.prems(3) show ?thesis by (auto simp: RR_pick_next_def)
  next
    case Nil
    then have below: "\<forall>r < Suc q. run_list (rqs s r) = []" using Suc.prems(3) less_Suc_eq by auto
    show ?thesis
    proof (cases "q = 3")
      case True
      then have "mlfq_waiting s = {}" using below by (auto simp: mlfq_waiting_def NUM_RQ_def)
      moreover have "list_next (rq_ring s) 3 = 0" using ring_succ [OF wf, of 3] by (simp add: NUM_RQ_def)
      ultimately show ?thesis using True Nil by (simp add: RR_pick_next_def)
    next
      case False
      then have "0 < n" using Suc.prems(1) q by (simp add: NUM_RQ_def)
      with Suc.IH [of "Suc q"] below Suc.prems(1) False Nil show ?thesis
        by (simp add: RR_pick_next_def ring_succ [OF wf q])
    qed
  qed
qed

lemma MLFQ_pick_spec:
  assumes wf: "queues_wf s"
  shows "mlfq_waiting s = {} \<Longrightarrow> MLFQ_pick_next 0 s = Inr None"
    and "mlfq_waiting s \<noteq> {} \<Longrightarrow>
      \<exists>p \<in> mlfq_waiting s. MLFQ_pick_next 0 s = Inr (Some p) \<and> (\<forall>x \<in> mlfq_waiting s. mlfq_prefers s p x)"
proof -
  have "(mlfq_waiting s = {} \<and> MLFQ_pick_next 0 s = Inr None) \<or>
    (\<exists>r p xs. r < NUM_RQ \<and> run_list (rqs s r) = p # xs \<and> MLFQ_pick_next 0 s = Inr (Some p) \<and>
       (\<forall>r' < r. run_list (rqs s r') = []))"
    unfolding MLFQ_pick_next_def
    by (rule mlfq_pick_loop_spec [OF wf]) (auto simp: NUM_RQ_def)
  then consider (empty) "mlfq_waiting s = {}" "MLFQ_pick_next 0 s = Inr None"
    | (found) r p xs where "r < NUM_RQ" "run_list (rqs s r) = p # xs" "MLFQ_pick_next 0 s = Inr (Some p)"
      "\<forall>r' < r. run_list (rqs s r') = []" by blast
  note cs = this
  show "mlfq_waiting s = {} \<Longrightarrow> MLFQ_pick_next 0 s = Inr None"
    using cs by cases (auto simp: mlfq_waiting_def)
  assume ne: "mlfq_waiting s \<noteq> {}"
  from cs show "\<exists>p \<in> mlfq_waiting s. MLFQ_pick_next 0 s = Inr (Some p) \<and> (\<forall>x \<in> mlfq_waiting s. mlfq_prefers s p x)"
  proof cases
    case empty
    with ne show ?thesis by simp
  next
    case found
    have lv: "level s x = q" if "q < NUM_RQ" "x \<in> set (run_list (rqs s q))" for x q
      using queues_wfD(3) [OF wf that] by (simp add: level_def)
    have lp: "level s p = r" using lv [of r p] found by simp
    have "mlfq_prefers s p x" if "x \<in> mlfq_waiting s" for x
    proof -
      from that obtain q where q: "q < NUM_RQ" "x \<in> set (run_list (rqs s q))"
        by (auto simp: mlfq_waiting_def)
      then have "r \<le> q" using found(4) by (metis empty_iff list.set(1) not_le)
      with lv [OF q] lp found(2) show ?thesis by (auto simp: mlfq_prefers_def)
    qed
    moreover have "p \<in> mlfq_waiting s" using found by (force simp: mlfq_waiting_def)
    ultimately show ?thesis using found by blast
  qed
qed

text \<open>Where the feedback queue puts a process: a process whose slice is used up moves one
  level down, and stays on the last level; any other process starts on the first level.\<close>

definition mlfq_target :: "sched_st \<Rightarrow> ptr \<Rightarrow> nat" where
  "mlfq_target s p = (case p_rq (procs s p) of
     None \<Rightarrow> 0
   | Some r \<Rightarrow> if p_time_slice (procs s p) = 0 then min (Suc r) 3 else 0)"

lemma mlfq_target_bound: "mlfq_target s p < NUM_RQ"
  by (auto simp: mlfq_target_def NUM_RQ_def split: option.splits)

lemma MLFQ_enqueue_eq:
  assumes wf: "queues_wf s" and p: "p \<notin> mlfq_waiting s"
  shows "MLFQ_enqueue 0 p s = RR_enqueue (mlfq_target s p) p s"
proof -
  have "r < NUM_RQ" if "p_rq (procs s p) = Some r" for r
    using queues_wfD(4) [OF wf that] .
  then have "(case p_rq (procs s p) of None \<Rightarrow> 0
       | Some r \<Rightarrow> if p_time_slice (procs s p) = 0
           then (let n = list_next (rq_ring s) r in if n = 0 then r else n) else 0) = mlfq_target s p"
    using ring_succ [OF wf]
    by (auto simp: mlfq_target_def NUM_RQ_def min_def split: option.split)
  then show ?thesis using p by (simp add: MLFQ_enqueue_def run_linked_waiting)
qed

lemma waiting_insert:
  assumes "\<forall>r. run_list (rqs s' r) = (if r = q then run_list (rqs s q) @ [p] else run_list (rqs s r))"
    "q < NUM_RQ"
  shows "mlfq_waiting s' = insert p (mlfq_waiting s)"
  using assms by (auto simp: mlfq_waiting_def split: if_splits)

lemma RR_enqueue_kernel: "RR_enqueue q p s = Inr s' \<Longrightarrow> same_kernel s s'"
  by (auto simp: RR_enqueue_def res_simps same_kernel_def split: if_splits)

lemma RR_dequeue_kernel: "RR_dequeue q p s = Inr s' \<Longrightarrow> same_kernel s s'"
  by (auto simp: RR_dequeue_def res_simps same_kernel_def)

interpretation mlfq: sched_policy MLFQ_sched_class 0 mlfq_waiting queues_wf "\<lambda>_. True" mlfq_prefers
proof (unfold_locales, goal_cases)
  case (1 s p)
  obtain s' where e: "RR_enqueue (mlfq_target s p) p s = Inr s'" "queues_wf s'"
    "\<forall>r. run_list (rqs s' r) =
       (if r = mlfq_target s p then run_list (rqs s (mlfq_target s p)) @ [p] else run_list (rqs s r))"
    using RR_enqueue_spec [OF 1(1,3) mlfq_target_bound] by metis
  with waiting_insert [OF e(3) mlfq_target_bound] show ?case
    by (simp add: MLFQ_enqueue_eq [OF 1(1,3)])
next
  case 2
  then show ?case by (auto simp: MLFQ_enqueue_def res_simps dest: RR_enqueue_kernel)
next
  case (3 s)
  then show ?case using MLFQ_pick_spec(2) [of s] by auto
next
  case (4 s p)
  from 4(2) obtain q where q: "q < NUM_RQ" "p \<in> set (run_list (rqs s q))"
    by (auto simp: mlfq_waiting_def)
  then have rq: "p_rq (procs s p) = Some q" using queues_wfD(3) [OF 4(1)] by simp
  obtain s' where s': "RR_dequeue q p s = Inr s'" "queues_wf s'" "procs s' = procs s"
    "\<forall>r. run_list (rqs s' r) = remove1 p (run_list (rqs s r))"
    by (rule RR_dequeue_spec [OF 4(1) q(2,1)])
  with waiting_remove [OF 4(1) s'(4)] rq 4(2) show ?case
    by (simp add: MLFQ_dequeue_def run_linked_waiting)
next
  case 5
  then show ?case by (auto simp: MLFQ_dequeue_def res_simps dest: RR_dequeue_kernel)
next
  case (6 s)
  then show ?case by (simp add: mlfq_waiting_def)
next
  case (7 s s')
  then show ?case using queues_wf_same by (simp add: mlfq_waiting_def same_sched_def)
qed

text \<open>Round robin on the first queue alone.\<close>

lemma rr_waiting: "rr_ok s \<Longrightarrow> mlfq_waiting s = set (run_list (rqs s 0))"
  by (auto simp: rr_ok_def mlfq_waiting_def less_NUM_RQ)

lemma rr_ok_enqueue:
  "rr_ok s \<Longrightarrow> queues_wf s' \<Longrightarrow>
   \<forall>r. run_list (rqs s' r) = (if r = 0 then run_list (rqs s 0) @ [p] else run_list (rqs s r)) \<Longrightarrow> rr_ok s'"
  by (simp add: rr_ok_def)

interpretation rr: sched_policy RR_sched_class 0 mlfq_waiting rr_ok "\<lambda>_. True" mlfq_prefers
proof (unfold_locales, goal_cases)
  case (1 s p)
  have wf: "queues_wf s" using 1 by (simp add: rr_ok_def)
  obtain s' where e: "RR_enqueue 0 p s = Inr s'" "queues_wf s'"
    "\<forall>r. run_list (rqs s' r) = (if r = 0 then run_list (rqs s 0) @ [p] else run_list (rqs s r))"
    using RR_enqueue_spec [OF wf 1(3), of 0] by (metis NUM_RQ_def zero_less_numeral)
  with waiting_insert [OF e(3)] rr_ok_enqueue [OF 1(1) e(2,3)] show ?case
    by (simp add: NUM_RQ_def)
next
  case 2
  then show ?case by (simp add: RR_enqueue_kernel)
next
  case (3 s)
  have wf: "queues_wf s" using 3 by (simp add: rr_ok_def)
  from 3 rr_waiting [OF 3(1)] obtain p xs where l: "run_list (rqs s 0) = p # xs"
    by (cases "run_list (rqs s 0)") auto
  have "level s x = 0" if "x \<in> set (run_list (rqs s 0))" for x
    using queues_wfD(3) [OF wf _ that] by (simp add: level_def NUM_RQ_def)
  with l rr_waiting [OF 3(1)] show ?case by (simp add: RR_pick_next_def mlfq_prefers_def)
next
  case (4 s p)
  have wf: "queues_wf s" using 4 by (simp add: rr_ok_def)
  from 4 rr_waiting [OF 4(1)] have "p \<in> set (run_list (rqs s 0))" by simp
  from RR_dequeue_spec [OF wf this] obtain s' where s': "RR_dequeue 0 p s = Inr s'" "queues_wf s'"
    "\<forall>r. run_list (rqs s' r) = remove1 p (run_list (rqs s r))"
    by (metis NUM_RQ_def zero_less_numeral)
  then have "rr_ok s'" using 4(1) by (simp add: rr_ok_def)
  with s' waiting_remove [OF wf s'(3)] show ?case by simp
next
  case 5
  then show ?case by (simp add: RR_dequeue_kernel)
next
  case (6 s)
  then show ?case by (simp add: mlfq_waiting_def)
next
  case (7 s s')
  then show ?case using queues_wf_same by (auto simp: mlfq_waiting_def same_sched_def rr_ok_def)
qed

section \<open>Initialisation\<close>

lemma mlfq_init_loop_spec:
  assumes "ring (rq_ring s) 0 [1, 2, 3]"
  shows "\<exists>s'. mlfq_init_loop NUM_RQ 0 0 s = Inr s' \<and> rq_ring s' = rq_ring s \<and> procs s' = procs s \<and>
    (\<forall>q < NUM_RQ. run_list (rqs s' q) = [] \<and> proc_num (rqs s' q) = 0 \<and>
       max_time_slice (rqs s' q) = max_time_slice (rqs s q))"
  using assms
  by (auto simp: NUM_RQ_def numeral_eq_Suc RR_init_def ring_def list_next_def less_Suc_eq)

lemma MLFQ_init_spec:
  assumes "ring (rq_ring s) 0 [1, 2, 3]" "\<forall>p r. p_rq (procs s p) = Some r \<longrightarrow> r < NUM_RQ"
  shows "\<exists>s'. MLFQ_init 0 s = Inr s' \<and> queues_wf s' \<and> mlfq_waiting s' = {}"
proof -
  from mlfq_init_loop_spec [OF assms(1)] obtain s' where s': "MLFQ_init 0 s = Inr s'"
    "rq_ring s' = rq_ring s" "procs s' = procs s" "\<forall>q < NUM_RQ. run_list (rqs s' q) = []"
    unfolding MLFQ_init_def by blast
  have "queues_wf s'"
    by (rule queues_wfI) (use s' assms in auto)
  with s' show ?thesis by (auto simp: mlfq_waiting_def)
qed

section \<open>Properties\<close>

text \<open>Four levels holding the given processes.\<close>

definition four_levels :: "(nat \<Rightarrow> ptr list) \<Rightarrow> (ptr \<Rightarrow> proc_struct) \<Rightarrow> sched_st" where
  "four_levels l ps = blank_st\<lparr>procs := ps,
     rqs := (\<lambda>q. \<lparr>run_list = l q, proc_num = 0, max_time_slice = 8 * 2 ^ q\<rparr>),
     rq_ring := \<lparr>prev_of = (\<lambda>x. if x = 0 then 3 else x - 1), next_of = (\<lambda>x. if x = 3 then 0 else x + 1)\<rparr>\<rparr>"

lemma four_levels_wf:
  assumes "\<forall>q < 4. distinct (l q) \<and> (\<forall>p \<in> set (l q). p_rq (ps p) = Some q)"
    "\<forall>p r. p_rq (ps p) = Some r \<longrightarrow> r < 4"
  shows "queues_wf (four_levels l ps)"
proof (rule queues_wfI)
  show "ring (rq_ring (four_levels l ps)) 0 [1, 2, 3]" by (simp add: four_levels_def ring_def)
  show "distinct (run_list (rqs (four_levels l ps) q))" if "q < NUM_RQ" for q
    using that assms(1) by (simp add: four_levels_def NUM_RQ_def)
  show "p_rq (procs (four_levels l ps) p) = Some q"
    if "q < NUM_RQ" "p \<in> set (run_list (rqs (four_levels l ps) q))" for q p
  proof -
    from that have "q < 4" "p \<in> set (l q)" by (simp_all add: four_levels_def NUM_RQ_def)
    with assms(1) have "p_rq (ps p) = Some q" by blast
    then show ?thesis by (simp add: four_levels_def)
  qed
  show "r < NUM_RQ" if "p_rq (procs (four_levels l ps) p) = Some r" for p r
  proof -
    from that have "p_rq (ps p) = Some r" by (simp add: four_levels_def)
    with assms(2) have "r < 4" by blast
    then show ?thesis by (simp add: NUM_RQ_def)
  qed
qed

text \<open>The multi-level class picks the first process of the highest non-empty level, and
  none exactly when no level has a process.\<close>

theorem MLFQ_picks_highest_level:
  assumes "queues_wf s"
  shows "(MLFQ_pick_next 0 s = Inr None \<longleftrightarrow> (\<forall>r < NUM_RQ. run_list (rqs s r) = [])) \<and>
    ((\<exists>r < NUM_RQ. run_list (rqs s r) \<noteq> []) \<longrightarrow>
      (\<exists>r p xs. r < NUM_RQ \<and> run_list (rqs s r) = p # xs \<and> MLFQ_pick_next 0 s = Inr (Some p) \<and>
         (\<forall>r' < r. run_list (rqs s r') = [])))"
proof -
  have "mlfq_waiting s = {} \<longleftrightarrow> (\<forall>r < NUM_RQ. run_list (rqs s r) = [])"
    by (auto simp: mlfq_waiting_def)
  with mlfq_pick_loop_spec [OF assms, of 0 NUM_RQ] show ?thesis
    unfolding MLFQ_pick_next_def by (fastforce simp: NUM_RQ_def)
qed

text \<open>Enqueueing a process that is not queued puts it at the end of one level and nowhere
  else: one level down (at most the last) when it came back with its time slice used up, the top
  level otherwise; its new slice is then positive and at most the slice of that level.\<close>

theorem MLFQ_demotes:
  assumes "queues_wf s" "p \<notin> mlfq_waiting s" "\<forall>q < NUM_RQ. 0 < max_time_slice (rqs s q)"
    "0 \<le> p_time_slice (procs s p)"
  shows "\<exists>s' q. MLFQ_enqueue 0 p s = Inr s' \<and> queues_wf s' \<and>
    q = (case p_rq (procs s p) of
           Some r \<Rightarrow> if p_time_slice (procs s p) = 0 then min (Suc r) 3 else 0 | None \<Rightarrow> 0) \<and>
    (\<forall>r. run_list (rqs s' r) = (if r = q then run_list (rqs s q) @ [p] else run_list (rqs s r))) \<and>
    0 < p_time_slice (procs s' p) \<and> p_time_slice (procs s' p) \<le> max_time_slice (rqs s q)"
proof -
  let ?q = "mlfq_target s p"
  obtain s' where s': "RR_enqueue ?q p s = Inr s'" "queues_wf s'"
    "\<forall>r. run_list (rqs s' r) = (if r = ?q then run_list (rqs s ?q) @ [p] else run_list (rqs s r))"
    using RR_enqueue_spec [OF assms(1,2) mlfq_target_bound] by metis
  have "0 < max_time_slice (rqs s ?q)" using assms(3) mlfq_target_bound by blast
  then have "0 < p_time_slice (procs s' p) \<and> p_time_slice (procs s' p) \<le> max_time_slice (rqs s ?q)"
    using s'(1) assms(4) by (auto simp: RR_enqueue_def res_simps split: if_splits)
  with s' MLFQ_enqueue_eq [OF assms(1,2)] show ?thesis
    by (intro exI [of _ s'] exI [of _ ?q]) (simp add: mlfq_target_def)
qed

text \<open>Under round robin, picking the next process and taking it out serves the processes in
  the order in which they were enqueued.\<close>

theorem RR_serves_in_order:
  assumes "queues_wf s" "q < NUM_RQ" "run_list (rqs s q) = p # ps" "x \<notin> mlfq_waiting s"
  shows "\<exists>s1 s2. RR_enqueue q x s = Inr s1 \<and> RR_pick_next q s1 = Inr (Some p) \<and>
    RR_dequeue q p s1 = Inr s2 \<and> run_list (rqs s2 q) = ps @ [x] \<and> queues_wf s2"
proof -
  obtain s1 where s1: "RR_enqueue q x s = Inr s1" "queues_wf s1"
    "\<forall>r. run_list (rqs s1 r) = (if r = q then run_list (rqs s q) @ [x] else run_list (rqs s r))"
    using RR_enqueue_spec [OF assms(1,4,2)] by metis
  have l: "run_list (rqs s1 q) = p # ps @ [x]" using s1(3) assms(3) by simp
  then have "p \<in> set (run_list (rqs s1 q))" by simp
  from RR_dequeue_spec [OF s1(2) this assms(2)] obtain s2 where "RR_dequeue q p s1 = Inr s2"
    "queues_wf s2" "\<forall>r. run_list (rqs s2 r) = remove1 p (run_list (rqs s1 r))" by metis
  with s1 l show ?thesis by (simp add: RR_pick_next_def)
qed

end
