(* ===== verification/Timer_List.thy ===== *)
theory Timer_List
  imports Sched_State
begin

text \<open>
  The timer list of \<open>kern/schedule/sched.c\<close> is a delta list: \<open>expires\<close> of an entry counts
  the ticks after the entry before it.  \<open>due tm xs t\<close> is the absolute time this encodes.  The
  lemmas show that \<open>add_timer\<close> and \<open>del_timer\<close> act on absolute times: an insertion gives the new
  timer its requested time and a deletion removes one, and neither moves any other timer.
\<close>

section \<open>Operations\<close>

definition timer_init :: "nat \<Rightarrow> ptr option \<Rightarrow> 32 word \<Rightarrow> sched_st \<Rightarrow> sched_st" where
  "timer_init t p e s = s\<lparr>timer := (timer s)(t := \<lparr>tm_expires = e, tm_proc = p\<rparr>)\<rparr>"

text \<open>The loop of \<open>add_timer\<close> from the entry \<open>le\<close> on: the updated timers, and the rest of the
  list with the new timer linked before the entry where the loop stopped.\<close>

fun add_timer_walk :: "nat \<Rightarrow> (nat \<Rightarrow> timer_t) \<Rightarrow> nat list \<Rightarrow> (nat \<Rightarrow> timer_t) \<times> nat list" where
  "add_timer_walk t tm [] = (tm, [t])"
| "add_timer_walk t tm (le # rest) =
     (if tm_expires (tm t) < tm_expires (tm le)
      then (tm(le := (tm le)\<lparr>tm_expires := tm_expires (tm le) - tm_expires (tm t)\<rparr>), t # le # rest)
      else (let tm1 = tm(t := (tm t)\<lparr>tm_expires := tm_expires (tm t) - tm_expires (tm le)\<rparr>);
                (tm2, rest2) = add_timer_walk t tm1 rest
            in (tm2, le # rest2)))"

definition add_timer :: "nat \<Rightarrow> sched_st \<Rightarrow> sched_st res" where
  "add_timer t s =
     bindR (assertR (tm_expires (timer s t) > 0 \<and> tm_proc (timer s t) \<noteq> None)
              ''timer->expires > 0 && timer->proc != NULL'') (\<lambda>_.
     bindR (assertR (t \<notin> set (timer_list s)) ''list_empty(&(timer->timer_link))'') (\<lambda>_.
       let (tm, l) = add_timer_walk t (timer s) (timer_list s)
       in Inr (s\<lparr>timer := tm, timer_list := l\<rparr>)))"

definition del_timer :: "nat \<Rightarrow> sched_st \<Rightarrow> sched_st" where
  "del_timer t s =
     (if t \<in> set (timer_list s) then
        (let s1 = (if tm_expires (timer s t) \<noteq> 0 then
                     (case tl (dropWhile (\<lambda>x. x \<noteq> t) (timer_list s)) of
                        [] \<Rightarrow> s
                      | n # _ \<Rightarrow> s\<lparr>timer := (timer s)(n := (timer s n)
                          \<lparr>tm_expires := tm_expires (timer s n) + tm_expires (timer s t)\<rparr>)\<rparr>)
                   else s)
         in s1\<lparr>timer_list := remove1 t (timer_list s1)\<rparr>)
      else s)"

section \<open>Absolute times\<close>

abbreviation ticks_of :: "(nat \<Rightarrow> timer_t) \<Rightarrow> nat \<Rightarrow> nat" where
  "ticks_of tm t \<equiv> unat (tm_expires (tm t))"

fun due :: "(nat \<Rightarrow> timer_t) \<Rightarrow> nat list \<Rightarrow> nat \<Rightarrow> nat" where
  "due tm [] t = 0"
| "due tm (x # xs) t = ticks_of tm x + (if x = t then 0 else due tm xs t)"

definition span :: "(nat \<Rightarrow> timer_t) \<Rightarrow> nat list \<Rightarrow> nat" where
  "span tm xs = sum_list (map (ticks_of tm) xs)"

text \<open>The list is duplicate free, the times fit an \<open>unsigned int\<close>, and the first timer has not
  expired yet.\<close>

definition timers_wf :: "sched_st \<Rightarrow> bool" where
  "timers_wf s \<longleftrightarrow> distinct (timer_list s) \<and> span (timer s) (timer_list s) < 2 ^ 32 \<and>
     (case timer_list s of [] \<Rightarrow> True | t # _ \<Rightarrow> tm_expires (timer s t) \<noteq> 0)"

lemma span_simps [simp]:
  "span tm [] = 0" "span tm (x # xs) = ticks_of tm x + span tm xs"
  "span tm (xs @ ys) = span tm xs + span tm ys"
  by (simp_all add: span_def)

lemma due_cong: "(\<And>x. x \<in> set xs \<Longrightarrow> tm' x = tm x) \<Longrightarrow> due tm' xs t = due tm xs t"
  by (induction xs) auto

lemma span_cong: "(\<And>x. x \<in> set xs \<Longrightarrow> tm' x = tm x) \<Longrightarrow> span tm' xs = span tm xs"
  by (induction xs) auto

lemma due_le_span: "due tm xs t \<le> span tm xs"
  by (induction xs) auto

lemma due_append:
  "due tm (us @ vs) t = (if t \<in> set us then due tm us t else span tm us + due tm vs t)"
  by (induction us) auto

lemma unat_diff_le: "b \<le> a \<Longrightarrow> unat (a - b) = unat a - unat b" for a b :: "32 word"
  by (simp add: unat_sub)

section \<open>Insertion\<close>

text \<open>What a walk returns: the new timer has its own time, the others keep theirs, and the timer
  stands behind every timer due no later.\<close>

definition walk_result ::
  "nat \<Rightarrow> (nat \<Rightarrow> timer_t) \<Rightarrow> nat list \<Rightarrow> (nat \<Rightarrow> timer_t) \<Rightarrow> nat list \<Rightarrow> bool" where
  "walk_result t tm xs tm' ys \<longleftrightarrow>
     (\<exists>us vs. xs = us @ vs \<and> ys = us @ t # vs \<and>
        (\<forall>x \<in> set us. due tm xs x \<le> ticks_of tm t) \<and> (\<forall>x \<in> set vs. ticks_of tm t < due tm xs x)) \<and>
     due tm' ys t = ticks_of tm t \<and>
     (\<forall>x \<in> set xs. due tm' ys x = due tm xs x) \<and>
     span tm' ys = max (span tm xs) (ticks_of tm t) \<and>
     (\<forall>x. x \<notin> insert t (set xs) \<longrightarrow> tm' x = tm x) \<and>
     (\<forall>x. tm_proc (tm' x) = tm_proc (tm x))"

lemma walk_resultD:
  assumes "walk_result t tm xs tm' ys"
  shows "\<exists>us vs. xs = us @ vs \<and> ys = us @ t # vs \<and>
      (\<forall>x \<in> set us. due tm xs x \<le> ticks_of tm t) \<and> (\<forall>x \<in> set vs. ticks_of tm t < due tm xs x)"
    and "due tm' ys t = ticks_of tm t"
    and "\<forall>x \<in> set xs. due tm' ys x = due tm xs x"
    and "span tm' ys = max (span tm xs) (ticks_of tm t)"
    and "\<forall>x. x \<notin> insert t (set xs) \<longrightarrow> tm' x = tm x"
    and "\<forall>x. tm_proc (tm' x) = tm_proc (tm x)"
  using assms unfolding walk_result_def by blast+

lemma add_timer_walk_spec:
  "add_timer_walk t tm xs = (tm', ys) \<Longrightarrow> t \<notin> set xs \<Longrightarrow> distinct xs \<Longrightarrow> walk_result t tm xs tm' ys"
proof (induction xs arbitrary: tm tm' ys)
  case Nil
  then show ?case by (auto simp: walk_result_def)
next
  case (Cons x xs)
  note walk = Cons.prems(1) and t = Cons.prems(2) and d = Cons.prems(3)
  show ?case
  proof (cases "tm_expires (tm t) < tm_expires (tm x)")
    case True
    with walk have tm': "tm' = tm(x := (tm x)\<lparr>tm_expires := tm_expires (tm x) - tm_expires (tm t)\<rparr>)"
      and ys: "ys = t # x # xs" by auto
    from True have lt: "ticks_of tm t < ticks_of tm x" by (simp add: word_less_nat_alt)
    have "ticks_of tm' x = ticks_of tm x - ticks_of tm t"
      using True by (simp add: tm' unat_diff_le)
    moreover have "due tm' xs y = due tm xs y" "span tm' xs = span tm xs" for y
      using d by (auto simp: tm' intro!: due_cong span_cong)
    moreover have "ticks_of tm' t = ticks_of tm t" "t \<noteq> x" using t by (auto simp: tm')
    ultimately have dues: "\<forall>y \<in> set (x # xs). due tm' ys y = due tm (x # xs) y"
      "due tm' ys t = ticks_of tm t" "span tm' ys = max (span tm (x # xs)) (ticks_of tm t)"
      using lt t by (auto simp: ys)
    have "\<forall>y \<in> set (x # xs). ticks_of tm t < due tm (x # xs) y" using lt by auto
    then have "\<exists>us vs. x # xs = us @ vs \<and> ys = us @ t # vs \<and>
        (\<forall>y \<in> set us. due tm (x # xs) y \<le> ticks_of tm t) \<and>
        (\<forall>y \<in> set vs. ticks_of tm t < due tm (x # xs) y)"
      by (intro exI [of _ "[]"] exI [of _ "x # xs"]) (simp add: ys)
    with dues show ?thesis unfolding walk_result_def by (simp add: tm')
  next
    case False
    let ?tm1 = "tm(t := (tm t)\<lparr>tm_expires := tm_expires (tm t) - tm_expires (tm x)\<rparr>)"
    obtain zs where zs: "add_timer_walk t ?tm1 xs = (tm', zs)" "ys = x # zs"
      using walk False by (auto split: prod.splits)
    have tx: "t \<noteq> x" "t \<notin> set xs" "x \<notin> set xs" "distinct xs" using t d by auto
    note IH = walk_resultD [OF Cons.IH [OF zs(1) tx(2,4)]]
    have le: "ticks_of tm x \<le> ticks_of tm t" using False by (simp add: word_le_nat_alt not_less)
    have t1: "ticks_of ?tm1 t = ticks_of tm t - ticks_of tm x"
      using False by (simp add: unat_diff_le not_less)
    have due1: "due ?tm1 xs y = due tm xs y" "span ?tm1 xs = span tm xs" for y
      using tx by (auto intro!: due_cong span_cong)
    have x: "tm' x = tm x" using IH(5) tx by auto
    from IH(1) obtain us vs where uv: "xs = us @ vs" "zs = us @ t # vs"
      "\<forall>y \<in> set us. due tm xs y \<le> ticks_of tm t - ticks_of tm x"
      "\<forall>y \<in> set vs. ticks_of tm t - ticks_of tm x < due tm xs y"
      unfolding due1 t1 by blast
    have "\<exists>us vs. x # xs = us @ vs \<and> ys = us @ t # vs \<and>
        (\<forall>y \<in> set us. due tm (x # xs) y \<le> ticks_of tm t) \<and>
        (\<forall>y \<in> set vs. ticks_of tm t < due tm (x # xs) y)"
      using uv zs(2) le tx by (intro exI [of _ "x # us"] exI [of _ vs]) force
    moreover have "due tm' ys t = ticks_of tm t" using IH(2) t1 le tx x zs(2) by simp
    moreover have "\<forall>y \<in> set (x # xs). due tm' ys y = due tm (x # xs) y"
      using IH(3) unfolding due1 using x zs(2) by auto
    moreover have "span tm' ys = max (span tm (x # xs)) (ticks_of tm t)"
      using IH(4) unfolding t1 due1 using x le zs(2) by simp
    moreover have "\<forall>y. y \<notin> insert t (set (x # xs)) \<longrightarrow> tm' y = tm y" using IH(5) by auto
    moreover have "\<forall>y. tm_proc (tm' y) = tm_proc (tm y)" using IH(6) by auto
    ultimately show ?thesis unfolding walk_result_def by blast
  qed
qed

lemma add_timer_spec:
  assumes wf: "timers_wf s" and t: "t \<notin> set (timer_list s)"
    and e: "tm_expires (timer s t) \<noteq> 0" and p: "tm_proc (timer s t) \<noteq> None"
  obtains tm us vs where "add_timer t s = Inr (s\<lparr>timer := tm, timer_list := us @ t # vs\<rparr>)"
    "timer_list s = us @ vs" "timers_wf (s\<lparr>timer := tm, timer_list := us @ t # vs\<rparr>)"
    "due tm (us @ t # vs) t = ticks_of (timer s) t"
    "\<forall>x \<in> set (timer_list s). due tm (us @ t # vs) x = due (timer s) (timer_list s) x"
    "\<forall>x \<in> set us. due (timer s) (timer_list s) x \<le> ticks_of (timer s) t"
    "\<forall>x \<in> set vs. ticks_of (timer s) t < due (timer s) (timer_list s) x"
    "\<forall>x. tm_proc (tm x) = tm_proc (timer s x)"
proof -
  obtain tm ys where walk: "add_timer_walk t (timer s) (timer_list s) = (tm, ys)"
    by (cases "add_timer_walk t (timer s) (timer_list s)")
  have d: "distinct (timer_list s)" and sp: "span (timer s) (timer_list s) < 2 ^ 32"
    and hd: "case timer_list s of [] \<Rightarrow> True | t # _ \<Rightarrow> tm_expires (timer s t) \<noteq> 0"
    using wf by (auto simp: timers_wf_def)
  note w = walk_resultD [OF add_timer_walk_spec [OF walk t d]]
  from w(1) obtain us vs where uv: "timer_list s = us @ vs" "ys = us @ t # vs"
    "\<forall>x \<in> set us. due (timer s) (timer_list s) x \<le> ticks_of (timer s) t"
    "\<forall>x \<in> set vs. ticks_of (timer s) t < due (timer s) (timer_list s) x" by blast
  have "ticks_of (timer s) t < 2 ^ 32" using unsigned_less [of "tm_expires (timer s t)"] by simp
  then have "span tm ys < 2 ^ 32" using w(4) sp by simp
  moreover have "tm_expires (tm (hd ys)) \<noteq> 0"
  proof -
    have "ticks_of tm (hd ys) = due tm ys (hd ys)" using uv(2) by (cases us) auto
    also have "\<dots> \<noteq> 0"
    proof (cases us)
      case Nil
      then show ?thesis using w(2) uv(2) e by (simp add: unat_eq_0)
    next
      case (Cons u us')
      then have "due tm ys u = ticks_of (timer s) u" using w(3) uv by simp
      moreover have "tm_expires (timer s u) \<noteq> 0" using hd uv(1) Cons by simp
      ultimately show ?thesis using Cons uv(2) by (simp add: unat_eq_0)
    qed
    finally show ?thesis by (simp add: unat_eq_0)
  qed
  ultimately have "timers_wf (s\<lparr>timer := tm, timer_list := us @ t # vs\<rparr>)"
    using d t uv by (cases us) (auto simp: timers_wf_def)
  moreover have "add_timer t s = Inr (s\<lparr>timer := tm, timer_list := us @ t # vs\<rparr>)"
    using t e p walk uv(2) by (simp add: add_timer_def word_gt_0)
  ultimately show ?thesis using that uv w by metis
qed

section \<open>Deletion\<close>

lemma tl_dropWhile: "t \<notin> set us \<Longrightarrow> tl (dropWhile (\<lambda>x. x \<noteq> t) (us @ t # vs)) = vs"
  by (induction us) auto

lemma del_timer_spec:
  assumes wf: "timers_wf s" and l: "timer_list s = us @ t # vs"
  shows "timer_list (del_timer t s) = us @ vs" and "timers_wf (del_timer t s)"
    and "\<forall>x \<in> set (us @ vs). due (timer (del_timer t s)) (us @ vs) x = due (timer s) (timer_list s) x"
    and "procs (del_timer t s) = procs s" "current (del_timer t s) = current s"
proof -
  have d: "distinct (us @ t # vs)" and sp: "span (timer s) (us @ t # vs) < 2 ^ 32"
    and hd: "case us @ t # vs of [] \<Rightarrow> True | t # _ \<Rightarrow> tm_expires (timer s t) \<noteq> 0"
    using wf l by (auto simp: timers_wf_def)
  let ?e = "tm_expires (timer s t)"
  let ?tm = "case vs of [] \<Rightarrow> timer s
     | n # _ \<Rightarrow> (timer s)(n := (timer s n)\<lparr>tm_expires := tm_expires (timer s n) + ?e\<rparr>)"
  have noop: "(timer s)(n := (timer s n)\<lparr>tm_expires := tm_expires (timer s n) + ?e\<rparr>) = timer s" if "?e = 0" for n
    using that by (auto simp: fun_eq_iff)
  have rem: "remove1 t (us @ t # vs) = us @ vs" using d by (simp add: remove1_append)
  have eq: "del_timer t s = s\<lparr>timer := ?tm, timer_list := us @ vs\<rparr>"
  proof (cases "?e = 0")
    case True
    then have "?tm = timer s" using noop by (auto split: list.split)
    then show ?thesis using True l rem by (simp add: del_timer_def)
  next
    case False
    then show ?thesis using l rem tl_dropWhile [of t us vs] d
      by (auto simp: del_timer_def split: list.split)
  qed
  have us: "ticks_of ?tm x = ticks_of (timer s) x" if "x \<in> set us" for x
    using that d by (auto split: list.split)
  have due_us: "due ?tm us x = due (timer s) us x" "span ?tm us = span (timer s) us" for x
    using d by (auto intro!: due_cong span_cong split: list.split)
  have *: "due ?tm vs x = ticks_of (timer s) t + due (timer s) vs x \<and>
      span ?tm vs = ticks_of (timer s) t + span (timer s) vs" if "vs \<noteq> []" for x
  proof -
    from that obtain n ws where vs: "vs = n # ws" by (cases vs) auto
    have "due ?tm ws x = due (timer s) ws x" "span ?tm ws = span (timer s) ws" for x
      using d vs by (auto intro!: due_cong span_cong)
    moreover have "ticks_of ?tm n = ticks_of (timer s) n + ticks_of (timer s) t"
      using sp vs by (simp add: unat_add_lem [THEN iffD1])
    ultimately show ?thesis by (auto simp: vs)
  qed
  then have due_vs: "due ?tm vs x = ticks_of (timer s) t + due (timer s) vs x" if "vs \<noteq> []" for x
    using that by blast
  have span_vs: "span ?tm vs = ticks_of (timer s) t + span (timer s) vs" if "vs \<noteq> []"
    using that * by blast
  show "timer_list (del_timer t s) = us @ vs" by (simp add: eq)
  show "procs (del_timer t s) = procs s" "current (del_timer t s) = current s" by (simp_all add: eq)
  have dues: "due ?tm (us @ vs) x = due (timer s) (us @ t # vs) x" if "x \<in> set (us @ vs)" for x
  proof (cases "x \<in> set us")
    case True
    then show ?thesis by (simp add: due_append due_us)
  next
    case False
    with that have x: "x \<in> set vs" by simp
    then have "vs \<noteq> []" "x \<noteq> t" using d by auto
    then show ?thesis using False due_vs [of x] due_us by (simp add: due_append)
  qed
  then show "\<forall>x \<in> set (us @ vs). due (timer (del_timer t s)) (us @ vs) x = due (timer s) (timer_list s) x"
    by (simp add: eq l)
  have "span ?tm (us @ vs) \<le> span (timer s) (us @ t # vs)"
    using due_us span_vs by (cases "vs = []") auto
  then have "span ?tm (us @ vs) < 2 ^ 32" using sp by simp
  moreover have "case us @ vs of [] \<Rightarrow> True | t # _ \<Rightarrow> tm_expires (?tm t) \<noteq> 0"
  proof (cases "us @ vs")
    case (Cons y ys)
    have "due ?tm (us @ vs) y = ticks_of ?tm y" by (simp add: Cons)
    moreover have "due (timer s) (us @ t # vs) y \<noteq> 0"
      using hd Cons by (cases us) (auto simp: unat_eq_0)
    ultimately have "ticks_of ?tm y \<noteq> 0" using dues [of y] Cons by simp
    then show ?thesis by (simp add: Cons unat_eq_0)
  qed simp
  ultimately show "timers_wf (del_timer t s)"
  proof -
    assume "span ?tm (us @ vs) < 2 ^ 32" "case us @ vs of [] \<Rightarrow> True | t # _ \<Rightarrow> tm_expires (?tm t) \<noteq> 0"
    moreover have "distinct (us @ vs)" using d by simp
    ultimately show ?thesis
      unfolding eq timers_wf_def sched_st.simps by (cases "us @ vs") simp_all
  qed
qed

section \<open>A tick\<close>

lemma due_zero_prefix:
  "distinct xs \<Longrightarrow> dropWhile (\<lambda>t. tm_expires (tm t) = 0) xs = filter (\<lambda>t. due tm xs t \<noteq> 0) xs \<and>
     set (takeWhile (\<lambda>t. tm_expires (tm t) = 0) xs) = {t \<in> set xs. due tm xs t = 0} \<and>
     (\<forall>t \<in> set (dropWhile (\<lambda>t. tm_expires (tm t) = 0) xs).
        due tm (dropWhile (\<lambda>t. tm_expires (tm t) = 0) xs) t = due tm xs t) \<and>
     span tm (dropWhile (\<lambda>t. tm_expires (tm t) = 0) xs) = span tm xs"
proof (induction xs)
  case Nil
  then show ?case by simp
next
  case (Cons x xs)
  then have IH: "dropWhile (\<lambda>t. tm_expires (tm t) = 0) xs = filter (\<lambda>t. due tm xs t \<noteq> 0) xs"
    "set (takeWhile (\<lambda>t. tm_expires (tm t) = 0) xs) = {t \<in> set xs. due tm xs t = 0}"
    "\<forall>t \<in> set (dropWhile (\<lambda>t. tm_expires (tm t) = 0) xs).
        due tm (dropWhile (\<lambda>t. tm_expires (tm t) = 0) xs) t = due tm xs t"
    "span tm (dropWhile (\<lambda>t. tm_expires (tm t) = 0) xs) = span tm xs" by auto
  have x: "x \<notin> set xs" using Cons.prems by simp
  show ?case
  proof (cases "tm_expires (tm x) = 0")
    case True
    have "due tm (x # xs) t = due tm xs t" if "t \<in> set xs" for t using True x that by auto
    then have "filter (\<lambda>t. due tm (x # xs) t \<noteq> 0) xs = filter (\<lambda>t. due tm xs t \<noteq> 0) xs"
      "{t \<in> set xs. due tm (x # xs) t = 0} = {t \<in> set xs. due tm xs t = 0}"
      "\<forall>t \<in> set (dropWhile (\<lambda>t. tm_expires (tm t) = 0) xs). due tm (x # xs) t = due tm xs t"
      by (auto intro!: filter_cong dest: set_dropWhileD simp del: due.simps)
    moreover have "due tm (x # xs) x = 0" using True by simp
    ultimately show ?thesis using True IH by (auto simp del: due.simps)
  next
    case False
    then have "due tm (x # xs) t \<noteq> 0" for t by (simp add: unat_eq_0)
    with False show ?thesis by (auto simp del: due.simps)
  qed
qed

lemma due_decrement:
  assumes "distinct (t # ts)" "tm_expires (tm t) \<noteq> 0"
  shows "due (tm(t := (tm t)\<lparr>tm_expires := tm_expires (tm t) - 1\<rparr>)) (t # ts) x = due tm (t # ts) x - 1"
    and "span (tm(t := (tm t)\<lparr>tm_expires := tm_expires (tm t) - 1\<rparr>)) (t # ts) = span tm (t # ts) - 1"
    and "0 < due tm (t # ts) x"
proof -
  let ?tm = "tm(t := (tm t)\<lparr>tm_expires := tm_expires (tm t) - 1\<rparr>)"
  have u: "ticks_of ?tm t = ticks_of tm t - 1" "0 < ticks_of tm t"
    using assms(2) by (simp_all add: unat_minus_one unat_gt_0)
  have "due ?tm ts x = due tm ts x" "span ?tm ts = span tm ts"
    using assms(1) by (auto intro!: due_cong span_cong)
  with u show "due ?tm (t # ts) x = due tm (t # ts) x - 1"
    "span ?tm (t # ts) = span tm (t # ts) - 1" by (simp_all del: fun_upd_apply)
  show "0 < due tm (t # ts) x" using u by simp
qed

section \<open>Properties\<close>

text \<open>\<open>add_timer\<close> keeps the timer list well formed, makes the new timer due exactly
  \<open>expires\<close> ticks from now, changes the due time of no other timer, and links the new
  timer behind those due no later and before those due later.\<close>

theorem add_timer_due:
  assumes "timers_wf s" "t \<notin> set (timer_list s)"
    and "tm_expires (timer s t) \<noteq> 0" "tm_proc (timer s t) \<noteq> None"
  shows "\<exists>s'. add_timer t s = Inr s' \<and> timers_wf s' \<and>
    due (timer s') (timer_list s') t = unat (tm_expires (timer s t)) \<and>
    (\<forall>x \<in> set (timer_list s). due (timer s') (timer_list s') x = due (timer s) (timer_list s) x) \<and>
    (\<exists>us vs. timer_list s = us @ vs \<and> timer_list s' = us @ t # vs \<and>
      (\<forall>x \<in> set us. due (timer s) (timer_list s) x \<le> unat (tm_expires (timer s t))) \<and>
      (\<forall>x \<in> set vs. unat (tm_expires (timer s t)) < due (timer s) (timer_list s) x))"
  by (rule add_timer_spec [OF assms]) force

text \<open>C8: \<open>del_timer\<close> of a linked timer unlinks it and leaves every other timer due at the
  same time as before: the remaining ticks are handed to its successor.\<close>

theorem del_timer_due:
  assumes "timers_wf s" "t \<in> set (timer_list s)"
  shows "timers_wf (del_timer t s) \<and> set (timer_list (del_timer t s)) = set (timer_list s) - {t} \<and>
    (\<forall>x \<in> set (timer_list s) - {t}.
       due (timer (del_timer t s)) (timer_list (del_timer t s)) x = due (timer s) (timer_list s) x)"
proof -
  from assms(2) obtain us vs where l: "timer_list s = us @ t # vs" by (auto dest: split_list)
  moreover have "t \<notin> set (us @ vs)" using assms(1) l by (simp add: timers_wf_def)
  ultimately show ?thesis using del_timer_spec [OF assms(1) l] by auto
qed

theorem del_timer_due_witness:
  "due (timer (del_timer 2 (blank_st\<lparr>timer_list := [2, 3], timer := (\<lambda>_. \<lparr>tm_expires = 5, tm_proc = Some 1\<rparr>)\<rparr>)))
     (timer_list (del_timer 2 (blank_st\<lparr>timer_list := [2, 3], timer := (\<lambda>_. \<lparr>tm_expires = 5, tm_proc = Some 1\<rparr>)\<rparr>))) 3 = 10"
  using del_timer_due [of "blank_st\<lparr>timer_list := [2, 3], timer := (\<lambda>_. \<lparr>tm_expires = 5, tm_proc = Some 1\<rparr>)\<rparr>" 2]
  by (auto simp: timers_wf_def)

end
