(* ===== verification/Sched_Core.thy ===== *)
theory Sched_Core
  imports Sched_EDF Sched_RR Timer_List
begin

text \<open>
  The class-independent scheduler of \<open>kern/schedule/sched.c\<close> (with \<open>proc_run\<close> of
  \<open>kern/process/proc.c\<close>): initialisation, \<open>wakeup_proc\<close>, \<open>schedule\<close> and
  \<open>run_timer_list\<close>, over any scheduling class.  The kernel sets the class to
  \<open>MY_sched_class\<close>.  The lemmas proved from the contract \<open>sched_policy\<close> hold for each of
  the three classes; the step relation \<open>kstep\<close> interleaves the operations, and \<open>kernel_inv\<close>
  is shown to hold in every reachable state.  Critical sections
  (\<open>local_intr_save\<close>/\<open>restore\<close>) make each operation atomic, so an operation is one step.
\<close>

section \<open>Operations\<close>

definition KSTACKSIZE :: "32 word" where "KSTACKSIZE = 2 * 4096"

definition sched_class_enqueue :: "sched_class \<Rightarrow> ptr \<Rightarrow> sched_st \<Rightarrow> sched_st res" where
  "sched_class_enqueue cls p s = (if p \<noteq> idleproc s then sc_enqueue cls 0 p s else Inr s)"

definition sched_class_dequeue :: "sched_class \<Rightarrow> ptr \<Rightarrow> sched_st \<Rightarrow> sched_st res" where
  "sched_class_dequeue cls p s = sc_dequeue cls 0 p s"

definition sched_class_pick_next :: "sched_class \<Rightarrow> sched_st \<Rightarrow> ptr option res" where
  "sched_class_pick_next cls s = sc_pick_next cls 0 s"

definition sched_class_proc_tick :: "sched_class \<Rightarrow> ptr \<Rightarrow> sched_st \<Rightarrow> sched_st res" where
  "sched_class_proc_tick cls p s =
     (if p \<noteq> idleproc s then sc_proc_tick cls 0 p s
      else Inr (upd_proc p (\<lambda>b. b\<lparr>p_need_resched := True\<rparr>) s))"

definition sched_init_class :: "sched_class \<Rightarrow> sched_st \<Rightarrow> sched_st res" where
  "sched_init_class cls s =
     (let s1 = s\<lparr>timer_list := []\<rparr>;
          s2 = s1\<lparr>rq_ring := list_init 0 (rq_ring s1)\<rparr>;
          s3 = upd_rq 0 (\<lambda>q. q\<lparr>max_time_slice := 8\<rparr>) s2;
          s4 = fold (\<lambda>i st.
                 let st1 = st\<lparr>rq_ring := list_add_before 0 i (rq_ring st)\<rparr>
                 in upd_rq i (\<lambda>q. q\<lparr>max_time_slice := max_time_slice (rqs st1 0) * 2 ^ i\<rparr>) st1)
               [1..<NUM_RQ] s3
      in sc_init cls 0 s4)"

text \<open>\<open>sched_init\<close> installs the deadline class.\<close>

definition sched_init :: "sched_st \<Rightarrow> sched_st res" where
  "sched_init s = sched_init_class MY_sched_class s"

definition wakeup_proc :: "sched_class \<Rightarrow> ptr \<Rightarrow> sched_st \<Rightarrow> sched_st res" where
  "wakeup_proc cls p s =
     bindR (assertR (p_state (procs s p) \<noteq> PROC_ZOMBIE) ''proc->state != PROC_ZOMBIE'') (\<lambda>_.
       if p_state (procs s p) \<noteq> PROC_RUNNABLE then
         (let s1 = upd_proc p (\<lambda>b. b\<lparr>p_state := PROC_RUNNABLE, p_wait_state := 0\<rparr>) s
          in if p \<noteq> current s1 then sched_class_enqueue cls p s1 else Inr s1)
       else Inr s)"

text \<open>\<open>proc_run\<close>: the switch makes \<open>p\<close> the process that continues.\<close>

definition proc_run :: "ptr \<Rightarrow> sched_st \<Rightarrow> sched_st" where
  "proc_run p s =
     (if p \<noteq> current s
      then s\<lparr>current := p, esp0 := p_kstack (procs s p) + KSTACKSIZE, cr3 := p_cr3 (procs s p)\<rparr>
      else s)"

definition schedule :: "sched_class \<Rightarrow> sched_st \<Rightarrow> sched_st res" where
  "schedule cls s =
     (let s1 = upd_proc (current s) (\<lambda>b. b\<lparr>p_need_resched := False\<rparr>) s
      in bindR (if p_state (procs s1 (current s1)) = PROC_RUNNABLE
                then sched_class_enqueue cls (current s1) s1 else Inr s1) (\<lambda>s2.
         bindR (sched_class_pick_next cls s2) (\<lambda>next.
         bindR (case next of Some n \<Rightarrow> sched_class_dequeue cls n s2 | None \<Rightarrow> Inr s2) (\<lambda>s3.
         let n = (case next of None \<Rightarrow> idleproc s3 | Some n \<Rightarrow> n)
         in bindR (chk32 (p_runs (procs s3 n) + 1)) (\<lambda>r.
         let s4 = upd_proc n (\<lambda>b. b\<lparr>p_runs := r\<rparr>) s3
         in Inr (if n \<noteq> current s4 then proc_run n s4 else s4))))))"

text \<open>The inner loop of \<open>run_timer_list\<close>, over the timers from the first one on: each expired
  timer wakes its process and is deleted.\<close>

fun expire_timers :: "sched_class \<Rightarrow> nat list \<Rightarrow> sched_st \<Rightarrow> sched_st res" where
  "expire_timers cls [] s = Inr s"
| "expire_timers cls (t # ts) s =
     (if tm_expires (timer s t) = 0 then
        bindR (deref (tm_proc (timer s t))) (\<lambda>p.
        bindR (if p_wait_state (procs s p) \<noteq> 0
               then assertR (p_wait_state (procs s p) AND WT_INTERRUPTED \<noteq> 0)
                      ''proc->wait_state & WT_INTERRUPTED''
               else Inr ()) (\<lambda>_.
        bindR (wakeup_proc cls p s) (\<lambda>s1.
        let s2 = del_timer t s1
        in if ts = [] then Inr s2 else expire_timers cls ts s2)))
      else Inr s)"

text \<open>The part of \<open>run_timer_list\<close> before the class is told of the tick.\<close>

definition advance_timers :: "sched_class \<Rightarrow> sched_st \<Rightarrow> sched_st res" where
  "advance_timers cls s =
     (case timer_list s of
        [] \<Rightarrow> Inr s
      | t # _ \<Rightarrow>
          bindR (assertR (tm_expires (timer s t) \<noteq> 0) ''timer->expires != 0'') (\<lambda>_.
          let s1 = s\<lparr>timer := (timer s)(t := (timer s t)\<lparr>tm_expires := tm_expires (timer s t) - 1\<rparr>)\<rparr>
          in expire_timers cls (timer_list s1) s1))"

definition run_timer_list :: "sched_class \<Rightarrow> sched_st \<Rightarrow> sched_st res" where
  "run_timer_list cls s =
     bindR (advance_timers cls s) (\<lambda>s1. sched_class_proc_tick cls (current s1) s1)"

section \<open>Initialisation\<close>

lemma sched_init_spec:
  "\<exists>s4. sched_init_class cls s = sc_init cls 0 s4 \<and> timer_list s4 = [] \<and> ring (rq_ring s4) 0 [1, 2, 3] \<and>
     (\<forall>i < NUM_RQ. max_time_slice (rqs s4 i) = 8 * 2 ^ i) \<and> procs s4 = procs s \<and> heap s4 = heap s \<and>
     current s4 = current s \<and> idleproc s4 = idleproc s"
proof -
  have up: "[1..<NUM_RQ] = [1, 2, 3]" by (simp add: NUM_RQ_def upt_rec)
  let ?r0 = "list_init 0 (rq_ring s)"
  have "ring ?r0 0 []" by (rule ring_init)
  then have "ring (fold (list_add_before 0) [1, 2, 3] ?r0) 0 ([] @ [1, 2, 3])"
    by (rule clist.add_before_all) auto
  then show ?thesis
    unfolding sched_init_class_def up Let_def
    by - (rule exI, rule conjI, rule refl, simp add: less_NUM_RQ)
qed

section \<open>Consequences of the contract\<close>

text \<open>The contract for the class installed on the kernel's run queue.\<close>

locale core_policy = sched_policy cls 0 waiting ok room prefers
  for cls waiting ok room prefers
begin

lemma enqueue_core:
  assumes "ok s" "p \<noteq> idleproc s \<Longrightarrow> room s \<and> p \<notin> waiting s"
  obtains s' where "sched_class_enqueue cls p s = Inr s'" "ok s'" "same_kernel s s'"
    "waiting s' = (if p \<noteq> idleproc s then insert p (waiting s) else waiting s)"
proof (cases "p = idleproc s")
  case True
  with assms that show ?thesis by (simp add: sched_class_enqueue_def same_kernel_def)
next
  case False
  with assms enqueue_ok [of s p] obtain s' where "sc_enqueue cls 0 p s = Inr s'" "ok s'"
    "waiting s' = insert p (waiting s)" by auto
  with False enqueue_kernel that show ?thesis by (auto simp: sched_class_enqueue_def)
qed

text \<open>The candidates of \<open>schedule\<close>: what waits, and the current process if it can go on.\<close>

definition candidates :: "sched_st \<Rightarrow> ptr set" where
  "candidates s = waiting s \<union>
     (if p_state (procs s (current s)) = PROC_RUNNABLE \<and> current s \<noteq> idleproc s
      then {current s} else {})"

lemma schedule_spec:
  assumes ok: "ok s" and ne: "candidates s \<noteq> {}"
    and cur: "p_state (procs s (current s)) = PROC_RUNNABLE \<Longrightarrow> current s \<noteq> idleproc s \<Longrightarrow>
      room s \<and> current s \<notin> waiting s"
  shows "\<exists>p s2. p \<in> candidates s \<and> (\<forall>x \<in> candidates s. prefers s2 p x) \<and>
    ok s2 \<and> waiting s2 = candidates s \<and> (\<forall>x. p_pt (procs s2 x) = p_pt (procs s x)) \<and>
    (if in_int (p_runs (procs s p) + 1)
     then \<exists>s'. schedule cls s = Inr s' \<and> current s' = p \<and> ok s' \<and>
       waiting s' = candidates s - {p} \<and> idleproc s' = idleproc s \<and>
       timer s' = timer s \<and> timer_list s' = timer_list s \<and>
       (\<forall>x. p_state (procs s' x) = p_state (procs s x) \<and> p_pt (procs s' x) = p_pt (procs s x))
     else schedule cls s = Inl Signed_overflow)"
proof -
  define s1 where "s1 = upd_proc (current s) (\<lambda>b. b\<lparr>p_need_resched := False\<rparr>) s"
  have "same_sched s s1" by (simp add: s1_def same_sched_def)
  with ok_same [OF ok] have ok1: "ok s1" "waiting s1 = waiting s" "room s \<longrightarrow> room s1" by auto
  have k1: "same_kernel s s1" by (simp add: s1_def same_kernel_def)
  note k1 = same_kernelD [OF k1]
  obtain s2 where s2: "(if p_state (procs s1 (current s1)) = PROC_RUNNABLE
      then sched_class_enqueue cls (current s1) s1 else Inr s1) = Inr s2" "ok s2"
    "same_kernel s1 s2" "waiting s2 = candidates s"
  proof (cases "p_state (procs s1 (current s1)) = PROC_RUNNABLE")
    case True
    with cur k1 ok1 have "current s1 \<noteq> idleproc s1 \<Longrightarrow> room s1 \<and> current s1 \<notin> waiting s1" by auto
    from enqueue_core [OF ok1(1) this] obtain s2 where
      "sched_class_enqueue cls (current s1) s1 = Inr s2" "ok s2" "same_kernel s1 s2"
      "waiting s2 = (if current s1 \<noteq> idleproc s1 then insert (current s1) (waiting s1) else waiting s1)" .
    with True ok1 k1 that show ?thesis by (auto simp: candidates_def)
  next
    case False
    with ok1 k1 that [of s1] show ?thesis by (simp add: candidates_def same_kernel_def)
  qed
  note k2 = same_kernelD [OF s2(3)]
  from pick_ok [OF s2(2)] s2(4) ne obtain p where p: "sc_pick_next cls 0 s2 = Inr (Some p)"
    "p \<in> candidates s" "\<forall>x \<in> candidates s. prefers s2 p x" by auto
  with dequeue_ok [OF s2(2), of p] s2(4) obtain s3 where s3: "sc_dequeue cls 0 p s2 = Inr s3" "ok s3"
    "waiting s3 = candidates s - {p}" by auto
  note k3 = same_kernelD [OF dequeue_kernel [OF s3(1)]]
  define s4 where "s4 = upd_proc p (\<lambda>b. b\<lparr>p_runs := p_runs (procs s p) + 1\<rparr>) s3"
  let ?s = "if p \<noteq> current s4 then proc_run p s4 else s4"
  have runs: "p_runs (procs s3 p) = p_runs (procs s p)" using k1 k2 k3 by simp
  have eq: "schedule cls s = (if in_int (p_runs (procs s p) + 1) then Inr ?s else Inl Signed_overflow)"
    using s2(1) p(1) s3(1)
    by (simp add: schedule_def sched_class_pick_next_def sched_class_dequeue_def s4_def chk32_def
        runs flip: s1_def)
  have cur: "current ?s = p" by (simp add: proc_run_def)
  have "same_sched s3 ?s" by (simp add: s4_def same_sched_def proc_run_def)
  with ok_same [OF s3(2)] have "ok ?s" "waiting ?s = candidates s - {p}" using s3(3) by auto
  moreover have "idleproc ?s = idleproc s" "timer ?s = timer s" "timer_list ?s = timer_list s"
    using k1 k2 k3 by (simp_all add: s4_def proc_run_def)
  moreover have "p_state (procs ?s x) = p_state (procs s x) \<and> p_pt (procs ?s x) = p_pt (procs s x)" for x
    using k1 k2 k3 by (simp add: s4_def proc_run_def)
  ultimately show ?thesis
    using eq cur p s2 k1 k2 by (intro exI [of _ p] exI [of _ s2]) auto
qed

text \<open>What a wake-up does to the set of waiting processes.\<close>

lemma wakeup_spec:
  assumes ok: "ok s" and st: "p_state (procs s p) \<noteq> PROC_ZOMBIE"
    and new: "p_state (procs s p) \<noteq> PROC_RUNNABLE \<Longrightarrow> p \<noteq> current s \<Longrightarrow> p \<noteq> idleproc s \<Longrightarrow>
      room s \<and> p \<notin> waiting s"
  shows "\<exists>s'. wakeup_proc cls p s = Inr s' \<and> ok s' \<and> current s' = current s \<and>
    idleproc s' = idleproc s \<and> timer s' = timer s \<and> timer_list s' = timer_list s \<and>
    waiting s' = waiting s \<union> (if p_state (procs s p) \<noteq> PROC_RUNNABLE \<and> p \<noteq> current s \<and> p \<noteq> idleproc s
                                then {p} else {}) \<and>
    (\<forall>x. p_state (procs s' x) = (if x = p then PROC_RUNNABLE else p_state (procs s x)) \<and>
         p_pt (procs s' x) = p_pt (procs s x))"
proof (cases "p_state (procs s p) = PROC_RUNNABLE")
  case True
  with ok show ?thesis by (simp add: wakeup_proc_def)
next
  case False
  define s1 where "s1 = upd_proc p (\<lambda>b. b\<lparr>p_state := PROC_RUNNABLE, p_wait_state := 0\<rparr>) s"
  have "same_sched s s1" by (simp add: s1_def same_sched_def)
  with ok_same [OF ok] have ok1: "ok s1" "waiting s1 = waiting s" "room s \<longrightarrow> room s1" by auto
  have w: "wakeup_proc cls p s = (if p \<noteq> current s1 then sched_class_enqueue cls p s1 else Inr s1)"
    using False st by (simp add: wakeup_proc_def flip: s1_def)
  show ?thesis
  proof (cases "p = current s")
    case True
    then have "wakeup_proc cls p s = Inr s1" using w by (simp add: s1_def)
    with True ok1 show ?thesis by (simp add: s1_def)
  next
    case cur: False
    then have "p \<noteq> idleproc s1 \<Longrightarrow> room s1 \<and> p \<notin> waiting s1"
      using new False ok1 by (simp add: s1_def)
    from enqueue_core [OF ok1(1) this] obtain s2 where s2: "sched_class_enqueue cls p s1 = Inr s2"
      "ok s2" "same_kernel s1 s2"
      "waiting s2 = (if p \<noteq> idleproc s1 then insert p (waiting s1) else waiting s1)" .
    have "wakeup_proc cls p s = Inr s2" using w s2(1) cur by (simp add: s1_def)
    moreover have "waiting s2 = waiting s \<union> (if p \<noteq> idleproc s then {p} else {})"
      unfolding s2(4) ok1(2) by (simp add: s1_def)
    ultimately show ?thesis
      using s2(2) same_kernelD [OF s2(3)] cur False by (simp add: s1_def)
  qed
qed

text \<open>The frame of a wake-up that returns.\<close>

lemma wakeup_frame:
  assumes "wakeup_proc cls p s = Inr s'"
  shows "current s' = current s" "idleproc s' = idleproc s" "timer s' = timer s"
    "timer_list s' = timer_list s" "p_state (procs s p) \<noteq> PROC_ZOMBIE"
    "p_state (procs s' x) = (if x = p then PROC_RUNNABLE else p_state (procs s x))"
    "p_wait_state (procs s' x) \<in> {0, p_wait_state (procs s x)}"
    "p_pt (procs s' x) = p_pt (procs s x)"
proof -
  from assms have z: "p_state (procs s p) \<noteq> PROC_ZOMBIE" by (simp add: wakeup_proc_def res_simps)
  have "s' = s \<and> p_state (procs s p) = PROC_RUNNABLE \<or>
    same_kernel (upd_proc p (\<lambda>b. b\<lparr>p_state := PROC_RUNNABLE, p_wait_state := 0\<rparr>) s) s'"
    using assms enqueue_kernel
    by (auto simp: wakeup_proc_def sched_class_enqueue_def res_simps same_kernel_def split: if_splits)
  note cs = this
  show "p_state (procs s p) \<noteq> PROC_ZOMBIE" by (rule z)
  from cs show "current s' = current s" "idleproc s' = idleproc s" "timer s' = timer s"
    "timer_list s' = timer_list s"
    "p_state (procs s' x) = (if x = p then PROC_RUNNABLE else p_state (procs s x))"
    "p_wait_state (procs s' x) \<in> {0, p_wait_state (procs s x)}"
    "p_pt (procs s' x) = p_pt (procs s x)"
    by (auto simp: same_kernel_def)
qed

text \<open>The expiry loop, when it returns: exactly the leading expired timers go, and their
  processes are runnable.\<close>

lemma del_expired: "timer_list s = t # ts \<Longrightarrow> tm_expires (timer s t) = 0 \<Longrightarrow> del_timer t s = s\<lparr>timer_list := ts\<rparr>"
  by (simp add: del_timer_def)

lemma expire_timers_spec:
  "expire_timers cls ts s = Inr s' \<Longrightarrow> timer_list s = ts \<Longrightarrow>
   timer s' = timer s \<and> current s' = current s \<and> idleproc s' = idleproc s \<and>
   timer_list s' = dropWhile (\<lambda>t. tm_expires (timer s t) = 0) ts \<and>
   (\<forall>t \<in> set (takeWhile (\<lambda>t. tm_expires (timer s t) = 0) ts).
      \<exists>p. tm_proc (timer s t) = Some p \<and> p_state (procs s' p) = PROC_RUNNABLE) \<and>
   (\<forall>x. p_state (procs s' x) = p_state (procs s x) \<or> p_state (procs s' x) = PROC_RUNNABLE)"
proof (induction ts arbitrary: s)
  case Nil
  then show ?case by simp
next
  case (Cons t ts)
  show ?case
  proof (cases "tm_expires (timer s t) = 0")
    case False
    with Cons.prems show ?thesis by simp
  next
    case True
    with Cons.prems(1) obtain p s1 where p: "tm_proc (timer s t) = Some p"
      and s1: "wakeup_proc cls p s = Inr s1"
      and rest: "(if ts = [] then Inr (del_timer t s1) else expire_timers cls ts (del_timer t s1)) = Inr s'"
      by (auto simp: res_simps split: if_splits)
    note f = wakeup_frame [OF s1]
    let ?s2 = "s1\<lparr>timer_list := ts\<rparr>"
    have "del_timer t s1 = ?s2" by (rule del_expired) (use f Cons.prems True in auto)
    with rest have "expire_timers cls ts ?s2 = Inr s'" by (cases ts) auto
    from Cons.IH [OF this] f True p show ?thesis by auto metis+
  qed
qed

end

interpretation edf_core: core_policy MY_sched_class edf_waiting "edf_ok 0" edf_room edf_prefers
  by unfold_locales

interpretation mlfq_core: core_policy MLFQ_sched_class mlfq_waiting queues_wf "\<lambda>_. True" mlfq_prefers
  by unfold_locales

interpretation rr_core: core_policy RR_sched_class mlfq_waiting rr_ok "\<lambda>_. True" mlfq_prefers
  by unfold_locales

end
