(* ===== verification/Sched_Kernel.thy ===== *)
theory Sched_Kernel
  imports Sched_Core
begin

text \<open>
  The scheduler as a state machine under the earliest-deadline-first class.  \<open>kstep\<close> has one rule
  for each thing the kernel does to this state: a timer interrupt, a call of \<open>schedule\<close>, a
  wake-up, the current process leaving the runnable state, adding or deleting a timer, and the
  creation of a block.  \<open>kernel_inv\<close> holds in every state reachable from \<open>sched_init\<close>:
  the heap represents the waiting processes with their current deadlines, all of them are
  runnable, neither the current process nor \<open>idleproc\<close> is among them, and the timer list is
  well formed.
\<close>

section \<open>Timers\<close>

context core_policy
begin

lemma advance_timers_spec:
  assumes wf: "timers_wf s" and ret: "advance_timers cls s = Inr s'"
  shows "timers_wf s'"
    and "timer_list s' = filter (\<lambda>t. due (timer s) (timer_list s) t \<noteq> 1) (timer_list s)"
    and "\<forall>t \<in> set (timer_list s'). due (timer s') (timer_list s') t = due (timer s) (timer_list s) t - 1"
    and "\<forall>t \<in> set (timer_list s). due (timer s) (timer_list s) t = 1 \<longrightarrow>
      (\<exists>p. tm_proc (timer s t) = Some p \<and> p_state (procs s' p) = PROC_RUNNABLE)"
    and "current s' = current s" "idleproc s' = idleproc s"
proof -
  have "timers_wf s' \<and>
     timer_list s' = filter (\<lambda>t. due (timer s) (timer_list s) t \<noteq> 1) (timer_list s) \<and>
     (\<forall>t \<in> set (timer_list s'). due (timer s') (timer_list s') t = due (timer s) (timer_list s) t - 1) \<and>
     (\<forall>t \<in> set (timer_list s). due (timer s) (timer_list s) t = 1 \<longrightarrow>
      (\<exists>p. tm_proc (timer s t) = Some p \<and> p_state (procs s' p) = PROC_RUNNABLE)) \<and>
     current s' = current s \<and> idleproc s' = idleproc s"
  proof (cases "timer_list s")
    case Nil
    then show ?thesis using ret wf by (simp add: advance_timers_def)
  next
    case (Cons t ts)
    let ?tm = "(timer s)(t := (timer s t)\<lparr>tm_expires := tm_expires (timer s t) - 1\<rparr>)"
    let ?ex = "\<lambda>x. tm_expires (?tm x) = 0"
    from ret Cons have t: "tm_expires (timer s t) \<noteq> 0"
      and ex: "expire_timers cls (t # ts) (s\<lparr>timer := ?tm\<rparr>) = Inr s'"
      by (auto simp: advance_timers_def res_simps simp del: expire_timers.simps)
    have d: "distinct (t # ts)" and sp: "span (timer s) (t # ts) < 2 ^ 32"
      using wf Cons by (auto simp: timers_wf_def)
    define xs where "xs = t # ts"
    define tm where "tm = ?tm"
    have dec: "due tm xs x = due (timer s) xs x - 1" "0 < due (timer s) xs x"
      "span tm xs = span (timer s) xs - 1" for x
      unfolding xs_def tm_def using due_decrement [OF d, of "timer s", OF t] by blast+
    have pre: "dropWhile (\<lambda>x. tm_expires (tm x) = 0) xs = filter (\<lambda>x. due tm xs x \<noteq> 0) xs"
      "set (takeWhile (\<lambda>x. tm_expires (tm x) = 0) xs) = {x \<in> set xs. due tm xs x = 0}"
      "\<forall>x \<in> set (dropWhile (\<lambda>x. tm_expires (tm x) = 0) xs).
         due tm (dropWhile (\<lambda>x. tm_expires (tm x) = 0) xs) x = due tm xs x"
      "span tm (dropWhile (\<lambda>x. tm_expires (tm x) = 0) xs) = span tm xs"
      unfolding xs_def using due_zero_prefix [OF d, of tm] by blast+
    from expire_timers_spec [OF ex, folded tm_def xs_def] Cons have s': "timer s' = tm"
      "timer_list s' = dropWhile (\<lambda>x. tm_expires (tm x) = 0) xs"
      "current s' = current s" "idleproc s' = idleproc s"
      "\<forall>x \<in> set (takeWhile (\<lambda>x. tm_expires (tm x) = 0) xs).
         \<exists>p. tm_proc (tm x) = Some p \<and> p_state (procs s' p) = PROC_RUNNABLE"
      by (auto simp: xs_def [symmetric])
    have one: "due tm xs x = 0 \<longleftrightarrow> due (timer s) xs x = 1" for x
      using dec(1,2) [of x] by linarith
    have tl: "timer_list s = xs" by (simp add: xs_def Cons)
    have l: "timer_list s' = filter (\<lambda>x. due (timer s) xs x \<noteq> 1) xs"
      unfolding s' pre one ..
    have "\<forall>x \<in> set (timer_list s'). due (timer s') (timer_list s') x = due (timer s) xs x - 1"
      using pre(3) dec(1) unfolding s' by simp
    moreover have "\<exists>p. tm_proc (timer s x) = Some p \<and> p_state (procs s' p) = PROC_RUNNABLE"
      if "x \<in> set xs" "due (timer s) xs x = 1" for x
    proof -
      have "x \<in> set (takeWhile (\<lambda>x. tm_expires (tm x) = 0) xs)" using that one pre(2) by simp
      with s'(5) have "\<exists>p. tm_proc (tm x) = Some p \<and> p_state (procs s' p) = PROC_RUNNABLE" by blast
      then show ?thesis by (auto simp: tm_def split: if_splits)
    qed
    moreover have "timers_wf s'"
      unfolding timers_wf_def
    proof (intro conjI)
      show "distinct (timer_list s')" using d unfolding l xs_def by (rule distinct_filter)
      have "span tm xs < 2 ^ 32" unfolding dec(3) using sp [folded xs_def] by linarith
      then show "span (timer s') (timer_list s') < 2 ^ 32" unfolding s' pre(4) .
      show "case timer_list s' of [] \<Rightarrow> True | x # _ \<Rightarrow> tm_expires (timer s' x) \<noteq> 0"
        unfolding s' using hd_dropWhile [of "\<lambda>x. tm_expires (tm x) = 0" xs]
        by (cases "dropWhile (\<lambda>x. tm_expires (tm x) = 0) xs") (simp_all del: dropWhile_eq_Nil_conv)
    qed
    ultimately show ?thesis using s'(3,4) l unfolding tl by blast
  qed
  then show "timers_wf s'"
    and "timer_list s' = filter (\<lambda>t. due (timer s) (timer_list s) t \<noteq> 1) (timer_list s)"
    and "\<forall>t \<in> set (timer_list s'). due (timer s') (timer_list s') t = due (timer s) (timer_list s) t - 1"
    and "\<forall>t \<in> set (timer_list s). due (timer s) (timer_list s) t = 1 \<longrightarrow>
      (\<exists>p. tm_proc (timer s t) = Some p \<and> p_state (procs s' p) = PROC_RUNNABLE)"
    and "current s' = current s" "idleproc s' = idleproc s" by blast+
qed

end

section \<open>The kernel invariant\<close>

definition kernel_inv :: "sched_st \<Rightarrow> bool" where
  "kernel_inv s \<longleftrightarrow> edf_ok 0 s \<and> current s \<notin> edf_waiting s \<and> idleproc s \<notin> edf_waiting s \<and>
     (\<forall>p \<in> edf_waiting s. p_state (procs s p) = PROC_RUNNABLE)"

lemma kernel_invD:
  assumes "kernel_inv s"
  shows "edf_ok 0 s" "edf_repr 0 s (edf_waiting s)" "current s \<notin> edf_waiting s"
    "idleproc s \<notin> edf_waiting s" "p \<in> edf_waiting s \<Longrightarrow> p_state (procs s p) = PROC_RUNNABLE"
  using assms by (simp_all add: kernel_inv_def edf_ok_def)

text \<open>A change that keeps the scheduling state and the states of the waiting processes.\<close>

lemma kernel_inv_same:
  assumes "kernel_inv s" "same_sched s s'" "current s' = current s" "idleproc s' = idleproc s"
    "\<And>p. p \<in> edf_waiting s \<Longrightarrow> p_state (procs s' p) = PROC_RUNNABLE"
  shows "kernel_inv s'"
  using edf.ok_same [OF kernel_invD(1) [OF assms(1)] assms(2)] assms by (simp add: kernel_inv_def)

lemma wakeup_needs_room:
  assumes "wakeup_proc MY_sched_class p s = Inr s'" "p_state (procs s p) \<noteq> PROC_RUNNABLE"
    "p \<noteq> current s" "p \<noteq> idleproc s"
  shows "edf_room s"
  using assms
  by (auto simp: wakeup_proc_def sched_class_enqueue_def MY_enqueue_def heap_push_def edf_room_def
      res_simps split: if_splits)

lemma wakeup_kernel_inv [kinv]:
  assumes inv: "kernel_inv s" and ret: "wakeup_proc MY_sched_class p s = Inr s'"
  shows "kernel_inv s'"
proof -
  note i = kernel_invD [OF inv]
  have z: "p_state (procs s p) \<noteq> PROC_ZOMBIE" by (rule edf_core.wakeup_frame(5) [OF ret])
  have new: "edf_room s \<and> p \<notin> edf_waiting s"
    if "p_state (procs s p) \<noteq> PROC_RUNNABLE" "p \<noteq> current s" "p \<noteq> idleproc s"
    using that wakeup_needs_room [OF ret] i(5) by auto
  from edf_core.wakeup_spec [OF i(1) z] new ret show ?thesis
    using i by (auto simp: kernel_inv_def split: if_splits)
qed

lemma expire_kernel_inv [kinv]:
  "kernel_inv s \<Longrightarrow> timer_list s = ts \<Longrightarrow> expire_timers MY_sched_class ts s = Inr s' \<Longrightarrow> kernel_inv s'"
proof (induction ts arbitrary: s)
  case Nil
  then show ?case by simp
next
  case (Cons t ts)
  show ?case
  proof (cases "tm_expires (timer s t) = 0")
    case False
    with Cons.prems show ?thesis by simp
  next
    case True
    with Cons.prems(3) obtain p s1 where s1: "wakeup_proc MY_sched_class p s = Inr s1"
      and rest: "(if ts = [] then Inr (del_timer t s1)
                  else expire_timers MY_sched_class ts (del_timer t s1)) = Inr s'"
      by (auto simp: res_simps split: if_splits)
    note f = edf_core.wakeup_frame [OF s1]
    let ?s2 = "s1\<lparr>timer_list := ts\<rparr>"
    have "del_timer t s1 = ?s2" by (rule edf_core.del_expired) (use f Cons.prems True in auto)
    with rest have r: "expire_timers MY_sched_class ts ?s2 = Inr s'" by (cases ts) auto
    have k1: "kernel_inv s1" by (rule wakeup_kernel_inv [OF Cons.prems(1) s1])
    have "kernel_inv ?s2"
      by (rule kernel_inv_same [OF k1]) (use kernel_invD(5) [OF k1] in \<open>auto simp: same_sched_def\<close>)
    from Cons.IH [OF this _ r] show ?thesis by simp
  qed
qed

lemma advance_kernel_inv [kinv]:
  assumes inv: "kernel_inv s" and ret: "advance_timers MY_sched_class s = Inr s'"
  shows "kernel_inv s'"
proof (cases "timer_list s")
  case Nil
  with assms show ?thesis by (simp add: advance_timers_def)
next
  case (Cons t ts)
  let ?s1 = "s\<lparr>timer := (timer s)(t := (timer s t)\<lparr>tm_expires := tm_expires (timer s t) - 1\<rparr>)\<rparr>"
  have "kernel_inv ?s1"
    by (rule kernel_inv_same [OF inv]) (use kernel_invD(5) [OF inv] in \<open>auto simp: same_sched_def\<close>)
  moreover have "expire_timers MY_sched_class (timer_list ?s1) ?s1 = Inr s'"
    using ret Cons by (auto simp: advance_timers_def res_simps simp del: expire_timers.simps)
  ultimately show ?thesis using expire_kernel_inv by blast
qed

lemma tick_kernel_inv [kinv]:
  assumes inv: "kernel_inv s" and ret: "sched_class_proc_tick MY_sched_class (current s) s = Inr s'"
  shows "kernel_inv s'"
proof (cases "current s = idleproc s")
  case True
  with ret have s': "s' = upd_proc (current s) (\<lambda>b. b\<lparr>p_need_resched := True\<rparr>) s"
    by (simp add: sched_class_proc_tick_def)
  show ?thesis
    by (rule kernel_inv_same [OF inv])
      (use kernel_invD(5) [OF inv] s' in \<open>auto simp: same_sched_def\<close>)
next
  case False
  note i = kernel_invD [OF inv]
  have ret': "MY_proc_tick 0 (current s) s = Inr s'"
    using ret False by (simp add: sched_class_proc_tick_def)
  obtain s1 where r: "edf_repr 0 s' (edf_waiting s)"
    and x: "\<And>x. x \<in> edf_waiting s \<Longrightarrow> procs s' x = (procs s x)\<lparr>p_pt := p_pt (procs s x) - 1\<rparr>"
    and c: "current s' = current s" "idleproc s' = idleproc s"
    by (rule MY_proc_tick_spec [OF i(2,3) ret']) blast
  have w: "edf_waiting s' = edf_waiting s" by (rule edf_repr_waiting [OF r])
  show ?thesis using r c i x unfolding kernel_inv_def w edf_ok_def by auto
qed

lemma run_timer_list_kernel_inv [kinv]:
  assumes inv: "kernel_inv s" and ret: "run_timer_list MY_sched_class s = Inr s'"
  shows "kernel_inv s'"
  using ret unfolding run_timer_list_def bindR_eq_Inr
  by (auto intro: tick_kernel_inv advance_kernel_inv [OF inv])

text \<open>\<open>schedule\<close>: with nothing to run it panics; otherwise it returns, unless a run counter
  overflows or the heap is full, and what it runs has the earliest deadline.\<close>

lemma schedule_nothing:
  assumes inv: "kernel_inv s" and e: "edf_core.candidates s = {}"
  shows "schedule MY_sched_class s = Inl (Panic ''sched_MY.c pick_next: heap is empty!'')"
proof -
  define s1 where "s1 = upd_proc (current s) (\<lambda>b. b\<lparr>p_need_resched := False\<rparr>) s"
  have "same_sched s s1" by (simp add: s1_def same_sched_def)
  with edf.ok_same [OF kernel_invD(1) [OF inv]] have "edf_ok 0 s1" "edf_waiting s1 = edf_waiting s"
    by auto
  moreover have "edf_waiting s = {}" using e by (simp add: edf_core.candidates_def)
  ultimately have "edf_repr 0 s1 {}" by (simp add: edf_ok_def)
  then have "heap_empty (heap s1)" by (simp add: edf_repr_empty)
  moreover have "(if p_state (procs s1 (current s1)) = PROC_RUNNABLE
      then sched_class_enqueue MY_sched_class (current s1) s1 else Inr s1) = Inr s1"
    using e by (auto simp: edf_core.candidates_def s1_def sched_class_enqueue_def split: if_splits)
  ultimately show ?thesis
    by (simp add: schedule_def sched_class_pick_next_def MY_pick_next_def flip: s1_def)
qed

lemma schedule_needs_room:
  assumes "schedule MY_sched_class s = Inr s'"
    "p_state (procs s (current s)) = PROC_RUNNABLE" "current s \<noteq> idleproc s"
  shows "edf_room s"
  using assms
  by (auto simp: schedule_def sched_class_enqueue_def MY_enqueue_def heap_push_def edf_room_def
      bindR_eq_Inr split: if_splits)

lemma schedule_edf:
  assumes inv: "kernel_inv s" and ret: "schedule MY_sched_class s = Inr s'"
  shows "kernel_inv s'" and "current s' \<in> edf_core.candidates s"
    and "edf_waiting s' = edf_core.candidates s - {current s'}"
    and "\<forall>x \<in> edf_core.candidates s. p_pt (procs s (current s')) \<le> p_pt (procs s x)"
    and "\<forall>x. p_pt (procs s' x) = p_pt (procs s x) \<and> p_state (procs s' x) = p_state (procs s x)"
    and "timer s' = timer s" "timer_list s' = timer_list s"
proof -
  note i = kernel_invD [OF inv]
  let ?C = "edf_core.candidates s"
  have ne: "?C \<noteq> {}" using schedule_nothing [OF inv] ret by auto
  have cur: "edf_room s \<and> current s \<notin> edf_waiting s"
    if "p_state (procs s (current s)) = PROC_RUNNABLE" "current s \<noteq> idleproc s"
    using schedule_needs_room [OF ret that] i(3) by simp
  from edf_core.schedule_spec [OF i(1) ne cur] ret obtain s2 where s2:
    "current s' \<in> ?C" "\<forall>x \<in> ?C. edf_prefers s2 (current s') x"
    "\<forall>x. p_pt (procs s2 x) = p_pt (procs s x)" "edf_ok 0 s'"
    "edf_waiting s' = ?C - {current s'}" "idleproc s' = idleproc s"
    "timer s' = timer s" "timer_list s' = timer_list s"
    "\<forall>x. p_state (procs s' x) = p_state (procs s x) \<and> p_pt (procs s' x) = p_pt (procs s x)"
    by (force split: if_splits)
  have "p_state (procs s x) = PROC_RUNNABLE \<and> x \<noteq> idleproc s" if "x \<in> ?C" for x
    using that i(4,5) by (auto simp: edf_core.candidates_def split: if_splits)
  then show "kernel_inv s'" using s2 by (auto simp: kernel_inv_def)
  show "\<forall>x \<in> ?C. p_pt (procs s (current s')) \<le> p_pt (procs s x)"
    using s2(2,3) by (simp add: edf_prefers_def)
  show "current s' \<in> ?C" "edf_waiting s' = ?C - {current s'}"
    "\<forall>x. p_pt (procs s' x) = p_pt (procs s x) \<and> p_state (procs s' x) = p_state (procs s x)"
    "timer s' = timer s" "timer_list s' = timer_list s"
    using s2 by auto
qed

text \<open>The processes \<open>schedule\<close> chooses from: those waiting, and the running process if it is
  runnable and not the idle one.\<close>

definition schedulable :: "sched_st \<Rightarrow> ptr set" where
  "schedulable s = edf_waiting s \<union>
     (if p_state (procs s (current s)) = PROC_RUNNABLE \<and> current s \<noteq> idleproc s
      then {current s} else {})"

lemma candidates_schedulable: "edf_core.candidates s = schedulable s"
  by (simp add: edf_core.candidates_def schedulable_def)

section \<open>Steps and reachable states\<close>

text \<open>
  The steps of the kernel on this state.  \<open>block\<close> is the running process giving up the
  processor (\<open>do_sleep\<close>, \<open>do_wait\<close>, \<open>__do_exit\<close>), \<open>create\<close> the
  initialisation of a block that is not in use (\<open>do_fork\<close>), \<open>resched\<close> the request of
  \<open>do_yield\<close>.
\<close>

inductive kstep :: "sched_st \<Rightarrow> sched_st \<Rightarrow> bool" where
  tick: "run_timer_list MY_sched_class s = Inr s' \<Longrightarrow> kstep s s'"
| sched: "schedule MY_sched_class s = Inr s' \<Longrightarrow> kstep s s'"
| wakeup: "wakeup_proc MY_sched_class p s = Inr s' \<Longrightarrow> kstep s s'"
| block: "st \<noteq> PROC_RUNNABLE \<Longrightarrow>
    kstep s (upd_proc (current s) (\<lambda>b. b\<lparr>p_state := st, p_wait_state := w\<rparr>) s)"
| resched: "kstep s (upd_proc (current s) (\<lambda>b. b\<lparr>p_need_resched := True\<rparr>) s)"
| create: "p \<noteq> current s \<Longrightarrow> p \<notin> edf_waiting s \<Longrightarrow> p_state b = PROC_UNINIT \<Longrightarrow>
    kstep s (s\<lparr>procs := (procs s)(p := b)\<rparr>)"
| start_timer: "t \<notin> set (timer_list s) \<Longrightarrow>
    add_timer t (timer_init t (Some p) e s) = Inr s' \<Longrightarrow> kstep s s'"
| stop_timer: "kstep s (del_timer t s)"

inductive_cases kstepE: "kstep s s'"

inductive reachable :: "sched_st \<Rightarrow> sched_st \<Rightarrow> bool" for s0 where
  boot: "sched_init s0 = Inr s \<Longrightarrow> reachable s0 s"
| step: "reachable s0 s \<Longrightarrow> kstep s s' \<Longrightarrow> reachable s0 s'"

definition sys_inv :: "sched_st \<Rightarrow> bool" where
  "sys_inv s \<longleftrightarrow> kernel_inv s \<and> timers_wf s"

lemma boot_inv [kinv]: "sched_init s0 = Inr s \<Longrightarrow> sys_inv s"
proof -
  assume ret: "sched_init s0 = Inr s"
  from sched_init_spec [of MY_sched_class s0] obtain s4 where
    "MY_init 0 s4 = Inr s" "timer_list s4 = []" using ret by (auto simp: sched_init_def)
  moreover from this MY_init_spec [of 0 s4] have "edf_repr 0 s {}" by auto
  ultimately show ?thesis
    using edf_repr_waiting [of 0 s "{}"]
    by (auto simp: sys_inv_def kernel_inv_def edf_ok_def timers_wf_def MY_init_def)
qed

lemma timers_wf_cong:
  "timer s' = timer s \<Longrightarrow> timer_list s' = timer_list s \<Longrightarrow> timers_wf s' = timers_wf s"
  unfolding timers_wf_def by (simp cong: list.case_cong)

lemma timers_wf_upd [simp]:
  "timers_wf (upd_proc p f s) = timers_wf s" "timers_wf (s\<lparr>procs := ps\<rparr>) = timers_wf s"
  by (rule timers_wf_cong; simp)+

lemma timers_wf_init:
  assumes wf: "timers_wf s" and t: "t \<notin> set (timer_list s)"
  shows "timers_wf (timer_init t p e s)"
proof -
  have "span (timer (timer_init t p e s)) (timer_list s) = span (timer s) (timer_list s)"
    by (rule span_cong) (use t in \<open>auto simp: timer_init_def\<close>)
  moreover have "timer_list (timer_init t p e s) = timer_list s" by (simp add: timer_init_def)
  moreover have "timer (timer_init t p e s) x = timer s x" if "x \<in> set (timer_list s)" for x
    using t that by (auto simp: timer_init_def)
  ultimately show ?thesis
    using wf unfolding timers_wf_def by (cases "timer_list s") (auto simp del: span_simps)
qed

lemma MY_proc_tick_timers:
  "sched_class_proc_tick MY_sched_class p s = Inr s' \<Longrightarrow> timer s' = timer s \<and> timer_list s' = timer_list s"
proof -
  have entry: "timer s' = timer s \<and> timer_list s' = timer_list s" if "tick_entry i s = Inr s'" for i s s'
    using that by (auto simp: tick_entry_def res_simps split: if_splits)
  have entries: "timer s' = timer s \<and> timer_list s' = timer_list s" if "tick_entries is s = Inr s'" for "is" s s'
    using that by (induction "is" arbitrary: s) (auto simp: bindR_eq_Inr dest!: entry)
  have cur: "timer s' = timer s \<and> timer_list s' = timer_list s" if "tick_current p s = Inr s'" for s s'
    using that by (auto simp: tick_current_def res_simps split: if_splits)
  assume "sched_class_proc_tick MY_sched_class p s = Inr s'"
  then show ?thesis
    by (auto simp: sched_class_proc_tick_def MY_proc_tick_def tick_decrease_pt_heap_def bindR_eq_Inr
        dest!: entries cur split: if_splits)
qed

lemma del_timer_absent: "t \<notin> set (timer_list s) \<Longrightarrow> del_timer t s = s"
  by (simp add: del_timer_def)

lemma del_timer_same: "same_sched s (del_timer t s)" "procs (del_timer t s) = procs s"
    "current (del_timer t s) = current s" "idleproc (del_timer t s) = idleproc s"
  by (auto simp: del_timer_def same_sched_def split: list.split)

lemma kstep_inv:
  assumes "kstep s s'" "sys_inv s"
  shows "sys_inv s'"
  using assms
proof (induction rule: kstep.induct)
  case (tick s s')
  then have k: "kernel_inv s'" by (auto simp: sys_inv_def intro: run_timer_list_kernel_inv)
  from tick obtain s1 where s1: "advance_timers MY_sched_class s = Inr s1"
    "sched_class_proc_tick MY_sched_class (current s1) s1 = Inr s'"
    by (auto simp: run_timer_list_def bindR_eq_Inr)
  have "timers_wf s1" by (rule edf_core.advance_timers_spec(1) [OF _ s1(1)]) (use tick in \<open>simp add: sys_inv_def\<close>)
  with MY_proc_tick_timers [OF s1(2)] have "timers_wf s'" using timers_wf_cong by blast
  with k show ?case by (simp add: sys_inv_def)
next
  case (sched s s')
  then have "kernel_inv s" by (simp add: sys_inv_def)
  note k = schedule_edf [OF this sched(1)]
  with timers_wf_cong [of s' s] sched show ?case by (simp only: sys_inv_def)
next
  case (wakeup p s s')
  then have "kernel_inv s'" by (auto simp: sys_inv_def intro: wakeup_kernel_inv)
  with edf_core.wakeup_frame [OF wakeup(1)] wakeup(2) timers_wf_cong [of s' s] show ?case
    by (simp only: sys_inv_def)
next
  case (block st s w)
  have "kernel_inv (upd_proc (current s) (\<lambda>b. b\<lparr>p_state := st, p_wait_state := w\<rparr>) s)"
    by (rule kernel_inv_same) (use block kernel_invD [of s] in \<open>auto simp: sys_inv_def same_sched_def\<close>)
  with block show ?case by (simp add: sys_inv_def)
next
  case (resched s)
  have "kernel_inv (upd_proc (current s) (\<lambda>b. b\<lparr>p_need_resched := True\<rparr>) s)"
    by (rule kernel_inv_same) (use resched kernel_invD [of s] in \<open>auto simp: sys_inv_def same_sched_def\<close>)
  with resched show ?case by (simp add: sys_inv_def)
next
  case (create p s b)
  let ?s = "s\<lparr>procs := (procs s)(p := b)\<rparr>"
  have inv: "kernel_inv s" using create by (simp add: sys_inv_def)
  have "edf_repr 0 ?s (edf_waiting s)"
    by (rule edf_repr_cong [OF kernel_invD(2) [OF inv]]) (use create in auto)
  moreover have "edf_waiting ?s = edf_waiting s" by (simp add: edf_waiting_def)
  ultimately have "kernel_inv ?s" using kernel_invD [OF inv] create(2) by (auto simp: kernel_inv_def edf_ok_def)
  with create show ?case by (simp add: sys_inv_def)
next
  case (start_timer t s p e s')
  let ?s = "timer_init t (Some p) e s"
  have wf: "timers_wf ?s"
    by (rule timers_wf_init) (use start_timer in \<open>simp_all add: sys_inv_def\<close>)
  have e: "e \<noteq> 0" using start_timer(2) by (auto simp: add_timer_def timer_init_def res_simps)
  obtain tm us vs where s': "s' = ?s\<lparr>timer := tm, timer_list := us @ t # vs\<rparr>"
    "timers_wf (?s\<lparr>timer := tm, timer_list := us @ t # vs\<rparr>)"
    by (rule add_timer_spec [OF wf, of t]) (use start_timer e in \<open>auto simp: timer_init_def\<close>)
  have "kernel_inv s'"
    by (rule kernel_inv_same [of s])
      (use start_timer kernel_invD [of s] s' in \<open>auto simp: sys_inv_def same_sched_def timer_init_def\<close>)
  with s' show ?case by (simp add: sys_inv_def)
next
  case (stop_timer s t)
  have k: "kernel_inv (del_timer t s)"
    by (rule kernel_inv_same [of s])
      (use stop_timer kernel_invD [of s] in \<open>simp_all add: sys_inv_def del_timer_same\<close>)
  have "timers_wf (del_timer t s)"
  proof (cases "t \<in> set (timer_list s)")
    case True
    then obtain us vs where "timer_list s = us @ t # vs" by (auto dest: split_list)
    from del_timer_spec(2) [OF _ this] stop_timer show ?thesis by (simp add: sys_inv_def)
  next
    case False
    with stop_timer show ?thesis by (simp add: del_timer_absent sys_inv_def)
  qed
  with k show ?case by (simp add: sys_inv_def)
qed

lemma reachable_inv: "reachable s0 s \<Longrightarrow> sys_inv s"
  by (induction rule: reachable.induct) (auto intro: boot_inv kstep_inv)

section \<open>Properties\<close>

lemma one_waiting_inv: "p_state b = PROC_RUNNABLE \<Longrightarrow> kernel_inv (one_waiting b)"
  using edf_repr_waiting [OF one_waiting_repr, of b] one_waiting_repr [of b]
  by (simp add: kernel_inv_def edf_ok_def) (simp add: one_waiting_def blank_st_def)

lemma one_waiting_schedulable: "schedulable (one_waiting b) = {1, 2}"
  using edf_repr_waiting [OF one_waiting_repr, of b]
  by (simp add: schedulable_def) (auto simp: one_waiting_def blank_st_def rt_proc_def)

text \<open>C1: whenever \<open>schedule\<close> returns, the process it switches to is one that was waiting
  or running and runnable, its deadline is the earliest of all of them, and exactly the others
  stay in the queue; the invariant is kept.\<close>

theorem schedule_earliest_deadline:
  assumes "kernel_inv s" "schedule MY_sched_class s = Inr s'"
  shows "current s' \<in> schedulable s \<and>
    (\<forall>x \<in> schedulable s. p_pt (procs s (current s')) \<le> p_pt (procs s x)) \<and>
    edf_waiting s' = schedulable s - {current s'} \<and> kernel_inv s'"
  using schedule_edf [OF assms] unfolding candidates_schedulable by simp

theorem schedule_earliest_deadline_witness:
  "\<exists>s'. schedule MY_sched_class (one_waiting (rt_proc None 3 0 5)) = Inr s' \<and> current s' = 2 \<and>
     edf_waiting s' = {1}"
proof -
  let ?s = "one_waiting (rt_proc None 3 0 5)"
  have inv: "kernel_inv ?s" by (rule one_waiting_inv) (simp add: rt_proc_def)
  have "\<exists>s'. schedule MY_sched_class ?s = Inr s'"
    by (simp add: one_waiting_def rt_proc_def blank_st_def blank_proc_def alloc_proc_def schedule_def
        sched_class_enqueue_def sched_class_pick_next_def sched_class_dequeue_def MY_enqueue_def
        MY_pick_next_def MY_dequeue_def upd_proc_def upd_rq_def heap_push_def MAX_HEAP_SIZE_def
        rearrange_bottomup_def bottomup_loop.simps get_father_def cdiv_def heap_empty_def
        heap_gettop_def heap_pop_def rearrange_topdown_def topdown_loop.simps get_lc_def
        chk32_def in_int_def INT_MIN_def INT_MAX_def)
  then obtain s' where s': "schedule MY_sched_class ?s = Inr s'" ..
  have pts: "p_pt (procs ?s 1) = 9" "p_pt (procs ?s 2) = 5" by (simp_all add: one_waiting_def rt_proc_def)
  from schedule_earliest_deadline [OF inv s'] have c: "current s' \<in> {1, 2}"
    "p_pt (procs ?s (current s')) \<le> p_pt (procs ?s 2)" "edf_waiting s' = {1, 2} - {current s'}"
    unfolding one_waiting_schedulable by blast+
  have "current s' \<noteq> 1"
  proof
    assume "current s' = 1"
    with c(2) have "p_pt (procs ?s 1) \<le> p_pt (procs ?s 2)" by (simp only:)
    then show False unfolding pts by simp
  qed
  with c(1) have two: "current s' = 2" by blast
  have "{1, 2} - {2} = {1::nat}" by auto
  with c(3) two have "edf_waiting s' = {1}" by (simp only:)
  with s' two show ?thesis by blast
qed

text \<open>C5: \<open>schedule\<close> returns whenever some process is schedulable, the heap has room for the
  running one and the run count of no process is at its limit.\<close>

theorem schedule_returns:
  assumes "kernel_inv s" "schedulable s \<noteq> {}"
    and "hsize (heap s) < MAX_HEAP_SIZE" "\<forall>x \<in> schedulable s. in_int (p_runs (procs s x) + 1)"
  shows "\<exists>s'. schedule MY_sched_class s = Inr s'"
proof -
  note i = kernel_invD [OF assms(1)]
  from edf_core.schedule_spec [OF i(1), unfolded candidates_schedulable, OF assms(2)] assms(3,4) i(3)
  show ?thesis by (fastforce simp: edf_room_def split: if_splits)
qed

theorem schedule_returns_witness:
  "\<exists>s'. schedule MY_sched_class (one_waiting (rt_proc None 3 0 12)) = Inr s'"
proof (rule schedule_returns)
  show "kernel_inv (one_waiting (rt_proc None 3 0 12))" by (rule one_waiting_inv) (simp add: rt_proc_def)
  show "schedulable (one_waiting (rt_proc None 3 0 12)) \<noteq> {}" by (simp add: one_waiting_schedulable)
  show "hsize (heap (one_waiting (rt_proc None 3 0 12))) < MAX_HEAP_SIZE"
    by (simp add: one_waiting_def MAX_HEAP_SIZE_def)
  show "\<forall>x \<in> schedulable (one_waiting (rt_proc None 3 0 12)).
      in_int (p_runs (procs (one_waiting (rt_proc None 3 0 12)) x) + 1)"
    unfolding one_waiting_schedulable
    by (simp add: one_waiting_def rt_proc_def blank_proc_def alloc_proc_def in_int_def INT_MIN_def INT_MAX_def)
qed

text \<open>C10: with nothing schedulable, \<open>schedule\<close> never reaches its fallback to the idle process:
  \<open>pick_next\<close> panics on the empty heap.\<close>

theorem schedule_idle_panics:
  assumes "kernel_inv s" "schedulable s = {}"
  shows "schedule MY_sched_class s = Inl (Panic ''sched_MY.c pick_next: heap is empty!'')"
  using schedule_nothing [OF assms(1)] assms(2) by (simp add: candidates_schedulable)

theorem schedule_idle_panics_witness:
  "schedule MY_sched_class blank_st = Inl (Panic ''sched_MY.c pick_next: heap is empty!'')"
proof (rule schedule_idle_panics)
  have w: "edf_waiting blank_st = {}" by (simp add: edf_waiting_def set_heap_mset blank_st_def)
  then show "schedulable blank_st = {}" by (simp add: schedulable_def) (simp add: blank_st_def)
  have "edf_repr 0 blank_st {}"
    by (simp add: edf_repr_def blank_st_def heap_wf_def heap_ordered_def heap_mset_def MAX_HEAP_SIZE_def)
  with w show "kernel_inv blank_st" by (simp add: kernel_inv_def edf_ok_def)
qed

text \<open>C2: in every state the kernel can reach from a boot by ticks, scheduling, wake-ups,
  blocking, process creation and timers, the deadline heap holds one entry per waiting process
  under its current deadline and in heap order, only runnable processes wait, neither the running
  nor the idle process waits, and the timer list is well formed.\<close>

theorem reachable_states_wf:
  assumes "reachable s0 s"
  shows "edf_repr 0 s (edf_waiting s) \<and> current s \<notin> edf_waiting s \<and> idleproc s \<notin> edf_waiting s \<and>
    (\<forall>p \<in> edf_waiting s. p_state (procs s p) = PROC_RUNNABLE) \<and> timers_wf s"
  using reachable_inv [OF assms] by (simp add: sys_inv_def kernel_inv_def edf_ok_def)

theorem reachable_states_wf_witness:
  "\<exists>s. reachable blank_st s \<and> edf_waiting s = {5} \<and> edf_repr 0 s {5} \<and> timers_wf s"
proof -
  obtain s1 where s1: "sched_init blank_st = Inr s1" "edf_waiting s1 = {}"
      "current s1 = 0" "idleproc s1 = 0"
  proof -
    from sched_init_spec [of MY_sched_class blank_st] obtain s4 where
      s4: "sched_init blank_st = MY_init 0 s4" "current s4 = 0" "idleproc s4 = 0"
      by (auto simp: blank_st_def sched_init_def)
    from MY_init_spec [of 0 s4] obtain s1 where "MY_init 0 s4 = Inr s1" "edf_repr 0 s1 {}" by auto
    with s4 edf_repr_waiting that show thesis by (auto simp: MY_init_def)
  qed
  have r1: "reachable blank_st s1" using s1(1) by (rule reachable.boot)
  let ?b = "blank_proc\<lparr>p_state := PROC_UNINIT\<rparr>"
  let ?s2 = "s1\<lparr>procs := (procs s1)(5 := ?b)\<rparr>"
  have r2: "reachable blank_st ?s2"
    by (rule reachable.step [OF r1], rule kstep.create) (simp_all add: s1)
  have k2: "kernel_inv ?s2" using reachable_inv [OF r2] by (simp add: sys_inv_def)
  have w2: "edf_waiting ?s2 = {}" using s1(2) by (simp add: edf_waiting_def)
  have "hsize (heap ?s2) = 0" using edf_repr_size [OF kernel_invD(2) [OF k2]] w2 by simp
  then have "edf_room ?s2" by (simp add: edf_room_def MAX_HEAP_SIZE_def)
  with edf_core.wakeup_spec [OF kernel_invD(1) [OF k2], of 5] w2 s1 obtain s3 where
    s3: "wakeup_proc MY_sched_class 5 ?s2 = Inr s3" "edf_waiting s3 = {5}" by auto
  have "reachable blank_st s3" by (rule reachable.step [OF r2], rule kstep.wakeup, rule s3(1))
  with reachable_states_wf [OF this] s3(2) show ?thesis by auto
qed

text \<open>C7: a timer interrupt shortens the time of every armed timer by exactly one tick, removes
  those that were due on this tick, and leaves the process of each removed timer runnable.\<close>

theorem timers_advance:
  assumes "timers_wf s" "advance_timers MY_sched_class s = Inr s'"
  shows "timers_wf s' \<and>
    timer_list s' = filter (\<lambda>t. due (timer s) (timer_list s) t \<noteq> 1) (timer_list s) \<and>
    (\<forall>t \<in> set (timer_list s'). due (timer s') (timer_list s') t = due (timer s) (timer_list s) t - 1) \<and>
    (\<forall>t \<in> set (timer_list s) - set (timer_list s').
      \<exists>p. tm_proc (timer s t) = Some p \<and> p_state (procs s' p) = PROC_RUNNABLE)"
  using edf_core.advance_timers_spec [OF assms] by auto

theorem timers_advance_witness:
  "\<exists>s'. advance_timers MY_sched_class (blank_st\<lparr>timer_list := [3, 4],
       timer := (\<lambda>_. \<lparr>tm_expires = 1, tm_proc = Some 0\<rparr>)\<rparr>) = Inr s' \<and>
     timer_list s' = [4] \<and> due (timer s') [4] 4 = 1"
proof -
  let ?s = "blank_st\<lparr>timer_list := [3, 4], timer := (\<lambda>_. \<lparr>tm_expires = 1, tm_proc = Some 0\<rparr>)\<rparr>"
  have wf: "timers_wf ?s" by (simp add: timers_wf_def)
  have "\<exists>s'. advance_timers MY_sched_class ?s = Inr s'"
    by (simp add: blank_st_def blank_proc_def alloc_proc_def advance_timers_def wakeup_proc_def
        sched_class_enqueue_def del_timer_def upd_proc_def)
  then obtain s' where s': "advance_timers MY_sched_class ?s = Inr s'" ..
  note a = timers_advance [OF wf s']
  have "filter (\<lambda>t. due (timer ?s) (timer_list ?s) t \<noteq> 1) (timer_list ?s) = [4]" by simp
  with a have l: "timer_list s' = [4]" by (simp only:)
  then have "4 \<in> set (timer_list s')" by simp
  with a have "due (timer s') (timer_list s') 4 = due (timer ?s) (timer_list ?s) 4 - 1" by blast
  also have "\<dots> = 1" by simp
  finally show ?thesis using s' l by (simp only:) blast
qed

end
