(* ===== verification/Hash_Rand.thy ===== *)
theory Hash_Rand
  imports Printf
begin

text \<open>
  \<open>libs/hash.c\<close> and \<open>libs/rand.c\<close>: multiplicative hashing, and the linear congruential
  generator whose 48-bit state is kept in a 64-bit variable.
\<close>

definition GOLDEN_RATIO_PRIME_32 :: "32 word" where "GOLDEN_RATIO_PRIME_32 = 0x9e370001"

text \<open>The shift instruction of the machine takes its count modulo 32.\<close>

definition hash32 :: "32 word \<Rightarrow> 32 word \<Rightarrow> 32 word" where
  "hash32 val bits = (let hash = val * GOLDEN_RATIO_PRIME_32 in drop_bit (unat ((32 - bits) AND 31)) hash)"

definition RAND_MAX :: "32 word" where "RAND_MAX = 2147483647"

text \<open>The static variable \<open>next\<close> is the argument; the results are the number and the new state.\<close>

definition rand :: "64 word \<Rightarrow> (int \<times> 64 word) res" where
  "rand next =
     (let next1 = (next * 0x5DEECE66D + 0xB) AND (push_bit 48 1 - 1);
          result = drop_bit 12 next1
      in bindR (do_div result (RAND_MAX + 1)) (\<lambda>(_, md). Inr (sint md, next1)))"

definition srand :: "32 word \<Rightarrow> 64 word" where
  "srand seed = ucast seed"

lemma hash32_bits: "0 < b \<Longrightarrow> b < 32 \<Longrightarrow> unat ((32 - of_nat b :: 32 word) AND 31) = 32 - b"
proof -
  assume b: "0 < b" "b < 32"
  have m: "(31 :: 32 word) = mask 5" by (simp add: mask_eq_exp_minus_1)
  have e: "(32 - of_nat b :: 32 word) = of_nat (32 - b)" using b by (simp add: of_nat_diff)
  have "unat (32 - of_nat b :: 32 word) = 32 - b" unfolding e unat_of_nat using b by simp
  then show ?thesis unfolding m using b
    by (simp only: take_bit_eq_mask [symmetric] unsigned_take_bit_eq) (simp add: take_bit_eq_mod)
qed

lemma rand_mask: "unat (w AND (push_bit 48 1 - 1) :: 64 word) < 2 ^ 48"
proof -
  have "push_bit 48 1 - 1 = (mask 48 :: 64 word)" by (simp add: mask_eq_exp_minus_1)
  then have "w AND (push_bit 48 1 - 1) = take_bit 48 w" by (simp only: take_bit_eq_mask)
  then show ?thesis by (simp only: unsigned_take_bit_eq) (simp add: take_bit_eq_mod)
qed

lemma unat_drop_bit32: "unat (drop_bit k (w :: 32 word)) = unat w div 2 ^ k"
  by (simp only: unsigned_drop_bit_eq) (simp add: drop_bit_eq_div take_bit_nat_eq_self unat_bounds)

section \<open>Properties\<close>

text \<open>\<open>hash32\<close> with between 1 and 31 bits gives a value below \<open>2\<close> to the number of bits.\<close>

theorem hash32_range:
  assumes "0 < b" "b < 32"
  shows "unat (hash32 val (of_nat b)) < 2 ^ b"
proof -
  let ?h = "val * GOLDEN_RATIO_PRIME_32"
  have "unat (hash32 val (of_nat b)) = unat ?h div 2 ^ (32 - b)"
    unfolding hash32_def Let_def hash32_bits [OF assms] by (rule unat_drop_bit32)
  moreover have "unat ?h < 2 ^ (32 - b) * 2 ^ b"
    using unat_bounds(1) [of ?h] assms by (simp add: power_add [symmetric])
  ultimately show ?thesis by (simp add: div_less_iff_less_mult mult.commute)
qed

text \<open>\<open>rand\<close> always returns, its number lies between 0 and \<open>RAND_MAX\<close>, and the state it leaves
  fits 48 bits.\<close>

theorem rand_range:
  "\<exists>r next'. rand next = Inr (r, next') \<and> 0 \<le> r \<and> r \<le> 2147483647 \<and> unat next' < 2 ^ 48"
proof -
  let ?n = "(next * 0x5DEECE66D + 0xB) AND (push_bit 48 1 - 1)"
  have "RAND_MAX + 1 \<noteq> 0" by (simp add: RAND_MAX_def)
  note d = do_div_spec [OF this, of "drop_bit 12 ?n"]
  have m: "unat (RAND_MAX + 1) = 2147483648" by (simp add: RAND_MAX_def)
  let ?r = "unat (drop_bit 12 ?n) mod 2147483648"
  have "?r < 2147483648" by simp
  then have "sint (of_nat ?r :: 32 word) = int ?r"
    by (simp add: signed_of_nat signed_take_bit_int_eq_self)
  then have "rand next = Inr (int ?r, ?n)" unfolding rand_def Let_def using d m by simp
  with rand_mask [of "next * 0x5DEECE66D + 0xB"] \<open>?r < 2147483648\<close> show ?thesis by fastforce
qed

end
