(* ===== verification/Sync.thy ===== *)
theory Sync
  imports Prelude
begin

text \<open>
  Synchronisation: the atomic counters and bit operations of \<open>libs/atomic.h\<close>, the interrupt
  flag and the lock of \<open>kern/sync/sync.h\<close>.  A counter is a 32-bit word (the instructions
  wrap); a bit operation acts on one word, with the bit number below 32.  The lock is then run
  by several processes as a step relation: a process that finds it taken calls
  \<open>schedule\<close> and tries again, so any other process may step in between.
\<close>

section \<open>Atomic operations\<close>

definition atomic_read :: "32 word \<Rightarrow> int" where "atomic_read v = sint v"

definition atomic_set :: "int \<Rightarrow> 32 word" where "atomic_set i = word_of_int i"

definition atomic_add :: "32 word \<Rightarrow> int \<Rightarrow> 32 word" where "atomic_add v i = v + word_of_int i"

definition atomic_sub :: "32 word \<Rightarrow> int \<Rightarrow> 32 word" where "atomic_sub v i = v - word_of_int i"

definition atomic_sub_test_zero :: "32 word \<Rightarrow> int \<Rightarrow> 32 word \<times> bool" where
  "atomic_sub_test_zero v i = (let v1 = v - word_of_int i in (v1, v1 = 0))"

definition atomic_inc :: "32 word \<Rightarrow> 32 word" where "atomic_inc v = v + 1"

definition atomic_dec :: "32 word \<Rightarrow> 32 word" where "atomic_dec v = v - 1"

definition atomic_inc_test_zero :: "32 word \<Rightarrow> 32 word \<times> bool" where
  "atomic_inc_test_zero v = (let v1 = v + 1 in (v1, v1 = 0))"

definition atomic_dec_test_zero :: "32 word \<Rightarrow> 32 word \<times> bool" where
  "atomic_dec_test_zero v = (let v1 = v - 1 in (v1, v1 = 0))"

text \<open>\<open>xaddl\<close> exchanges and adds: the register gets the old value, to which \<open>i\<close> is added once
  more.\<close>

definition atomic_add_return :: "32 word \<Rightarrow> int \<Rightarrow> 32 word \<times> int" where
  "atomic_add_return v i = (let v1 = v + word_of_int i; old = v in (v1, sint (old + word_of_int i)))"

definition atomic_sub_return :: "32 word \<Rightarrow> int \<Rightarrow> 32 word \<times> int" where
  "atomic_sub_return v i = atomic_add_return v (- i)"

definition test_and_set_bit :: "nat \<Rightarrow> 32 word \<Rightarrow> 32 word \<times> bool" where
  "test_and_set_bit nr w = (set_bit nr w, bit w nr)"

definition test_and_clear_bit :: "nat \<Rightarrow> 32 word \<Rightarrow> 32 word \<times> bool" where
  "test_and_clear_bit nr w = (unset_bit nr w, bit w nr)"

definition test_and_change_bit :: "nat \<Rightarrow> 32 word \<Rightarrow> 32 word \<times> bool" where
  "test_and_change_bit nr w = (flip_bit nr w, bit w nr)"

definition set_bit_op :: "nat \<Rightarrow> 32 word \<Rightarrow> 32 word" where "set_bit_op nr w = set_bit nr w"

definition clear_bit_op :: "nat \<Rightarrow> 32 word \<Rightarrow> 32 word" where "clear_bit_op nr w = unset_bit nr w"

definition change_bit_op :: "nat \<Rightarrow> 32 word \<Rightarrow> 32 word" where "change_bit_op nr w = flip_bit nr w"

definition test_bit_op :: "nat \<Rightarrow> 32 word \<Rightarrow> bool" where "test_bit_op nr w = bit w nr"

section \<open>Interrupts\<close>

text \<open>The interrupt flag of the processor; saving returns the new flag and the value to restore.\<close>

definition intr_enable :: "bool \<Rightarrow> bool" where "intr_enable fl = True"

definition intr_disable :: "bool \<Rightarrow> bool" where "intr_disable fl = False"

definition intr_save :: "bool \<Rightarrow> bool \<times> bool" where
  "intr_save fl = (if fl then (intr_disable fl, True) else (fl, False))"

definition intr_restore :: "bool \<Rightarrow> bool \<Rightarrow> bool" where
  "intr_restore flag fl = (if flag then intr_enable fl else fl)"

text \<open>A critical section run between saving and restoring.\<close>

definition critical :: "(bool \<Rightarrow> 's \<Rightarrow> bool \<times> 's) \<Rightarrow> bool \<times> 's \<Rightarrow> bool \<times> 's" where
  "critical body = (\<lambda>(fl, s).
     let (fl1, flag) = intr_save fl; (fl2, s') = body fl1 s in (intr_restore flag fl2, s'))"

section \<open>The lock\<close>

definition lock_init :: "32 word" where "lock_init = 0"

definition try_lock :: "32 word \<Rightarrow> 32 word \<times> bool" where
  "try_lock l = (let (l', old) = test_and_set_bit 0 l in (l', \<not> old))"

definition unlock :: "32 word \<Rightarrow> 32 word res" where
  "unlock l = (let (l', old) = test_and_clear_bit 0 l in if \<not> old then Inl (Panic ''Unlock failed.'') else Inr l')"

text \<open>The processes at a lock: a process is outside, inside the loop of \<open>lock\<close>, or holds it.\<close>

datatype lock_pc = Outside | Trying | Holding

record lock_state =
  lk :: "32 word"
  pc :: "nat \<Rightarrow> lock_pc"

inductive lstep :: "lock_state \<Rightarrow> lock_state \<Rightarrow> bool" where
  enter: "pc s p = Outside \<Longrightarrow> lstep s (s\<lparr>pc := (pc s)(p := Trying)\<rparr>)"
| attempt: "pc s p = Trying \<Longrightarrow> try_lock (lk s) = (l, got) \<Longrightarrow>
    lstep s (s\<lparr>lk := l, pc := (pc s)(p := if got then Holding else Trying)\<rparr>)"
| leave: "pc s p = Holding \<Longrightarrow> unlock (lk s) = Inr l \<Longrightarrow>
    lstep s (s\<lparr>lk := l, pc := (pc s)(p := Outside)\<rparr>)"

inductive lreach :: "lock_state \<Rightarrow> bool" where
  start: "lreach \<lparr>lk = lock_init, pc = (\<lambda>_. Outside)\<rparr>"
| step: "lreach s \<Longrightarrow> lstep s s' \<Longrightarrow> lreach s'"

definition lock_inv :: "lock_state \<Rightarrow> bool" where
  "lock_inv s \<longleftrightarrow> (\<forall>p q. pc s p = Holding \<and> pc s q = Holding \<longrightarrow> p = q) \<and>
     (bit (lk s) 0 \<longleftrightarrow> (\<exists>p. pc s p = Holding))"

lemma lock_inv_step: "lstep s s' \<Longrightarrow> lock_inv s \<Longrightarrow> lock_inv s'"
proof (induction rule: lstep.induct)
  case (enter s p)
  then have "pc (s\<lparr>pc := (pc s)(p := Trying)\<rparr>) q = Holding \<longleftrightarrow> pc s q = Holding" for q by auto
  moreover have "lk (s\<lparr>pc := (pc s)(p := Trying)\<rparr>) = lk s" by simp
  ultimately show ?case using enter by (simp only: lock_inv_def simp_thms) blast
next
  case (attempt s p l got)
  show ?case
  proof (cases "bit (lk s) 0")
    case True
    with attempt have "got = False" "bit l 0" by (auto simp: try_lock_def test_and_set_bit_def bit_simps)
    moreover from True attempt obtain q where "pc s q = Holding" by (auto simp: lock_inv_def)
    moreover have "q \<noteq> p" using calculation attempt by auto
    ultimately show ?thesis using attempt(3) by (auto simp: lock_inv_def)
  next
    case False
    with attempt have "got = True" "bit l 0" by (auto simp: try_lock_def test_and_set_bit_def bit_simps)
    with False attempt(3) show ?thesis by (auto simp: lock_inv_def)
  qed
next
  case (leave s p l)
  then have "\<not> bit l 0" by (auto simp: unlock_def test_and_clear_bit_def bit_simps split: if_splits)
  with leave show ?case by (auto simp: lock_inv_def)
qed

lemma lreach_inv: "lreach s \<Longrightarrow> lock_inv s"
proof (induction rule: lreach.induct)
  case start
  then show ?case by (simp add: lock_inv_def lock_init_def)
next
  case (step s s')
  then show ?case by (simp add: lock_inv_step)
qed

section \<open>Properties\<close>

text \<open>C18: however the processes interleave, at most one of them holds the lock, a free lock is held
  by none, and the holder's \<open>unlock\<close> does not panic.\<close>

theorem lock_mutual_exclusion:
  assumes "lreach s" "pc s p = Holding"
  shows "(\<forall>q. pc s q = Holding \<longrightarrow> q = p) \<and> snd (try_lock (lk s)) = False \<and> (\<exists>l. unlock (lk s) = Inr l)"
proof -
  from lreach_inv [OF assms(1)] assms(2) have "\<forall>q. pc s q = Holding \<longrightarrow> q = p" "bit (lk s) 0"
    by (auto simp: lock_inv_def)
  then show ?thesis
    by (simp add: try_lock_def unlock_def test_and_set_bit_def test_and_clear_bit_def)
qed

theorem lock_mutual_exclusion_witness:
  "\<exists>s. lreach s \<and> pc s 7 = Holding \<and> (\<forall>q. pc s q = Holding \<longrightarrow> q = 7)"
proof -
  let ?s0 = "\<lparr>lk = lock_init, pc = (\<lambda>_. Outside)\<rparr>"
  let ?s1 = "?s0\<lparr>pc := (pc ?s0)(7 := Trying)\<rparr>"
  let ?s2 = "?s1\<lparr>lk := set_bit 0 (lk ?s1), pc := (pc ?s1)(7 := if True then Holding else Trying)\<rparr>"
  have "lreach ?s1" by (rule lreach.step [OF lreach.start], rule lstep.enter) simp
  moreover have "lstep ?s1 ?s2"
    by (rule lstep.attempt) (simp, simp add: try_lock_def test_and_set_bit_def lock_init_def)
  ultimately have r: "lreach ?s2" by (rule lreach.step)
  have h: "pc ?s2 7 = Holding" by simp
  from lock_mutual_exclusion [OF r h] have "\<forall>q. pc ?s2 q = Holding \<longrightarrow> q = 7" by (rule conjunct1)
  with r h show ?thesis by blast
qed

text \<open>A critical section leaves the interrupt flag as it found it and runs with interrupts off,
  so sections nest: whatever nested sections the body contains, the flag comes back.\<close>

theorem critical_sections_nest:
  assumes "\<And>s. fst (body False s) = False"
  shows "fst (critical body (fl, s)) = fl \<and> snd (critical body (fl, s)) = snd (body False s) \<and>
    fst (critical (\<lambda>f t. critical body (f, t)) (fl, s)) = fl"
proof -
  have c: "critical b (f, t) = (f, snd (b False t))" if "\<And>s. fst (b False s) = False" for b f t
  proof -
    obtain f2 t2 where e: "b False t = (f2, t2)" by (cases "b False t")
    with that [of t] have "f2 = False" by simp
    with e show ?thesis
      by (cases f) (simp_all add: critical_def intr_save_def intr_restore_def intr_enable_def intr_disable_def)
  qed
  have inner: "critical body (f, t) = (f, snd (body False t))" for f t by (rule c) (rule assms)
  have "critical (\<lambda>f t. critical body (f, t)) (fl, s) = (fl, snd (critical body (False, s)))"
    by (rule c) (simp add: inner)
  then show ?thesis by (simp add: inner)
qed

end
