(* ===== verification/Proc_Table.thy ===== *)
theory Proc_Table
  imports Pid_Alloc Sched_Kernel Hash_Rand Sync
begin

text \<open>
  The process table of \<open>kern/process/proc.c\<close>: the list of all processes, the hash lists by
  pid, the family links (\<open>cptr\<close> to the youngest child, \<open>optr\<close> and \<open>yptr\<close> along the
  siblings) and the rings of threads.  The lists linked through the blocks are HOL lists, newest
  first as \<open>list_add\<close> puts them; the thread ring has no head and is a link store.  Memory for
  blocks, kernel stacks, \<open>mm_struct\<close>s and page directories comes from pools: a pool is what
  its allocator can hand out, and an empty one is the null pointer.
\<close>

section \<open>State\<close>

record trapframe =
  reg_edi :: "32 word"
  reg_esi :: "32 word"
  reg_ebp :: "32 word"
  reg_oesp :: "32 word"
  reg_ebx :: "32 word"
  reg_edx :: "32 word"
  reg_ecx :: "32 word"
  reg_eax :: "32 word"
  tf_es :: "16 word"
  tf_ds :: "16 word"
  tf_trapno :: "32 word"
  tf_err :: "32 word"
  tf_eip :: "32 word"
  tf_cs :: "16 word"
  tf_eflags :: "32 word"
  tf_esp :: "32 word"
  tf_ss :: "16 word"

record proc_mm =
  mm_count :: "32 word"
  mm_pgdir :: "32 word"
  mm_brk_start :: "32 word"
  mm_brk :: "32 word"

record proc_st =
  sched :: sched_st
  proc_list :: "ptr list"
  hash_list :: "nat \<Rightarrow> ptr list"
  nr_process :: int
  next_safe :: int
  last_pid :: int
  initproc :: "ptr option"
  thread_group :: "ptr list_store"
  tframes :: "32 word \<Rightarrow> trapframe"
  mms :: "ptr \<Rightarrow> proc_mm"
  proc_mm_list :: "ptr list"
  kmem :: "ptr list"
  kstacks :: "32 word list"
  mm_pool :: "ptr list"
  pgdirs :: "32 word list"

abbreviation pcb :: "proc_st \<Rightarrow> ptr \<Rightarrow> proc_struct" where
  "pcb s p \<equiv> procs (sched s) p"

definition upd :: "ptr \<Rightarrow> (proc_struct \<Rightarrow> proc_struct) \<Rightarrow> proc_st \<Rightarrow> proc_st" where
  "upd p f s = s\<lparr>sched := upd_proc p f (sched s)\<rparr>"

lemma upd_simps [simp]:
  "sched (upd p f s) = upd_proc p f (sched s)" "proc_list (upd p f s) = proc_list s"
  "hash_list (upd p f s) = hash_list s" "nr_process (upd p f s) = nr_process s"
  "next_safe (upd p f s) = next_safe s" "last_pid (upd p f s) = last_pid s"
  "initproc (upd p f s) = initproc s" "thread_group (upd p f s) = thread_group s"
  "mms (upd p f s) = mms s" "proc_mm_list (upd p f s) = proc_mm_list s" "kmem (upd p f s) = kmem s"
  "kstacks (upd p f s) = kstacks s" "mm_pool (upd p f s) = mm_pool s" "pgdirs (upd p f s) = pgdirs s"
  "tframes (upd p f s) = tframes s"
  by (simp_all add: upd_def)

text \<open>An update through a pointer that may be null.\<close>

definition upd_opt :: "ptr option \<Rightarrow> (proc_struct \<Rightarrow> proc_struct) \<Rightarrow> proc_st \<Rightarrow> proc_st" where
  "upd_opt q f s = (case q of None \<Rightarrow> s | Some p \<Rightarrow> upd p f s)"

section \<open>Hash lists\<close>

definition HASH_SHIFT :: nat where "HASH_SHIFT = 10"

definition pid_hashfn :: "int \<Rightarrow> nat" where
  "pid_hashfn x = unat (hash32 (word_of_int x) (of_nat HASH_SHIFT))"

definition hash_proc :: "ptr \<Rightarrow> proc_st \<Rightarrow> proc_st" where
  "hash_proc p s =
     (let h = pid_hashfn (p_pid (pcb s p))
      in s\<lparr>hash_list := (hash_list s)(h := p # hash_list s h)\<rparr>)"

text \<open>\<open>list_del\<close> of the hash link takes the process out of the list it is linked in.\<close>

definition unhash_proc :: "ptr \<Rightarrow> proc_st \<Rightarrow> proc_st" where
  "unhash_proc p s = s\<lparr>hash_list := (\<lambda>h. remove1 p (hash_list s h))\<rparr>"

fun find_in_list :: "(ptr \<Rightarrow> proc_struct) \<Rightarrow> int \<Rightarrow> ptr list \<Rightarrow> ptr option" where
  "find_in_list ps pid [] = None"
| "find_in_list ps pid (p # l) = (if p_pid (ps p) = pid then Some p else find_in_list ps pid l)"

definition find_proc :: "int \<Rightarrow> proc_st \<Rightarrow> ptr option" where
  "find_proc pid s =
     (if 0 < pid \<and> pid < MAX_PID
      then find_in_list (procs (sched s)) pid (hash_list s (pid_hashfn pid)) else None)"

section \<open>Family links\<close>

definition set_links :: "ptr \<Rightarrow> proc_st \<Rightarrow> proc_st res" where
  "set_links p s =
     (let s1 = s\<lparr>proc_list := p # proc_list s\<rparr>;
          s2 = upd p (\<lambda>b. b\<lparr>p_yptr := None\<rparr>) s1
      in bindR (deref (p_parent (pcb s2 p))) (\<lambda>par.
         let opt = p_cptr (pcb s2 par);
             s3 = upd p (\<lambda>b. b\<lparr>p_optr := opt\<rparr>) s2;
             s4 = upd_opt opt (\<lambda>b. b\<lparr>p_yptr := Some p\<rparr>) s3;
             s5 = upd par (\<lambda>b. b\<lparr>p_cptr := Some p\<rparr>) s4
         in Inr (s5\<lparr>nr_process := nr_process s5 + 1\<rparr>)))"

definition remove_links :: "ptr \<Rightarrow> proc_st \<Rightarrow> proc_st res" where
  "remove_links p s =
     (let s1 = s\<lparr>proc_list := remove1 p (proc_list s)\<rparr>;
          opt = p_optr (pcb s1 p); ypt = p_yptr (pcb s1 p);
          s2 = upd_opt opt (\<lambda>b. b\<lparr>p_yptr := ypt\<rparr>) s1
      in bindR (case ypt of
                  Some y \<Rightarrow> Inr (upd y (\<lambda>b. b\<lparr>p_optr := p_optr (pcb s2 p)\<rparr>) s2)
                | None \<Rightarrow> bindR (deref (p_parent (pcb s2 p))) (\<lambda>par.
                    Inr (upd par (\<lambda>b. b\<lparr>p_cptr := p_optr (pcb s2 p)\<rparr>) s2))) (\<lambda>s3.
         Inr (s3\<lparr>nr_process := nr_process s3 - 1\<rparr>)))"

section \<open>Thread rings\<close>

definition next_thread :: "ptr \<Rightarrow> proc_st \<Rightarrow> ptr" where
  "next_thread p s = list_next (thread_group s) p"

definition de_thread :: "ptr \<Rightarrow> proc_st \<Rightarrow> proc_st" where
  "de_thread p s =
     (if \<not> list_empty (thread_group s) p
      then s\<lparr>thread_group := list_del_init p (thread_group s)\<rparr> else s)"

section \<open>Lookup\<close>

text \<open>The table is consistent: pids are in range and unique, and the hash lists hold exactly the
  processes on the list, each under its pid.\<close>

definition table_wf :: "proc_st \<Rightarrow> bool" where
  "table_wf s \<longleftrightarrow> distinct (proc_list s) \<and> inj_on (\<lambda>p. p_pid (pcb s p)) (set (proc_list s)) \<and>
     (\<forall>p \<in> set (proc_list s). 1 \<le> p_pid (pcb s p) \<and> p_pid (pcb s p) < MAX_PID) \<and>
     (\<forall>h. set (hash_list s h) = {p \<in> set (proc_list s). pid_hashfn (p_pid (pcb s p)) = h}) \<and>
     (\<forall>h. distinct (hash_list s h)) \<and>
     pid_state_wf ((\<lambda>p. p_pid (pcb s p)) ` set (proc_list s)) (last_pid s) (next_safe s)"

lemma find_in_list_spec:
  "inj_on (\<lambda>p. p_pid (ps p)) (set l) \<Longrightarrow>
   find_in_list ps pid l = Some p \<longleftrightarrow> p \<in> set l \<and> p_pid (ps p) = pid"
  by (induction l) (auto simp: inj_on_def)

lemma find_proc_spec:
  assumes "table_wf s"
  shows "find_proc pid s = Some p \<longleftrightarrow> p \<in> set (proc_list s) \<and> p_pid (pcb s p) = pid"
proof -
  have h: "set (hash_list s (pid_hashfn pid)) = {p \<in> set (proc_list s). pid_hashfn (p_pid (pcb s p)) = pid_hashfn pid}"
    using assms by (simp add: table_wf_def)
  have "inj_on (\<lambda>p. p_pid (pcb s p)) (set (hash_list s (pid_hashfn pid)))"
    using assms h by (auto simp: table_wf_def inj_on_def)
  from find_in_list_spec [OF this, of pid p] h assms show ?thesis
    by (auto simp: find_proc_def table_wf_def)
qed

text \<open>Adding a process under a fresh pid, and taking one out, keep the table consistent.\<close>

lemma table_wf_cong:
  assumes "table_wf s" "proc_list s' = proc_list s" "hash_list s' = hash_list s"
    "last_pid s' = last_pid s" "next_safe s' = next_safe s"
    "\<And>p. p \<in> set (proc_list s) \<Longrightarrow> p_pid (pcb s' p) = p_pid (pcb s p)"
  shows "table_wf s'"
proof -
  have "inj_on (\<lambda>p. p_pid (pcb s' p)) (set (proc_list s)) = inj_on (\<lambda>p. p_pid (pcb s p)) (set (proc_list s))"
    using assms(6) by (intro inj_on_cong)
  moreover have "(\<lambda>p. p_pid (pcb s' p)) ` set (proc_list s) = (\<lambda>p. p_pid (pcb s p)) ` set (proc_list s)"
    using assms(6) by (intro image_cong) auto
  moreover have "{p \<in> set (proc_list s). pid_hashfn (p_pid (pcb s' p)) = h} =
      {p \<in> set (proc_list s). pid_hashfn (p_pid (pcb s p)) = h}" for h using assms(6) by auto
  ultimately show ?thesis using assms by (simp add: table_wf_def)
qed

definition insert_proc :: "ptr \<Rightarrow> int \<Rightarrow> int \<Rightarrow> proc_st \<Rightarrow> proc_st" where
  "insert_proc p pid n s =
     (let s1 = upd p (\<lambda>b. b\<lparr>p_pid := pid\<rparr>) (s\<lparr>last_pid := pid, next_safe := n\<rparr>); s2 = hash_proc p s1
      in s2\<lparr>proc_list := p # proc_list s2\<rparr>)"

lemma table_wf_insert:
  assumes wf: "table_wf s" and p: "p \<notin> set (proc_list s)" and pid: "1 \<le> pid" "pid < MAX_PID"
    "pid \<notin> (\<lambda>p. p_pid (pcb s p)) ` set (proc_list s)"
    and st: "pid_state_wf (insert pid ((\<lambda>p. p_pid (pcb s p)) ` set (proc_list s))) pid n"
  shows "table_wf (insert_proc p pid n s)"
proof -
  let ?s = "insert_proc p pid n s" and ?L = "set (proc_list s)"
  have pl: "proc_list ?s = p # proc_list s" by (simp add: insert_proc_def hash_proc_def)
  have pids: "p_pid (pcb ?s x) = (if x = p then pid else p_pid (pcb s x))" for x
    by (simp add: insert_proc_def hash_proc_def)
  have old: "p_pid (pcb ?s x) = p_pid (pcb s x)" if "x \<in> ?L" for x using that p pids by auto
  have h: "hash_list ?s k = (if k = pid_hashfn pid then p # hash_list s k else hash_list s k)" for k
    by (simp add: insert_proc_def hash_proc_def)
  have img: "(\<lambda>x. p_pid (pcb ?s x)) ` set (proc_list ?s) = insert pid ((\<lambda>x. p_pid (pcb s x)) ` ?L)"
    using pl pids [of p] old by (auto simp: image_iff)
  have inj: "inj_on (\<lambda>x. p_pid (pcb ?s x)) (set (proc_list ?s))"
    using wf pid(3) pl old pids p by (auto simp: table_wf_def inj_on_def image_iff)
  have "set (hash_list ?s k) = {x \<in> set (proc_list ?s). pid_hashfn (p_pid (pcb ?s x)) = k}" for k
    using wf h [of k] pl old pids p by (auto simp: table_wf_def)
  moreover have "distinct (hash_list ?s k)" for k
    using wf h [of k] p by (auto simp: table_wf_def)
  moreover have "last_pid ?s = pid" "next_safe ?s = n" by (simp_all add: insert_proc_def hash_proc_def)
  ultimately show ?thesis
    using wf p pid inj pl old pids st img unfolding table_wf_def by auto
qed

section \<open>Children\<close>

text \<open>The children of a process, youngest first: the list one gets from \<open>cptr\<close> along
  \<open>optr\<close>, with \<open>yptr\<close> leading back.\<close>

fun sibs :: "(ptr \<Rightarrow> proc_struct) \<Rightarrow> ptr option \<Rightarrow> ptr option \<Rightarrow> ptr list \<Rightarrow> bool" where
  "sibs f y c [] \<longleftrightarrow> c = None"
| "sibs f y c (p # ps) \<longleftrightarrow> c = Some p \<and> p_yptr (f p) = y \<and> sibs f (Some p) (p_optr (f p)) ps"

fun sib_seg :: "(ptr \<Rightarrow> proc_struct) \<Rightarrow> ptr option \<Rightarrow> ptr option \<Rightarrow> ptr list \<Rightarrow> ptr option \<Rightarrow> ptr option \<Rightarrow> bool" where
  "sib_seg f y c [] y' c' \<longleftrightarrow> y' = y \<and> c' = c"
| "sib_seg f y c (p # ps) y' c' \<longleftrightarrow> c = Some p \<and> p_yptr (f p) = y \<and> sib_seg f (Some p) (p_optr (f p)) ps y' c'"

definition children :: "proc_st \<Rightarrow> ptr \<Rightarrow> ptr list \<Rightarrow> bool" where
  "children s par cs \<longleftrightarrow> distinct cs \<and> par \<notin> set cs \<and> sibs (procs (sched s)) None (p_cptr (pcb s par)) cs \<and>
     (\<forall>c \<in> set cs. p_parent (pcb s c) = Some par)"

lemma sibs_append: "sibs f y c (us @ vs) \<longleftrightarrow> (\<exists>y' c'. sib_seg f y c us y' c' \<and> sibs f y' c' vs)"
  by (induction us arbitrary: y c) auto

lemma sib_seg_snoc: "sib_seg f y c (us @ [u]) y' c' \<longleftrightarrow>
    sib_seg f y c us (p_yptr (f u)) (Some u) \<and> y' = Some u \<and> c' = p_optr (f u)"
  by (induction us arbitrary: y c) auto

lemma sibs_cong:
  "(\<And>x. x \<in> set ps \<Longrightarrow> p_yptr (g x) = p_yptr (f x) \<and> p_optr (g x) = p_optr (f x)) \<Longrightarrow>
   sibs g y c ps = sibs f y c ps"
  by (induction ps arbitrary: y c) auto

lemma sib_seg_cong:
  "(\<And>x. x \<in> set ps \<Longrightarrow> p_yptr (g x) = p_yptr (f x) \<and> p_optr (g x) = p_optr (f x)) \<Longrightarrow>
   sib_seg g y c ps y' c' = sib_seg f y c ps y' c'"
  by (induction ps arbitrary: y c) auto

lemma children_cong:
  assumes "children s par cs" "p_cptr (pcb s' par) = p_cptr (pcb s par)"
    "\<And>x. x \<in> set cs \<Longrightarrow> p_yptr (pcb s' x) = p_yptr (pcb s x) \<and> p_optr (pcb s' x) = p_optr (pcb s x) \<and>
       p_parent (pcb s' x) = p_parent (pcb s x)"
  shows "children s' par cs"
  using assms sibs_cong [of cs "procs (sched s')" "procs (sched s)"] by (auto simp: children_def)

lemma children_cptr: "children s par cs \<Longrightarrow> p_cptr (pcb s par) = (case cs of [] \<Rightarrow> None | c # _ \<Rightarrow> Some c)"
  by (cases cs) (auto simp: children_def)

text \<open>Linking a process in front of the youngest child.\<close>

definition link_child :: "ptr \<Rightarrow> ptr \<Rightarrow> proc_st \<Rightarrow> proc_st" where
  "link_child p par s =
     (let opt = p_cptr (pcb s par);
          s1 = upd p (\<lambda>b. b\<lparr>p_yptr := None, p_optr := opt, p_parent := Some par\<rparr>) s;
          s2 = upd_opt opt (\<lambda>b. b\<lparr>p_yptr := Some p\<rparr>) s1
      in upd par (\<lambda>b. b\<lparr>p_cptr := Some p\<rparr>) s2)"

lemma link_child_spec:
  assumes c: "children s par cs" and p: "p \<notin> set cs" "p \<noteq> par"
  shows "children (link_child p par s) par (p # cs)"
proof (cases cs)
  case Nil
  with c p show ?thesis by (auto simp: children_def link_child_def upd_opt_def)
next
  case (Cons x xs)
  let ?f = "procs (sched (link_child p par s))"
  have opt: "p_cptr (pcb s par) = Some x" using c Cons by (simp add: children_def)
  have ne: "p \<noteq> x" "par \<noteq> x" "x \<notin> set xs" "p \<notin> set xs" "par \<notin> set xs" "distinct xs"
    using c p Cons by (auto simp: children_def)
  have rest: "sibs ?f (Some x) (p_optr (?f x)) xs"
  proof -
    have "sibs (procs (sched s)) (Some x) (p_optr (pcb s x)) xs" using c Cons by (simp add: children_def)
    moreover have "p_optr (?f x) = p_optr (pcb s x)" using ne by (simp add: link_child_def upd_opt_def opt)
    moreover have "p_yptr (?f z) = p_yptr (pcb s z) \<and> p_optr (?f z) = p_optr (pcb s z)" if "z \<in> set xs" for z
    proof -
      have "z \<noteq> p" "z \<noteq> par" "z \<noteq> x" using that ne by auto
      then show ?thesis by (simp add: link_child_def upd_opt_def opt)
    qed
    ultimately show ?thesis using sibs_cong [of xs ?f "procs (sched s)"] by simp
  qed
  have "p_parent (?f z) = Some par" if "z \<in> set (p # cs)" for z
    using that c p Cons by (auto simp: children_def link_child_def upd_opt_def opt)
  moreover have "p_cptr (?f par) = Some p" "p_yptr (?f p) = None" "p_optr (?f p) = Some x" "p_yptr (?f x) = Some p"
    using ne p(2) by (simp_all add: link_child_def upd_opt_def opt)
  ultimately show ?thesis using rest Cons ne p c by (simp add: children_def)
qed

lemma link_child_other:
  assumes "children s q ds" "q \<noteq> par" "p \<notin> set ds" "p \<noteq> q" "par \<notin> set ds"
    "children s par cs" "set cs \<inter> set ds = {}" "q \<notin> set cs"
  shows "children (link_child p par s) q ds"
proof (rule children_cong [OF assms(1)])
  have opt: "p_cptr (pcb s par) = Some x \<Longrightarrow> x \<in> set cs" for x
    using assms(6) by (cases cs) (auto simp: children_def)
  show "p_cptr (pcb (link_child p par s) q) = p_cptr (pcb s q)"
    using assms opt by (auto simp: link_child_def upd_opt_def split: option.split)
  fix x assume x: "x \<in> set ds"
  then have "x \<noteq> p" "x \<noteq> par" "\<And>z. p_cptr (pcb s par) = Some z \<Longrightarrow> x \<noteq> z" using assms opt by auto
  then show "p_yptr (pcb (link_child p par s) x) = p_yptr (pcb s x) \<and>
      p_optr (pcb (link_child p par s) x) = p_optr (pcb s x) \<and>
      p_parent (pcb (link_child p par s) x) = p_parent (pcb s x)"
    by (auto simp: link_child_def upd_opt_def split: option.split)
qed

lemma set_links_eq:
  assumes "p_parent (pcb s p) = Some par" "p \<noteq> par"
    "\<And>x. p_cptr (pcb s par) = Some x \<Longrightarrow> x \<noteq> p"
  shows "set_links p s = Inr ((link_child p par s)\<lparr>proc_list := p # proc_list s, nr_process := nr_process s + 1\<rparr>)"
  using assms
  by (auto simp: set_links_def link_child_def upd_opt_def upd_def upd_proc_def fun_eq_iff split: option.split)

text \<open>Unlinking a child from anywhere in the list.\<close>

definition unlink_child :: "ptr \<Rightarrow> ptr \<Rightarrow> proc_st \<Rightarrow> proc_st" where
  "unlink_child p par s =
     (let opt = p_optr (pcb s p); ypt = p_yptr (pcb s p);
          s1 = upd_opt opt (\<lambda>b. b\<lparr>p_yptr := ypt\<rparr>) s
      in case ypt of
           Some y \<Rightarrow> upd y (\<lambda>b. b\<lparr>p_optr := opt\<rparr>) s1
         | None \<Rightarrow> upd par (\<lambda>b. b\<lparr>p_cptr := opt\<rparr>) s1)"

lemma unlink_head:
  assumes "children s par (p # vs)"
  shows "children (unlink_child p par s) par vs"
proof -
  have y: "p_yptr (pcb s p) = None" using assms by (simp add: children_def)
  have ne: "p \<notin> set vs" "p \<noteq> par" "par \<notin> set vs" "distinct vs" using assms by (auto simp: children_def)
  show ?thesis
  proof (cases vs)
    case Nil
    with assms y show ?thesis by (auto simp: children_def unlink_child_def upd_opt_def)
  next
    case (Cons x xs)
    let ?f = "procs (sched (unlink_child p par s))"
    have opt: "p_optr (pcb s p) = Some x" using assms Cons by (simp add: children_def)
    have tl: "sibs (procs (sched s)) (Some x) (p_optr (pcb s x)) xs" using assms Cons by (simp add: children_def)
    have nx: "x \<noteq> par" "x \<notin> set xs" "par \<notin> set xs" using ne Cons by auto
    have eq: "p_yptr (?f z) = p_yptr (pcb s z) \<and> p_optr (?f z) = p_optr (pcb s z)" if "z \<in> set xs" for z
    proof -
      have "z \<noteq> x" "z \<noteq> par" using that nx by auto
      then show ?thesis by (simp add: unlink_child_def upd_opt_def opt y)
    qed
    have "sibs ?f (Some x) (p_optr (?f x)) xs"
      using tl nx sibs_cong [of xs ?f "procs (sched s)", OF eq]
      by (simp add: unlink_child_def upd_opt_def opt y)
    moreover have "p_cptr (?f par) = Some x" "p_yptr (?f x) = None"
      using nx by (simp_all add: unlink_child_def upd_opt_def opt y)
    moreover have "p_parent (?f z) = Some par" if "z \<in> set vs" for z
      using that assms ne by (auto simp: children_def unlink_child_def upd_opt_def opt y)
    ultimately show ?thesis using Cons ne by (simp add: children_def)
  qed
qed

lemma unlink_inner:
  assumes "children s par (us @ u # p # vs)"
  shows "children (unlink_child p par s) par (us @ u # vs)"
proof -
  let ?g = "procs (sched s)" and ?f = "procs (sched (unlink_child p par s))"
  from assms have y: "p_yptr (pcb s p) = Some u" and ne: "distinct (us @ u # p # vs)" "par \<notin> set (us @ u # p # vs)"
    and par: "\<forall>c \<in> set (us @ u # p # vs). p_parent (pcb s c) = Some par"
    by (auto simp: children_def sibs_append)
  from assms obtain y' c' where seg: "sib_seg ?g None (p_cptr (pcb s par)) us y' c'" "c' = Some u" "p_yptr (?g u) = y'"
    and tl: "sibs ?g (Some p) (p_optr (?g p)) vs"
    by (auto simp: children_def sibs_append)
  have opt: "p_optr (pcb s p) = (case vs of [] \<Rightarrow> None | x # _ \<Rightarrow> Some x)" using tl by (cases vs) auto
  have un: "unlink_child p par s = upd u (\<lambda>b. b\<lparr>p_optr := p_optr (pcb s p)\<rparr>)
      (upd_opt (p_optr (pcb s p)) (\<lambda>b. b\<lparr>p_yptr := Some u\<rparr>) s)" by (simp add: unlink_child_def y)
  have eq: "p_yptr (?f z) = p_yptr (?g z) \<and> p_optr (?f z) = p_optr (?g z)" if "z \<in> set us" for z
  proof -
    have "z \<noteq> u" "z \<notin> set vs" using that ne by auto
    then show ?thesis by (cases vs) (auto simp: un upd_opt_def opt)
  qed
  have "sib_seg ?f None (p_cptr (?f par)) us y' c'"
    using seg(1) sib_seg_cong [of us ?f ?g, OF eq] ne by (cases vs) (auto simp: un upd_opt_def opt)
  moreover have "p_yptr (?f u) = y'" "p_optr (?f u) = p_optr (?g p)"
    using seg(3) ne by (cases vs; auto simp: un upd_opt_def opt)+
  moreover have "sibs ?f (Some u) (p_optr (?g p)) vs"
  proof (cases vs)
    case Nil
    with opt show ?thesis by simp
  next
    case (Cons x xs)
    have "p_yptr (?f z) = p_yptr (?g z) \<and> p_optr (?f z) = p_optr (?g z)" if "z \<in> set xs" for z
    proof -
      have "z \<noteq> u" "z \<noteq> x" using that ne Cons by auto
      then show ?thesis using Cons by (simp add: un upd_opt_def opt)
    qed
    from sibs_cong [of xs ?f ?g, OF this] tl Cons ne show ?thesis by (auto simp: un upd_opt_def opt)
  qed
  moreover have "p_parent (?f z) = p_parent (?g z)" for z
    by (cases vs) (auto simp: un upd_opt_def opt)
  ultimately show ?thesis
    using seg(2) ne par by (auto simp: children_def sibs_append)
qed

lemma unlink_child_spec:
  assumes "children s par (us @ p # vs)"
  shows "children (unlink_child p par s) par (us @ vs)"
proof (cases us rule: rev_cases)
  case Nil
  with assms show ?thesis by (simp add: unlink_head)
next
  case (snoc us' u)
  with assms show ?thesis using unlink_inner [of s par us' u p vs] by simp
qed

lemma remove_links_eq:
  assumes "children s par (us @ p # vs)"
  shows "remove_links p s = Inr ((unlink_child p par s)\<lparr>proc_list := remove1 p (proc_list s),
    nr_process := nr_process s - 1\<rparr>)"
proof -
  have par: "p_parent (pcb s p) = Some par" using assms by (simp add: children_def)
  have "p_optr (pcb s p) \<noteq> Some p" using assms
    by (cases vs) (auto simp: children_def sibs_append)
  then show ?thesis using par
    by (auto simp: remove_links_def unlink_child_def upd_opt_def upd_def upd_proc_def split: option.splits)
qed

end
