(* ===== verification/Mem_Layout.thy ===== *)
theory Mem_Layout
  imports Prelude
begin

text \<open>
  The address space: the constants of \<open>kern/mm/memlayout.h\<close> and \<open>kern/mm/mmu.h\<close>, the parts of
  a linear address, the flags of a page table entry, and the lemmas on page-aligned addresses the
  memory components share.
\<close>

definition KERNBASE :: "32 word" where "KERNBASE = 0xC0000000"
definition KMEMSIZE :: "32 word" where "KMEMSIZE = 0x38000000"
definition KERNTOP :: "32 word" where "KERNTOP = KERNBASE + KMEMSIZE"
definition USERTOP :: "32 word" where "USERTOP = 0xB0000000"
definition USERBASE :: "32 word" where "USERBASE = 0x00200000"
definition PGSIZE :: "32 word" where "PGSIZE = 4096"
definition PTSIZE :: "32 word" where "PTSIZE = 0x400000"

definition USER_ACCESS :: "32 word \<Rightarrow> 32 word \<Rightarrow> bool" where
  "USER_ACCESS s e = (USERBASE \<le> s \<and> s < e \<and> e \<le> USERTOP)"

definition KERN_ACCESS :: "32 word \<Rightarrow> 32 word \<Rightarrow> bool" where
  "KERN_ACCESS s e = (KERNBASE \<le> s \<and> s < e \<and> e \<le> KERNTOP)"

definition PADDR :: "32 word \<Rightarrow> 32 word res" where
  "PADDR kva = (if kva < KERNBASE then Inl (Panic ''PADDR called with invalid kva'') else Inr (kva - KERNBASE))"

definition PDX :: "32 word \<Rightarrow> nat" where
  "PDX la = unat (drop_bit 22 la AND 0x3FF)"

definition PTX :: "32 word \<Rightarrow> nat" where
  "PTX la = unat (drop_bit 12 la AND 0x3FF)"

definition PPN :: "32 word \<Rightarrow> nat" where
  "PPN la = unat (drop_bit 12 la)"

definition PTE_ADDR :: "32 word \<Rightarrow> 32 word" where
  "PTE_ADDR pte = pte AND NOT 0xFFF"

definition PTE_P :: "32 word" where "PTE_P = 0x001"
definition PTE_W :: "32 word" where "PTE_W = 0x002"
definition PTE_U :: "32 word" where "PTE_U = 0x004"
definition PTE_A :: "32 word" where "PTE_A = 0x020"
definition PTE_D :: "32 word" where "PTE_D = 0x040"
definition PTE_SWAP :: "32 word" where "PTE_SWAP = PTE_A OR PTE_D"
definition PTE_USER :: "32 word" where "PTE_USER = PTE_U OR PTE_W OR PTE_P"

section \<open>Addresses as numbers\<close>

lemma PPN_div: "PPN la = unat la div 4096"
  by (simp add: PPN_def drop_bit_eq_div unat_div_distrib)

lemma and_3FF: "unat ((w :: 32 word) AND 0x3FF) = unat w mod 1024"
proof -
  have "w AND 0x3FF = take_bit 10 w" by (simp add: take_bit_eq_mask mask_eq_exp_minus_1)
  then show ?thesis by (simp add: take_bit_eq_mod unat_mod_distrib)
qed

lemma PTX_mod: "PTX la = unat la div 4096 mod 1024"
  by (simp add: PTX_def and_3FF drop_bit_eq_div unat_div_distrib)

lemma PDX_div: "PDX la = unat la div 4194304"
proof -
  have "unat la div 4194304 < 1024" using unat_bounds(1) [of la] by (simp add: less_mult_imp_div_less)
  then show ?thesis by (simp add: PDX_def and_3FF drop_bit_eq_div unat_div_distrib)
qed

text \<open>The two indices of an address are its page number.\<close>

lemma PDX_PTX: "PDX la = PPN la div 1024" "PTX la = PPN la mod 1024"
  by (simp_all add: PDX_div PPN_div PTX_mod div_mult2_eq)

lemma same_page: "PDX la = PDX la' \<and> PTX la = PTX la' \<longleftrightarrow> PPN la = PPN la'"
  unfolding PDX_PTX by (metis div_mod_decomp)

end
