(* ===== verification/Proc_Ops.thy ===== *)
theory Proc_Ops
  imports Proc_Table Mem_Layout
begin

text \<open>
  Creating, ending and reaping processes, \<open>kern/process/proc.c\<close>: \<open>do_fork\<close>,
  \<open>do_forkRT\<close>, \<open>__do_exit\<close>, \<open>do_exit\<close>, \<open>do_wait\<close>, \<open>do_kill\<close>,
  \<open>do_sleep\<close>, \<open>do_yield\<close>.  A call that gives up the processor ends in the state
  \<open>schedule\<close> leaves: what the caller does when it runs again is a definition of its own.
  \<open>dup_mmap\<close>, which copies an address space, is the parameter \<open>dup\<close>; the address of
  \<open>forkret\<close> is the parameter \<open>forkret\<close>.  A walk along pointers that may not end has the
  value \<open>None\<close> then, which \<open>spin\<close> turns into the fault \<open>Spin\<close>.
\<close>

definition CLONE_VM :: "32 word" where "CLONE_VM = 0x100"
definition CLONE_THREAD :: "32 word" where "CLONE_THREAD = 0x200"
definition FL_IF :: "32 word" where "FL_IF = 0x200"
definition sizeof_trapframe :: "32 word" where "sizeof_trapframe = 68"

definition spin :: "'a option \<Rightarrow> 'a res" where
  "spin r = (case r of None \<Rightarrow> Inl Spin | Some x \<Rightarrow> Inr x)"

abbreviation cur :: "proc_st \<Rightarrow> ptr" where
  "cur s \<equiv> current (sched s)"

definition on_sched :: "(sched_st \<Rightarrow> sched_st res) \<Rightarrow> proc_st \<Rightarrow> proc_st res" where
  "on_sched f s = bindR (f (sched s)) (\<lambda>k. Inr (s\<lparr>sched := k\<rparr>))"

section \<open>Resources of a process\<close>

definition kmalloc_proc :: "32 word \<Rightarrow> proc_st \<Rightarrow> ptr option \<times> proc_st" where
  "kmalloc_proc boot_cr3 s =
     (case kmem s of
        [] \<Rightarrow> (None, s)
      | p # ps \<Rightarrow> (Some p, (upd p (alloc_proc boot_cr3) s)\<lparr>kmem := ps, thread_group := list_init p (thread_group s)\<rparr>))"

definition kfree_proc :: "ptr \<Rightarrow> proc_st \<Rightarrow> proc_st" where
  "kfree_proc p s = s\<lparr>kmem := p # kmem s\<rparr>"

definition setup_kstack :: "ptr \<Rightarrow> proc_st \<Rightarrow> int \<times> proc_st" where
  "setup_kstack p s =
     (case kstacks s of
        [] \<Rightarrow> (- E_NO_MEM, s)
      | k # ks \<Rightarrow> (0, (upd p (\<lambda>b. b\<lparr>p_kstack := k\<rparr>) s)\<lparr>kstacks := ks\<rparr>))"

definition put_kstack :: "ptr \<Rightarrow> proc_st \<Rightarrow> proc_st" where
  "put_kstack p s = s\<lparr>kstacks := p_kstack (pcb s p) # kstacks s\<rparr>"

definition proc_mm_create :: "proc_st \<Rightarrow> ptr option \<times> proc_st" where
  "proc_mm_create s =
     (case mm_pool s of
        [] \<Rightarrow> (None, s)
      | m # ms \<Rightarrow> (Some m, s\<lparr>mm_pool := ms, mms := (mms s)(m := \<lparr>mm_count = atomic_set 0, mm_pgdir = 0,
            mm_brk_start = 0, mm_brk = 0\<rparr>)\<rparr>))"

definition proc_mm_destroy :: "ptr \<Rightarrow> proc_st \<Rightarrow> proc_st" where
  "proc_mm_destroy m s = s\<lparr>mm_pool := m # mm_pool s\<rparr>"

definition setup_pgdir :: "ptr \<Rightarrow> proc_st \<Rightarrow> int \<times> proc_st" where
  "setup_pgdir m s =
     (case pgdirs s of
        [] \<Rightarrow> (- E_NO_MEM, s)
      | d # ds \<Rightarrow> (0, s\<lparr>pgdirs := ds, mms := (mms s)(m := (mms s m)\<lparr>mm_pgdir := d\<rparr>)\<rparr>))"

definition put_pgdir :: "ptr \<Rightarrow> proc_st \<Rightarrow> proc_st" where
  "put_pgdir m s = s\<lparr>pgdirs := mm_pgdir (mms s m) # pgdirs s\<rparr>"

definition mm_count_inc :: "ptr \<Rightarrow> proc_st \<Rightarrow> int \<times> proc_st" where
  "mm_count_inc m s = (let (v, r) = atomic_add_return (mm_count (mms s m)) 1
     in (r, s\<lparr>mms := (mms s)(m := (mms s m)\<lparr>mm_count := v\<rparr>)\<rparr>))"

definition mm_count_dec :: "ptr \<Rightarrow> proc_st \<Rightarrow> int \<times> proc_st" where
  "mm_count_dec m s = (let (v, r) = atomic_sub_return (mm_count (mms s m)) 1
     in (r, s\<lparr>mms := (mms s)(m := (mms s m)\<lparr>mm_count := v\<rparr>)\<rparr>))"

text \<open>The label \<open>good_mm\<close> of \<open>copy_mm\<close>.\<close>

definition copy_mm_good :: "ptr \<Rightarrow> ptr \<Rightarrow> ptr \<Rightarrow> proc_st \<Rightarrow> (int \<times> proc_st) res" where
  "copy_mm_good m oldmm p s =
     (let s1 = (if m \<noteq> oldmm
                then s\<lparr>mms := (mms s)(m := (mms s m)\<lparr>mm_brk_start := mm_brk_start (mms s oldmm),
                                                      mm_brk := mm_brk (mms s oldmm)\<rparr>),
                       proc_mm_list := m # proc_mm_list s\<rparr>
                else s);
          (_, s2) = mm_count_inc m s1
      in bindR (PADDR (mm_pgdir (mms s2 m))) (\<lambda>c.
           Inr (0, upd p (\<lambda>b. b\<lparr>p_mm := Some m, p_cr3 := c\<rparr>) s2)))"

definition copy_mm :: "(ptr \<Rightarrow> ptr \<Rightarrow> int) \<Rightarrow> 32 word \<Rightarrow> ptr \<Rightarrow> proc_st \<Rightarrow> (int \<times> proc_st) res" where
  "copy_mm dup clone_flags p s =
     (case p_mm (pcb s (cur s)) of
        None \<Rightarrow> Inr (0, s)
      | Some oldmm \<Rightarrow>
          if clone_flags AND CLONE_VM \<noteq> 0 then copy_mm_good oldmm oldmm p s
          else (case proc_mm_create s of
              (None, s1) \<Rightarrow> Inr (- E_NO_MEM, s1)
            | (Some m, s1) \<Rightarrow>
                let (r, s2) = setup_pgdir m s1
                in if r \<noteq> 0 then Inr (- E_NO_MEM, proc_mm_destroy m s2)
                   else let ret = dup m oldmm
                        in if ret \<noteq> 0 then Inr (ret, proc_mm_destroy m (put_pgdir m s2))
                           else copy_mm_good m oldmm p s2))"

definition copy_thread :: "32 word \<Rightarrow> ptr \<Rightarrow> 32 word \<Rightarrow> trapframe \<Rightarrow> proc_st \<Rightarrow> proc_st" where
  "copy_thread forkret p esp tf s =
     (let t = p_kstack (pcb s p) + KSTACKSIZE - sizeof_trapframe;
          s1 = upd p (\<lambda>b. b\<lparr>p_tf := Some t, p_context := (p_context b)\<lparr>c_eip := forkret, c_esp := t\<rparr>\<rparr>) s
      in s1\<lparr>tframes := (tframes s1)(t := tf\<lparr>reg_eax := 0, tf_esp := esp, tf_eflags := tf_eflags tf OR FL_IF\<rparr>)\<rparr>)"

section \<open>Fork\<close>

text \<open>What \<open>do_fork\<close> and \<open>do_forkRT\<close> do with a new block whose scheduling fields are set: the
  kernel stack, the address space, the trap frame, the pid and the links.\<close>

definition fork_finish :: "sched_class \<Rightarrow> 32 word \<Rightarrow> (ptr \<Rightarrow> ptr \<Rightarrow> int) \<Rightarrow> 32 word \<Rightarrow> 32 word \<Rightarrow> trapframe \<Rightarrow>
    ptr \<Rightarrow> proc_st \<Rightarrow> (int \<times> proc_st) res" where
  "fork_finish cls forkret dup clone_flags stack tf p s =
     (let (r, s1) = setup_kstack p s
      in if r \<noteq> 0 then Inr (- E_NO_MEM, kfree_proc p s1)
         else bindR (copy_mm dup clone_flags p s1) (\<lambda>(r2, s2).
           if r2 \<noteq> 0 then Inr (- E_NO_MEM, kfree_proc p (put_kstack p s2))
           else let s3 = copy_thread forkret p stack tf s2
                in bindR (spin (get_pid (map (\<lambda>x. p_pid (pcb s3 x)) (proc_list s3)) (last_pid s3) (next_safe s3)))
                  (\<lambda>(pid, n).
                   let s4 = upd p (\<lambda>b. b\<lparr>p_pid := pid\<rparr>) (s3\<lparr>last_pid := pid, next_safe := n\<rparr>);
                       s5 = hash_proc p s4
                   in bindR (set_links p s5) (\<lambda>s6.
                      let s7 = (if clone_flags AND CLONE_THREAD \<noteq> 0
                                then s6\<lparr>thread_group := list_add_before (cur s6) p (thread_group s6)\<rparr> else s6)
                      in bindR (on_sched (wakeup_proc cls p) s7) (\<lambda>s8. Inr (p_pid (pcb s8 p), s8))))))"

text \<open>The part before it: limits, the block, the assertions, half of the time slice each.\<close>

definition fork_begin :: "32 word \<Rightarrow> (proc_struct \<Rightarrow> proc_struct) \<Rightarrow>
    (ptr \<Rightarrow> proc_st \<Rightarrow> (int \<times> proc_st) res) \<Rightarrow> proc_st \<Rightarrow> (int \<times> proc_st) res" where
  "fork_begin boot_cr3 rt finish s =
     (if nr_process s \<ge> MAX_PROCESS then Inr (- E_NO_FREE_PROC, s)
      else case kmalloc_proc boot_cr3 s of
          (None, s1) \<Rightarrow> Inr (- E_NO_MEM, s1)
        | (Some p, s1) \<Rightarrow>
            let c = cur s1;
                s2 = (upd p (\<lambda>b. b\<lparr>p_parent := Some c\<rparr>) s1)\<lparr>thread_group := list_init p (thread_group s1)\<rparr>
            in bindR (assertR (p_wait_state (pcb s2 c) = 0) ''current->wait_state == 0'') (\<lambda>_.
               bindR (assertR (p_time_slice (pcb s2 c) \<ge> 0) ''current->time_slice >= 0'') (\<lambda>_.
               let t = cdiv (p_time_slice (pcb s2 c)) 2;
                   s3 = upd p (\<lambda>b. b\<lparr>p_time_slice := t\<rparr>) s2;
                   s4 = upd c (\<lambda>b. b\<lparr>p_time_slice := p_time_slice b - t\<rparr>) s3
               in finish p (upd p rt s4))))"

definition do_fork :: "sched_class \<Rightarrow> 32 word \<Rightarrow> 32 word \<Rightarrow> (ptr \<Rightarrow> ptr \<Rightarrow> int) \<Rightarrow> 32 word \<Rightarrow> 32 word \<Rightarrow> trapframe \<Rightarrow>
    proc_st \<Rightarrow> (int \<times> proc_st) res" where
  "do_fork cls boot_cr3 forkret dup clone_flags stack tf s =
     fork_begin boot_cr3 (\<lambda>b. b\<lparr>p_isRT := False, p_pt := PROC_MAX_DEADLINE\<rparr>)
       (fork_finish cls forkret dup clone_flags stack tf) s"

definition do_forkRT :: "sched_class \<Rightarrow> 32 word \<Rightarrow> 32 word \<Rightarrow> (ptr \<Rightarrow> ptr \<Rightarrow> int) \<Rightarrow> 32 word \<Rightarrow> 32 word \<Rightarrow> trapframe \<Rightarrow>
    int \<Rightarrow> int \<Rightarrow> proc_st \<Rightarrow> (int \<times> proc_st) res" where
  "do_forkRT cls boot_cr3 forkret dup clone_flags stack tf ct pt s =
     fork_begin boot_cr3
       (\<lambda>b. b\<lparr>p_isRT := True, p_compute_time := ct, p_period_time := pt, p_ct := 0, p_pt := pt\<rparr>)
       (fork_finish cls forkret dup clone_flags stack tf) s"

definition KERNEL_CS :: "16 word" where "KERNEL_CS = 0x8"
definition KERNEL_DS :: "16 word" where "KERNEL_DS = 0x10"

definition kernel_thread_tf :: "32 word \<Rightarrow> 32 word \<Rightarrow> 32 word \<Rightarrow> trapframe" where
  "kernel_thread_tf kernel_thread_entry fn arg = \<lparr>reg_edi = 0, reg_esi = 0, reg_ebp = 0, reg_oesp = 0,
     reg_ebx = fn, reg_edx = arg, reg_ecx = 0, reg_eax = 0, tf_es = KERNEL_DS, tf_ds = KERNEL_DS,
     tf_trapno = 0, tf_err = 0, tf_eip = kernel_thread_entry, tf_cs = KERNEL_CS, tf_eflags = 0,
     tf_esp = 0, tf_ss = KERNEL_DS\<rparr>"

definition kernel_thread :: "sched_class \<Rightarrow> 32 word \<Rightarrow> 32 word \<Rightarrow> (ptr \<Rightarrow> ptr \<Rightarrow> int) \<Rightarrow> 32 word \<Rightarrow> 32 word \<Rightarrow> 32 word \<Rightarrow>
    32 word \<Rightarrow> proc_st \<Rightarrow> (int \<times> proc_st) res" where
  "kernel_thread cls boot_cr3 forkret dup kernel_thread_entry fn arg clone_flags s =
     do_fork cls boot_cr3 forkret dup (clone_flags OR CLONE_VM) 0 (kernel_thread_tf kernel_thread_entry fn arg) s"

section \<open>Exit and kill\<close>

definition do_kill_proc :: "sched_class \<Rightarrow> ptr \<Rightarrow> int \<Rightarrow> proc_st \<Rightarrow> (int \<times> proc_st) res" where
  "do_kill_proc cls p error_code s =
     (if p_flags (pcb s p) AND PF_EXITING = 0 then
        let s1 = upd p (\<lambda>b. b\<lparr>p_flags := p_flags b OR PF_EXITING, p_exit_code := error_code\<rparr>) s
        in bindR (if p_wait_state (pcb s1 p) AND WT_INTERRUPTED \<noteq> 0 then on_sched (wakeup_proc cls p) s1 else Inr s1)
             (\<lambda>s2. Inr (0, s2))
      else Inr (- E_KILLED, s))"

definition do_kill :: "sched_class \<Rightarrow> int \<Rightarrow> int \<Rightarrow> proc_st \<Rightarrow> (int \<times> proc_st) res" where
  "do_kill cls pid error_code s =
     (case find_proc pid s of Some p \<Rightarrow> do_kill_proc cls p error_code s | None \<Rightarrow> Inr (- E_INVAL, s))"

text \<open>Giving back the address space when the last user leaves it (also in \<open>do_execve\<close>).\<close>

definition release_mm :: "32 word \<Rightarrow> proc_st \<Rightarrow> proc_st" where
  "release_mm boot_cr3 s =
     (case p_mm (pcb s (cur s)) of
        None \<Rightarrow> s
      | Some m \<Rightarrow>
          let s1 = s\<lparr>sched := (sched s)\<lparr>cr3 := boot_cr3\<rparr>\<rparr>;
              (r, s2) = mm_count_dec m s1;
              s3 = (if r = 0
                    then let s4 = put_pgdir m s2 in proc_mm_destroy m (s4\<lparr>proc_mm_list := remove1 m (proc_mm_list s4)\<rparr>)
                    else s2)
          in upd (cur s3) (\<lambda>b. b\<lparr>p_mm := None\<rparr>) s3)"

text \<open>Waking the threads of the parent that wait for a child: a round along the ring.\<close>

partial_function (option) wake_parents :: "sched_class \<Rightarrow> ptr \<Rightarrow> ptr \<Rightarrow> proc_st \<Rightarrow> proc_st res option" where
  "wake_parents cls parent p s =
     (case (if p_wait_state (pcb s p) = WT_CHILD then on_sched (wakeup_proc cls p) s else Inr s) of
        Inl e \<Rightarrow> Some (Inl e)
      | Inr s1 \<Rightarrow> let p' = next_thread p s1 in if p' \<noteq> parent then wake_parents cls parent p' s1 else Some (Inr s1))"

text \<open>One turn of the loop that hands the children to another process.\<close>

definition adopt_child :: "sched_class \<Rightarrow> ptr \<Rightarrow> ptr \<Rightarrow> ptr \<Rightarrow> proc_st \<Rightarrow> proc_st res" where
  "adopt_child cls c parent p s =
     (let s1 = upd c (\<lambda>b. b\<lparr>p_cptr := p_optr (pcb s p)\<rparr>) s;
          s2 = upd p (\<lambda>b. b\<lparr>p_yptr := None\<rparr>) s1;
          opt = p_cptr (pcb s2 parent);
          s3 = upd p (\<lambda>b. b\<lparr>p_optr := opt\<rparr>) s2;
          s4 = upd_opt opt (\<lambda>b. b\<lparr>p_yptr := Some p\<rparr>) s3;
          s5 = upd p (\<lambda>b. b\<lparr>p_parent := Some parent\<rparr>) s4;
          s6 = upd parent (\<lambda>b. b\<lparr>p_cptr := Some p\<rparr>) s5
      in if p_state (pcb s6 p) = PROC_ZOMBIE \<and> p_wait_state (pcb s6 parent) = WT_CHILD
         then on_sched (wakeup_proc cls parent) s6 else Inr s6)"

partial_function (option) adopt_children :: "sched_class \<Rightarrow> ptr \<Rightarrow> ptr \<Rightarrow> proc_st \<Rightarrow> proc_st res option" where
  "adopt_children cls c parent s =
     (case p_cptr (pcb s c) of
        None \<Rightarrow> Some (Inr s)
      | Some p \<Rightarrow> (case adopt_child cls c parent p s of
            Inl e \<Rightarrow> Some (Inl e)
          | Inr s1 \<Rightarrow> adopt_children cls c parent s1))"

text \<open>\<open>__do_exit\<close>; it ends in \<open>schedule\<close>, from which the zombie never returns.\<close>

definition exit_current :: "sched_class \<Rightarrow> 32 word \<Rightarrow> proc_st \<Rightarrow> proc_st res" where
  "exit_current cls boot_cr3 s =
     (if cur s = idleproc (sched s) then Inl (Panic ''idleproc exit.'')
      else if Some (cur s) = initproc s then Inl (Panic ''initproc exit.'')
      else
        let c = cur s; s1 = release_mm boot_cr3 s;
            s2 = upd c (\<lambda>b. b\<lparr>p_state := PROC_ZOMBIE\<rparr>) s1
        in bindR (deref (p_parent (pcb s2 c))) (\<lambda>parent.
           bindR (bindR (spin (wake_parents cls parent parent s2)) id) (\<lambda>s3.
           bindR (if next_thread c s3 = c then deref (initproc s3) else Inr (next_thread c s3)) (\<lambda>parent2.
           let s4 = de_thread c s3
           in bindR (bindR (spin (adopt_children cls c parent2 s4)) id) (\<lambda>s5.
              on_sched (schedule cls) s5)))))"

definition do_exit_thread :: "sched_class \<Rightarrow> 32 word \<Rightarrow> int \<Rightarrow> proc_st \<Rightarrow> proc_st res" where
  "do_exit_thread cls boot_cr3 error_code s =
     exit_current cls boot_cr3 (upd (cur s) (\<lambda>b. b\<lparr>p_exit_code := error_code\<rparr>) s)"

partial_function (option) kill_threads :: "sched_class \<Rightarrow> int \<Rightarrow> ptr \<Rightarrow> ptr \<Rightarrow> proc_st \<Rightarrow> proc_st res option" where
  "kill_threads cls error_code c p s =
     (let p' = next_thread p s
      in if p' = c then Some (Inr s)
         else case do_kill_proc cls p' error_code s of
              Inl e \<Rightarrow> Some (Inl e)
            | Inr (_, s1) \<Rightarrow> kill_threads cls error_code c p' s1)"

definition do_exit :: "sched_class \<Rightarrow> 32 word \<Rightarrow> int \<Rightarrow> proc_st \<Rightarrow> proc_st res" where
  "do_exit cls boot_cr3 error_code s =
     bindR (bindR (spin (kill_threads cls error_code (cur s) (cur s) s)) id) (do_exit_thread cls boot_cr3 error_code)"

definition may_killed :: "sched_class \<Rightarrow> 32 word \<Rightarrow> proc_st \<Rightarrow> proc_st res" where
  "may_killed cls boot_cr3 s =
     (if p_flags (pcb s (cur s)) AND PF_EXITING \<noteq> 0 then exit_current cls boot_cr3 s else Inr s)"

section \<open>Wait, sleep, yield\<close>

datatype wait_find = Found ptr | Haskid | Nokid

text \<open>The search by pid: is the process a child of one of the threads?\<close>

partial_function (option) wait_find_pid :: "ptr \<Rightarrow> ptr \<Rightarrow> proc_st \<Rightarrow> wait_find option" where
  "wait_find_pid p cproc s =
     (if p_parent (pcb s p) = Some cproc then
        Some (if p_state (pcb s p) = PROC_ZOMBIE then Found p else Haskid)
      else let cproc' = next_thread cproc s
           in if cproc' \<noteq> cur s then wait_find_pid p cproc' s else Some Nokid)"

text \<open>The search through all children of all threads.\<close>

partial_function (option) wait_scan_children :: "ptr option \<Rightarrow> bool \<Rightarrow> proc_st \<Rightarrow> wait_find option" where
  "wait_scan_children q haskid s =
     (case q of
        None \<Rightarrow> Some (if haskid then Haskid else Nokid)
      | Some p \<Rightarrow> if p_state (pcb s p) = PROC_ZOMBIE then Some (Found p)
                  else wait_scan_children (p_optr (pcb s p)) True s)"

partial_function (option) wait_find_any :: "ptr \<Rightarrow> bool \<Rightarrow> proc_st \<Rightarrow> wait_find option" where
  "wait_find_any cproc haskid s =
     Option.bind (wait_scan_children (p_cptr (pcb s cproc)) haskid s) (\<lambda>r.
       case r of
         Found p \<Rightarrow> Some (Found p)
       | _ \<Rightarrow> (let cproc' = next_thread cproc s
               in if cproc' \<noteq> cur s then wait_find_any cproc' (r = Haskid) s else Some r))"

definition wait_search :: "int \<Rightarrow> proc_st \<Rightarrow> wait_find option" where
  "wait_search pid s =
     (if pid \<noteq> 0
      then (case find_proc pid s of Some p \<Rightarrow> wait_find_pid p (cur s) s | None \<Rightarrow> Some Nokid)
      else wait_find_any (cur s) False s)"

text \<open>The label \<open>found\<close>: the exit code and the state without the child.\<close>

definition reap :: "ptr \<Rightarrow> proc_st \<Rightarrow> (int \<times> proc_st) res" where
  "reap p s =
     (if p = idleproc (sched s) \<or> Some p = initproc s then Inl (Panic ''wait idleproc or initproc.'')
      else let exit_code = p_exit_code (pcb s p); s1 = unhash_proc p s
           in bindR (remove_links p s1) (\<lambda>s2. Inr (exit_code, kfree_proc p (put_kstack p s2))))"

text \<open>One pass of \<open>do_wait\<close> from the label \<open>repeat\<close>: it returns a value and the exit code to store,
  or puts the caller to sleep, to be continued with \<open>may_killed\<close> and another pass.
  \<open>check\<close> and \<open>copy\<close> are the results of \<open>user_mem_check\<close> and \<open>copy_to_user\<close>.\<close>

datatype wait_outcome = Wait_returns int "int option" proc_st | Wait_sleeps proc_st

definition do_wait :: "sched_class \<Rightarrow> int \<Rightarrow> ptr option \<Rightarrow> bool \<Rightarrow> bool \<Rightarrow> proc_st \<Rightarrow> wait_outcome res" where
  "do_wait cls pid code_store check copy s =
     (if code_store \<noteq> None \<and> \<not> check then Inr (Wait_returns (- E_INVAL) None s)
      else bindR (spin (wait_search pid s)) (\<lambda>r.
        case r of
          Found p \<Rightarrow> bindR (reap p s) (\<lambda>(code, s1).
            Inr (Wait_returns (if code_store \<noteq> None \<and> \<not> copy then - E_INVAL else 0)
                   (if code_store \<noteq> None \<and> copy then Some code else None) s1))
        | Haskid \<Rightarrow> bindR (on_sched (schedule cls)
              (upd (cur s) (\<lambda>b. b\<lparr>p_state := PROC_SLEEPING, p_wait_state := WT_CHILD\<rparr>) s)) (\<lambda>s1. Inr (Wait_sleeps s1))
        | Nokid \<Rightarrow> Inr (Wait_returns (- E_BAD_PROC) None s)))"

text \<open>\<open>do_sleep\<close> up to \<open>schedule\<close>, on the timer \<open>t\<close> of the caller's stack, and its end.\<close>

definition do_sleep :: "sched_class \<Rightarrow> nat \<Rightarrow> 32 word \<Rightarrow> proc_st \<Rightarrow> (int option \<times> proc_st) res" where
  "do_sleep cls t time s =
     (if time = 0 then Inr (Some 0, s)
      else let s1 = s\<lparr>sched := timer_init t (Some (cur s)) time (sched s)\<rparr>;
               s2 = upd (cur s1) (\<lambda>b. b\<lparr>p_state := PROC_SLEEPING, p_wait_state := WT_TIMER\<rparr>) s1
           in bindR (on_sched (add_timer t) s2) (\<lambda>s3.
              bindR (on_sched (schedule cls) s3) (\<lambda>s4. Inr (None, s4))))"

definition do_sleep_end :: "nat \<Rightarrow> proc_st \<Rightarrow> int \<times> proc_st" where
  "do_sleep_end t s = (0, s\<lparr>sched := del_timer t (sched s)\<rparr>)"

definition do_yield :: "proc_st \<Rightarrow> int \<times> proc_st" where
  "do_yield s = (0, upd (cur s) (\<lambda>b. b\<lparr>p_need_resched := True\<rparr>) s)"

section \<open>Frames\<close>

text \<open>Nothing the table or the family links depend on has changed.\<close>

definition fam_same :: "proc_st \<Rightarrow> proc_st \<Rightarrow> bool" where
  "fam_same s s' \<longleftrightarrow> proc_list s' = proc_list s \<and> hash_list s' = hash_list s \<and> last_pid s' = last_pid s \<and>
     next_safe s' = next_safe s \<and> nr_process s' = nr_process s \<and> initproc s' = initproc s \<and>
     (\<forall>x. p_pid (pcb s' x) = p_pid (pcb s x) \<and> p_parent (pcb s' x) = p_parent (pcb s x) \<and>
          p_cptr (pcb s' x) = p_cptr (pcb s x) \<and> p_optr (pcb s' x) = p_optr (pcb s x) \<and>
          p_yptr (pcb s' x) = p_yptr (pcb s x))"

lemma fam_same_trans: "fam_same s s' \<Longrightarrow> fam_same s' s'' \<Longrightarrow> fam_same s s''"
  by (simp add: fam_same_def)

lemma fam_same_table: "fam_same s s' \<Longrightarrow> table_wf s \<Longrightarrow> table_wf s'"
  by (rule table_wf_cong) (auto simp: fam_same_def)

lemma fam_same_children: "fam_same s s' \<Longrightarrow> children s par cs \<Longrightarrow> children s' par cs"
  by (rule children_cong) (auto simp: fam_same_def)

text \<open>The scheduling state is the same but for fields the scheduler does not read.\<close>

definition sched_same :: "proc_st \<Rightarrow> proc_st \<Rightarrow> bool" where
  "sched_same s s' \<longleftrightarrow> same_sched (sched s) (sched s') \<and> cur s' = cur s \<and>
     idleproc (sched s') = idleproc (sched s) \<and> timer (sched s') = timer (sched s) \<and>
     timer_list (sched s') = timer_list (sched s) \<and>
     (\<forall>x. p_state (pcb s' x) = p_state (pcb s x) \<and> p_wait_state (pcb s' x) = p_wait_state (pcb s x))"

lemma sched_same_trans: "sched_same s s' \<Longrightarrow> sched_same s' s'' \<Longrightarrow> sched_same s s''"
  by (auto simp: sched_same_def same_sched_def)

lemma sched_same_inv: "sched_same s s' \<Longrightarrow> kernel_inv (sched s) \<Longrightarrow> kernel_inv (sched s')"
  by (rule kernel_inv_same [of "sched s"]) (simp_all add: sched_same_def kernel_invD(5))

lemma sched_same_waiting: "sched_same s s' \<Longrightarrow> edf_waiting (sched s') = edf_waiting (sched s)"
  by (simp add: sched_same_def same_sched_def edf_waiting_def)

text \<open>The fields of a block no wake-up changes.\<close>

definition pcb_same :: "proc_struct \<Rightarrow> proc_struct \<Rightarrow> bool" where
  "pcb_same b b' \<longleftrightarrow> p_pid b' = p_pid b \<and> p_parent b' = p_parent b \<and> p_cptr b' = p_cptr b \<and>
     p_optr b' = p_optr b \<and> p_yptr b' = p_yptr b \<and> p_time_slice b' = p_time_slice b \<and>
     p_isRT b' = p_isRT b \<and> p_pt b' = p_pt b \<and> p_flags b' = p_flags b \<and> p_exit_code b' = p_exit_code b \<and>
     p_kstack b' = p_kstack b \<and> p_mm b' = p_mm b \<and> p_compute_time b' = p_compute_time b \<and>
     p_period_time b' = p_period_time b \<and> p_ct b' = p_ct b"

lemma wakeup_fields:
  assumes "wakeup_proc MY_sched_class p s = Inr s'"
  shows "pcb_same (procs s x) (procs s' x)"
proof -
  have e: "pcb_same (procs t x) (procs t' x)" if "MY_enqueue 0 p t = Inr t'" for t t'
    using that by (auto simp: MY_enqueue_def res_simps pcb_same_def split: if_splits)
  let ?s = "upd_proc p (\<lambda>b. b\<lparr>p_state := PROC_RUNNABLE, p_wait_state := 0\<rparr>) s"
  have u: "pcb_same (procs s x) (procs ?s x)" by (simp add: pcb_same_def)
  from assms have "s' = s \<or> s' = ?s \<or> MY_enqueue 0 p ?s = Inr s'"
    by (auto simp: wakeup_proc_def sched_class_enqueue_def res_simps split: if_splits)
  then show ?thesis using u e [of ?s s'] by (auto simp: pcb_same_def)
qed

lemma wakeup_frames:
  assumes "on_sched (wakeup_proc MY_sched_class p) s = Inr s'"
  shows "fam_same s s'" "thread_group s' = thread_group s" "kmem s' = kmem s" "kstacks s' = kstacks s"
    "pcb_same (pcb s x) (pcb s' x)" "mms s' = mms s" "mm_pool s' = mm_pool s" "pgdirs s' = pgdirs s"
    "initproc s' = initproc s"
proof -
  from assms obtain k where k: "wakeup_proc MY_sched_class p (sched s) = Inr k" "s' = s\<lparr>sched := k\<rparr>"
    by (auto simp: on_sched_def res_simps)
  have f: "pcb_same (pcb s x) (pcb s' x)" for x using wakeup_fields [OF k(1), of x] k(2) by simp
  then show "fam_same s s'" using k(2) by (simp add: fam_same_def pcb_same_def)
  show "thread_group s' = thread_group s" "kmem s' = kmem s" "kstacks s' = kstacks s" "mms s' = mms s"
    "mm_pool s' = mm_pool s" "pgdirs s' = pgdirs s" "initproc s' = initproc s"
    "pcb_same (pcb s x) (pcb s' x)"
    using k(2) f by simp_all
qed

section \<open>Fork\<close>

lemma copy_mm_ok:
  assumes "p_mm (pcb s (cur s)) = None \<or>
    (\<exists>m. p_mm (pcb s (cur s)) = Some m \<and> clone_flags AND CLONE_VM \<noteq> 0 \<and> KERNBASE \<le> mm_pgdir (mms s m))"
  obtains s' where "copy_mm dup clone_flags p s = Inr (0, s')" "fam_same s s'" "sched_same s s'"
    "\<And>x. pcb_same (if x = p then (pcb s x)\<lparr>p_mm := p_mm (pcb s' p)\<rparr> else pcb s x) (pcb s' x)"
    "kmem s' = kmem s" "kstacks s' = kstacks s"
proof (cases "p_mm (pcb s (cur s))")
  case None
  then show ?thesis
    by (intro that [of s]) (simp_all add: copy_mm_def fam_same_def sched_same_def same_sched_def pcb_same_def)
next
  case (Some m)
  with assms have c: "clone_flags AND CLONE_VM \<noteq> 0" "KERNBASE \<le> mm_pgdir (mms s m)" by auto
  let ?s = "s\<lparr>mms := (mms s)(m := (mms s m)\<lparr>mm_count := fst (atomic_add_return (mm_count (mms s m)) 1)\<rparr>)\<rparr>"
  let ?s' = "upd p (\<lambda>b. b\<lparr>p_mm := Some m, p_cr3 := mm_pgdir (mms s m) - KERNBASE\<rparr>) ?s"
  have "copy_mm dup clone_flags p s = Inr (0, ?s')"
    using Some c by (simp add: copy_mm_def copy_mm_good_def mm_count_inc_def PADDR_def not_less split_beta)
  then show ?thesis
    by (intro that [of ?s']) (auto simp: fam_same_def sched_same_def same_sched_def pcb_same_def)
qed

lemma setup_kstack_ok:
  assumes "kstacks s = k # ks"
  obtains s' where "setup_kstack p s = (0, s')" "fam_same s s'" "sched_same s s'"
    "\<And>x. pcb_same (if x = p then (pcb s x)\<lparr>p_kstack := k\<rparr> else pcb s x) (pcb s' x)"
    "kmem s' = kmem s" "kstacks s' = ks" "mms s' = mms s" "\<And>x. p_mm (pcb s' x) = p_mm (pcb s x)"
  using assms
  by (intro that [of "(upd p (\<lambda>b. b\<lparr>p_kstack := k\<rparr>) s)\<lparr>kstacks := ks\<rparr>"])
    (auto simp: setup_kstack_def fam_same_def sched_same_def same_sched_def pcb_same_def)

lemma copy_thread_frames:
  "fam_same s (copy_thread forkret p esp tf s)" "sched_same s (copy_thread forkret p esp tf s)"
  "pcb_same (pcb s x) (pcb (copy_thread forkret p esp tf s) x)" "kmem (copy_thread forkret p esp tf s) = kmem s"
  "kstacks (copy_thread forkret p esp tf s) = kstacks s"
  by (auto simp: copy_thread_def fam_same_def sched_same_def same_sched_def pcb_same_def)

text \<open>Entering the new process into the table and the family: the state before \<open>wakeup_proc\<close>.\<close>

lemma enter_process:
  assumes wf: "table_wf s" and p: "p \<notin> set (proc_list s)" "p \<noteq> c" "p \<notin> set cs"
    and par: "p_parent (pcb s p) = Some c" and ch: "children s c cs"
    and n: "length (proc_list s) < nat MAX_PID - 1"
  obtains pid m s' where
    "get_pid (map (\<lambda>x. p_pid (pcb s x)) (proc_list s)) (last_pid s) (next_safe s) = Some (pid, m)"
    "set_links p (hash_proc p (upd p (\<lambda>b. b\<lparr>p_pid := pid\<rparr>) (s\<lparr>last_pid := pid, next_safe := m\<rparr>))) = Inr s'"
    "table_wf s'" "children s' c (p # cs)" "p_pid (pcb s' p) = pid" "1 \<le> pid" "pid < MAX_PID"
    "\<forall>x \<in> set (proc_list s). p_pid (pcb s x) \<noteq> pid" "proc_list s' = p # proc_list s"
    "nr_process s' = nr_process s + 1" "sched_same s s'" "kmem s' = kmem s" "kstacks s' = kstacks s"
    "\<And>x. p_time_slice (pcb s' x) = p_time_slice (pcb s x) \<and> p_isRT (pcb s' x) = p_isRT (pcb s x) \<and>
       p_pt (pcb s' x) = p_pt (pcb s x) \<and> p_period_time (pcb s' x) = p_period_time (pcb s x) \<and>
       p_compute_time (pcb s' x) = p_compute_time (pcb s x) \<and> p_ct (pcb s' x) = p_ct (pcb s x)"
proof -
  let ?pids = "map (\<lambda>x. p_pid (pcb s x)) (proc_list s)"
  have "pid_state_wf (set ?pids) (last_pid s) (next_safe s)" using wf by (simp add: table_wf_def)
  moreover have "int (card (set ?pids)) < MAX_PID - 1"
    using n card_length [of ?pids] by (simp add: MAX_PID_def MAX_PROCESS_def)
  ultimately obtain pid m where g: "get_pid ?pids (last_pid s) (next_safe s) = Some (pid, m)" "1 \<le> pid" "pid < MAX_PID"
    "pid \<notin> set ?pids" "pid_state_wf (insert pid (set ?pids)) pid m" using get_pid_spec by blast
  let ?t = "hash_proc p (upd p (\<lambda>b. b\<lparr>p_pid := pid\<rparr>) (s\<lparr>last_pid := pid, next_safe := m\<rparr>))"
  let ?s' = "(link_child p c ?t)\<lparr>proc_list := p # proc_list ?t, nr_process := nr_process ?t + 1\<rparr>"
  have ct: "children ?t c cs" by (rule children_cong [OF ch]) (auto simp: hash_proc_def)
  have cp: "x \<noteq> p" if "p_cptr (pcb ?t c) = Some x" for x
    using that children_cptr [OF ct] p(3) by (auto split: list.splits)
  have sl: "set_links p ?t = Inr ?s'"
    by (rule set_links_eq) (use par p(2) cp in \<open>auto simp: hash_proc_def\<close>)
  have lc: "p_pid (pcb ?s' x) = p_pid (pcb ?t x) \<and> p_time_slice (pcb ?s' x) = p_time_slice (pcb s x) \<and>
      p_isRT (pcb ?s' x) = p_isRT (pcb s x) \<and> p_pt (pcb ?s' x) = p_pt (pcb s x) \<and>
      p_period_time (pcb ?s' x) = p_period_time (pcb s x) \<and> p_compute_time (pcb ?s' x) = p_compute_time (pcb s x) \<and>
      p_ct (pcb ?s' x) = p_ct (pcb s x) \<and> p_state (pcb ?s' x) = p_state (pcb s x) \<and>
      p_wait_state (pcb ?s' x) = p_wait_state (pcb s x) \<and> p_rq (pcb ?s' x) = p_rq (pcb s x)" for x
    by (auto simp: link_child_def upd_opt_def hash_proc_def split: option.split)
  have "table_wf (insert_proc p pid m s)"
    by (rule table_wf_insert [OF wf p(1) g(2,3)]) (use g in auto)
  then have "table_wf ?s'"
    by (rule table_wf_cong) (use lc in \<open>auto simp: insert_proc_def hash_proc_def link_child_def upd_opt_def split: option.split\<close>)
  moreover have "children ?s' c (p # cs)"
    using link_child_spec [OF ct p(3,2)] by (simp add: children_def)
  moreover have "sched_same s ?s'"
    using lc by (auto simp: sched_same_def same_sched_def link_child_def upd_opt_def hash_proc_def split: option.split)
  ultimately show ?thesis
    by (intro that [OF g(1) sl]) (use g lc p in \<open>auto simp: hash_proc_def link_child_def upd_opt_def split: option.split\<close>)
qed

text \<open>The state a fork is called in, with a block, a kernel stack and an address space at hand:
  \<open>p\<close> is the block \<open>kmalloc\<close> will give, \<open>cs\<close> the children of the caller.\<close>

definition fork_ready :: "32 word \<Rightarrow> ptr \<Rightarrow> ptr list \<Rightarrow> proc_st \<Rightarrow> bool" where
  "fork_ready clone_flags p cs s \<longleftrightarrow> table_wf s \<and> kernel_inv (sched s) \<and> edf_room (sched s) \<and>
     p \<notin> set (proc_list s) \<and> p \<noteq> cur s \<and> p \<notin> set cs \<and> p \<notin> edf_waiting (sched s) \<and> p \<noteq> idleproc (sched s) \<and>
     children s (cur s) cs \<and> length (proc_list s) < nat MAX_PID - 1 \<and> kstacks s \<noteq> [] \<and>
     (p_mm (pcb s (cur s)) = None \<or> (\<exists>m. p_mm (pcb s (cur s)) = Some m \<and> clone_flags AND CLONE_VM \<noteq> 0 \<and>
        KERNBASE \<le> mm_pgdir (mms s m)))"

definition forked :: "proc_st \<Rightarrow> ptr \<Rightarrow> ptr list \<Rightarrow> int \<Rightarrow> proc_st \<Rightarrow> bool" where
  "forked s p cs pid s' \<longleftrightarrow> 1 \<le> pid \<and> pid < MAX_PID \<and> find_proc pid s = None \<and> find_proc pid s' = Some p \<and>
     table_wf s' \<and> kernel_inv (sched s') \<and> children s' (cur s) (p # cs) \<and> cur s' = cur s \<and>
     nr_process s' = nr_process s + 1 \<and> p_state (pcb s' p) = PROC_RUNNABLE \<and>
     edf_waiting (sched s') = insert p (edf_waiting (sched s))"

text \<open>The fields a fork sets up for the scheduler.\<close>

definition rt_same :: "proc_struct \<Rightarrow> proc_struct \<Rightarrow> bool" where
  "rt_same b b' \<longleftrightarrow> p_time_slice b' = p_time_slice b \<and> p_isRT b' = p_isRT b \<and> p_pt b' = p_pt b \<and>
     p_period_time b' = p_period_time b \<and> p_compute_time b' = p_compute_time b \<and> p_ct b' = p_ct b"

lemma rt_same_trans: "rt_same a b \<Longrightarrow> rt_same b c \<Longrightarrow> rt_same a c"
  by (simp add: rt_same_def)

lemma fork_setup:
  assumes r: "fork_ready clone_flags p cs s"
  obtains s1 s2 where "setup_kstack p s = (0, s1)" "copy_mm dup clone_flags p s1 = Inr (0, s2)"
    "fam_same s s2" "sched_same s s2" "\<And>x. rt_same (pcb s x) (pcb s2 x)" "kmem s2 = kmem s"
    "kstacks s2 = tl (kstacks s)"
proof -
  note R = r [unfolded fork_ready_def]
  from R obtain k ks where k: "kstacks s = k # ks" by (cases "kstacks s") auto
  obtain s1 where s1: "setup_kstack p s = (0, s1)" "fam_same s s1" "sched_same s s1"
    "\<And>x. pcb_same (if x = p then (pcb s x)\<lparr>p_kstack := k\<rparr> else pcb s x) (pcb s1 x)"
    "kmem s1 = kmem s" "kstacks s1 = ks" "mms s1 = mms s" "\<And>x. p_mm (pcb s1 x) = p_mm (pcb s x)"
    using setup_kstack_ok [OF k, of p] by metis
  have mm: "p_mm (pcb s1 (cur s1)) = None \<or> (\<exists>m. p_mm (pcb s1 (cur s1)) = Some m \<and> clone_flags AND CLONE_VM \<noteq> 0 \<and>
      KERNBASE \<le> mm_pgdir (mms s1 m))" using R s1(3,7,8) by (simp add: sched_same_def)
  obtain s2 where s2: "copy_mm dup clone_flags p s1 = Inr (0, s2)" "fam_same s1 s2" "sched_same s1 s2"
    "\<And>x. pcb_same (if x = p then (pcb s1 x)\<lparr>p_mm := p_mm (pcb s2 p)\<rparr> else pcb s1 x) (pcb s2 x)"
    "kmem s2 = kmem s1" "kstacks s2 = kstacks s1"
    by (rule copy_mm_ok [OF mm, of dup p]) (rule that)
  have "rt_same (pcb s x) (pcb s2 x)" for x
    using s1(4) [of x] s2(4) [of x] by (auto simp: pcb_same_def rt_same_def split: if_splits)
  with s1 s2 k fam_same_trans sched_same_trans show ?thesis by (intro that [OF s1(1) s2(1)]) auto
qed

lemma fork_enter:
  assumes r: "fork_ready clone_flags p cs s" and par: "p_parent (pcb s p) = Some (cur s)"
    and fam: "fam_same s t" and sch: "sched_same s t"
  obtains pid m s' where
    "get_pid (map (\<lambda>x. p_pid (pcb t x)) (proc_list t)) (last_pid t) (next_safe t) = Some (pid, m)"
    "set_links p (hash_proc p (upd p (\<lambda>b. b\<lparr>p_pid := pid\<rparr>) (t\<lparr>last_pid := pid, next_safe := m\<rparr>))) = Inr s'"
    "table_wf s'" "children s' (cur s) (p # cs)" "p_pid (pcb s' p) = pid" "1 \<le> pid" "pid < MAX_PID"
    "find_proc pid s = None" "p \<in> set (proc_list s')" "nr_process s' = nr_process s + 1" "sched_same s s'"
    "kmem s' = kmem t" "kstacks s' = kstacks t" "\<And>x. rt_same (pcb t x) (pcb s' x)"
proof -
  note R = r [unfolded fork_ready_def]
  have pre: "table_wf t" "p \<notin> set (proc_list t)" "p_parent (pcb t p) = Some (cur s)" "children t (cur s) cs"
    "length (proc_list t) < nat MAX_PID - 1" "p \<noteq> cur s" "p \<notin> set cs"
    using R par fam_same_table [OF fam] fam_same_children [OF fam] fam by (auto simp: fam_same_def)
  show ?thesis
  proof (rule enter_process [OF pre(1,2,6,7,3,4,5)], goal_cases)
    case e: (1 pid m s')
    have nfind: "find_proc pid s = None"
    proof (cases "find_proc pid s")
      case (Some x)
      with find_proc_spec [of s pid x] R have "x \<in> set (proc_list s)" "p_pid (pcb s x) = pid" by auto
      with e(8) fam show ?thesis by (auto simp: fam_same_def)
    qed simp
    have "nr_process s' = nr_process s + 1" using e(10) fam by (simp add: fam_same_def)
    moreover have "rt_same (pcb t x) (pcb s' x)" for x using e(14) [of x] by (simp add: rt_same_def)
    ultimately show ?case
      using e sched_same_trans [OF sch e(11)] nfind by (intro that [OF e(1,2)]) simp_all
  qed
qed

lemma fork_wake:
  assumes r: "fork_ready clone_flags p cs s" and sch: "sched_same s t" and un: "p_state (pcb s p) = PROC_UNINIT"
  obtains t' where "on_sched (wakeup_proc MY_sched_class p) t = Inr t'" "kernel_inv (sched t')" "cur t' = cur s"
    "p_state (pcb t' p) = PROC_RUNNABLE" "edf_waiting (sched t') = insert p (edf_waiting (sched s))"
    "fam_same t t'" "kmem t' = kmem t" "kstacks t' = kstacks t" "\<And>x. rt_same (pcb t x) (pcb t' x)"
proof -
  note R = r [unfolded fork_ready_def]
  have inv: "kernel_inv (sched t)" using sched_same_inv [OF sch] R by simp
  have w: "edf_waiting (sched t) = edf_waiting (sched s)" by (rule sched_same_waiting [OF sch])
  have st: "p_state (pcb t p) = PROC_UNINIT" "edf_room (sched t)" "cur t = cur s" "idleproc (sched t) = idleproc (sched s)"
    using sch un R by (auto simp: sched_same_def same_sched_def edf_room_def)
  from edf_core.wakeup_spec [OF kernel_invD(1) [OF inv], of p] st w R obtain k where
    k: "wakeup_proc MY_sched_class p (sched t) = Inr k" "current k = cur s"
      "edf_waiting k = insert p (edf_waiting (sched s))" "p_state (procs k p) = PROC_RUNNABLE" by auto
  have wk: "on_sched (wakeup_proc MY_sched_class p) t = Inr (t\<lparr>sched := k\<rparr>)" using k(1) by (simp add: on_sched_def)
  note f = wakeup_frames [OF wk]
  show ?thesis
    by (rule that [OF wk]) (use k f wakeup_kernel_inv [OF inv k(1)] in \<open>simp_all add: pcb_same_def rt_same_def\<close>)
qed

lemma fork_finish_spec:
  assumes r: "fork_ready clone_flags p cs s" and par: "p_parent (pcb s p) = Some (cur s)"
    and un: "p_state (pcb s p) = PROC_UNINIT"
  obtains pid s' where "fork_finish MY_sched_class forkret dup clone_flags stack tf p s = Inr (pid, s')"
    "forked s p cs pid s'" "kmem s' = kmem s" "kstacks s' = tl (kstacks s)" "\<And>x. rt_same (pcb s x) (pcb s' x)"
proof -
  obtain s1 s2 where s2: "setup_kstack p s = (0, s1)" "copy_mm dup clone_flags p s1 = Inr (0, s2)"
    "fam_same s s2" "sched_same s s2" "\<And>x. rt_same (pcb s x) (pcb s2 x)" "kmem s2 = kmem s"
    "kstacks s2 = tl (kstacks s)" by (rule fork_setup [OF r, of dup]) (rule that)
  let ?s3 = "copy_thread forkret p stack tf s2"
  note c = copy_thread_frames [where s = s2 and forkret = forkret and p = p and esp = stack and tf = tf]
  have fam: "fam_same s ?s3" and sch: "sched_same s ?s3"
    using fam_same_trans [OF s2(3) c(1)] sched_same_trans [OF s2(4) c(2)] by blast+
  have rt3: "rt_same (pcb s x) (pcb ?s3 x)" for x
    using s2(5) [of x] c(3) [where x = x] by (simp add: rt_same_def pcb_same_def)
  show ?thesis
  proof (rule fork_enter [OF r par fam sch], goal_cases)
    case e: (1 pid m s6)
    let ?s7 = "if clone_flags AND CLONE_THREAD \<noteq> 0
        then s6\<lparr>thread_group := list_add_before (cur s6) p (thread_group s6)\<rparr> else s6"
    have fam7: "fam_same s6 ?s7" and sch7: "sched_same s ?s7" and same7: "kmem ?s7 = kmem s6" "kstacks ?s7 = kstacks s6"
      and pcb7: "pcb ?s7 x = pcb s6 x" for x
      using e(11) by (auto simp: fam_same_def sched_same_def)
    obtain s8 where s8: "on_sched (wakeup_proc MY_sched_class p) ?s7 = Inr s8" "kernel_inv (sched s8)" "cur s8 = cur s"
      "p_state (pcb s8 p) = PROC_RUNNABLE" "edf_waiting (sched s8) = insert p (edf_waiting (sched s))"
      "fam_same ?s7 s8" "kmem s8 = kmem ?s7" "kstacks s8 = kstacks ?s7" "\<And>x. rt_same (pcb ?s7 x) (pcb s8 x)"
      by (rule fork_wake [OF r sch7 un]) (rule that)
    have fam8: "fam_same s6 s8" using fam7 s8(6) by (rule fam_same_trans)
    have pid8: "p_pid (pcb s8 p) = pid" using fam8 e(5) unfolding fam_same_def by metis
    have t8: "table_wf s8" by (rule fam_same_table [OF fam8 e(3)])
    have find: "find_proc pid s8 = Some p"
      using find_proc_spec [OF t8, of pid p] pid8 fam8 e(9) by (simp add: fam_same_def)
    have nr: "nr_process s8 = nr_process s + 1" using fam8 e(10) by (simp add: fam_same_def)
    have fk: "forked s p cs pid s8"
      using e s8 t8 find nr fam_same_children [OF fam8 e(4)] by (simp add: forked_def)
    have rt8: "rt_same (pcb s x) (pcb s8 x)" for x
      using rt_same_trans [OF rt3 [of x] e(14) [of x]] s8(9) [of x] pcb7 [of x] by (auto intro: rt_same_trans)
    have "fork_finish MY_sched_class forkret dup clone_flags stack tf p s = Inr (pid, s8)"
      using s2(1,2) e(1,2) s8(1) pid8 unfolding fork_finish_def Let_def spin_def by simp
    then show ?case
      by (rule that [OF _ fk]) (use same7 s8 e s2 c rt8 in simp_all)
  qed
qed

text \<open>The part of a fork before \<open>fork_finish\<close>: the new block and the split time slice.\<close>

definition fork_start :: "32 word \<Rightarrow> (proc_struct \<Rightarrow> proc_struct) \<Rightarrow> ptr \<Rightarrow> ptr list \<Rightarrow> proc_st \<Rightarrow> proc_st" where
  "fork_start b rt p ps s =
     (let c = cur s; t = p_time_slice (pcb s c) div 2
      in upd p (\<lambda>x. rt ((alloc_proc b x)\<lparr>p_parent := Some c, p_time_slice := t\<rparr>))
           (upd c (\<lambda>x. x\<lparr>p_time_slice := p_time_slice x - t\<rparr>)
             (s\<lparr>kmem := ps, thread_group := list_init p (thread_group s)\<rparr>)))"

lemma list_init_twice: "list_init p (list_init p st) = list_init p st"
  by (simp add: list_init_def)

lemma fork_begin_ok:
  assumes "nr_process s < MAX_PROCESS" "kmem s = p # ps" "p \<noteq> cur s" "p_wait_state (pcb s (cur s)) = 0"
    "0 \<le> p_time_slice (pcb s (cur s))"
  shows "fork_begin b rt finish s = finish p (fork_start b rt p ps s)"
  using assms
  by (simp add: fork_begin_def kmalloc_proc_def fork_start_def cdiv_nonneg list_init_twice upd_def upd_proc_def
      fun_upd_twist)

lemma kernel_inv_waiting:
  assumes inv: "kernel_inv s" and same: "heap s' = heap s" "current s' = current s" "idleproc s' = idleproc s"
    "\<And>p. p \<in> edf_waiting s \<Longrightarrow> p_pt (procs s' p) = p_pt (procs s p) \<and> p_rq (procs s' p) = p_rq (procs s p) \<and>
       p_state (procs s' p) = p_state (procs s p)"
  shows "kernel_inv s'" "edf_waiting s' = edf_waiting s"
proof -
  show w: "edf_waiting s' = edf_waiting s" using same(1) by (simp add: edf_waiting_def)
  have "edf_repr 0 s' (edf_waiting s)"
    by (rule edf_repr_cong [OF kernel_invD(2) [OF inv] same(1)]) (use same(4) in blast)
  then show "kernel_inv s'" using kernel_invD(3-5) [OF inv] same by (simp add: kernel_inv_def edf_ok_def w)
qed

lemma find_proc_same:
  assumes "table_wf s" "table_wf t" "proc_list t = proc_list s"
    "\<And>x. x \<in> set (proc_list s) \<Longrightarrow> p_pid (pcb t x) = p_pid (pcb s x)"
  shows "find_proc pid t = find_proc pid s"
proof -
  have "find_proc pid t = Some x \<longleftrightarrow> find_proc pid s = Some x" for x
    using find_proc_spec [OF assms(1), of pid x] find_proc_spec [OF assms(2), of pid x] assms(3,4) by auto
  then show ?thesis by (metis not_None_eq)
qed

lemma fork_start_spec:
  fixes b :: "32 word" and ps :: "ptr list"
  assumes r: "fork_ready flags p cs s" and rt: "\<And>x. p_pid (rt x) = p_pid x \<and> p_parent (rt x) = p_parent x \<and>
      p_state (rt x) = p_state x \<and> p_mm (rt x) = p_mm x \<and> p_time_slice (rt x) = p_time_slice x"
  defines "t \<equiv> fork_start b rt p ps s"
  shows "fork_ready flags p cs t" "p_parent (pcb t p) = Some (cur t)" "p_state (pcb t p) = PROC_UNINIT"
    "cur t = cur s" "\<And>pid. find_proc pid t = find_proc pid s" "nr_process t = nr_process s"
    "edf_waiting (sched t) = edf_waiting (sched s)" "kmem t = ps" "kstacks t = kstacks s"
    "p_time_slice (pcb t p) = p_time_slice (pcb s (cur s)) div 2"
    "p_time_slice (pcb t (cur s)) = p_time_slice (pcb s (cur s)) - p_time_slice (pcb s (cur s)) div 2"
    "pcb t p = rt ((alloc_proc b (pcb s p))\<lparr>p_parent := Some (cur s), p_time_slice := p_time_slice (pcb s (cur s)) div 2\<rparr>)"
proof -
  note R = r [unfolded fork_ready_def]
  have pc: "p \<noteq> cur s" using R by simp
  have other: "pcb t x = (if x = cur s then (pcb s x)\<lparr>p_time_slice := p_time_slice (pcb s x) - p_time_slice (pcb s x) div 2\<rparr> else pcb s x)"
    if "x \<noteq> p" for x using that by (simp add: t_def fork_start_def)
  have kept: "p_pid (pcb t x) = p_pid (pcb s x) \<and> p_pt (pcb t x) = p_pt (pcb s x) \<and> p_rq (pcb t x) = p_rq (pcb s x) \<and>
      p_state (pcb t x) = p_state (pcb s x) \<and> p_yptr (pcb t x) = p_yptr (pcb s x) \<and> p_optr (pcb t x) = p_optr (pcb s x) \<and>
      p_parent (pcb t x) = p_parent (pcb s x)" if "x \<noteq> p" for x using other [OF that] by simp
  show new: "pcb t p = rt ((alloc_proc b (pcb s p))\<lparr>p_parent := Some (cur s), p_time_slice := p_time_slice (pcb s (cur s)) div 2\<rparr>)"
    using pc by (simp add: t_def fork_start_def)
  show c: "cur t = cur s" "nr_process t = nr_process s" "kmem t = ps" "kstacks t = kstacks s"
    by (simp_all add: t_def fork_start_def)
  have misc: "proc_list t = proc_list s" "hash_list t = hash_list s" "last_pid t = last_pid s" "next_safe t = next_safe s"
    "mms t = mms s" "heap (sched t) = heap (sched s)" "idleproc (sched t) = idleproc (sched s)"
    by (simp_all add: t_def fork_start_def)
  have pids: "p_pid (pcb t x) = p_pid (pcb s x)" if "x \<in> set (proc_list s)" for x
    using kept [of x] that R by (cases "x = p") simp_all
  have tab: "table_wf t" by (rule table_wf_cong [of s]) (use R misc pids in auto)
  show "find_proc pid t = find_proc pid s" for pid
    by (rule find_proc_same) (use R tab misc pids in auto)
  have w: "p_pt (pcb t x) = p_pt (pcb s x) \<and> p_rq (pcb t x) = p_rq (pcb s x) \<and> p_state (pcb t x) = p_state (pcb s x)"
    if "x \<in> edf_waiting (sched s)" for x using that R kept [of x] by (cases "x = p") simp_all
  have inv: "kernel_inv (sched t)" and w': "edf_waiting (sched t) = edf_waiting (sched s)"
    using kernel_inv_waiting [of "sched s" "sched t"] R misc c w by auto
  show "edf_waiting (sched t) = edf_waiting (sched s)" by (rule w')
  have "children t (cur s) cs"
  proof (rule children_cong [of s])
    show "children s (cur s) cs" using R by simp
    show "p_cptr (pcb t (cur s)) = p_cptr (pcb s (cur s))" using other [of "cur s"] pc by simp
    show "p_yptr (pcb t x) = p_yptr (pcb s x) \<and> p_optr (pcb t x) = p_optr (pcb s x) \<and> p_parent (pcb t x) = p_parent (pcb s x)"
      if "x \<in> set cs" for x using that R kept [of x] by (cases "x = p") simp_all
  qed
  then show "fork_ready flags p cs t"
    using R tab inv w' misc c other [of "cur s"] pc by (simp add: fork_ready_def edf_room_def)
  show "p_parent (pcb t p) = Some (cur t)" "p_state (pcb t p) = PROC_UNINIT"
    "p_time_slice (pcb t p) = p_time_slice (pcb s (cur s)) div 2"
    using new rt c by (simp_all add: alloc_proc_def)
  show "p_time_slice (pcb t (cur s)) = p_time_slice (pcb s (cur s)) - p_time_slice (pcb s (cur s)) div 2"
    using other [of "cur s"] pc by simp
qed

lemma fork_spec:
  assumes r: "fork_ready flags p cs s" and k: "kmem s = p # ps" and nr: "nr_process s < MAX_PROCESS"
    and ws: "p_wait_state (pcb s (cur s)) = 0" and ts: "0 \<le> p_time_slice (pcb s (cur s))"
    and rt: "\<And>x. p_pid (rt x) = p_pid x \<and> p_parent (rt x) = p_parent x \<and>
      p_state (rt x) = p_state x \<and> p_mm (rt x) = p_mm x \<and> p_time_slice (rt x) = p_time_slice x"
  obtains pid s' g where "fork_begin b rt (fork_finish MY_sched_class fr dup flags stack tf) s = Inr (pid, s')"
    "forked s p cs pid s'" "kmem s' = ps" "kstacks s' = tl (kstacks s)" "rt_same (rt g) (pcb s' p)"
    "p_time_slice (pcb s' p) + p_time_slice (pcb s' (cur s)) = p_time_slice (pcb s (cur s))"
    "p_time_slice (pcb s' p) = p_time_slice (pcb s (cur s)) div 2"
proof -
  let ?t = "fork_start b rt p ps s"
  note st = fork_start_spec [OF r rt, where b = b and ps = ps]
  have pc: "p \<noteq> cur s" using r by (simp add: fork_ready_def)
  obtain pid s' where f: "fork_finish MY_sched_class fr dup flags stack tf p ?t = Inr (pid, s')"
    "forked ?t p cs pid s'" "kmem s' = kmem ?t" "kstacks s' = tl (kstacks ?t)" "\<And>x. rt_same (pcb ?t x) (pcb s' x)"
    by (rule fork_finish_spec [OF st(1-3), of fr dup stack tf]) (rule that)
  have b: "fork_begin b rt (fork_finish MY_sched_class fr dup flags stack tf) s = Inr (pid, s')"
    using fork_begin_ok [OF nr k pc ws ts] f(1) by simp
  have fk: "forked s p cs pid s'" using f(2) st by (simp add: forked_def)
  have sl: "p_time_slice (pcb s' p) = p_time_slice (pcb s (cur s)) div 2"
    "p_time_slice (pcb s' p) + p_time_slice (pcb s' (cur s)) = p_time_slice (pcb s (cur s))"
    using f(5) [of p] f(5) [of "cur s"] st(10,11) by (simp_all add: rt_same_def)
  have pools: "kmem s' = ps" "kstacks s' = tl (kstacks s)" using f(3,4) st(8,9) by simp_all
  show ?thesis by (rule that [OF b fk pools f(5) [of p, unfolded st(12)] sl(2,1)])
qed

section \<open>Wait\<close>

lemma table_wf_remove:
  assumes wf: "table_wf s" and "proc_list s' = remove1 p (proc_list s)"
    "hash_list s' = (\<lambda>h. remove1 p (hash_list s h))" "last_pid s' = last_pid s" "next_safe s' = next_safe s"
    "\<And>x. p_pid (pcb s' x) = p_pid (pcb s x)"
  shows "table_wf s'"
  using assms by (auto simp: table_wf_def pid_state_wf_def set_remove1_eq inj_on_def)

lemma reap_spec:
  assumes wf: "table_wf s" and ch: "children s par (us @ p # vs)" and p: "p \<in> set (proc_list s)"
    and ne: "p \<noteq> idleproc (sched s)" "Some p \<noteq> initproc s"
  obtains s' where "reap p s = Inr (p_exit_code (pcb s p), s')" "table_wf s'" "children s' par (us @ vs)"
    "find_proc (p_pid (pcb s p)) s' = None" "\<And>q. q \<noteq> p_pid (pcb s p) \<Longrightarrow> find_proc q s' = find_proc q s"
    "nr_process s' = nr_process s - 1" "kmem s' = p # kmem s" "kstacks s' = p_kstack (pcb s p) # kstacks s"
    "cur s' = cur s"
proof -
  let ?u = "unhash_proc p s"
  have chu: "children ?u par (us @ p # vs)" by (rule children_cong [OF ch]) (simp_all add: unhash_proc_def)
  let ?r = "(unlink_child p par ?u)\<lparr>proc_list := remove1 p (proc_list ?u), nr_process := nr_process ?u - 1\<rparr>"
  let ?s = "kfree_proc p (put_kstack p ?r)"
  have fields: "p_pid (pcb ?r x) = p_pid (pcb s x)" "p_kstack (pcb ?r x) = p_kstack (pcb s x)" for x
    by (auto simp: unlink_child_def unhash_proc_def upd_opt_def split: option.split)
  have glob: "hash_list ?r = (\<lambda>h. remove1 p (hash_list s h))" "last_pid ?r = last_pid s" "next_safe ?r = next_safe s"
    "cur ?r = cur s" "nr_process ?r = nr_process s - 1" "kmem ?r = kmem s" "kstacks ?r = kstacks s"
    "proc_list ?r = remove1 p (proc_list s)"
    by (auto simp: unlink_child_def unhash_proc_def upd_opt_def split: option.split)
  have e: "reap p s = Inr (p_exit_code (pcb s p), ?s)" using ne remove_links_eq [OF chu] by (simp add: reap_def)
  have t: "table_wf ?s"
    by (rule table_wf_remove [OF wf, of _ p]) (use glob fields in \<open>simp_all add: put_kstack_def kfree_proc_def\<close>)
  have "children (unlink_child p par ?u) par (us @ vs)" by (rule unlink_child_spec [OF chu])
  then have c: "children ?s par (us @ vs)"
    by (rule children_cong) (simp_all add: put_kstack_def kfree_proc_def)
  have find: "find_proc q ?s = Some x \<longleftrightarrow> x \<in> set (proc_list s) \<and> x \<noteq> p \<and> p_pid (pcb s x) = q" for q x
    using wf find_proc_spec [OF t, of q x] glob fields by (auto simp: put_kstack_def kfree_proc_def table_wf_def)
  have none: "find_proc (p_pid (pcb s p)) ?s = None"
    using find [of "p_pid (pcb s p)"] wf p
    by (cases "find_proc (p_pid (pcb s p)) ?s") (auto simp: table_wf_def inj_on_def)
  have rest: "find_proc q ?s = find_proc q s" if "q \<noteq> p_pid (pcb s p)" for q
  proof -
    have "find_proc q ?s = Some x \<longleftrightarrow> find_proc q s = Some x" for x
      using find [of q x] find_proc_spec [OF wf, of q x] that by auto
    then show ?thesis by (metis not_None_eq)
  qed
  show ?thesis
    by (rule that [OF e t c none rest]) (use glob fields in \<open>simp_all add: put_kstack_def kfree_proc_def\<close>)
qed

lemma wait_search_pid:
  assumes "table_wf s" "p \<in> set (proc_list s)" "p_parent (pcb s p) = Some (cur s)"
  shows "wait_search (p_pid (pcb s p)) s = Some (if p_state (pcb s p) = PROC_ZOMBIE then Found p else Haskid)"
proof -
  have "p_pid (pcb s p) \<noteq> 0" using assms(1,2) by (auto simp: table_wf_def)
  moreover have "find_proc (p_pid (pcb s p)) s = Some p" using find_proc_spec [OF assms(1)] assms(2) by simp
  ultimately show ?thesis using assms(3) by (simp add: wait_search_def wait_find_pid.simps)
qed

section \<open>Properties\<close>

text \<open>A system with the idle process, two free blocks and a free kernel stack.\<close>

definition idle_sys :: proc_st where
  "idle_sys = \<lparr>sched = blank_st, proc_list = [], hash_list = (\<lambda>_. []), nr_process = 1, next_safe = MAX_PID,
     last_pid = MAX_PID, initproc = None, thread_group = \<lparr>prev_of = id, next_of = id\<rparr>,
     tframes = (\<lambda>_. kernel_thread_tf 0 0 0), mms = (\<lambda>_. \<lparr>mm_count = 0, mm_pgdir = 0, mm_brk_start = 0, mm_brk = 0\<rparr>),
     proc_mm_list = [], kmem = [5, 6], kstacks = [0xC0100000], mm_pool = [], pgdirs = []\<rparr>"

text \<open>The same with one child, a zombie that left with code 7.\<close>

definition zombie_child :: proc_struct where
  "zombie_child = blank_proc\<lparr>p_state := PROC_ZOMBIE, p_pid := 3, p_exit_code := 7, p_parent := Some 0, p_kstack := 0xC0200000\<rparr>"

definition zombie_sys :: proc_st where
  "zombie_sys = idle_sys\<lparr>sched := blank_st\<lparr>procs := (\<lambda>_. blank_proc)(0 := blank_proc\<lparr>p_cptr := Some 4\<rparr>, 4 := zombie_child),
     idleproc := 1\<rparr>, proc_list := [4], hash_list := (\<lambda>_. [])(pid_hashfn 3 := [4]), nr_process := 2\<rparr>"

lemma idle_sys_wf: "table_wf idle_sys" "kernel_inv (sched idle_sys)" "children idle_sys 0 []"
  "edf_waiting (sched idle_sys) = {}"
proof -
  show "table_wf idle_sys" by (simp add: table_wf_def idle_sys_def pid_state_init)
  have w: "edf_waiting blank_st = {}" by (simp add: edf_waiting_def set_heap_mset blank_st_def)
  have "edf_repr 0 blank_st {}"
    by (simp add: edf_repr_def blank_st_def heap_wf_def heap_ordered_def heap_mset_def MAX_HEAP_SIZE_def)
  with w show "kernel_inv (sched idle_sys)" "edf_waiting (sched idle_sys) = {}"
    by (simp_all add: kernel_inv_def edf_ok_def idle_sys_def)
  show "children idle_sys 0 []"
    by (simp add: children_def idle_sys_def blank_st_def blank_proc_def alloc_proc_def)
qed

lemma idle_sys_ready: "fork_ready flags 5 [] idle_sys"
proof -
  have [simp]: "current blank_st = 0" "idleproc blank_st = 0" "hsize (heap blank_st) = 0" "p_mm (procs blank_st 0) = None"
    by (simp_all add: blank_st_def blank_proc_def alloc_proc_def)
  show ?thesis using idle_sys_wf
    by (simp add: fork_ready_def edf_room_def MAX_HEAP_SIZE_def) (simp add: idle_sys_def MAX_PID_def MAX_PROCESS_def)
qed



text \<open>C12: waiting for a zombie child by its pid returns at once with its exit code, unlinks it from
  the children, the list and the hash list, so that its pid is free and every other pid still
  finds what it found, and gives its block and its kernel stack back.\<close>

theorem do_wait_reaps:
  assumes "table_wf s" "children s (cur s) (us @ p # vs)" "p \<in> set (proc_list s)"
    "p \<noteq> idleproc (sched s)" "Some p \<noteq> initproc s" "p_state (pcb s p) = PROC_ZOMBIE"
  shows "\<exists>s'. do_wait cls (p_pid (pcb s p)) (Some store) True True s =
      Inr (Wait_returns 0 (Some (p_exit_code (pcb s p))) s') \<and>
    table_wf s' \<and> children s' (cur s) (us @ vs) \<and> find_proc (p_pid (pcb s p)) s' = None \<and>
    (\<forall>q. q = p_pid (pcb s p) \<or> find_proc q s' = find_proc q s) \<and> nr_process s' = nr_process s - 1 \<and>
    kmem s' = p # kmem s \<and> kstacks s' = p_kstack (pcb s p) # kstacks s"
proof (rule reap_spec [OF assms(1-5)], goal_cases)
  case r: (1 s')
  have "p_parent (pcb s p) = Some (cur s)" using assms(2) by (simp add: children_def)
  from wait_search_pid [OF assms(1,3) this] assms(6)
  have "wait_search (p_pid (pcb s p)) s = Some (Found p)" by simp
  with r show ?case by (auto simp: do_wait_def spin_def)
qed

theorem do_wait_reaps_witness:
  "\<exists>s'. do_wait MY_sched_class 3 (Some 9) True True zombie_sys = Inr (Wait_returns 0 (Some 7) s') \<and>
     find_proc 3 s' = None \<and> kmem s' = [4, 5, 6] \<and> kstacks s' = [0xC0200000, 0xC0100000]"
proof -
  have p: "pcb zombie_sys 4 = zombie_child" "cur zombie_sys = 0" "proc_list zombie_sys = [4]" "idleproc (sched zombie_sys) = 1"
    "initproc zombie_sys = None" "kmem zombie_sys = [5, 6]" "kstacks zombie_sys = [0xC0100000]"
    by (simp_all add: zombie_sys_def idle_sys_def blank_st_def)
  have z: "p_pid zombie_child = 3" "p_state zombie_child = PROC_ZOMBIE" "p_exit_code zombie_child = 7" "p_kstack zombie_child = 0xC0200000"
    by (simp_all add: zombie_child_def)
  have "table_wf zombie_sys"
    by (auto simp: table_wf_def zombie_sys_def idle_sys_def z MAX_PID_def MAX_PROCESS_def pid_state_wf_def)
  moreover have "children zombie_sys (cur zombie_sys) ([] @ 4 # [])"
    by (simp add: children_def zombie_sys_def idle_sys_def blank_st_def zombie_child_def blank_proc_def alloc_proc_def)
  ultimately show ?thesis
    using do_wait_reaps [of zombie_sys "[]" 4 "[]" MY_sched_class 9] by (auto simp: p z)
qed

end
