(* ===== verification/Wait_Queue.thy ===== *)
theory Wait_Queue
  imports Sched_Kernel
begin

text \<open>
  Wait queues, \<open>kern/sync/wait.c\<close>.  The links are kept at the pointer level: a list entry is
  the head of a queue or the link of a wait structure, and the operations are those of the
  circular lists.  \<open>wq s q ws\<close> says that queue \<open>q\<close> holds the wait structures \<open>ws\<close>, in
  order.
\<close>

datatype wnode = Head nat | Link nat

record wait_t =
  wt_proc :: "ptr option"
  wakeup_flags :: "32 word"
  wait_queue :: "nat option"

record wait_st =
  wlinks :: "wnode list_store"
  waits :: "nat \<Rightarrow> wait_t"
  wsched :: sched_st

section \<open>The operations\<close>

definition wait_init :: "nat \<Rightarrow> ptr option \<Rightarrow> wait_st \<Rightarrow> wait_st" where
  "wait_init w p s = s\<lparr>waits := (waits s)(w := (waits s w)\<lparr>wt_proc := p, wakeup_flags := WT_INTERRUPTED\<rparr>),
     wlinks := list_init (Link w) (wlinks s)\<rparr>"

definition wait_queue_init :: "nat \<Rightarrow> wait_st \<Rightarrow> wait_st" where
  "wait_queue_init q s = s\<lparr>wlinks := list_init (Head q) (wlinks s)\<rparr>"

definition wait_queue_add :: "nat \<Rightarrow> nat \<Rightarrow> wait_st \<Rightarrow> wait_st res" where
  "wait_queue_add q w s =
     bindR (assertR (list_empty (wlinks s) (Link w) \<and> wt_proc (waits s w) \<noteq> None)
              ''list_empty(&(wait->wait_link)) && wait->proc != NULL'') (\<lambda>_.
       Inr (s\<lparr>waits := (waits s)(w := (waits s w)\<lparr>wait_queue := Some q\<rparr>),
              wlinks := list_add_before (Head q) (Link w) (wlinks s)\<rparr>))"

definition in_this_queue :: "nat \<Rightarrow> nat \<Rightarrow> wait_st \<Rightarrow> unit res" where
  "in_this_queue q w s =
     assertR (\<not> list_empty (wlinks s) (Link w) \<and> wait_queue (waits s w) = Some q)
       ''!list_empty(&(wait->wait_link)) && wait->wait_queue == queue''"

definition wait_queue_del :: "nat \<Rightarrow> nat \<Rightarrow> wait_st \<Rightarrow> wait_st res" where
  "wait_queue_del q w s =
     bindR (in_this_queue q w s) (\<lambda>_. Inr (s\<lparr>wlinks := list_del_init (Link w) (wlinks s)\<rparr>))"

text \<open>The wait structure of a list entry, or the null pointer for the head.\<close>

definition le2wait :: "wnode \<Rightarrow> nat \<Rightarrow> nat option" where
  "le2wait le q = (case le of Head _ \<Rightarrow> None | Link w \<Rightarrow> Some w)"

definition wait_queue_next :: "nat \<Rightarrow> nat \<Rightarrow> wait_st \<Rightarrow> nat option res" where
  "wait_queue_next q w s =
     bindR (in_this_queue q w s) (\<lambda>_.
       let le = list_next (wlinks s) (Link w) in Inr (if le \<noteq> Head q then le2wait le q else None))"

definition wait_queue_prev :: "nat \<Rightarrow> nat \<Rightarrow> wait_st \<Rightarrow> nat option res" where
  "wait_queue_prev q w s =
     bindR (in_this_queue q w s) (\<lambda>_.
       let le = list_prev (wlinks s) (Link w) in Inr (if le \<noteq> Head q then le2wait le q else None))"

definition wait_queue_first :: "nat \<Rightarrow> wait_st \<Rightarrow> nat option" where
  "wait_queue_first q s =
     (let le = list_next (wlinks s) (Head q) in if le \<noteq> Head q then le2wait le q else None)"

definition wait_queue_last :: "nat \<Rightarrow> wait_st \<Rightarrow> nat option" where
  "wait_queue_last q s =
     (let le = list_prev (wlinks s) (Head q) in if le \<noteq> Head q then le2wait le q else None)"

definition wait_queue_empty :: "nat \<Rightarrow> wait_st \<Rightarrow> bool" where
  "wait_queue_empty q s = list_empty (wlinks s) (Head q)"

definition wait_in_queue :: "nat \<Rightarrow> wait_st \<Rightarrow> bool" where
  "wait_in_queue w s = (\<not> list_empty (wlinks s) (Link w))"

definition wakeup_wait :: "sched_class \<Rightarrow> nat \<Rightarrow> nat \<Rightarrow> 32 word \<Rightarrow> bool \<Rightarrow> wait_st \<Rightarrow> wait_st res" where
  "wakeup_wait cls q w fl del s =
     bindR (if del then wait_queue_del q w s else Inr s) (\<lambda>s1.
     let s2 = s1\<lparr>waits := (waits s1)(w := (waits s1 w)\<lparr>wakeup_flags := fl\<rparr>)\<rparr>
     in bindR (deref (wt_proc (waits s2 w))) (\<lambda>p.
        bindR (wakeup_proc cls p (wsched s2)) (\<lambda>k. Inr (s2\<lparr>wsched := k\<rparr>))))"

definition wakeup_first :: "sched_class \<Rightarrow> nat \<Rightarrow> 32 word \<Rightarrow> bool \<Rightarrow> wait_st \<Rightarrow> wait_st res" where
  "wakeup_first cls q fl del s =
     (case wait_queue_first q s of None \<Rightarrow> Inr s | Some w \<Rightarrow> wakeup_wait cls q w fl del s)"

text \<open>The two loops of \<open>wakeup_queue\<close>: taking the first until the queue is empty, and walking
  along it.  \<open>None\<close> is a loop that does not end.\<close>

partial_function (option) wakeup_del_loop ::
  "sched_class \<Rightarrow> nat \<Rightarrow> 32 word \<Rightarrow> nat \<Rightarrow> wait_st \<Rightarrow> wait_st res option" where
  "wakeup_del_loop cls q fl w s =
     (case wakeup_wait cls q w fl True s of
        Inl e \<Rightarrow> Some (Inl e)
      | Inr s1 \<Rightarrow> (case wait_queue_first q s1 of
          None \<Rightarrow> Some (Inr s1) | Some w' \<Rightarrow> wakeup_del_loop cls q fl w' s1))"

partial_function (option) wakeup_walk_loop ::
  "sched_class \<Rightarrow> nat \<Rightarrow> 32 word \<Rightarrow> nat \<Rightarrow> wait_st \<Rightarrow> wait_st res option" where
  "wakeup_walk_loop cls q fl w s =
     (case wakeup_wait cls q w fl False s of
        Inl e \<Rightarrow> Some (Inl e)
      | Inr s1 \<Rightarrow> (case wait_queue_next q w s1 of
          Inl e \<Rightarrow> Some (Inl e)
        | Inr None \<Rightarrow> Some (Inr s1)
        | Inr (Some w') \<Rightarrow> wakeup_walk_loop cls q fl w' s1))"

definition wakeup_queue :: "sched_class \<Rightarrow> nat \<Rightarrow> 32 word \<Rightarrow> bool \<Rightarrow> wait_st \<Rightarrow> wait_st res option" where
  "wakeup_queue cls q fl del s =
     (case wait_queue_first q s of
        None \<Rightarrow> Some (Inr s)
      | Some w \<Rightarrow> if del then wakeup_del_loop cls q fl w s else wakeup_walk_loop cls q fl w s)"

section \<open>Queues as lists\<close>

definition wq :: "wait_st \<Rightarrow> nat \<Rightarrow> nat list \<Rightarrow> bool" where
  "wq s q ws \<longleftrightarrow> ring (wlinks s) (Head q) (map Link ws) \<and> (\<forall>w \<in> set ws. wait_queue (waits s w) = Some q)"

lemma wq_first: "wq s q ws \<Longrightarrow> wait_queue_first q s = (case ws of [] \<Rightarrow> None | w # _ \<Rightarrow> Some w)"
  using ring_next [of "wlinks s" "Head q" "map Link ws"]
  by (cases ws) (auto simp: wq_def wait_queue_first_def le2wait_def)

lemma wq_last: "wq s q ws \<Longrightarrow> wait_queue_last q s = (if ws = [] then None else Some (last ws))"
  using ring_prev [of "wlinks s" "Head q" "map Link ws"]
  by (auto simp: wq_def wait_queue_last_def le2wait_def last_map)

lemma wq_empty: "wq s q ws \<Longrightarrow> wait_queue_empty q s \<longleftrightarrow> ws = []"
  using ring_empty by (fastforce simp: wq_def wait_queue_empty_def)

lemma wq_init: "wq (wait_queue_init q s) q []"
  by (simp add: wq_def wait_queue_init_def ring_init)

lemma ring_linked:
  assumes "ring st h xs" "x \<in> set xs"
  shows "\<not> list_empty st x"
proof -
  from assms(2) obtain us vs where xs: "xs = us @ x # vs" by (auto dest: split_list)
  with assms(1) have c: "chain st x vs h" and d: "distinct (h # us @ x # vs)"
    by (auto simp: ring_def chain_append)
  from chain_first [OF c] d show ?thesis by (cases vs) (auto simp: list_empty_def)
qed

lemma wq_in_queue: "wq s q ws \<Longrightarrow> w \<in> set ws \<Longrightarrow> in_this_queue q w s = Inr ()"
  using ring_linked [of "wlinks s" "Head q" "map Link ws" "Link w"]
  by (auto simp: wq_def in_this_queue_def)

lemma wq_next:
  assumes "wq s q (us @ w # vs)"
  shows "wait_queue_next q w s = Inr (case vs of [] \<Rightarrow> None | x # _ \<Rightarrow> Some x)"
proof -
  from assms have "chain (wlinks s) (Link w) (map Link vs) (Head q)"
    by (simp add: wq_def ring_def chain_append)
  from chain_first [OF this] wq_in_queue [OF assms, of w] show ?thesis
    by (cases vs) (auto simp: wait_queue_next_def list_next_def le2wait_def)
qed

lemma wq_add:
  assumes "wq s q ws" "w \<notin> set ws" "list_empty (wlinks s) (Link w)" "wt_proc (waits s w) \<noteq> None"
  shows "\<exists>s'. wait_queue_add q w s = Inr s' \<and> wq s' q (ws @ [w]) \<and> wsched s' = wsched s"
  using assms clist.repr_add_before [of "wlinks s" "Head q" "map Link ws" "Link w"]
  by (auto simp: wait_queue_add_def wq_def)

lemma wq_del:
  assumes "wq s q (us @ w # vs)"
  obtains s' where "wait_queue_del q w s = Inr s'" "wq s' q (us @ vs)" "list_empty (wlinks s') (Link w)"
    "waits s' = waits s" "wsched s' = wsched s"
proof (rule that [of "s\<lparr>wlinks := list_del_init (Link w) (wlinks s)\<rparr>"])
  have r: "ring (wlinks s) (Head q) (map Link us @ Link w # map Link vs)" using assms by (simp add: wq_def)
  show "wait_queue_del q w s = Inr (s\<lparr>wlinks := list_del_init (Link w) (wlinks s)\<rparr>)"
    using wq_in_queue [OF assms, of w] by (simp add: wait_queue_del_def)
  show "wq (s\<lparr>wlinks := list_del_init (Link w) (wlinks s)\<rparr>) q (us @ vs)"
    using assms clist.repr_del [OF r] by (simp add: wq_def)
  show "list_empty (wlinks (s\<lparr>wlinks := list_del_init (Link w) (wlinks s)\<rparr>)) (Link w)"
    using clist.repr_del_empty [OF r] by simp
qed simp_all

text \<open>Waking one: the process of the wait structure becomes runnable; the queue loses the entry or
  stays as it is.\<close>

lemma wakeup_wait_spec:
  assumes q: "wq s q (us @ w # vs)" and ret: "wakeup_wait MY_sched_class q w fl del s = Inr s'"
  shows "wq s' q (if del then us @ vs else us @ w # vs)"
    and "wt_proc (waits s' x) = wt_proc (waits s x)"
    and "\<exists>p. wt_proc (waits s w) = Some p \<and> p_state (procs (wsched s') p) = PROC_RUNNABLE"
    and "p_state (procs (wsched s) x) = PROC_RUNNABLE \<Longrightarrow> p_state (procs (wsched s') x) = PROC_RUNNABLE"
    and "wakeup_flags (waits s' w) = fl"
proof -
  obtain s1 where s1: "(if del then wait_queue_del q w s else Inr s) = Inr s1"
    "wq s1 q (if del then us @ vs else us @ w # vs)" "waits s1 = waits s" "wsched s1 = wsched s"
  proof (cases del)
    case True
    then show thesis using wq_del [OF q] that by (metis (full_types))
  qed (use q that in auto)
  let ?s2 = "s1\<lparr>waits := (waits s1)(w := (waits s1 w)\<lparr>wakeup_flags := fl\<rparr>)\<rparr>"
  from ret s1 obtain p k where pk: "wt_proc (waits s w) = Some p"
    "wakeup_proc MY_sched_class p (wsched s) = Inr k" "s' = ?s2\<lparr>wsched := k\<rparr>"
    by (auto simp: wakeup_wait_def res_simps)
  have wt: "wait_queue (waits s' x) = wait_queue (waits s x)" "wt_proc (waits s' x) = wt_proc (waits s x)" for x
    using pk s1(3) by simp_all
  show "wq s' q (if del then us @ vs else us @ w # vs)"
    using s1(2,3) wt pk(3) unfolding wq_def by simp
  show "wt_proc (waits s' x) = wt_proc (waits s x)" by (rule wt)
  note f = edf_core.wakeup_frame(6) [OF pk(2)]
  show "\<exists>p. wt_proc (waits s w) = Some p \<and> p_state (procs (wsched s') p) = PROC_RUNNABLE"
    using pk f by simp
  show "p_state (procs (wsched s') x) = PROC_RUNNABLE" if "p_state (procs (wsched s) x) = PROC_RUNNABLE"
    using pk f that by simp
  show "wakeup_flags (waits s' w) = fl" using pk by simp
qed

lemma wakeup_del_loop_spec:
  "wq s q (w # ws) \<Longrightarrow> \<exists>r. wakeup_del_loop MY_sched_class q fl w s = Some r \<and>
     (\<forall>s'. r = Inr s' \<longrightarrow> wq s' q [] \<and>
        (\<forall>x \<in> set (w # ws). \<exists>p. wt_proc (waits s x) = Some p \<and> p_state (procs (wsched s') p) = PROC_RUNNABLE) \<and>
        (\<forall>x. p_state (procs (wsched s) x) = PROC_RUNNABLE \<longrightarrow> p_state (procs (wsched s') x) = PROC_RUNNABLE))"
proof (induction ws arbitrary: w s)
  case Nil
  show ?case
  proof (cases "wakeup_wait MY_sched_class q w fl True s")
    case (Inl e)
    then show ?thesis by (subst wakeup_del_loop.simps) simp
  next
    case (Inr s1)
    note a = wakeup_wait_spec [of s q "[]" w "[]", simplified, OF Nil Inr, simplified]
    from wq_first [OF a(1)] Inr show ?thesis
      by (subst wakeup_del_loop.simps) (use a in \<open>simp; blast\<close>)
  qed
next
  case (Cons v ws)
  show ?case
  proof (cases "wakeup_wait MY_sched_class q w fl True s")
    case (Inl e)
    then show ?thesis by (subst wakeup_del_loop.simps) simp
  next
    case (Inr s1)
    note a = wakeup_wait_spec [of s q "[]" w "v # ws", simplified, OF Cons.prems Inr, simplified]
    from Cons.IH [OF a(1)] obtain r where r: "wakeup_del_loop MY_sched_class q fl v s1 = Some r"
      "\<forall>s'. r = Inr s' \<longrightarrow> wq s' q [] \<and>
        (\<forall>x \<in> set (v # ws). \<exists>p. wt_proc (waits s1 x) = Some p \<and> p_state (procs (wsched s') p) = PROC_RUNNABLE) \<and>
        (\<forall>x. p_state (procs (wsched s1) x) = PROC_RUNNABLE \<longrightarrow> p_state (procs (wsched s') x) = PROC_RUNNABLE)"
      by blast
    have "wakeup_del_loop MY_sched_class q fl w s = Some r"
      using wq_first [OF a(1)] Inr r(1) by (subst wakeup_del_loop.simps) simp
    with r(2) a(2-4) show ?thesis by (intro exI [of _ r]) fastforce
  qed
qed

lemma wakeup_walk_loop_spec:
  "wq s q (us @ w # ws) \<Longrightarrow> \<exists>r. wakeup_walk_loop MY_sched_class q fl w s = Some r \<and>
     (\<forall>s'. r = Inr s' \<longrightarrow> wq s' q (us @ w # ws) \<and>
        (\<forall>x \<in> set (w # ws). \<exists>p. wt_proc (waits s x) = Some p \<and> p_state (procs (wsched s') p) = PROC_RUNNABLE) \<and>
        (\<forall>x. p_state (procs (wsched s) x) = PROC_RUNNABLE \<longrightarrow> p_state (procs (wsched s') x) = PROC_RUNNABLE))"
proof (induction ws arbitrary: us w s)
  case Nil
  show ?case
  proof (cases "wakeup_wait MY_sched_class q w fl False s")
    case (Inl e)
    then show ?thesis by (subst wakeup_walk_loop.simps) simp
  next
    case (Inr s1)
    note a = wakeup_wait_spec [OF Nil Inr, simplified]
    from wq_next [OF a(1)] Inr show ?thesis
      by (subst wakeup_walk_loop.simps) (use a in \<open>simp; blast\<close>)
  qed
next
  case (Cons v ws)
  show ?case
  proof (cases "wakeup_wait MY_sched_class q w fl False s")
    case (Inl e)
    then show ?thesis by (subst wakeup_walk_loop.simps) simp
  next
    case (Inr s1)
    note a = wakeup_wait_spec [OF Cons.prems Inr, simplified]
    have q1: "wq s1 q ((us @ [w]) @ v # ws)" using a(1) by simp
    from Cons.IH [OF q1] obtain r where r: "wakeup_walk_loop MY_sched_class q fl v s1 = Some r"
      "\<forall>s'. r = Inr s' \<longrightarrow> wq s' q ((us @ [w]) @ v # ws) \<and>
        (\<forall>x \<in> set (v # ws). \<exists>p. wt_proc (waits s1 x) = Some p \<and> p_state (procs (wsched s') p) = PROC_RUNNABLE) \<and>
        (\<forall>x. p_state (procs (wsched s1) x) = PROC_RUNNABLE \<longrightarrow> p_state (procs (wsched s') x) = PROC_RUNNABLE)"
      by blast
    have "wakeup_walk_loop MY_sched_class q fl w s = Some r"
      using wq_next [OF a(1)] Inr r(1) by (subst wakeup_walk_loop.simps) simp
    with r(2) a(2-4) show ?thesis by (intro exI [of _ r]) fastforce
  qed
qed

section \<open>Properties\<close>

text \<open>A queue that holds the wait structure 3 of process 0.\<close>

definition one_wait :: wait_st where
  "one_wait = \<lparr>wlinks = list_add_before (Head 0) (Link 3) (list_init (Head 0) \<lparr>prev_of = id, next_of = id\<rparr>),
     waits = (\<lambda>_. \<lparr>wt_proc = Some 0, wakeup_flags = 0, wait_queue = Some 0\<rparr>), wsched = blank_st\<rparr>"

lemma one_wait_wq: "wq one_wait 0 [3]"
  by (simp add: wq_def one_wait_def ring_def list_ops_defs)

text \<open>\<open>wakeup_queue\<close> always ends; unless a wake-up faults, the process of every structure in the
  queue is runnable afterwards, and the queue is empty if deletion was asked for and unchanged
  otherwise.\<close>

theorem wakeup_queue_wakes_all:
  assumes "wq s q ws"
  shows "\<exists>r. wakeup_queue MY_sched_class q fl del s = Some r \<and>
    (\<forall>s'. r = Inr s' \<longrightarrow> wq s' q (if del then [] else ws) \<and>
      (\<forall>w \<in> set ws. \<exists>p. wt_proc (waits s w) = Some p \<and> p_state (procs (wsched s') p) = PROC_RUNNABLE))"
proof (cases ws)
  case Nil
  with assms wq_first [OF assms] show ?thesis by (simp add: wakeup_queue_def)
next
  case (Cons w ws')
  note q = assms [unfolded Cons]
  from wakeup_del_loop_spec [OF q, of fl] wakeup_walk_loop_spec [of s q "[]" w ws' fl] q wq_first [OF q]
  show ?thesis unfolding Cons by (cases del) (simp add: wakeup_queue_def; blast)+
qed

text \<open>\<open>wait_queue_add\<close> of an unlinked wait structure appends it to the queue, and
  \<open>wait_queue_del\<close> of a queued one removes exactly it.\<close>

theorem wait_queue_add_del:
  assumes "wq s q ws" "w \<notin> set ws" "list_empty (wlinks s) (Link w)" "wt_proc (waits s w) \<noteq> None"
  shows "\<exists>s1. wait_queue_add q w s = Inr s1 \<and> wq s1 q (ws @ [w]) \<and> wait_queue_last q s1 = Some w \<and>
    (\<forall>us x vs. ws @ [w] = us @ x # vs \<longrightarrow>
      (\<exists>s2. wait_queue_del q x s1 = Inr s2 \<and> wq s2 q (us @ vs) \<and> \<not> wait_in_queue x s2))"
proof -
  from wq_add [OF assms] obtain s1 where s1: "wait_queue_add q w s = Inr s1" "wq s1 q (ws @ [w])" by blast
  have "\<exists>s2. wait_queue_del q x s1 = Inr s2 \<and> wq s2 q (us @ vs) \<and> \<not> wait_in_queue x s2"
    if "ws @ [w] = us @ x # vs" for us x vs
    by (rule wq_del [OF s1(2) [unfolded that]]) (auto simp: wait_in_queue_def)
  with s1 wq_last [OF s1(2)] show ?thesis by simp
qed

end
