(* ===== verification/Buddy.thy ===== *)
theory Buddy
  imports Sync
begin

text \<open>
  The buddy system of \<open>kern/mm/buddy_pmm.c\<close>, which hands out the physical pages, and the page
  descriptors of \<open>kern/mm/memlayout.h\<close>.  A page is its index in the array of descriptors
  (\<open>page2ppn\<close>).  The free lists are HOL lists, newest first as \<open>list_add\<close> puts them;
  \<open>list_del\<close> takes a page out of the list it is linked in.  The free pages are the pages of
  the blocks on the lists: allocation takes pages from that set, freeing adds them, and both
  keep the invariant that blocks are aligned, disjoint and known by their first page.
\<close>

lemma exp_above_pos: "0 < (n :: nat) \<Longrightarrow> n < 2 ^ k \<Longrightarrow> 0 < k"
  by (cases k) auto

section \<open>Page descriptors\<close>

record page =
  pg_ref :: "32 word"
  pg_flags :: "32 word"
  pg_property :: nat
  pg_zone :: nat
  pg_index :: "32 word"

definition PG_reserved :: nat where "PG_reserved = 0"
definition PG_property :: nat where "PG_property = 1"
definition PG_slab :: nat where "PG_slab = 2"
definition PG_dirty :: nat where "PG_dirty = 3"
definition PG_swap :: nat where "PG_swap = 4"
definition PG_active :: nat where "PG_active = 5"

definition page_test :: "nat \<Rightarrow> page \<Rightarrow> bool" where
  "page_test nr g = test_bit_op nr (pg_flags g)"

definition page_set :: "nat \<Rightarrow> page \<Rightarrow> page" where
  "page_set nr g = g\<lparr>pg_flags := set_bit_op nr (pg_flags g)\<rparr>"

definition page_clear :: "nat \<Rightarrow> page \<Rightarrow> page" where
  "page_clear nr g = g\<lparr>pg_flags := clear_bit_op nr (pg_flags g)\<rparr>"

definition set_page_ref :: "int \<Rightarrow> page \<Rightarrow> page" where
  "set_page_ref v g = g\<lparr>pg_ref := atomic_set v\<rparr>"

lemma page_test_simps [simp]:
  "nr < 32 \<Longrightarrow> page_test nr (page_set nr' g) \<longleftrightarrow> nr = nr' \<or> page_test nr g"
  "page_test nr (page_clear nr' g) \<longleftrightarrow> nr \<noteq> nr' \<and> page_test nr g"
  "\<not> page_test nr (g\<lparr>pg_flags := 0\<rparr>)" "page_test nr (g\<lparr>pg_property := o'\<rparr>) = page_test nr g"
  "page_test nr (set_page_ref v g) = page_test nr g" "page_test nr (g\<lparr>pg_zone := z\<rparr>) = page_test nr g"
  "page_test nr (g\<lparr>pg_flags := 0, pg_property := q\<rparr>) = False"
  by (auto simp: page_test_def page_set_def page_clear_def set_page_ref_def test_bit_op_def set_bit_op_def
      clear_bit_op_def bit_set_bit_iff bit_unset_bit_iff)

lemma page_field_simps [simp]:
  "pg_property (page_set nr g) = pg_property g" "pg_zone (page_set nr g) = pg_zone g"
  "pg_property (page_clear nr g) = pg_property g" "pg_zone (page_clear nr g) = pg_zone g"
  "pg_property (set_page_ref v g) = pg_property g" "pg_zone (set_page_ref v g) = pg_zone g"
  "pg_ref (page_set nr g) = pg_ref g" "pg_ref (page_clear nr g) = pg_ref g"
  "pg_index (page_set nr g) = pg_index g" "pg_index (page_clear nr g) = pg_index g"
  by (simp_all add: page_set_def page_clear_def set_page_ref_def)

lemma PG_numbers [simp]: "PG_reserved < 32" "PG_property < 32" "PG_property \<noteq> PG_reserved" "PG_reserved \<noteq> PG_property"
  by (simp_all add: PG_reserved_def PG_property_def)

section \<open>State\<close>

definition MAX_ORDER :: nat where "MAX_ORDER = 10"
definition MAX_ZONE_NUM :: nat where "MAX_ZONE_NUM = 10"

record buddy_st =
  pages :: "nat \<Rightarrow> page"
  npage :: nat
  free_list :: "nat \<Rightarrow> nat list"
  nr_free :: "nat \<Rightarrow> 32 word"
  mem_base :: "nat \<Rightarrow> nat"
  zone_num :: nat

abbreviation PageReserved :: "buddy_st \<Rightarrow> nat \<Rightarrow> bool" where
  "PageReserved s p \<equiv> page_test PG_reserved (pages s p)"

abbreviation PageProperty :: "buddy_st \<Rightarrow> nat \<Rightarrow> bool" where
  "PageProperty s p \<equiv> page_test PG_property (pages s p)"

definition upd_page :: "nat \<Rightarrow> (page \<Rightarrow> page) \<Rightarrow> buddy_st \<Rightarrow> buddy_st" where
  "upd_page p f s = s\<lparr>pages := (pages s)(p := f (pages s p))\<rparr>"

lemma upd_page_simps [simp]:
  "pages (upd_page p f s) = (pages s)(p := f (pages s p))" "npage (upd_page p f s) = npage s"
  "free_list (upd_page p f s) = free_list s" "nr_free (upd_page p f s) = nr_free s"
  "mem_base (upd_page p f s) = mem_base s" "zone_num (upd_page p f s) = zone_num s"
  by (simp_all add: upd_page_def)

section \<open>Operations\<close>

fun init_areas :: "nat \<Rightarrow> buddy_st \<Rightarrow> buddy_st" where
  "init_areas 0 s = s"
| "init_areas (Suc i) s = (let s1 = init_areas i s
     in s1\<lparr>free_list := (free_list s1)(i := []), nr_free := (nr_free s1)(i := 0)\<rparr>)"

definition buddy_init :: "buddy_st \<Rightarrow> buddy_st" where
  "buddy_init s = init_areas (MAX_ORDER + 1) s"

text \<open>A block becomes free: the order in its first page, the flag, the list and the count.\<close>

definition add_block :: "nat \<Rightarrow> nat \<Rightarrow> buddy_st \<Rightarrow> buddy_st" where
  "add_block order p s =
     (let s1 = upd_page p (\<lambda>g. page_set PG_property (g\<lparr>pg_property := order\<rparr>)) s
      in s1\<lparr>free_list := (free_list s1)(order := p # free_list s1 order),
            nr_free := (nr_free s1)(order := nr_free s1 order + 1)\<rparr>)"

fun init_pages :: "nat \<Rightarrow> nat \<Rightarrow> nat \<Rightarrow> buddy_st \<Rightarrow> buddy_st res" where
  "init_pages z p 0 s = Inr s"
| "init_pages z p (Suc n) s =
     bindR (assertR (PageReserved s p) ''PageReserved(p)'') (\<lambda>_.
       init_pages z (p + 1) n
         (upd_page p (\<lambda>g. set_page_ref 0 (g\<lparr>pg_flags := 0, pg_property := 0, pg_zone := z\<rparr>)) s))"

text \<open>The two nested loops of \<open>buddy_init_memmap\<close>, which cut the range into blocks.\<close>

function carve :: "nat \<Rightarrow> nat \<Rightarrow> nat \<Rightarrow> buddy_st \<Rightarrow> buddy_st" where
  "carve order p n s =
     (if n = 0 then s
      else if n \<ge> 2 ^ order then carve order (p + 2 ^ order) (n - 2 ^ order) (add_block order p s)
      else carve (order - 1) p n s)"
  by pat_completeness auto
termination
  by (relation "measures [\<lambda>(order, p, n, s). n, \<lambda>(order, p, n, s). order]") (auto simp: not_le dest: exp_above_pos)

definition buddy_init_memmap :: "nat \<Rightarrow> nat \<Rightarrow> buddy_st \<Rightarrow> buddy_st res" where
  "buddy_init_memmap base n s =
     bindR (assertR (n > 0 \<and> zone_num s < MAX_ZONE_NUM) ''n > 0 && zone_num < MAX_ZONE_NUM'') (\<lambda>_.
     bindR (init_pages (zone_num s) base n s) (\<lambda>s1.
       Inr (carve MAX_ORDER base n (s1\<lparr>mem_base := (mem_base s1)(zone_num s1 := base), zone_num := zone_num s1 + 1\<rparr>))))"

function getorder_from :: "nat \<Rightarrow> nat \<Rightarrow> nat res" where
  "getorder_from order n =
     (if order \<le> MAX_ORDER then (if n \<le> 2 ^ order then Inr order else getorder_from (order + 1) n)
      else Inl (Panic ''getorder failed.''))"
  by pat_completeness auto
termination by (relation "measure (\<lambda>(order, n). Suc MAX_ORDER - order)") auto

definition getorder :: "nat \<Rightarrow> nat res" where
  "getorder n = getorder_from 0 n"

fun split_block :: "nat \<Rightarrow> nat \<Rightarrow> nat \<Rightarrow> buddy_st \<Rightarrow> buddy_st" where
  "split_block page order 0 s = s"
| "split_block page order (Suc c) s =
     (if Suc c > order then split_block page order c (add_block c (page + 2 ^ c) s) else s)"

text \<open>Taking the first page of a list.\<close>

definition take_block :: "nat \<Rightarrow> nat \<Rightarrow> buddy_st \<Rightarrow> buddy_st" where
  "take_block order p s =
     s\<lparr>nr_free := (nr_free s)(order := nr_free s order - 1), free_list := (\<lambda>k. remove1 p (free_list s k))\<rparr>"

function alloc_from :: "nat \<Rightarrow> nat \<Rightarrow> buddy_st \<Rightarrow> nat option \<times> buddy_st" where
  "alloc_from order cur_order s =
     (if cur_order \<le> MAX_ORDER then
        (case free_list s cur_order of
           p # _ \<Rightarrow>
             let s1 = split_block p order cur_order (take_block cur_order p s)
             in (Some p, upd_page p (page_clear PG_property) s1)
         | [] \<Rightarrow> alloc_from order (cur_order + 1) s)
      else (None, s))"
  by pat_completeness auto
termination by (relation "measure (\<lambda>(order, cur_order, s). Suc MAX_ORDER - cur_order)") auto

definition buddy_alloc_pages_sub :: "nat \<Rightarrow> buddy_st \<Rightarrow> (nat option \<times> buddy_st) res" where
  "buddy_alloc_pages_sub order s =
     bindR (assertR (order \<le> MAX_ORDER) ''order <= MAX_ORDER'') (\<lambda>_. Inr (alloc_from order order s))"

definition page_is_buddy :: "nat \<Rightarrow> nat \<Rightarrow> nat \<Rightarrow> buddy_st \<Rightarrow> bool" where
  "page_is_buddy p order z s =
     (p < npage s \<and> pg_zone (pages s p) = z \<and> \<not> PageReserved s p \<and> PageProperty s p \<and>
      pg_property (pages s p) = order)"

definition page2idx :: "nat \<Rightarrow> buddy_st \<Rightarrow> nat" where
  "page2idx p s = p - mem_base s (pg_zone (pages s p))"

definition idx2page :: "nat \<Rightarrow> nat \<Rightarrow> buddy_st \<Rightarrow> nat" where
  "idx2page z idx s = mem_base s z + idx"

fun free_reset :: "nat \<Rightarrow> nat \<Rightarrow> buddy_st \<Rightarrow> buddy_st res" where
  "free_reset p 0 s = Inr s"
| "free_reset p (Suc n) s =
     bindR (assertR (\<not> PageReserved s p \<and> \<not> PageProperty s p) ''!PageReserved(p) && !PageProperty(p)'') (\<lambda>_.
       free_reset (p + 1) n (upd_page p (\<lambda>g. set_page_ref 0 (g\<lparr>pg_flags := 0\<rparr>)) s))"

text \<open>The merging loop; it returns the index and the order of the merged block.\<close>

function merge :: "nat \<Rightarrow> nat \<Rightarrow> nat \<Rightarrow> buddy_st \<Rightarrow> nat \<times> nat \<times> buddy_st" where
  "merge z page_idx order s =
     (if order < MAX_ORDER then
        let buddy_idx = page_idx XOR 2 ^ order; buddy = idx2page z buddy_idx s
        in if \<not> page_is_buddy buddy order z s then (page_idx, order, s)
           else merge z (page_idx AND buddy_idx) (order + 1)
                  (upd_page buddy (page_clear PG_property) (take_block order buddy s))
      else (page_idx, order, s))"
  by pat_completeness auto
termination by (relation "measure (\<lambda>(z, page_idx, order, s). MAX_ORDER - order)") auto

definition buddy_free_pages_sub :: "nat \<Rightarrow> nat \<Rightarrow> buddy_st \<Rightarrow> buddy_st res" where
  "buddy_free_pages_sub base order s =
     (let page_idx = page2idx base s
      in bindR (assertR (page_idx AND (2 ^ order - 1) = 0) ''(page_idx & ((1 << order) - 1)) == 0'') (\<lambda>_.
         bindR (free_reset base (2 ^ order) s) (\<lambda>s1.
         let z = pg_zone (pages s1 base);
             (page_idx', order', s2) = merge z page_idx order s1
         in Inr (add_block order' (idx2page z page_idx' s2) s2))))"

text \<open>\<open>buddy_free_pages\<close>: up to the alignment of the start, then down to the end.\<close>

function free_up :: "nat \<Rightarrow> nat \<Rightarrow> nat \<Rightarrow> buddy_st \<Rightarrow> (nat \<times> nat \<times> nat \<times> buddy_st) res" where
  "free_up base n order s =
     (if n \<ge> 2 ^ order then
        bindR (assertR (order \<le> MAX_ORDER) ''order <= MAX_ORDER'') (\<lambda>_.
          if page2idx base s AND 2 ^ order \<noteq> 0 then
            bindR (buddy_free_pages_sub base order s) (\<lambda>s1.
              free_up (base + 2 ^ order) (n - 2 ^ order) (order + 1) s1)
          else free_up base n (order + 1) s)
      else Inr (base, n, order, s))"
  by pat_completeness auto
termination by (relation "measure (\<lambda>(base, n, order, s). Suc MAX_ORDER - order)") (auto simp: assertR_Inr)

function free_down :: "nat \<Rightarrow> nat \<Rightarrow> nat \<Rightarrow> buddy_st \<Rightarrow> buddy_st res" where
  "free_down base n order s =
     (if n = 0 then Inr s
      else if n < 2 ^ order then free_down base n (order - 1) s
      else bindR (buddy_free_pages_sub base order s) (\<lambda>s1.
             free_down (base + 2 ^ order) (n - 2 ^ order) order s1))"
  by pat_completeness auto
termination
  by (relation "measures [\<lambda>(base, n, order, s). n, \<lambda>(base, n, order, s). order]") (auto dest: exp_above_pos)

definition buddy_free_pages :: "nat \<Rightarrow> nat \<Rightarrow> buddy_st \<Rightarrow> buddy_st res" where
  "buddy_free_pages base n s =
     bindR (assertR (n > 0) ''n > 0'') (\<lambda>_.
       if n = 1 then buddy_free_pages_sub base 0 s
       else bindR (free_up base n 0 s) (\<lambda>(base, n, order, s1). free_down base n order s1))"

definition buddy_alloc_pages :: "nat \<Rightarrow> buddy_st \<Rightarrow> (nat option \<times> buddy_st) res" where
  "buddy_alloc_pages n s =
     bindR (assertR (n > 0) ''n > 0'') (\<lambda>_.
     bindR (getorder n) (\<lambda>order.
     bindR (buddy_alloc_pages_sub order s) (\<lambda>(page, s1).
       case page of
         Some p \<Rightarrow> if n \<noteq> 2 ^ order
           then bindR (buddy_free_pages (p + n) (2 ^ order - n) s1) (\<lambda>s2. Inr (Some p, s2)) else Inr (Some p, s1)
       | None \<Rightarrow> Inr (None, s1))))"

definition buddy_nr_free_pages :: "buddy_st \<Rightarrow> 32 word" where
  "buddy_nr_free_pages s = foldl (\<lambda>ret order. ret + nr_free s order * 2 ^ order) 0 [0..<MAX_ORDER + 1]"

declare carve.simps [simp del] getorder_from.simps [simp del] alloc_from.simps [simp del] merge.simps [simp del]
  free_up.simps [simp del] free_down.simps [simp del]

section \<open>Buddies\<close>

lemma xor_exp:
  assumes "2 ^ n dvd (i :: nat)"
  shows "i XOR 2 ^ n = (if even (i div 2 ^ n) then i + 2 ^ n else i - 2 ^ n)"
proof -
  obtain k where k: "i = push_bit n k" using assms by (auto simp: push_bit_eq_mult mult.commute elim!: dvdE)
  have "i XOR 2 ^ n = push_bit n k XOR push_bit n 1" by (simp add: k push_bit_eq_mult)
  also have "\<dots> = push_bit n (k XOR 1)" by (simp only: push_bit_xor)
  also have "k XOR 1 = (if even k then k + 1 else k - 1)" by (simp only: xor_one_eq) simp
  also have "push_bit n \<dots> = (if even k then i + 2 ^ n else i - 2 ^ n)"
    by (auto simp: k push_bit_eq_mult algebra_simps diff_mult_distrib)
  finally show ?thesis by (simp add: k push_bit_eq_mult)
qed

lemma and_succ: "even (k :: nat) \<Longrightarrow> k AND (k + 1) = k"
  using or_one_eq [of k] by (simp add: bit_eq_iff bit_simps) (metis bit_or_iff)

lemma and_buddy:
  assumes "2 ^ n dvd (i :: nat)"
  shows "i AND (i XOR 2 ^ n) = (if even (i div 2 ^ n) then i else i - 2 ^ n)"
proof -
  obtain k where k: "i = push_bit n k" using assms by (auto simp: push_bit_eq_mult mult.commute elim!: dvdE)
  have d: "i div 2 ^ n = k" by (simp add: k push_bit_eq_mult)
  show ?thesis
  proof (cases "even k")
    case True
    have "i XOR 2 ^ n = push_bit n (k + 1)" using xor_exp [OF assms] True d by (simp add: k push_bit_eq_mult)
    then have "i AND (i XOR 2 ^ n) = push_bit n (k AND (k + 1))" by (simp add: k flip: push_bit_and)
    then show ?thesis using True by (simp only: and_succ d) (simp add: k)
  next
    case False
    then obtain j where j: "k = j + 1" "even j" by (metis odd_pos odd_even_add even_plus_one_iff Suc_pred' Suc_eq_plus1 odd_one)
    have "i XOR 2 ^ n = push_bit n j" using xor_exp [OF assms] False d j(1) by (simp add: k push_bit_eq_mult algebra_simps)
    then have "i AND (i XOR 2 ^ n) = push_bit n ((j + 1) AND j)" by (simp add: k j(1) flip: push_bit_and)
    also have "(j + 1) AND j = j" using and_succ [OF j(2)] by (simp add: and.commute)
    finally show ?thesis using False d j(1) by (simp add: k push_bit_eq_mult algebra_simps)
  qed
qed

lemma aligned_next:
  assumes "2 ^ n dvd (i :: nat)"
  shows "i AND 2 ^ n \<noteq> 0 \<longleftrightarrow> odd (i div 2 ^ n)" "even (i div 2 ^ n) \<Longrightarrow> 2 ^ (n + 1) dvd i"
    "odd (i div 2 ^ n) \<Longrightarrow> 2 ^ (n + 1) dvd i + 2 ^ n" "odd (i div 2 ^ n) \<Longrightarrow> 2 ^ (n + 1) dvd i - 2 ^ n"
    "odd (i div 2 ^ n) \<Longrightarrow> 2 ^ n \<le> i"
proof -
  obtain k where k: "i = 2 ^ n * k" using assms by (elim dvdE)
  show "i AND 2 ^ n \<noteq> 0 \<longleftrightarrow> odd (i div 2 ^ n)" by (simp add: and_exp_eq_0_iff_not_bit bit_iff_odd)
  show "even (i div 2 ^ n) \<Longrightarrow> 2 ^ (n + 1) dvd i" by (auto simp: k elim!: evenE)
  show "odd (i div 2 ^ n) \<Longrightarrow> 2 ^ (n + 1) dvd i + 2 ^ n" "odd (i div 2 ^ n) \<Longrightarrow> 2 ^ (n + 1) dvd i - 2 ^ n"
    "odd (i div 2 ^ n) \<Longrightarrow> 2 ^ n \<le> i"
    by (auto simp: k algebra_simps elim!: oddE)
qed

lemma aligned_mask: "(i :: nat) AND (2 ^ n - 1) = 0 \<longleftrightarrow> 2 ^ n dvd i"
  by (simp flip: take_bit_eq_0_iff add: take_bit_eq_mask mask_eq_exp_minus_1)

section \<open>Invariant\<close>

definition blk :: "nat \<Rightarrow> nat \<Rightarrow> nat set" where
  "blk order p = {p..<p + 2 ^ order}"

text \<open>The free pages: those of the blocks on the lists.\<close>

definition bfree :: "buddy_st \<Rightarrow> nat set" where
  "bfree s = (\<Union>k. \<Union>p \<in> set (free_list s k). blk k p)"

text \<open>The pages from \<open>p\<close> on are pages of zone \<open>z\<close> that may be handed out.\<close>

definition zone_pages :: "buddy_st \<Rightarrow> nat \<Rightarrow> nat set \<Rightarrow> bool" where
  "zone_pages s z A \<longleftrightarrow> (\<forall>q \<in> A. mem_base s z \<le> q \<and> q < npage s \<and> pg_zone (pages s q) = z \<and> \<not> PageReserved s q)"

definition good_block :: "buddy_st \<Rightarrow> nat \<Rightarrow> nat \<Rightarrow> nat \<Rightarrow> bool" where
  "good_block s z order p \<longleftrightarrow> zone_pages s z (blk order p) \<and> 2 ^ order dvd p - mem_base s z"

definition buddy_inv :: "buddy_st \<Rightarrow> bool" where
  "buddy_inv s \<longleftrightarrow>
     (\<forall>k p. p \<in> set (free_list s k) \<longrightarrow> k \<le> MAX_ORDER \<and> PageProperty s p \<and> pg_property (pages s p) = k \<and>
        good_block s (pg_zone (pages s p)) k p) \<and>
     (\<forall>p < npage s. PageProperty s p \<longrightarrow> p \<in> set (free_list s (pg_property (pages s p)))) \<and>
     (\<forall>k. distinct (free_list s k)) \<and>
     (\<forall>k \<le> MAX_ORDER. nr_free s k = of_nat (length (free_list s k))) \<and>
     (\<forall>k p k' p'. p \<in> set (free_list s k) \<longrightarrow> p' \<in> set (free_list s k') \<longrightarrow> p \<noteq> p' \<longrightarrow> blk k p \<inter> blk k' p' = {})"

lemma blk_self [simp]: "p \<in> blk k p"
  by (simp add: blk_def)

lemma buddy_invD:
  assumes "buddy_inv s"
  shows "p \<in> set (free_list s k) \<Longrightarrow> k \<le> MAX_ORDER" "p \<in> set (free_list s k) \<Longrightarrow> PageProperty s p"
    "p \<in> set (free_list s k) \<Longrightarrow> pg_property (pages s p) = k"
    "p \<in> set (free_list s k) \<Longrightarrow> good_block s (pg_zone (pages s p)) k p"
    "p < npage s \<Longrightarrow> PageProperty s p \<Longrightarrow> p \<in> set (free_list s (pg_property (pages s p)))"
    "distinct (free_list s k)" "k \<le> MAX_ORDER \<Longrightarrow> nr_free s k = of_nat (length (free_list s k))"
    "p \<in> set (free_list s k) \<Longrightarrow> p' \<in> set (free_list s k') \<Longrightarrow> p \<noteq> p' \<Longrightarrow> blk k p \<inter> blk k' p' = {}"
  using assms unfolding buddy_inv_def by blast+

lemma bfree_mem: "q \<in> bfree s \<longleftrightarrow> (\<exists>k p. p \<in> set (free_list s k) \<and> q \<in> blk k p)"
  by (auto simp: bfree_def)

lemma head_free: "p \<in> set (free_list s k) \<Longrightarrow> p \<in> bfree s"
  unfolding bfree_mem by (intro exI conjI) (assumption, simp)

text \<open>Two states with the same zones.\<close>

definition same_zones :: "buddy_st \<Rightarrow> buddy_st \<Rightarrow> bool" where
  "same_zones s s' \<longleftrightarrow> npage s' = npage s \<and> mem_base s' = mem_base s \<and>
     (\<forall>q. pg_zone (pages s' q) = pg_zone (pages s q) \<and> PageReserved s' q = PageReserved s q)"

lemma same_zones_refl [simp]: "same_zones s s"
  by (simp add: same_zones_def)

lemma same_zones_trans: "same_zones s s' \<Longrightarrow> same_zones s' s'' \<Longrightarrow> same_zones s s''"
  by (simp add: same_zones_def)

lemma same_zones_pages: "same_zones s s' \<Longrightarrow> zone_pages s' z A = zone_pages s z A"
  by (simp add: same_zones_def zone_pages_def)

lemma same_zones_block: "same_zones s s' \<Longrightarrow> good_block s' z k p = good_block s z k p"
  by (simp add: good_block_def same_zones_pages) (simp add: same_zones_def)

lemma zone_pages_mono: "zone_pages s z A \<Longrightarrow> B \<subseteq> A \<Longrightarrow> zone_pages s z B"
  by (auto simp: zone_pages_def)

lemma add_block_simps [simp]:
  "free_list (add_block k p s) j = (if j = k then p # free_list s k else free_list s j)"
  "nr_free (add_block k p s) j = (if j = k then nr_free s k + 1 else nr_free s j)"
  "npage (add_block k p s) = npage s" "mem_base (add_block k p s) = mem_base s"
  "pages (add_block k p s) q = (if q = p then page_set PG_property ((pages s p)\<lparr>pg_property := k\<rparr>) else pages s q)"
  by (simp_all add: add_block_def)

lemma add_block_zones: "same_zones s (add_block k p s)"
  by (simp add: same_zones_def)

lemma add_block_free: "bfree (add_block k p s) = bfree s \<union> blk k p"
proof (rule set_eqI)
  fix q
  have "q \<in> bfree (add_block k p s) \<longleftrightarrow> (\<exists>j r. (r \<in> set (free_list s j) \<or> j = k \<and> r = p) \<and> q \<in> blk j r)"
    unfolding bfree_mem by (intro ex_cong1) auto
  then show "q \<in> bfree (add_block k p s) \<longleftrightarrow> q \<in> bfree s \<union> blk k p" by (auto simp: bfree_mem)
qed

lemma add_block_inv:
  assumes inv: "buddy_inv s" and k: "k \<le> MAX_ORDER" and g: "good_block s z k p" and d: "blk k p \<inter> bfree s = {}"
  shows "buddy_inv (add_block k p s)"
proof -
  let ?s = "add_block k p s"
  note I = buddy_invD [OF inv]
  have new: "p \<notin> set (free_list s j)" for j using d head_free [of p s j] blk_self [of p k] by blast
  have np: "q \<noteq> p" if "q \<in> set (free_list s j)" for q j using that new by blast
  have z: "pg_zone (pages s p) = z" "p < npage s" using g by (auto simp: good_block_def zone_pages_def)
  have gb: "good_block ?s y j q = good_block s y j q" for y j q by (rule same_zones_block [OF add_block_zones])
  have a: "j \<le> MAX_ORDER \<and> PageProperty ?s q \<and> pg_property (pages ?s q) = j \<and> good_block ?s (pg_zone (pages ?s q)) j q"
    if "q \<in> set (free_list ?s j)" for q j
  proof (cases "q = p")
    case True
    with that new have "j = k" by (auto split: if_splits)
    with True k g gb z show ?thesis by simp
  next
    case False
    with that have "q \<in> set (free_list s j)" by (auto split: if_splits)
    with False I(1-4) gb show ?thesis by simp
  qed
  have b: "q \<in> set (free_list ?s (pg_property (pages ?s q)))" if "q < npage ?s" "PageProperty ?s q" for q
    using that I(5) [of q] by (cases "q = p") auto
  have c: "distinct (free_list ?s j)" for j using I(6) [of j] new by auto
  have n: "nr_free ?s j = of_nat (length (free_list ?s j))" if "j \<le> MAX_ORDER" for j
    using that I(7) [of j] by (auto simp: add.commute)
  have e: "blk j q \<inter> blk j' q' = {}" if "q \<in> set (free_list ?s j)" "q' \<in> set (free_list ?s j')" "q \<noteq> q'" for q j q' j'
  proof -
    have o: "blk k p \<inter> blk i r = {}" if "r \<in> set (free_list s i)" for r i
      using that d unfolding bfree_def by blast
    have m: "r = p \<and> i = k \<or> r \<in> set (free_list s i)" if "r \<in> set (free_list ?s i)" for r i
      using that by (auto split: if_splits)
    from m [OF that(1)] m [OF that(2)] that(3) show ?thesis
      using o [of q j] o [of q' j'] I(8) [of q j q' j'] by (auto simp: Int_commute)
  qed
  show ?thesis unfolding buddy_inv_def using a b c n e by blast
qed

text \<open>Taking a block off its list and clearing the flag of its first page.\<close>

definition remove_block :: "nat \<Rightarrow> nat \<Rightarrow> buddy_st \<Rightarrow> buddy_st" where
  "remove_block k p s = upd_page p (page_clear PG_property) (take_block k p s)"

lemma remove_block_simps [simp]:
  "free_list (remove_block k p s) j = remove1 p (free_list s j)"
  "nr_free (remove_block k p s) j = (if j = k then nr_free s k - 1 else nr_free s j)"
  "npage (remove_block k p s) = npage s" "mem_base (remove_block k p s) = mem_base s"
  "pages (remove_block k p s) q = (if q = p then page_clear PG_property (pages s p) else pages s q)"
  by (simp_all add: remove_block_def take_block_def)

lemma remove_block_zones: "same_zones s (remove_block k p s)"
  by (simp add: same_zones_def)

lemma remove_block_lists:
  assumes "buddy_inv s" "p \<in> set (free_list s k)"
  shows "q \<in> set (free_list (remove_block k p s) j) \<longleftrightarrow> q \<in> set (free_list s j) \<and> q \<noteq> p"
  using buddy_invD(6) [OF assms(1)] by auto

lemma remove_block_free:
  assumes "buddy_inv s" "p \<in> set (free_list s k)"
  shows "bfree (remove_block k p s) = bfree s - blk k p"
proof (rule set_eqI)
  fix q
  have "q \<in> bfree (remove_block k p s) \<longleftrightarrow> (\<exists>j r. r \<in> set (free_list s j) \<and> r \<noteq> p \<and> q \<in> blk j r)"
    unfolding bfree_mem remove_block_lists [OF assms] by blast
  moreover have "r \<noteq> p \<longleftrightarrow> q \<notin> blk k p" if "r \<in> set (free_list s j)" "q \<in> blk j r" for j r
    using that assms buddy_invD(3,8) [OF assms(1)] by blast
  moreover have "q \<in> bfree s \<longleftrightarrow> (\<exists>j r. r \<in> set (free_list s j) \<and> q \<in> blk j r)" by (rule bfree_mem)
  ultimately show "q \<in> bfree (remove_block k p s) \<longleftrightarrow> q \<in> bfree s - blk k p" by blast
qed

lemma remove_block_inv:
  assumes inv: "buddy_inv s" and p: "p \<in> set (free_list s k)"
  shows "buddy_inv (remove_block k p s)"
proof -
  let ?s = "remove_block k p s"
  note I = buddy_invD [OF inv]
  note L = remove_block_lists [OF assms]
  have gb: "good_block ?s y j q = good_block s y j q" for y j q by (rule same_zones_block [OF remove_block_zones])
  have a: "j \<le> MAX_ORDER \<and> PageProperty ?s q \<and> pg_property (pages ?s q) = j \<and> good_block ?s (pg_zone (pages ?s q)) j q"
    if "q \<in> set (free_list ?s j)" for q j
    using that [unfolded L] I(1-4) [of q j] gb by simp
  have b: "q \<in> set (free_list ?s (pg_property (pages ?s q)))" if "q < npage ?s" "PageProperty ?s q" for q
    using that I(5) [of q] unfolding L by (cases "q = p") auto
  have c: "distinct (free_list ?s j)" for j using I(6) [of j] by simp
  have n: "nr_free ?s j = of_nat (length (free_list ?s j))" if "j \<le> MAX_ORDER" for j
  proof (cases "j = k")
    case True
    have "length (free_list s k) = Suc (length (remove1 p (free_list s k)))"
      using p by (simp add: length_remove1) (metis length_pos_if_in_set Suc_pred)
    then show ?thesis using True that I(7) [of k] by simp
  next
    case False
    have "p \<notin> set (free_list s j)" using False p I(3) by blast
    then show ?thesis using False that I(7) [of j] by (simp add: remove1_idem)
  qed
  have e: "blk j q \<inter> blk j' q' = {}" if "q \<in> set (free_list ?s j)" "q' \<in> set (free_list ?s j')" "q \<noteq> q'" for q j q' j'
    using that I(8) unfolding L by blast
  show ?thesis unfolding buddy_inv_def using a b c n e by blast
qed

section \<open>Allocation\<close>

lemma blk_halves: "blk (Suc k) p = blk k p \<union> blk k (p + 2 ^ k)" "blk k p \<inter> blk k (p + 2 ^ k) = {}"
  by (auto simp: blk_def)

lemma good_block_halves:
  assumes "good_block s z (Suc k) p"
  shows "good_block s z k p" "good_block s z k (p + 2 ^ k)"
proof -
  have z: "zone_pages s z (blk k p)" "zone_pages s z (blk k (p + 2 ^ k))"
    using assms by (auto simp: good_block_def blk_halves(1) elim: zone_pages_mono)
  have d: "2 ^ k dvd p - mem_base s z" using assms by (auto simp: good_block_def elim: dvd_mult_right)
  have le: "mem_base s z \<le> p" using z(1) by (auto simp: zone_pages_def)
  have "2 ^ k dvd (p - mem_base s z) + 2 ^ k" using d by (rule dvd_add) simp
  also have "(p - mem_base s z) + 2 ^ k = p + 2 ^ k - mem_base s z" using le by simp
  finally show "good_block s z k p" "good_block s z k (p + 2 ^ k)" using z d by (simp_all add: good_block_def)
qed

lemma split_spec:
  assumes "buddy_inv s" "good_block s z c p" "blk c p \<inter> bfree s = {}" "order \<le> c" "c \<le> MAX_ORDER"
  shows "buddy_inv (split_block p order c s) \<and> same_zones s (split_block p order c s) \<and>
    good_block s z order p \<and> blk order p \<subseteq> blk c p \<and>
    bfree (split_block p order c s) = bfree s \<union> (blk c p - blk order p)"
  using assms
proof (induction p order c s rule: split_block.induct)
  case (2 p order c s)
  show ?case
  proof (cases "Suc c > order")
    case True
    let ?s = "add_block c (p + 2 ^ c) s"
    note h = good_block_halves [OF "2.prems"(2)]
    have d: "blk c (p + 2 ^ c) \<inter> bfree s = {}" "blk c p \<inter> bfree s = {}" using "2.prems"(3) by (auto simp: blk_halves(1))
    have c: "c \<le> MAX_ORDER" "order \<le> c" using "2.prems"(5) True by simp_all
    have inv: "buddy_inv ?s" by (rule add_block_inv [OF "2.prems"(1) c(1) h(2) d(1)])
    have fr: "bfree ?s = bfree s \<union> blk c (p + 2 ^ c)" by (rule add_block_free)
    have gb: "good_block ?s z k q = good_block s z k q" for k q by (rule same_zones_block [OF add_block_zones])
    have "blk c p \<inter> bfree ?s = {}" using d(2) fr blk_halves(2) [of c p] by blast
    with "2.IH" [OF True inv _ _ c(2,1)] h(1) gb have ih: "buddy_inv (split_block p order c ?s)"
      "same_zones ?s (split_block p order c ?s)" "good_block s z order p" "blk order p \<subseteq> blk c p"
      "bfree (split_block p order c ?s) = bfree ?s \<union> (blk c p - blk order p)" by auto
    have "blk (Suc c) p - blk order p = blk c (p + 2 ^ c) \<union> (blk c p - blk order p)"
      using ih(4) blk_halves [of c p] by blast
    with ih fr True same_zones_trans [OF add_block_zones ih(2)] show ?thesis by (auto simp: blk_halves(1))
  next
    case False
    with "2.prems" have "order = Suc c" by simp
    with "2.prems" show ?thesis by simp
  qed
qed simp

lemma split_block_upd:
  "upd_page p f (split_block p order c s) = split_block p order c (upd_page p f s)"
proof (induction p order c s rule: split_block.induct)
  case (2 p order c s)
  have "upd_page p f (add_block c (p + 2 ^ c) s) = add_block c (p + 2 ^ c) (upd_page p f s)"
    by (simp add: add_block_def upd_page_def fun_upd_twist)
  with 2 show ?case by simp
qed simp

lemma alloc_from_spec:
  assumes "order \<le> cur" and inv: "buddy_inv s"
  shows "case alloc_from order cur s of
      (Some p, s') \<Rightarrow> buddy_inv s' \<and> same_zones s s' \<and> good_block s (pg_zone (pages s p)) order p \<and>
        blk order p \<subseteq> bfree s \<and> bfree s' = bfree s - blk order p
    | (None, s') \<Rightarrow> s' = s \<and> (\<forall>k. cur \<le> k \<and> k \<le> MAX_ORDER \<longrightarrow> free_list s k = [])"
  using assms
proof (induction order cur s rule: alloc_from.induct)
  case (1 order cur s)
  note inv = "1.prems"(2) and unf = alloc_from.simps [of order cur s]
  show ?case
  proof (cases "cur \<le> MAX_ORDER")
    case False
    then show ?thesis by (subst unf) auto
  next
    case cur: True
    show ?thesis
    proof (cases "free_list s cur")
      case Nil
      with 1 cur have "case alloc_from order (cur + 1) s of
          (Some p, s') \<Rightarrow> buddy_inv s' \<and> same_zones s s' \<and> good_block s (pg_zone (pages s p)) order p \<and>
            blk order p \<subseteq> bfree s \<and> bfree s' = bfree s - blk order p
        | (None, s') \<Rightarrow> s' = s \<and> (\<forall>k. cur + 1 \<le> k \<and> k \<le> MAX_ORDER \<longrightarrow> free_list s k = [])" by simp
      moreover have "cur = k \<or> cur + 1 \<le> k" if "cur \<le> k" for k using that by auto
      ultimately show ?thesis using Nil cur by (subst unf) (auto split: prod.splits option.splits)
    next
      case (Cons p ps)
      then have p: "p \<in> set (free_list s cur)" by simp
      let ?r = "remove_block cur p s" and ?z = "pg_zone (pages s p)"
      have e: "alloc_from order cur s = (Some p, split_block p order cur ?r)"
        by (subst unf) (simp add: cur Cons split_block_upd remove_block_def)
      have g: "good_block ?r ?z cur p" using buddy_invD(4) [OF inv p] same_zones_block [OF remove_block_zones] by simp
      have "blk cur p \<inter> bfree ?r = {}" by (simp add: remove_block_free [OF inv p])
      from split_spec [OF remove_block_inv [OF inv p] g this "1.prems"(1) cur]
      have sp: "buddy_inv (split_block p order cur ?r)" "same_zones ?r (split_block p order cur ?r)"
        "good_block ?r ?z order p" "blk order p \<subseteq> blk cur p"
        "bfree (split_block p order cur ?r) = bfree ?r \<union> (blk cur p - blk order p)" by auto
      have sub: "blk cur p \<subseteq> bfree s" using p unfolding bfree_def by blast
      have "bfree (split_block p order cur ?r) = bfree s - blk order p"
        using sp(4,5) sub by (auto simp: remove_block_free [OF inv p])
      moreover have "good_block s ?z order p" using sp(3) same_zones_block [OF remove_block_zones] by blast
      ultimately show ?thesis
        using sp(1,4) sub same_zones_trans [OF remove_block_zones sp(2)] by (auto simp: e)
    qed
  qed
qed

section \<open>Freeing\<close>

lemma buddy_inv_cong:
  assumes inv: "buddy_inv s" and eq: "free_list s' = free_list s" "nr_free s' = nr_free s" "same_zones s s'"
    "\<And>q. q < npage s \<Longrightarrow> PageProperty s' q = PageProperty s q \<and> pg_property (pages s' q) = pg_property (pages s q)"
  shows "buddy_inv s'" "bfree s' = bfree s"
proof -
  note I = buddy_invD [OF inv]
  have gb: "good_block s' y j q = good_block s y j q" for y j q by (rule same_zones_block [OF eq(3)])
  have np: "npage s' = npage s" "pg_zone (pages s' q) = pg_zone (pages s q)" for q using eq(3) by (simp_all add: same_zones_def)
  have lt: "p < npage s" if "p \<in> set (free_list s k)" for p k
    using I(4) [OF that] by (auto simp: good_block_def zone_pages_def)
  have a: "j \<le> MAX_ORDER \<and> PageProperty s' q \<and> pg_property (pages s' q) = j \<and> good_block s' (pg_zone (pages s' q)) j q"
    if "q \<in> set (free_list s' j)" for q j
    using that I(1-4) [of q j] gb np lt [of q j] eq(1,4) by simp
  have b: "q \<in> set (free_list s' (pg_property (pages s' q)))" if "q < npage s'" "PageProperty s' q" for q
    using that I(5) [of q] eq np by simp
  show "buddy_inv s'" unfolding buddy_inv_def using a b I(6-8) eq(1,2) by auto
  show "bfree s' = bfree s" by (simp add: bfree_def eq(1))
qed

lemma free_reset_spec:
  assumes "\<forall>q \<in> {p..<p + n}. \<not> PageReserved s q \<and> \<not> PageProperty s q"
  shows "\<exists>s'. free_reset p n s = Inr s' \<and> free_list s' = free_list s \<and> nr_free s' = nr_free s \<and> same_zones s s' \<and>
    (\<forall>q. PageProperty s' q = PageProperty s q \<and> pg_property (pages s' q) = pg_property (pages s q))"
  using assms
proof (induction p n s rule: free_reset.induct)
  case (2 p n s)
  let ?s = "upd_page p (\<lambda>g. set_page_ref 0 (g\<lparr>pg_flags := 0\<rparr>)) s"
  have p: "\<not> PageReserved s p" "\<not> PageProperty s p" using "2.prems" by auto
  have same: "same_zones s ?s" "\<And>q. PageProperty ?s q = PageProperty s q \<and> pg_property (pages ?s q) = pg_property (pages s q)"
    using p by (auto simp: same_zones_def)
  have rest: "\<forall>q \<in> {p + 1..<p + 1 + n}. \<not> PageReserved ?s q \<and> \<not> PageProperty ?s q" using "2.prems" by auto
  from "2.IH" [OF _ rest] p obtain s' where s': "free_reset (p + 1) n ?s = Inr s'" "free_list s' = free_list ?s"
    "nr_free s' = nr_free ?s" "same_zones ?s s'"
    "\<forall>q. PageProperty s' q = PageProperty ?s q \<and> pg_property (pages s' q) = pg_property (pages ?s q)"
    by (auto simp: assertR_Inr)
  have "free_reset p (Suc n) s = Inr s'" using p s'(1) by simp
  moreover have "same_zones s s'" by (rule same_zones_trans [OF same(1) s'(4)])
  ultimately show ?case using s'(2,3,5) same(2) by (intro exI [of _ s']) (simp_all del: upd_page_simps(1))
qed simp

text \<open>Merging with the buddy: the union of the two blocks is the block of the next order.\<close>

lemma merge_step:
  assumes "good_block s z k (mem_base s z + i)" "good_block s z k (mem_base s z + (i XOR 2 ^ k))"
  shows "good_block s z (k + 1) (mem_base s z + (i AND (i XOR 2 ^ k)))"
    "blk (k + 1) (mem_base s z + (i AND (i XOR 2 ^ k))) =
       blk k (mem_base s z + i) \<union> blk k (mem_base s z + (i XOR 2 ^ k))"
proof -
  let ?b = "mem_base s z"
  have d: "2 ^ k dvd i" using assms(1) by (simp add: good_block_def)
  note al = aligned_next [OF d]
  have u: "blk (k + 1) (?b + (i AND (i XOR 2 ^ k))) = blk k (?b + i) \<union> blk k (?b + (i XOR 2 ^ k))"
  proof (cases "even (i div 2 ^ k)")
    case True
    then show ?thesis using xor_exp [OF d] and_buddy [OF d] blk_halves(1) [of k "?b + i"] by (simp add: add.assoc)
  next
    case False
    have "blk (Suc k) (?b + (i - 2 ^ k)) = blk k (?b + (i - 2 ^ k)) \<union> blk k (?b + (i - 2 ^ k) + 2 ^ k)"
      by (rule blk_halves(1))
    also have "?b + (i - 2 ^ k) + 2 ^ k = ?b + i" using al(5) False by simp
    finally show ?thesis using False xor_exp [OF d] and_buddy [OF d] by (simp add: Un_commute)
  qed
  show "blk (k + 1) (?b + (i AND (i XOR 2 ^ k))) = blk k (?b + i) \<union> blk k (?b + (i XOR 2 ^ k))" by (rule u)
  have "2 ^ (k + 1) dvd i AND (i XOR 2 ^ k)" using al(2,4) and_buddy [OF d] by (cases "even (i div 2 ^ k)") simp_all
  moreover have "zone_pages s z (blk (k + 1) (?b + (i AND (i XOR 2 ^ k))))"
    using assms unfolding u by (auto simp: good_block_def zone_pages_def)
  ultimately show "good_block s z (k + 1) (?b + (i AND (i XOR 2 ^ k)))" by (simp add: good_block_def)
qed

lemma merge_spec:
  assumes "buddy_inv s" "good_block s z k (mem_base s z + i)" "blk k (mem_base s z + i) \<inter> bfree s = {}" "k \<le> MAX_ORDER"
  shows "\<exists>i' k' s'. merge z i k s = (i', k', s') \<and> buddy_inv s' \<and> same_zones s s' \<and> k' \<le> MAX_ORDER \<and>
    good_block s' z k' (mem_base s z + i') \<and> blk k' (mem_base s z + i') \<inter> bfree s' = {} \<and>
    bfree s' \<union> blk k' (mem_base s z + i') = bfree s \<union> blk k (mem_base s z + i)"
  using assms
proof (induction z i k s rule: merge.induct)
  case (1 z i k s)
  note inv = "1.prems"(1) and g = "1.prems"(2) and d = "1.prems"(3)
  let ?b = "mem_base s z" and ?buddy = "mem_base s z + (i XOR 2 ^ k)"
  note unf = merge.simps [of z i k s]
  show ?case
  proof (cases "k < MAX_ORDER \<and> page_is_buddy ?buddy k z s")
    case False
    have "merge z i k s = (i, k, s)" by (subst unf) (use False in \<open>auto simp: idx2page_def\<close>)
    then show ?thesis using "1.prems" by simp
  next
    case True
    then have bl: "?buddy \<in> set (free_list s k)" and zb: "pg_zone (pages s ?buddy) = z"
      using buddy_invD(5) [OF inv, of ?buddy] by (auto simp: page_is_buddy_def)
    let ?s = "remove_block k ?buddy s" and ?i = "i AND (i XOR 2 ^ k)"
    have e: "merge z i k s = merge z ?i (k + 1) ?s"
      by (subst unf) (use True in \<open>simp add: idx2page_def remove_block_def\<close>)
    have gbud: "good_block s z k ?buddy" using buddy_invD(4) [OF inv bl] zb by simp
    note m = merge_step [OF g gbud]
    have mb: "mem_base ?s z = ?b" by simp
    have fr: "bfree ?s = bfree s - blk k ?buddy" by (rule remove_block_free [OF inv bl])
    have sub: "blk k ?buddy \<subseteq> bfree s" using bl unfolding bfree_def by blast
    have g': "good_block ?s z (k + 1) (mem_base ?s z + ?i)"
      unfolding mb same_zones_block [OF remove_block_zones] by (rule m(1))
    have d': "blk (k + 1) (mem_base ?s z + ?i) \<inter> bfree ?s = {}" unfolding mb m(2) fr using d by blast
    have k': "k + 1 \<le> MAX_ORDER" using True by simp
    have c: "k < MAX_ORDER" "\<not> \<not> page_is_buddy (idx2page z (i XOR 2 ^ k) s) k z s" using True by (simp_all add: idx2page_def)
    have "\<exists>i' k' s'. merge z ?i (k + 1) ?s = (i', k', s') \<and> buddy_inv s' \<and> same_zones ?s s' \<and> k' \<le> MAX_ORDER \<and>
      good_block s' z k' (mem_base ?s z + i') \<and> blk k' (mem_base ?s z + i') \<inter> bfree s' = {} \<and>
      bfree s' \<union> blk k' (mem_base ?s z + i') = bfree ?s \<union> blk (k + 1) (mem_base ?s z + ?i)"
      using "1.IH" [OF c(1) refl refl c(2)] remove_block_inv [OF inv bl] g' d' k'
      by (simp only: idx2page_def remove_block_def)
    then obtain i' k' s' where r: "merge z ?i (k + 1) ?s = (i', k', s')" "buddy_inv s'" "same_zones ?s s'" "k' \<le> MAX_ORDER"
      "good_block s' z k' (?b + i')" "blk k' (?b + i') \<inter> bfree s' = {}"
      "bfree s' \<union> blk k' (?b + i') = bfree ?s \<union> blk (k + 1) (?b + ?i)" unfolding mb by blast
    have "bfree ?s \<union> blk (k + 1) (?b + ?i) = bfree s \<union> blk k (?b + i)" unfolding m(2) fr using sub by blast
    with r e same_zones_trans [OF remove_block_zones r(3)] show ?thesis by auto
  qed
qed

lemma not_free_no_property:
  assumes "buddy_inv s" "q \<notin> bfree s" "q < npage s"
  shows "\<not> PageProperty s q"
  using assms buddy_invD(5) head_free by blast

lemma free_sub_spec:
  assumes inv: "buddy_inv s" and g: "good_block s z k p" and d: "blk k p \<inter> bfree s = {}" and k: "k \<le> MAX_ORDER"
  shows "\<exists>s'. buddy_free_pages_sub p k s = Inr s' \<and> buddy_inv s' \<and> same_zones s s' \<and> bfree s' = bfree s \<union> blk k p"
proof -
  have zp: "zone_pages s z (blk k p)" using g by (simp add: good_block_def)
  then have pz: "pg_zone (pages s p) = z" "mem_base s z \<le> p" by (auto simp: zone_pages_def)
  have "\<not> PageReserved s q \<and> \<not> PageProperty s q" if "q \<in> {p..<p + 2 ^ k}" for q
  proof -
    have q: "q \<in> blk k p" using that by (simp add: blk_def)
    then have "q \<notin> bfree s" using d by blast
    moreover have "q < npage s" "\<not> PageReserved s q" using q zp by (auto simp: zone_pages_def)
    ultimately show ?thesis using not_free_no_property [OF inv] by blast
  qed
  then obtain s1 where s1: "free_reset p (2 ^ k) s = Inr s1" "free_list s1 = free_list s" "nr_free s1 = nr_free s"
    "same_zones s s1" "\<forall>q. PageProperty s1 q = PageProperty s q \<and> pg_property (pages s1 q) = pg_property (pages s q)"
    using free_reset_spec [of p "2 ^ k" s] by blast
  have inv1: "buddy_inv s1" and fr1: "bfree s1 = bfree s"
    using buddy_inv_cong [OF inv s1(2-4)] s1(5) by blast+
  have same: "mem_base s1 = mem_base s" "pg_zone (pages s1 p) = z" using s1(4) pz by (simp_all add: same_zones_def)
  let ?i = "p - mem_base s z"
  have i: "mem_base s1 z + ?i = p" using same pz by simp
  have pre: "good_block s1 z k (mem_base s1 z + ?i)" "blk k (mem_base s1 z + ?i) \<inter> bfree s1 = {}"
    unfolding i using g d same_zones_block [OF s1(4)] fr1 by simp_all
  obtain i' k' s2 where m: "merge z ?i k s1 = (i', k', s2)" "buddy_inv s2" "same_zones s1 s2" "k' \<le> MAX_ORDER"
    "good_block s2 z k' (mem_base s1 z + i')" "blk k' (mem_base s1 z + i') \<inter> bfree s2 = {}"
    "bfree s2 \<union> blk k' (mem_base s1 z + i') = bfree s1 \<union> blk k (mem_base s1 z + ?i)"
    using merge_spec [OF inv1 pre k] by blast
  have mb: "mem_base s2 z = mem_base s1 z" using m(3) by (simp add: same_zones_def)
  let ?s' = "add_block k' (mem_base s1 z + i') s2"
  have al: "?i AND (2 ^ k - 1) = 0" using g unfolding aligned_mask by (simp add: good_block_def)
  have pi: "page2idx p s = ?i" by (simp add: page2idx_def pz)
  have "buddy_free_pages_sub p k s = Inr ?s'"
    unfolding buddy_free_pages_sub_def Let_def pi al s1(1) by (simp add: s1(1) same m(1) idx2page_def mb)
  moreover have "buddy_inv ?s'" by (rule add_block_inv [OF m(2,4,5,6)])
  moreover have "same_zones s ?s'"
    by (rule same_zones_trans [OF same_zones_trans [OF s1(4) m(3)] add_block_zones])
  moreover have "bfree ?s' = bfree s \<union> blk k p" using m(7) by (simp add: add_block_free fr1 i)
  ultimately show ?thesis by blast
qed

text \<open>A run of pages that can be freed.\<close>

definition freeable :: "buddy_st \<Rightarrow> nat \<Rightarrow> nat \<Rightarrow> nat \<Rightarrow> bool" where
  "freeable s z p n \<longleftrightarrow> zone_pages s z {p..<p + n} \<and> mem_base s z \<le> p \<and> {p..<p + n} \<inter> bfree s = {}"

lemma freeable_block:
  assumes "freeable s z p n" "2 ^ k dvd p - mem_base s z" "2 ^ k \<le> n"
  shows "good_block s z k p" "blk k p \<inter> bfree s = {}"
proof -
  have "blk k p \<subseteq> {p..<p + n}" using assms(3) by (auto simp: blk_def)
  with assms show "good_block s z k p" "blk k p \<inter> bfree s = {}"
    by (auto simp: freeable_def good_block_def zone_pages_def)
qed

lemma freeable_rest:
  assumes "freeable s z p n" "2 ^ k \<le> n" "same_zones s s'" "bfree s' = bfree s \<union> blk k p"
  shows "freeable s' z (p + 2 ^ k) (n - 2 ^ k)"
proof -
  have sub: "{p + 2 ^ k..<p + 2 ^ k + (n - 2 ^ k)} \<subseteq> {p..<p + n}" using assms(2) by auto
  note F = assms(1) [unfolded freeable_def]
  have "{p + 2 ^ k..<p + 2 ^ k + (n - 2 ^ k)} \<inter> blk k p = {}" by (auto simp: blk_def)
  then have d: "{p + 2 ^ k..<p + 2 ^ k + (n - 2 ^ k)} \<inter> bfree s' = {}" using F sub unfolding assms(4) by blast
  have "mem_base s' z = mem_base s z" using assms(3) by (simp add: same_zones_def)
  moreover have "zone_pages s' z {p + 2 ^ k..<p + 2 ^ k + (n - 2 ^ k)}"
    unfolding same_zones_pages [OF assms(3)] by (rule zone_pages_mono [OF _ sub]) (use F in blast)
  ultimately show ?thesis using F d by (simp add: freeable_def)
qed

lemma run_split: "2 ^ k \<le> n \<Longrightarrow> {p..<p + n} = blk k p \<union> {p + 2 ^ k..<p + 2 ^ k + (n - 2 ^ k)}"
  by (auto simp: blk_def)

lemma free_down_spec:
  assumes "buddy_inv s" "freeable s z p n" "2 ^ k dvd p - mem_base s z" "k \<le> MAX_ORDER"
  shows "\<exists>s'. free_down p n k s = Inr s' \<and> buddy_inv s' \<and> same_zones s s' \<and> bfree s' = bfree s \<union> {p..<p + n}"
  using assms
proof (induction p n k s rule: free_down.induct)
  case (1 p n k s)
  note unf = free_down.simps [of p n k s]
  consider "n = 0" | "n \<noteq> 0" "n < 2 ^ k" | "n \<noteq> 0" "2 ^ k \<le> n" by linarith
  then show ?case
  proof cases
    case 1
    then show ?thesis using "1.prems" by (subst unf) simp
  next
    case 2
    have "2 ^ (k - 1) dvd p - mem_base s z" using "1.prems"(3) by (rule dvd_trans [rotated]) (simp add: le_imp_power_dvd)
    with "1.IH"(1) [OF 2] "1.prems" 2 show ?thesis by (subst unf) simp
  next
    case 3
    note f = freeable_block [OF "1.prems"(2,3) 3(2)]
    obtain s1 where s1: "buddy_free_pages_sub p k s = Inr s1" "buddy_inv s1" "same_zones s s1" "bfree s1 = bfree s \<union> blk k p"
      using free_sub_spec [OF "1.prems"(1) f "1.prems"(4)] by blast
    have mb: "mem_base s1 z = mem_base s z" "mem_base s z \<le> p"
      using s1(3) "1.prems"(2) by (simp_all add: same_zones_def freeable_def)
    have "2 ^ k dvd (p - mem_base s z) + 2 ^ k" using "1.prems"(3) by simp
    then have "2 ^ k dvd p + 2 ^ k - mem_base s1 z" using mb by simp
    from "1.IH"(2) [OF 3(1) _ s1(1,2) freeable_rest [OF "1.prems"(2) 3(2) s1(3,4)] this "1.prems"(4)] 3
    obtain s' where s': "free_down (p + 2 ^ k) (n - 2 ^ k) k s1 = Inr s'" "buddy_inv s'" "same_zones s1 s'"
      "bfree s' = bfree s1 \<union> {p + 2 ^ k..<p + 2 ^ k + (n - 2 ^ k)}" by auto
    have "free_down p n k s = Inr s'" by (subst unf) (use 3 s1(1) s'(1) in simp)
    moreover have "bfree s' = bfree s \<union> {p..<p + n}" unfolding s'(4) s1(4) run_split [OF 3(2)] by blast
    ultimately show ?thesis using s'(2) same_zones_trans [OF s1(3) s'(3)] by blast
  qed
qed

lemma free_up_spec:
  assumes "buddy_inv s" "freeable s z p n" "2 ^ k dvd p - mem_base s z" "n < 2 ^ Suc MAX_ORDER" "k \<le> Suc MAX_ORDER"
  shows "\<exists>p' n' k' s'. free_up p n k s = Inr (p', n', k', s') \<and> buddy_inv s' \<and> same_zones s s' \<and> freeable s' z p' n' \<and>
    2 ^ k' dvd p' - mem_base s' z \<and> k' \<le> Suc MAX_ORDER \<and> n' < 2 ^ k' \<and> p' + n' = p + n \<and> p \<le> p' \<and>
    bfree s' = bfree s \<union> {p..<p'}"
  using assms
proof (induction p n k s rule: free_up.induct)
  case (1 p n k s)
  note unf = free_up.simps [of p n k s]
  have mp: "mem_base s z \<le> p" using "1.prems"(2) by (simp add: freeable_def)
  show ?case
  proof (cases "2 ^ k \<le> n")
    case False
    then show ?thesis using "1.prems" by (subst unf) (auto simp: not_le)
  next
    case True
    then have pos: "0 < n" by (metis gr0I not_le zero_less_numeral zero_less_power)
    have k: "k \<le> MAX_ORDER"
    proof (rule ccontr)
      assume "\<not> k \<le> MAX_ORDER"
      then have "(2::nat) ^ Suc MAX_ORDER \<le> 2 ^ k" by (intro power_increasing) simp_all
      with True "1.prems"(4) show False by simp
    qed
    have "zone_pages s z {p..<p + n}" using "1.prems"(2) by (simp add: freeable_def)
    then have pz: "pg_zone (pages s p) = z" using pos by (auto simp: zone_pages_def)
    have pi: "page2idx p s = p - mem_base s z" by (simp add: page2idx_def pz)
    note al = aligned_next [OF "1.prems"(3)]
    have a: "assertR (k \<le> MAX_ORDER) m = Inr ()" for m using k by simp
    show ?thesis
    proof (cases "page2idx p s AND 2 ^ k = 0")
      case c: True
      with al(1,2) pi have "2 ^ (k + 1) dvd p - mem_base s z" by simp
      with "1.IH"(2) [OF True a] c "1.prems" k show ?thesis by (subst unf) (simp add: True a)
    next
      case c: False
      note f = freeable_block [OF "1.prems"(2,3) True]
      obtain s1 where s1: "buddy_free_pages_sub p k s = Inr s1" "buddy_inv s1" "same_zones s s1" "bfree s1 = bfree s \<union> blk k p"
        using free_sub_spec [OF "1.prems"(1) f k] by blast
      have mb: "mem_base s1 z = mem_base s z" using s1(3) by (simp add: same_zones_def)
      have "2 ^ (k + 1) dvd (p - mem_base s z) + 2 ^ k" using al(1,3) c pi by simp
      then have dv: "2 ^ (k + 1) dvd p + 2 ^ k - mem_base s1 z" using mb mp by simp
      have "n - 2 ^ k < 2 ^ Suc MAX_ORDER" "k + 1 \<le> Suc MAX_ORDER" using "1.prems"(4) k by simp_all
      from "1.IH"(1) [OF True a c s1(1) s1(2) freeable_rest [OF "1.prems"(2) True s1(3,4)] dv this]
      obtain p' n' k' s' where s': "free_up (p + 2 ^ k) (n - 2 ^ k) (k + 1) s1 = Inr (p', n', k', s')" "buddy_inv s'"
        "same_zones s1 s'" "freeable s' z p' n'" "2 ^ k' dvd p' - mem_base s' z" "k' \<le> Suc MAX_ORDER" "n' < 2 ^ k'"
        "p' + n' = p + 2 ^ k + (n - 2 ^ k)" "p + 2 ^ k \<le> p'" "bfree s' = bfree s1 \<union> {p + 2 ^ k..<p'}" by auto
      have e: "free_up p n k s = Inr (p', n', k', s')" by (subst unf) (use True a c s1(1) s'(1) in simp)
      have "blk k p \<union> {p + 2 ^ k..<p'} = {p..<p'}" using s'(9) by (auto simp: blk_def)
      then have "bfree s' = bfree s \<union> {p..<p'}" unfolding s'(10) s1(4) by blast
      moreover have "p' + n' = p + n" "p \<le> p'" using s'(8,9) True by simp_all
      ultimately show ?thesis using e s'(2,4-7) same_zones_trans [OF s1(3) s'(3)] by blast
    qed
  qed
qed

lemma buddy_free_spec:
  assumes inv: "buddy_inv s" and f: "freeable s z p n" and n: "0 < n" "n < 2 ^ Suc MAX_ORDER"
  shows "\<exists>s'. buddy_free_pages p n s = Inr s' \<and> buddy_inv s' \<and> same_zones s s' \<and> bfree s' = bfree s \<union> {p..<p + n}"
proof (cases "n = 1")
  case True
  have "good_block s z 0 p" "blk 0 p \<inter> bfree s = {}" using freeable_block [OF f, of 0] True by simp_all
  from free_sub_spec [OF inv this] True show ?thesis by (simp add: buddy_free_pages_def blk_def)
next
  case False
  obtain p' n' k' s' where u: "free_up p n 0 s = Inr (p', n', k', s')" "buddy_inv s'" "same_zones s s'" "freeable s' z p' n'"
    "2 ^ k' dvd p' - mem_base s' z" "k' \<le> Suc MAX_ORDER" "n' < 2 ^ k'" "p' + n' = p + n" "p \<le> p'"
    "bfree s' = bfree s \<union> {p..<p'}" using free_up_spec [OF inv f _ n(2), of 0] by auto
  have ex: "\<exists>t. free_down p' n' k' s' = Inr t \<and> buddy_inv t \<and> same_zones s' t \<and> bfree t = bfree s' \<union> {p'..<p' + n'}"
  proof (cases "k' \<le> MAX_ORDER")
    case True
    then show ?thesis by (rule free_down_spec [OF u(2,4,5)])
  next
    case False
    with u(6) have k': "k' = Suc MAX_ORDER" by simp
    have "2 ^ MAX_ORDER dvd p' - mem_base s' z" using u(5) unfolding k' by (auto elim: dvd_mult_right)
    from free_down_spec [OF u(2,4) this] have d: "\<exists>t. free_down p' n' MAX_ORDER s' = Inr t \<and> buddy_inv t \<and> same_zones s' t \<and>
      bfree t = bfree s' \<union> {p'..<p' + n'}" by simp
    have "free_down p' n' k' s' = (if n' = 0 then Inr s' else free_down p' n' MAX_ORDER s')"
      by (subst free_down.simps) (use u(7) in \<open>simp add: k'\<close>)
    then show ?thesis using d u(2) by (cases "n' = 0") simp_all
  qed
  then obtain t where t: "free_down p' n' k' s' = Inr t" "buddy_inv t" "same_zones s' t" "bfree t = bfree s' \<union> {p'..<p' + n'}" by blast
  have "buddy_free_pages p n s = Inr t" using n False u(1) t(1) by (simp add: buddy_free_pages_def)
  moreover have "bfree t = bfree s \<union> {p..<p + n}" unfolding t(4) u(10) u(8) using u(8,9) by auto
  ultimately show ?thesis using t(2) same_zones_trans [OF u(3) t(3)] by blast
qed

lemma getorder_from_spec:
  "n \<le> 2 ^ MAX_ORDER \<Longrightarrow> k \<le> MAX_ORDER \<Longrightarrow> (k = 0 \<or> 2 ^ (k - 1) < n) \<Longrightarrow>
   \<exists>r. getorder_from k n = Inr r \<and> r \<le> MAX_ORDER \<and> n \<le> 2 ^ r \<and> (r = 0 \<or> 2 ^ (r - 1) < n)"
proof (induction k n rule: getorder_from.induct)
  case (1 k n)
  show ?case
  proof (cases "n \<le> 2 ^ k")
    case True
    with 1 show ?thesis by (subst getorder_from.simps) auto
  next
    case False
    with "1.prems" have "k \<noteq> MAX_ORDER" by auto
    with 1 False show ?thesis by (subst getorder_from.simps) simp
  qed
qed

lemma getorder_spec:
  assumes "0 < n" "n \<le> 2 ^ MAX_ORDER"
  obtains r where "getorder n = Inr r" "r \<le> MAX_ORDER" "n \<le> 2 ^ r" "2 ^ r < 2 * n"
proof -
  from getorder_from_spec [OF assms(2), of 0] obtain r where
    r: "getorder n = Inr r" "r \<le> MAX_ORDER" "n \<le> 2 ^ r" "r = 0 \<or> 2 ^ (r - 1) < n" by (auto simp: getorder_def)
  then have "2 ^ r < 2 * n" using assms(1) by (cases r) auto
  with r that show ?thesis by blast
qed

lemma exp_MAX: "r \<le> MAX_ORDER \<Longrightarrow> (2::nat) ^ r < 2 ^ Suc MAX_ORDER"
  by (rule power_strict_increasing) auto

lemma buddy_alloc_spec:
  assumes inv: "buddy_inv s" and n: "0 < n" "n \<le> 2 ^ MAX_ORDER"
  shows "(\<exists>p s'. buddy_alloc_pages n s = Inr (Some p, s') \<and> buddy_inv s' \<and> same_zones s s' \<and> {p..<p + n} \<subseteq> bfree s \<and>
      bfree s' = bfree s - {p..<p + n} \<and> freeable s' (pg_zone (pages s p)) p n) \<or>
    buddy_alloc_pages n s = Inr (None, s) \<and> (\<forall>k p. n \<le> 2 ^ k \<longrightarrow> p \<notin> set (free_list s k))"
proof -
  obtain r where r: "getorder n = Inr r" "r \<le> MAX_ORDER" "n \<le> 2 ^ r" "2 ^ r < 2 * n" using getorder_spec [OF n] by blast
  obtain q t where qt: "alloc_from r r s = (q, t)" by force
  have e: "buddy_alloc_pages n s = (case q of Some p \<Rightarrow> if n \<noteq> 2 ^ r
      then bindR (buddy_free_pages (p + n) (2 ^ r - n) t) (\<lambda>s2. Inr (Some p, s2)) else Inr (Some p, t) | None \<Rightarrow> Inr (None, t))"
    using n r qt by (simp add: buddy_alloc_pages_def buddy_alloc_pages_sub_def)
  note a = alloc_from_spec [of r r s, OF order.refl inv, unfolded qt]
  show ?thesis
  proof (cases q)
    case None
    with a have t: "t = s" "\<forall>k. r \<le> k \<and> k \<le> MAX_ORDER \<longrightarrow> free_list s k = []" by auto
    have "p \<notin> set (free_list s k)" if "n \<le> 2 ^ k" for k p
    proof
      assume p: "p \<in> set (free_list s k)"
      then have "k \<le> MAX_ORDER" using buddy_invD(1) [OF inv] by blast
      with t(2) p have "k < r" by (metis empty_iff empty_set not_le)
      then obtain j where "r = Suc j" "k \<le> j" by (cases r) auto
      then have "(2::nat) ^ k * 2 \<le> 2 ^ r" by (simp add: power_increasing)
      with r(4) that show False by simp
    qed
    with None e t(1) show ?thesis by simp
  next
    case (Some p)
    let ?z = "pg_zone (pages s p)"
    from a Some have t: "buddy_inv t" "same_zones s t" "good_block s ?z r p" "blk r p \<subseteq> bfree s" "bfree t = bfree s - blk r p"
      by auto
    have zp: "zone_pages s ?z (blk r p)" using t(3) by (simp add: good_block_def)
    then have mb: "mem_base s ?z \<le> p" "mem_base t ?z = mem_base s ?z"
      using blk_self [of p r] t(2) unfolding zone_pages_def same_zones_def by (blast, metis)
    have run: "{p..<p + n} \<subseteq> blk r p" "{p + n..<p + n + (2 ^ r - n)} \<subseteq> blk r p"
      "blk r p - {p + n..<p + n + (2 ^ r - n)} = {p..<p + n}" using r(3) by (auto simp: blk_def)
    show ?thesis
    proof (cases "n = 2 ^ r")
      case True
      then have "blk r p = {p..<p + n}" by (simp add: blk_def)
      moreover from this have "freeable t ?z p n"
        using zp mb t(5) same_zones_pages [OF t(2)] by (simp add: freeable_def)
      ultimately show ?thesis using e Some True t by simp
    next
      case False
      have z2: "zone_pages t ?z {p + n..<p + n + (2 ^ r - n)}"
        unfolding same_zones_pages [OF t(2)] by (rule zone_pages_mono [OF zp run(2)])
      have "{p + n..<p + n + (2 ^ r - n)} \<inter> bfree t = {}" unfolding t(5) using run(2) by blast
      with z2 mb have "freeable t ?z (p + n) (2 ^ r - n)" unfolding freeable_def by simp
      moreover have "0 < 2 ^ r - n" "2 ^ r - n < 2 ^ Suc MAX_ORDER"
        using False r(3) order.strict_trans1 [OF diff_le_self exp_MAX [OF r(2)]] by auto
      ultimately obtain s' where s': "buddy_free_pages (p + n) (2 ^ r - n) t = Inr s'" "buddy_inv s'" "same_zones t s'"
        "bfree s' = bfree t \<union> {p + n..<p + n + (2 ^ r - n)}" using buddy_free_spec [OF t(1)] by blast
      have fr: "bfree s' = bfree s - {p..<p + n}" unfolding s'(4) t(5) using run t(4) by blast
      have zz: "same_zones s s'" by (rule same_zones_trans [OF t(2) s'(3)])
      have "zone_pages s' ?z {p..<p + n}"
        unfolding same_zones_pages [OF zz] by (rule zone_pages_mono [OF zp run(1)])
      moreover have "mem_base s' ?z \<le> p" using zz mb by (simp add: same_zones_def)
      ultimately have "freeable s' ?z p n" unfolding freeable_def fr by blast
      moreover have "buddy_alloc_pages n s = Inr (Some p, s')" using e Some False s'(1) by simp
      ultimately show ?thesis using s'(2) zz fr run(1) t(4) by blast
    qed
  qed
qed

section \<open>Initialisation\<close>

lemma init_areas_spec:
  "free_list (init_areas n s) = (\<lambda>k. if k < n then [] else free_list s k)"
  "nr_free (init_areas n s) = (\<lambda>k. if k < n then 0 else nr_free s k)"
  "pages (init_areas n s) = pages s" "npage (init_areas n s) = npage s" "mem_base (init_areas n s) = mem_base s"
  "zone_num (init_areas n s) = zone_num s"
  by (induction n) (auto simp: fun_eq_iff)

lemma init_pages_spec:
  assumes "\<forall>q \<in> {p..<p + n}. PageReserved s q"
  shows "\<exists>s'. init_pages z p n s = Inr s' \<and> free_list s' = free_list s \<and> nr_free s' = nr_free s \<and> npage s' = npage s \<and>
    mem_base s' = mem_base s \<and> zone_num s' = zone_num s \<and>
    (\<forall>q. q \<in> {p..<p + n} \<longrightarrow> \<not> PageReserved s' q \<and> \<not> PageProperty s' q \<and> pg_zone (pages s' q) = z) \<and>
    (\<forall>q. q \<notin> {p..<p + n} \<longrightarrow> pages s' q = pages s q)"
  using assms
proof (induction z p n s rule: init_pages.induct)
  case (2 z p n s)
  let ?g = "set_page_ref 0 ((pages s p)\<lparr>pg_flags := 0, pg_property := 0, pg_zone := z\<rparr>)"
  let ?s = "upd_page p (\<lambda>g. set_page_ref 0 (g\<lparr>pg_flags := 0, pg_property := 0, pg_zone := z\<rparr>)) s"
  have p: "PageReserved s p" and rest: "\<forall>q \<in> {p + 1..<p + 1 + n}. PageReserved ?s q" using "2.prems" by auto
  from "2.IH" [OF _ rest] p obtain s' where s': "init_pages z (p + 1) n ?s = Inr s'" "free_list s' = free_list ?s"
    "nr_free s' = nr_free ?s" "npage s' = npage ?s" "mem_base s' = mem_base ?s" "zone_num s' = zone_num ?s"
    "\<forall>q. q \<in> {p + 1..<p + 1 + n} \<longrightarrow> \<not> PageReserved s' q \<and> \<not> PageProperty s' q \<and> pg_zone (pages s' q) = z"
    "\<forall>q. q \<notin> {p + 1..<p + 1 + n} \<longrightarrow> pages s' q = pages ?s q" by (auto simp: assertR_Inr)
  have head: "pages s' p = ?g" using s'(8) by simp
  have "\<not> page_test nr ?g" for nr by (simp add: page_test_def set_page_ref_def test_bit_op_def)
  then have h: "\<not> PageReserved s' p \<and> \<not> PageProperty s' p \<and> pg_zone (pages s' p) = z" unfolding head by simp
  have in_: "\<not> PageReserved s' q \<and> \<not> PageProperty s' q \<and> pg_zone (pages s' q) = z" if "q \<in> {p..<p + Suc n}" for q
    using that h s'(7) by (cases "q = p") auto
  have out: "pages s' q = pages s q" if "q \<notin> {p..<p + Suc n}" for q
    using that s'(8) by auto
  have "init_pages z p (Suc n) s = Inr s'" using p s'(1) by simp
  then show ?case using s'(2-6) in_ out by (intro exI [of _ s']) simp
qed auto

lemma carve_spec:
  assumes "buddy_inv s" "freeable s z p n" "2 ^ k dvd p - mem_base s z" "k \<le> MAX_ORDER"
  shows "buddy_inv (carve k p n s) \<and> same_zones s (carve k p n s) \<and> bfree (carve k p n s) = bfree s \<union> {p..<p + n}"
  using assms
proof (induction k p n s rule: carve.induct)
  case (1 k p n s)
  note unf = carve.simps [of k p n s]
  consider "n = 0" | "n \<noteq> 0" "\<not> 2 ^ k \<le> n" | "n \<noteq> 0" "2 ^ k \<le> n" by linarith
  then show ?case
  proof cases
    case 1
    then show ?thesis using "1.prems" by (subst unf, subst unf, subst unf) simp
  next
    case 2
    have "2 ^ (k - 1) dvd p - mem_base s z" using "1.prems"(3) by (rule dvd_trans [rotated]) (simp add: le_imp_power_dvd)
    with "1.IH"(2) [OF 2] "1.prems" have "buddy_inv (carve (k - 1) p n s) \<and> same_zones s (carve (k - 1) p n s) \<and>
      bfree (carve (k - 1) p n s) = bfree s \<union> {p..<p + n}" by simp
    moreover have "carve k p n s = carve (k - 1) p n s" by (subst unf) (use 2 in simp)
    ultimately show ?thesis by simp
  next
    case 3
    let ?s = "add_block k p s"
    note f = freeable_block [OF "1.prems"(2,3) 3(2)]
    have inv: "buddy_inv ?s" by (rule add_block_inv [OF "1.prems"(1,4) f])
    have fr: "freeable ?s z (p + 2 ^ k) (n - 2 ^ k)"
      by (rule freeable_rest [OF "1.prems"(2) 3(2) add_block_zones add_block_free])
    have mp: "mem_base s z \<le> p" using "1.prems"(2) by (simp add: freeable_def)
    have "2 ^ k dvd (p - mem_base s z) + 2 ^ k" using "1.prems"(3) by simp
    then have dv: "2 ^ k dvd p + 2 ^ k - mem_base ?s z" using mp by simp
    have e: "carve k p n s = carve k (p + 2 ^ k) (n - 2 ^ k) ?s" by (subst unf) (use 3 in simp)
    from "1.IH"(1) [OF 3 inv fr dv "1.prems"(4)]
    have ih: "buddy_inv (carve k p n s)" "same_zones ?s (carve k p n s)"
      "bfree (carve k p n s) = bfree ?s \<union> {p + 2 ^ k..<p + 2 ^ k + (n - 2 ^ k)}" unfolding e by blast+
    have "bfree (carve k p n s) = bfree s \<union> {p..<p + n}" unfolding ih(3) add_block_free run_split [OF 3(2)] by blast
    with ih(1) same_zones_trans [OF add_block_zones ih(2)] show ?thesis by blast
  qed
qed

lemma buddy_inv_extend:
  assumes inv: "buddy_inv s" and eq: "free_list s' = free_list s" "nr_free s' = nr_free s" "npage s' = npage s"
    and pg: "\<And>q. q \<in> bfree s \<Longrightarrow> pages s' q = pages s q \<and> mem_base s' (pg_zone (pages s q)) = mem_base s (pg_zone (pages s q))"
    and np: "\<And>q. q < npage s \<Longrightarrow> q \<notin> bfree s \<Longrightarrow> \<not> PageProperty s' q"
  shows "buddy_inv s'"
proof -
  note I = buddy_invD [OF inv]
  have gb: "good_block s' (pg_zone (pages s p)) k p" if p: "p \<in> set (free_list s k)" for p k
  proof -
    have sub: "q \<in> bfree s" if "q \<in> blk k p" for q using that p unfolding bfree_def by blast
    have "mem_base s' (pg_zone (pages s p)) = mem_base s (pg_zone (pages s p))" using pg sub [of p] by simp
    then obtain z where z: "pg_zone (pages s p) = z" "mem_base s' z = mem_base s z" by blast
    have g: "good_block s z k p" using I(4) [OF p] unfolding z(1) .
    have "zone_pages s' z (blk k p)" unfolding zone_pages_def
    proof (rule ballI)
      fix q assume q: "q \<in> blk k p"
      have "pages s' q = pages s q" using pg sub [OF q] by blast
      with g q z(2) eq(3) show "mem_base s' z \<le> q \<and> q < npage s' \<and> pg_zone (pages s' q) = z \<and> \<not> PageReserved s' q"
        by (simp add: good_block_def zone_pages_def)
    qed
    with g z show ?thesis by (simp add: good_block_def)
  qed
  have a: "j \<le> MAX_ORDER \<and> PageProperty s' q \<and> pg_property (pages s' q) = j \<and> good_block s' (pg_zone (pages s' q)) j q"
    if "q \<in> set (free_list s' j)" for q j
  proof -
    have q: "q \<in> set (free_list s j)" using that eq(1) by simp
    then show ?thesis using I(1-3) [OF q] gb [OF q] pg [OF head_free [OF q]] by simp
  qed
  have b: "q \<in> set (free_list s' (pg_property (pages s' q)))" if "q < npage s'" "PageProperty s' q" for q
    using that np [of q] I(5) [of q] pg [of q] eq by (cases "q \<in> bfree s") auto
  show ?thesis unfolding buddy_inv_def using a b I(6-8) eq(1,2) by auto
qed

text \<open>A zone is added to the free pages; the zones so far have smaller numbers.\<close>

lemma init_memmap_spec:
  assumes inv: "buddy_inv s" and n: "0 < n" "zone_num s < MAX_ZONE_NUM" "base + n \<le> npage s"
    and res: "\<forall>q \<in> {base..<base + n}. PageReserved s q"
    and old: "\<forall>q \<in> bfree s. pg_zone (pages s q) \<noteq> zone_num s"
  shows "\<exists>s'. buddy_init_memmap base n s = Inr s' \<and> buddy_inv s' \<and> bfree s' = bfree s \<union> {base..<base + n}"
proof -
  let ?R = "{base..<base + n}" and ?z = "zone_num s"
  obtain s1 where s1: "init_pages ?z base n s = Inr s1" "free_list s1 = free_list s" "nr_free s1 = nr_free s"
    "npage s1 = npage s" "mem_base s1 = mem_base s" "zone_num s1 = ?z"
    "\<forall>q. q \<in> ?R \<longrightarrow> \<not> PageReserved s1 q \<and> \<not> PageProperty s1 q \<and> pg_zone (pages s1 q) = ?z"
    "\<forall>q. q \<notin> ?R \<longrightarrow> pages s1 q = pages s q" using init_pages_spec [OF res] by blast
  let ?t = "s1\<lparr>mem_base := (mem_base s1)(?z := base), zone_num := ?z + 1\<rparr>"
  have dis: "q \<notin> ?R" if "q \<in> bfree s" for q
  proof -
    from that obtain k p where p: "p \<in> set (free_list s k)" "q \<in> blk k p" by (auto simp: bfree_def)
    have "\<not> PageReserved s q" using buddy_invD(4) [OF inv p(1)] p(2) by (simp add: good_block_def zone_pages_def)
    then show ?thesis using res by blast
  qed
  have ft: "bfree ?t = bfree s" by (simp add: bfree_def s1(2))
  have "buddy_inv ?t"
  proof (rule buddy_inv_extend [OF inv])
    fix q assume "q \<in> bfree s"
    then show "pages ?t q = pages s q \<and> mem_base ?t (pg_zone (pages s q)) = mem_base s (pg_zone (pages s q))"
      using old dis s1(5,8) by simp
  next
    fix q assume "q < npage s" "q \<notin> bfree s"
    then show "\<not> PageProperty ?t q"
      using s1(7,8) not_free_no_property [OF inv] by (cases "q \<in> ?R") auto
  qed (simp_all add: s1)
  moreover have "freeable ?t ?z base n"
    using s1(4,7) n(3) dis ft by (auto simp: freeable_def zone_pages_def)
  ultimately have c: "buddy_inv (carve MAX_ORDER base n ?t) \<and> same_zones ?t (carve MAX_ORDER base n ?t) \<and>
      bfree (carve MAX_ORDER base n ?t) = bfree ?t \<union> ?R" by (intro carve_spec [where z = ?z]) simp_all
  have "buddy_init_memmap base n s = Inr (carve MAX_ORDER base n ?t)"
    using n s1(1,6) by (simp add: buddy_init_memmap_def)
  then show ?thesis using c ft by auto
qed

section \<open>Counting\<close>

lemma bfree_card:
  assumes "buddy_inv s"
  shows "finite (bfree s)" "card (bfree s) = (\<Sum>k \<le> MAX_ORDER. length (free_list s k) * 2 ^ k)"
proof -
  note I = buddy_invD [OF assms]
  let ?H = "\<lambda>k. \<Union>p \<in> set (free_list s k). blk k p"
  have U: "bfree s = (\<Union>k \<in> {..MAX_ORDER}. ?H k)" using I(1) unfolding bfree_def by blast
  have fin: "finite (?H k)" for k by (simp add: blk_def)
  then show "finite (bfree s)" unfolding U by blast
  have c: "card (?H k) = length (free_list s k) * 2 ^ k" for k
  proof -
    have "card (?H k) = (\<Sum>p \<in> set (free_list s k). card (blk k p))"
      using I(8) [of _ k _ k] by (intro card_UN_disjoint) (auto simp: blk_def)
    also have "\<dots> = length (free_list s k) * 2 ^ k"
      using distinct_card [OF I(6) [of k]] by (simp add: blk_def)
    finally show ?thesis .
  qed
  have "?H j \<inter> ?H k = {}" if "j \<noteq> k" for j k
    using I(3,8) that by blast
  then have "card (\<Union>k \<in> {..MAX_ORDER}. ?H k) = (\<Sum>k \<le> MAX_ORDER. card (?H k))"
    using fin by (intro card_UN_disjoint) simp_all
  then show "card (bfree s) = (\<Sum>k \<le> MAX_ORDER. length (free_list s k) * 2 ^ k)" unfolding U c .
qed

lemma foldl_word_sum: "foldl (\<lambda>r k. r + f k) (a :: 32 word) [0..<n] = a + (\<Sum>k < n. f k)"
  by (induction n) (simp_all add: algebra_simps)

lemma nr_free_pages_spec:
  assumes "buddy_inv s"
  shows "buddy_nr_free_pages s = of_nat (card (bfree s))"
proof -
  have "buddy_nr_free_pages s = (\<Sum>k < Suc MAX_ORDER. nr_free s k * 2 ^ k)"
    by (simp only: buddy_nr_free_pages_def foldl_word_sum Suc_eq_plus1 add_0)
  also have "\<dots> = (\<Sum>k < Suc MAX_ORDER. of_nat (length (free_list s k) * 2 ^ k))"
    using buddy_invD(7) [OF assms] by (intro sum.cong) auto
  finally show ?thesis by (simp add: bfree_card(2) [OF assms] lessThan_Suc_atMost)
qed

section \<open>The interface of a page manager\<close>

text \<open>What the memory manager (\<open>struct pmm_manager\<close>) promises its clients: allocation takes a
  run of pages out of the available ones, and a run that is held can be given back.\<close>

locale page_manager =
  fixes alloc :: "nat \<Rightarrow> 's \<Rightarrow> (nat option \<times> 's) res" and free :: "nat \<Rightarrow> nat \<Rightarrow> 's \<Rightarrow> 's res"
    and avail :: "'s \<Rightarrow> nat set" and wf :: "'s \<Rightarrow> bool" and held :: "'s \<Rightarrow> nat \<Rightarrow> nat \<Rightarrow> bool" and limit :: nat
  assumes alloc_some: "wf s \<Longrightarrow> 0 < n \<Longrightarrow> n \<le> limit \<Longrightarrow> alloc n s = Inr (Some p, s') \<Longrightarrow>
      wf s' \<and> {p..<p + n} \<subseteq> avail s \<and> avail s' = avail s - {p..<p + n} \<and> held s' p n"
    and alloc_keeps: "wf s \<Longrightarrow> 0 < n \<Longrightarrow> n \<le> limit \<Longrightarrow> alloc n s = Inr (Some p, s') \<Longrightarrow> held s q m \<Longrightarrow> held s' q m"
    and free_held: "wf s \<Longrightarrow> 0 < n \<Longrightarrow> n \<le> limit \<Longrightarrow> held s p n \<Longrightarrow>
      \<exists>s'. free p n s = Inr s' \<and> wf s' \<and> avail s' = avail s \<union> {p..<p + n}"
begin

lemma alloc_free:
  assumes "wf s" "0 < n" "n \<le> limit" "alloc n s = Inr (Some p, s')"
  shows "\<exists>s''. free p n s' = Inr s'' \<and> wf s'' \<and> avail s'' = avail s"
proof -
  from alloc_some [OF assms] have a: "wf s'" "{p..<p + n} \<subseteq> avail s" "avail s' = avail s - {p..<p + n}" "held s' p n" by auto
  from free_held [OF a(1) assms(2,3) a(4)] a(2,3) show ?thesis by auto
qed

lemma alloc_disjoint:
  assumes "wf s" "0 < n" "n \<le> limit" "alloc n s = Inr (Some p, s')"
    "0 < m" "m \<le> limit" "alloc m s' = Inr (Some q, s'')"
  shows "{p..<p + n} \<inter> {q..<q + m} = {}" "held s'' p n \<and> held s'' q m"
proof -
  from alloc_some [OF assms(1-4)] have a: "wf s'" "avail s' = avail s - {p..<p + n}" "held s' p n" by auto
  from alloc_some [OF a(1) assms(5-7)] a(2) show "{p..<p + n} \<inter> {q..<q + m} = {}" by blast
  from alloc_some [OF a(1) assms(5-7)] alloc_keeps [OF a(1) assms(5-7) a(3)] show "held s'' p n \<and> held s'' q m" by auto
qed

end

definition buddy_held :: "buddy_st \<Rightarrow> nat \<Rightarrow> nat \<Rightarrow> bool" where
  "buddy_held s p n \<longleftrightarrow> freeable s (pg_zone (pages s p)) p n"

lemma freeable_same:
  assumes "freeable s z p n" "same_zones s s'" "bfree s' \<subseteq> bfree s"
  shows "freeable s' z p n"
  using assms same_zones_pages [OF assms(2)] by (auto simp: freeable_def same_zones_def)

lemma buddy_alloc_some:
  assumes "buddy_inv s" "0 < n" "n \<le> 2 ^ MAX_ORDER" "buddy_alloc_pages n s = Inr (Some p, s')"
  shows "buddy_inv s'" "{p..<p + n} \<subseteq> bfree s" "bfree s' = bfree s - {p..<p + n}" "buddy_held s' p n" "same_zones s s'"
proof -
  from buddy_alloc_spec [OF assms(1-3)] assms(4)
  have a: "buddy_inv s'" "same_zones s s'" "{p..<p + n} \<subseteq> bfree s" "bfree s' = bfree s - {p..<p + n}"
    "freeable s' (pg_zone (pages s p)) p n" by auto
  moreover have "pg_zone (pages s' p) = pg_zone (pages s p)" using a(2) by (simp add: same_zones_def)
  ultimately show "buddy_inv s'" "{p..<p + n} \<subseteq> bfree s" "bfree s' = bfree s - {p..<p + n}" "buddy_held s' p n" "same_zones s s'"
    by (simp_all add: buddy_held_def)
qed

interpretation bm: page_manager buddy_alloc_pages buddy_free_pages bfree buddy_inv buddy_held "2 ^ MAX_ORDER"
proof (unfold_locales, goal_cases)
  case (1 s n p s')
  then show ?case using buddy_alloc_some [of s n p s'] by blast
next
  case (2 s n p s' q m)
  note a = buddy_alloc_some [OF 2(1-4)]
  have "pg_zone (pages s' q) = pg_zone (pages s q)" using a(5) by (simp add: same_zones_def)
  then show ?case using 2(5) freeable_same [OF _ a(5)] a(3) by (auto simp: buddy_held_def)
next
  case (3 s n p)
  have "n < 2 ^ Suc MAX_ORDER" using order.strict_trans1 [OF 3(3) exp_MAX [OF order.refl]] .
  then show ?case using buddy_free_spec [OF 3(1) _ 3(2)] 3(4) unfolding buddy_held_def by blast
qed

section \<open>Properties\<close>

text \<open>A small zone: eight pages, of which the upper four are free as one block.\<close>

definition small_zone :: buddy_st where
  "small_zone = add_block 2 4 \<lparr>pages = (\<lambda>_. \<lparr>pg_ref = 0, pg_flags = 0, pg_property = 0, pg_zone = 0, pg_index = 0\<rparr>),
     npage = 8, free_list = (\<lambda>_. []), nr_free = (\<lambda>_. 0), mem_base = (\<lambda>_. 0), zone_num = 1\<rparr>"

lemma small_zone_spec: "buddy_inv small_zone" "bfree small_zone = {4..<8}" "4 \<in> set (free_list small_zone 2)"
proof -
  let ?e = "\<lparr>pages = (\<lambda>_. \<lparr>pg_ref = 0, pg_flags = 0, pg_property = 0, pg_zone = 0, pg_index = 0\<rparr>),
     npage = 8, free_list = (\<lambda>_. []), nr_free = (\<lambda>_. 0), mem_base = (\<lambda>_. 0), zone_num = 1\<rparr>"
  have e: "buddy_inv ?e" "bfree ?e = {}"
    by (simp_all add: buddy_inv_def bfree_def page_test_def test_bit_op_def)
  have "good_block ?e 0 2 4" by (simp add: good_block_def zone_pages_def blk_def page_test_def test_bit_op_def)
  with e show "buddy_inv small_zone" unfolding small_zone_def by (intro add_block_inv) (simp_all add: MAX_ORDER_def)
  show "bfree small_zone = {4..<8}" unfolding small_zone_def add_block_free e(2) by (simp add: blk_def)
  show "4 \<in> set (free_list small_zone 2)" by (simp add: small_zone_def)
qed

text \<open>C19: an allocation of up to \<open>1024\<close> pages returns a run of free pages and takes exactly them
  out of the free pages, the surplus of the block it split going back; it returns null, and
  changes nothing, only when no free block is large enough.  The invariant of the free lists
  is kept, and the run that is held can be given back.\<close>

theorem buddy_alloc_takes_run:
  assumes "buddy_inv s" "0 < n" "n \<le> 2 ^ MAX_ORDER"
  shows "(\<exists>p s'. buddy_alloc_pages n s = Inr (Some p, s') \<and> buddy_inv s' \<and> {p..<p + n} \<subseteq> bfree s \<and>
      bfree s' = bfree s - {p..<p + n} \<and> buddy_held s' p n) \<or>
    buddy_alloc_pages n s = Inr (None, s) \<and> (\<forall>k p. n \<le> 2 ^ k \<longrightarrow> p \<notin> set (free_list s k))"
  using buddy_alloc_spec [OF assms] buddy_alloc_some [OF assms] by blast

theorem buddy_alloc_takes_run_witness:
  "\<exists>p s'. buddy_alloc_pages 3 small_zone = Inr (Some p, s') \<and> {p..<p + 3} \<subseteq> {4..<8} \<and> bfree s' = {4..<8} - {p..<p + 3}"
proof -
  have "3 \<le> (2::nat) ^ MAX_ORDER" by (simp add: MAX_ORDER_def)
  moreover have "\<exists>k p. 3 \<le> (2::nat) ^ k \<and> p \<in> set (free_list small_zone k)"
    using small_zone_spec(3) by (intro exI [of _ 2] exI [of _ 4]) simp
  ultimately show ?thesis using buddy_alloc_takes_run [OF small_zone_spec(1), of 3] unfolding small_zone_spec(2) by auto
qed



text \<open>The number the manager reports is the number of free pages.\<close>

theorem buddy_nr_free_counts:
  assumes "buddy_inv s" "card (bfree s) < 2 ^ 32"
  shows "unat (buddy_nr_free_pages s) = card (bfree s)"
  using nr_free_pages_spec [OF assms(1)] assms(2) by (simp add: unat_of_nat)

end
