(* ===== verification/Swap.thy ===== *)
theory Swap
  imports Buddy Hash_Rand Printf
begin

text \<open>
  The swap cache of \<open>kern/mm/swap.c\<close>: swap entries and their reference counts
  (\<open>mem_map\<close>), the pages that have an entry (the hash lists), the active and the inactive
  list, and what moves a page between them, to the disk and back.  The memory state holds the
  buddy system, the contents of the page frames as words, and the state of the swap cache;
  lists linked through the page descriptors are HOL lists.  The device answers a read or a write
  by the arguments \<open>rd\<close> and \<open>wr\<close> (\<open>ide_read_secs\<close>, \<open>ide_write_secs\<close>: zero is
  success).  \<open>alloc_page\<close> is one attempt of the loop in \<open>kern/mm/pmm.c\<close>, the one that
  counts when \<open>try_free_pages\<close> has nothing to wait for.
\<close>

section \<open>State\<close>

record mem_st =
  bud :: buddy_st
  frame :: "nat \<Rightarrow> nat \<Rightarrow> 32 word"
  mem_map :: "nat \<Rightarrow> 16 word"
  max_swap_offset :: nat
  active_list :: "nat list"
  nr_active :: nat
  inactive_list :: "nat list"
  nr_inactive :: nat
  swap_hash :: "nat \<Rightarrow> nat list"
  next_off :: nat
  disk :: "nat \<Rightarrow> nat \<Rightarrow> 32 word"
  cr3_frame :: nat
  tlb :: "nat set"

definition SWAP_UNUSED :: "16 word" where "SWAP_UNUSED = 0xFFFF"
definition MAX_SWAP_REF :: "16 word" where "MAX_SWAP_REF = 0xFFFE"
definition MAX_SWAP_OFFSET_LIMIT :: nat where "MAX_SWAP_OFFSET_LIMIT = 2 ^ 24"

abbreviation pg :: "mem_st \<Rightarrow> nat \<Rightarrow> page" where
  "pg s p \<equiv> pages (bud s) p"

abbreviation PageSwap :: "mem_st \<Rightarrow> nat \<Rightarrow> bool" where
  "PageSwap s p \<equiv> page_test PG_swap (pg s p)"

abbreviation PageActive :: "mem_st \<Rightarrow> nat \<Rightarrow> bool" where
  "PageActive s p \<equiv> page_test PG_active (pg s p)"

abbreviation PageDirty :: "mem_st \<Rightarrow> nat \<Rightarrow> bool" where
  "PageDirty s p \<equiv> page_test PG_dirty (pg s p)"

definition page_ref :: "nat \<Rightarrow> mem_st \<Rightarrow> int" where
  "page_ref p s = atomic_read (pg_ref (pg s p))"

definition upd_pg :: "nat \<Rightarrow> (page \<Rightarrow> page) \<Rightarrow> mem_st \<Rightarrow> mem_st" where
  "upd_pg p f s = s\<lparr>bud := upd_page p f (bud s)\<rparr>"

definition page_ref_inc :: "nat \<Rightarrow> mem_st \<Rightarrow> int \<times> mem_st" where
  "page_ref_inc p s = (let (v, r) = atomic_add_return (pg_ref (pg s p)) 1 in (r, upd_pg p (\<lambda>g. g\<lparr>pg_ref := v\<rparr>) s))"

definition page_ref_dec :: "nat \<Rightarrow> mem_st \<Rightarrow> int \<times> mem_st" where
  "page_ref_dec p s = (let (v, r) = atomic_sub_return (pg_ref (pg s p)) 1 in (r, upd_pg p (\<lambda>g. g\<lparr>pg_ref := v\<rparr>) s))"

text \<open>\<open>alloc_pages\<close> and \<open>free_pages\<close> of \<open>kern/mm/pmm.c\<close> on the buddy system, for one page.\<close>

definition alloc_page :: "mem_st \<Rightarrow> (nat option \<times> mem_st) res" where
  "alloc_page s = bindR (buddy_alloc_pages 1 (bud s)) (\<lambda>(p, b). Inr (p, s\<lparr>bud := b\<rparr>))"

definition free_page :: "nat \<Rightarrow> mem_st \<Rightarrow> mem_st res" where
  "free_page p s = bindR (buddy_free_pages p 1 (bud s)) (\<lambda>b. Inr (s\<lparr>bud := b\<rparr>))"

section \<open>Entries and lists\<close>

definition swap_offset :: "32 word \<Rightarrow> mem_st \<Rightarrow> nat res" where
  "swap_offset entry s =
     (let off = unat (drop_bit 8 entry)
      in if off > 0 \<and> off < max_swap_offset s then Inr off else Inl (Panic ''invalid swap_entry_t''))"

definition entry_hashfn :: "32 word \<Rightarrow> nat" where
  "entry_hashfn x = unat (hash32 x 10)"

definition swap_active_list_add :: "nat \<Rightarrow> mem_st \<Rightarrow> mem_st res" where
  "swap_active_list_add p s =
     bindR (assertR (PageSwap s p) ''PageSwap(page)'') (\<lambda>_.
       let s1 = upd_pg p (page_set PG_active) s
       in Inr (s1\<lparr>nr_active := nr_active s1 + 1, active_list := active_list s1 @ [p]\<rparr>))"

definition swap_inactive_list_add :: "nat \<Rightarrow> mem_st \<Rightarrow> mem_st res" where
  "swap_inactive_list_add p s =
     bindR (assertR (PageSwap s p) ''PageSwap(page)'') (\<lambda>_.
       let s1 = upd_pg p (page_clear PG_active) s
       in Inr (s1\<lparr>nr_inactive := nr_inactive s1 + 1, inactive_list := inactive_list s1 @ [p]\<rparr>))"

definition swap_list_del :: "nat \<Rightarrow> mem_st \<Rightarrow> mem_st res" where
  "swap_list_del p s =
     bindR (assertR (PageSwap s p) ''PageSwap(page)'') (\<lambda>_.
       let s1 = (if PageActive s p then s\<lparr>nr_active := nr_active s - 1\<rparr> else s\<lparr>nr_inactive := nr_inactive s - 1\<rparr>)
       in Inr (s1\<lparr>active_list := remove1 p (active_list s1), inactive_list := remove1 p (inactive_list s1)\<rparr>))"

fun swap_find_in :: "mem_st \<Rightarrow> 32 word \<Rightarrow> nat list \<Rightarrow> nat option" where
  "swap_find_in s entry [] = None"
| "swap_find_in s entry (p # ps) = (if pg_index (pg s p) = entry then Some p else swap_find_in s entry ps)"

definition swap_hash_find :: "32 word \<Rightarrow> mem_st \<Rightarrow> nat option" where
  "swap_hash_find entry s = swap_find_in s entry (swap_hash s (entry_hashfn entry))"

definition swap_page_del :: "nat \<Rightarrow> mem_st \<Rightarrow> mem_st res" where
  "swap_page_del p s =
     bindR (assertR (PageSwap s p) ''PageSwap(page)'') (\<lambda>_.
       let s1 = upd_pg p (page_clear PG_swap) s
       in Inr (s1\<lparr>swap_hash := (\<lambda>h. remove1 p (swap_hash s1 h))\<rparr>))"

definition swap_free_page :: "nat \<Rightarrow> mem_st \<Rightarrow> mem_st res" where
  "swap_free_page p s =
     bindR (assertR (PageSwap s p \<and> page_ref p s = 0) ''PageSwap(page) && page_ref(page) == 0'') (\<lambda>_.
     bindR (swap_page_del p s) (free_page p))"

section \<open>Allocating an entry\<close>

text \<open>The search: an unused offset stops it, the first offset without references is noted.\<close>

partial_function (option) scan_entries :: "nat \<Rightarrow> nat \<Rightarrow> nat \<Rightarrow> mem_st \<Rightarrow> (nat \<times> nat \<times> nat) option" where
  "scan_entries stop next zero s =
     (let emp = (if mem_map s next = SWAP_UNUSED then next else 0);
          zero1 = (if mem_map s next \<noteq> SWAP_UNUSED \<and> mem_map s next = 0 \<and> zero = 0 then next else zero);
          next1 = (if next + 1 = max_swap_offset s then 1 else next + 1)
      in if emp = 0 \<and> next1 \<noteq> stop then scan_entries stop next1 zero1 s else Some (next1, emp, zero1))"

definition entry_of :: "nat \<Rightarrow> 32 word" where
  "entry_of off = push_bit 8 (of_nat off)"

text \<open>The warning after too many failures only prints.\<close>

definition try_alloc_swap_entry :: "mem_st \<Rightarrow> (32 word \<times> mem_st) res" where
  "try_alloc_swap_entry s =
     (case scan_entries (next_off s) (next_off s) 0 s of
        None \<Rightarrow> Inl Spin
      | Some (next, emp, zero) \<Rightarrow>
          let s1 = s\<lparr>next_off := next\<rparr>
          in if emp \<noteq> 0 then Inr (entry_of emp, s1)
             else if zero \<noteq> 0 then
               (case swap_hash_find (entry_of zero) s1 of
                  None \<Rightarrow> Inl (Assertion ''page != NULL && PageSwap(page)'')
                | Some p \<Rightarrow>
                    bindR (assertR (PageSwap s1 p) ''page != NULL && PageSwap(page)'') (\<lambda>_.
                    bindR (swap_list_del p s1) (\<lambda>s2.
                    bindR (if page_ref p s2 = 0 then swap_free_page p s2 else swap_page_del p s2) (\<lambda>s3.
                      Inr (entry_of zero, s3\<lparr>mem_map := (mem_map s3)(zero := SWAP_UNUSED)\<rparr>)))))
             else Inr (0, s1))"

definition swap_page_link :: "nat \<Rightarrow> 32 word \<Rightarrow> mem_st \<Rightarrow> mem_st" where
  "swap_page_link p entry s =
     (let s1 = upd_pg p (\<lambda>g. (page_set PG_swap g)\<lparr>pg_index := entry\<rparr>) s; h = entry_hashfn entry
      in s1\<lparr>swap_hash := (swap_hash s1)(h := p # swap_hash s1 h)\<rparr>)"

definition swap_page_add :: "nat \<Rightarrow> 32 word \<Rightarrow> mem_st \<Rightarrow> (bool \<times> mem_st) res" where
  "swap_page_add p entry s =
     bindR (assertR (\<not> PageSwap s p) ''!PageSwap(page)'') (\<lambda>_.
       if entry = 0 then
         bindR (try_alloc_swap_entry s) (\<lambda>(e, s1).
           if e = 0 then Inr (False, s1)
           else bindR (swap_offset e s1) (\<lambda>off.
                bindR (assertR (mem_map s1 off = SWAP_UNUSED) ''mem_map[swap_offset(entry)] == SWAP_UNUSED'') (\<lambda>_.
                  let s2 = s1\<lparr>mem_map := (mem_map s1)(off := 0)\<rparr>
                  in Inr (True, swap_page_link p e (upd_pg p (page_set PG_dirty) s2)))))
       else Inr (True, swap_page_link p entry s))"

section \<open>References\<close>

definition swap_remove_entry :: "32 word \<Rightarrow> mem_st \<Rightarrow> mem_st res" where
  "swap_remove_entry entry s =
     bindR (swap_offset entry s) (\<lambda>off.
     bindR (assertR (mem_map s off > 0) ''mem_map[offset] > 0'') (\<lambda>_.
       let s1 = s\<lparr>mem_map := (mem_map s)(off := mem_map s off - 1)\<rparr>
       in if mem_map s1 off = 0 then
            (case swap_hash_find entry s1 of
               Some p \<Rightarrow>
                 if page_ref p s1 \<noteq> 0 then Inr s1
                 else bindR (swap_list_del p s1) (\<lambda>s2. bindR (swap_free_page p s2) (\<lambda>s3.
                        Inr (s3\<lparr>mem_map := (mem_map s3)(off := SWAP_UNUSED)\<rparr>)))
             | None \<Rightarrow> Inr (s1\<lparr>mem_map := (mem_map s1)(off := SWAP_UNUSED)\<rparr>))
          else Inr s1))"

definition swap_page_count :: "nat \<Rightarrow> mem_st \<Rightarrow> int res" where
  "swap_page_count p s =
     (if \<not> PageSwap s p then Inr 0
      else bindR (swap_offset (pg_index (pg s p)) s) (\<lambda>off. Inr (uint (mem_map s off))))"

definition swap_duplicate :: "32 word \<Rightarrow> mem_st \<Rightarrow> mem_st res" where
  "swap_duplicate entry s =
     bindR (swap_offset entry s) (\<lambda>off.
     bindR (assertR (mem_map s off < MAX_SWAP_REF) ''mem_map[offset] >= 0 && mem_map[offset] < MAX_SWAP_REF'') (\<lambda>_.
       Inr (s\<lparr>mem_map := (mem_map s)(off := mem_map s off + 1)\<rparr>)))"

section \<open>Swapping in and out\<close>

definition swapfs_read :: "(32 word \<Rightarrow> int) \<Rightarrow> 32 word \<Rightarrow> nat \<Rightarrow> mem_st \<Rightarrow> (int \<times> mem_st) res" where
  "swapfs_read rd entry p s =
     bindR (swap_offset entry s) (\<lambda>off.
       Inr (rd entry, if rd entry = 0 then s\<lparr>frame := (frame s)(p := disk s off)\<rparr> else s))"

definition swapfs_write :: "(32 word \<Rightarrow> int) \<Rightarrow> 32 word \<Rightarrow> nat \<Rightarrow> mem_st \<Rightarrow> (int \<times> mem_st) res" where
  "swapfs_write wr entry p s =
     bindR (swap_offset entry s) (\<lambda>off.
       Inr (wr entry, if wr entry = 0 then s\<lparr>disk := (disk s)(off := frame s p)\<rparr> else s))"

text \<open>\<open>swap_in_page\<close>, for a pointer that is not null; \<open>env\<close> is what the other processes do while
  this one waits for a page and for the lock.\<close>

definition swap_in_page :: "(32 word \<Rightarrow> int) \<Rightarrow> (mem_st \<Rightarrow> mem_st) \<Rightarrow> 32 word \<Rightarrow> mem_st \<Rightarrow> (int \<times> nat option \<times> mem_st) res" where
  "swap_in_page rd env entry s =
     bindR (swap_offset entry s) (\<lambda>_.
       case swap_hash_find entry s of
         Some p \<Rightarrow> Inr (0, Some p, s)
       | None \<Rightarrow>
           bindR (alloc_page s) (\<lambda>(newpage, s1).
           let s2 = env s1
           in case swap_hash_find entry s2 of
                Some p \<Rightarrow> (case newpage of
                    None \<Rightarrow> Inr (0, Some p, s2)
                  | Some q \<Rightarrow> bindR (free_page q s2) (\<lambda>s3. Inr (0, Some p, s3)))
              | None \<Rightarrow> (case newpage of
                    None \<Rightarrow> Inr (- E_NO_MEM, None, s2)
                  | Some q \<Rightarrow>
                      bindR (swapfs_read rd entry q s2) (\<lambda>(r, s3).
                        if r \<noteq> 0 then bindR (free_page q s3) (\<lambda>s4. Inr (- E_SWAP_FAULT, None, s4))
                        else bindR (swap_page_add q entry s3) (\<lambda>(_, s4).
                             bindR (swap_active_list_add q s4) (\<lambda>s5. Inr (0, Some q, s5)))))))"

definition swap_copy_entry :: "(32 word \<Rightarrow> int) \<Rightarrow> (mem_st \<Rightarrow> mem_st) \<Rightarrow> 32 word \<Rightarrow> mem_st \<Rightarrow> (int \<times> 32 word option \<times> mem_st) res" where
  "swap_copy_entry rd env entry s =
     (let out = (\<lambda>r st t. bindR (swap_remove_entry entry t) (\<lambda>t'. Inr (r, st, t')));
          failed_free_page = (\<lambda>r q t. bindR (free_page q t) (\<lambda>t'. out r None t'))
      in bindR (swap_duplicate entry s) (\<lambda>s1.
         bindR (alloc_page s1) (\<lambda>(newpage, s2).
           case newpage of
             None \<Rightarrow> out (- E_NO_MEM) None s2
           | Some q \<Rightarrow>
               bindR (swap_in_page rd env entry s2) (\<lambda>(r, page, s3).
                 if r \<noteq> 0 then failed_free_page r q s3
                 else bindR (deref page) (\<lambda>p.
                   bindR (swap_page_add q 0 s3) (\<lambda>(ok, s4).
                     if \<not> ok then failed_free_page (- E_NO_MEM) q s4
                     else bindR (swap_active_list_add q s4) (\<lambda>s5.
                          let s6 = s5\<lparr>frame := (frame s5)(q := frame s5 p)\<rparr>
                          in out 0 (Some (pg_index (pg s6 q))) s6)))))))"

definition try_free_swap_entry :: "32 word \<Rightarrow> mem_st \<Rightarrow> (bool \<times> mem_st) res" where
  "try_free_swap_entry entry s =
     bindR (swap_offset entry s) (\<lambda>off.
       if mem_map s off = 0 then Inr (True, s\<lparr>mem_map := (mem_map s)(off := SWAP_UNUSED)\<rparr>) else Inr (False, s))"

text \<open>The entry after a page in a list, or the end of the list.\<close>

definition next_in :: "nat list \<Rightarrow> nat \<Rightarrow> nat option" where
  "next_in xs p = (case dropWhile (\<lambda>x. x \<noteq> p) xs of _ # q # _ \<Rightarrow> Some q | _ \<Rightarrow> None)"

text \<open>One page of \<open>page_launder\<close>: it returns whether the page was freed.\<close>

definition launder_one :: "(32 word \<Rightarrow> int) \<Rightarrow> nat \<Rightarrow> mem_st \<Rightarrow> (bool \<times> mem_st) res" where
  "launder_one wr p s =
     bindR (swap_list_del p s) (\<lambda>s1.
       if page_ref p s1 \<noteq> 0 then bindR (swap_active_list_add p s1) (\<lambda>s2. Inr (False, s2))
       else
         let entry = pg_index (pg s1 p)
         in bindR (try_free_swap_entry entry s1) (\<lambda>(freed, s2).
            if \<not> freed \<and> PageDirty s2 p then
              let s3 = upd_pg p (page_clear PG_dirty) s2
              in bindR (swap_duplicate entry s3) (\<lambda>s4.
                 bindR (swapfs_write wr entry p s4) (\<lambda>(r, s5).
                 let s6 = (if r \<noteq> 0 then upd_pg p (page_set PG_dirty) s5 else s5)
                 in bindR (swap_offset entry s6) (\<lambda>off.
                    let s7 = s6\<lparr>mem_map := (mem_map s6)(off := mem_map s6 off - 1)\<rparr>
                    in if page_ref p s7 \<noteq> 0 then bindR (swap_active_list_add p s7) (\<lambda>s8. Inr (False, s8))
                       else if PageDirty s7 p then bindR (swap_inactive_list_add p s7) (\<lambda>s8. Inr (False, s8))
                       else bindR (try_free_swap_entry entry s7) (\<lambda>(_, s8).
                            bindR (swap_free_page p s8) (\<lambda>s9. Inr (True, s9))))))
            else bindR (swap_free_page p s2) (\<lambda>s3. Inr (True, s3))))"

fun launder_loop :: "(32 word \<Rightarrow> int) \<Rightarrow> nat \<Rightarrow> nat option \<Rightarrow> nat \<Rightarrow> mem_st \<Rightarrow> (nat \<times> mem_st) res" where
  "launder_loop wr 0 le cnt s = Inr (cnt, s)"
| "launder_loop wr (Suc maxscan) None cnt s = Inr (cnt, s)"
| "launder_loop wr (Suc maxscan) (Some p) cnt s =
     (let le' = next_in (inactive_list s) p
      in if \<not> (PageSwap s p \<and> \<not> PageActive s p) then Inl (Panic ''inactive: wrong swap list.'')
         else bindR (launder_one wr p s) (\<lambda>(freed, s1). launder_loop wr maxscan le' (if freed then cnt + 1 else cnt) s1))"

definition first_of :: "nat list \<Rightarrow> nat option" where
  "first_of xs = (case xs of [] \<Rightarrow> None | x # _ \<Rightarrow> Some x)"

definition page_launder :: "(32 word \<Rightarrow> int) \<Rightarrow> mem_st \<Rightarrow> (nat \<times> mem_st) res" where
  "page_launder wr s = launder_loop wr (nr_inactive s) (first_of (inactive_list s)) 0 s"

fun refill_loop :: "nat \<Rightarrow> nat option \<Rightarrow> mem_st \<Rightarrow> mem_st res" where
  "refill_loop 0 le s = Inr s"
| "refill_loop (Suc maxscan) None s = Inr s"
| "refill_loop (Suc maxscan) (Some p) s =
     (let le' = next_in (active_list s) p
      in if \<not> (PageSwap s p \<and> PageActive s p) then Inl (Panic ''active: wrong swap list.'')
         else bindR (if page_ref p s = 0 then bindR (swap_list_del p s) (swap_inactive_list_add p) else Inr s)
                (refill_loop maxscan le'))"

definition refill_inactive_scan :: "mem_st \<Rightarrow> mem_st res" where
  "refill_inactive_scan s = refill_loop (nr_active s) (first_of (active_list s)) s"

text \<open>What \<open>swap_init\<close> sets up, on the size of the device.\<close>

definition swap_init :: "nat \<Rightarrow> mem_st \<Rightarrow> mem_st res" where
  "swap_init max_offset s =
     (let s1 = s\<lparr>max_swap_offset := max_offset, active_list := [], nr_active := 0, inactive_list := [], nr_inactive := 0\<rparr>
      in if \<not> (1024 \<le> max_offset \<and> max_offset < MAX_SWAP_OFFSET_LIMIT) then Inl (Panic ''bad max_swap_offset.'')
         else Inr (s1\<lparr>mem_map := (\<lambda>off. if off < max_offset then SWAP_UNUSED else mem_map s1 off), swap_hash := (\<lambda>_. [])\<rparr>))"

section \<open>The hash lists\<close>

lemma upd_pg_simps [simp]:
  "pages (bud (upd_pg p f s)) = (pages (bud s))(p := f (pg s p))" "mem_map (upd_pg p f s) = mem_map s"
  "max_swap_offset (upd_pg p f s) = max_swap_offset s" "active_list (upd_pg p f s) = active_list s"
  "nr_active (upd_pg p f s) = nr_active s" "inactive_list (upd_pg p f s) = inactive_list s"
  "nr_inactive (upd_pg p f s) = nr_inactive s" "swap_hash (upd_pg p f s) = swap_hash s"
  "next_off (upd_pg p f s) = next_off s" "disk (upd_pg p f s) = disk s" "frame (upd_pg p f s) = frame s"
  by (simp_all add: upd_pg_def)

lemma PG_swap_numbers [simp]:
  "PG_swap < 32" "PG_active < 32" "PG_dirty < 32" "PG_swap \<noteq> PG_active" "PG_active \<noteq> PG_swap"
  "PG_swap \<noteq> PG_dirty" "PG_dirty \<noteq> PG_swap" "PG_active \<noteq> PG_dirty" "PG_dirty \<noteq> PG_active"
  by (simp_all add: PG_swap_def PG_active_def PG_dirty_def)

text \<open>The pages with an entry are exactly those on the hash lists, each under its own entry.\<close>

definition swap_hash_ok :: "mem_st \<Rightarrow> bool" where
  "swap_hash_ok s \<longleftrightarrow>
     (\<forall>h p. p \<in> set (swap_hash s h) \<longleftrightarrow> PageSwap s p \<and> h = entry_hashfn (pg_index (pg s p))) \<and>
     (\<forall>h. distinct (swap_hash s h)) \<and>
     (\<forall>p q. PageSwap s p \<longrightarrow> PageSwap s q \<longrightarrow> pg_index (pg s p) = pg_index (pg s q) \<longrightarrow> p = q)"

lemma swap_find_in_spec:
  "(\<And>p q. p \<in> set l \<Longrightarrow> q \<in> set l \<Longrightarrow> pg_index (pg s p) = pg_index (pg s q) \<Longrightarrow> p = q) \<Longrightarrow>
   swap_find_in s e l = Some p \<longleftrightarrow> p \<in> set l \<and> pg_index (pg s p) = e"
  by (induction l) auto

lemma swap_hash_find_spec:
  assumes "swap_hash_ok s"
  shows "swap_hash_find e s = Some p \<longleftrightarrow> PageSwap s p \<and> pg_index (pg s p) = e"
proof -
  have "swap_hash_find e s = Some p \<longleftrightarrow> p \<in> set (swap_hash s (entry_hashfn e)) \<and> pg_index (pg s p) = e"
    unfolding swap_hash_find_def by (rule swap_find_in_spec) (use assms in \<open>auto simp: swap_hash_ok_def\<close>)
  then show ?thesis using assms by (auto simp: swap_hash_ok_def)
qed

section \<open>Offsets\<close>

lemma unat_push8:
  assumes "off < MAX_SWAP_OFFSET_LIMIT"
  shows "unat (drop_bit 8 (entry_of off)) = off"
proof -
  have "entry_of off = of_nat (off * 2 ^ 8)" by (simp add: entry_of_def push_bit_eq_mult)
  then have "unat (entry_of off) = off * 2 ^ 8"
    using assms by (simp only: unat_of_nat) (simp add: MAX_SWAP_OFFSET_LIMIT_def)
  then show ?thesis by (simp add: drop_bit_eq_div unat_div_distrib)
qed

lemma swap_offset_entry:
  assumes "0 < off" "off < max_swap_offset s" "max_swap_offset s < MAX_SWAP_OFFSET_LIMIT"
  shows "swap_offset (entry_of off) s = Inr off" "entry_of off \<noteq> 0"
proof -
  have u: "unat (drop_bit 8 (entry_of off)) = off" by (rule unat_push8) (use assms in simp)
  then show "swap_offset (entry_of off) s = Inr off" using assms by (simp add: swap_offset_def)
  show "entry_of off \<noteq> 0" using u assms(1) by auto
qed

text \<open>The number of steps the search still has: round the offsets from \<open>next\<close> to \<open>stop\<close>.\<close>

lemma scan_entries_spec:
  assumes "1 \<le> next" "next < max_swap_offset s" "1 \<le> stop" "stop < max_swap_offset s" "zero < max_swap_offset s"
    "k = (if next < stop then stop - next else max_swap_offset s - 1 - (next - stop))"
    "zero \<noteq> 0 \<Longrightarrow> mem_map s zero = 0"
  shows "\<exists>n emp z. scan_entries stop next zero s = Some (n, emp, z) \<and> 1 \<le> n \<and> n < max_swap_offset s \<and>
    emp < max_swap_offset s \<and> z < max_swap_offset s \<and> (emp \<noteq> 0 \<longrightarrow> mem_map s emp = SWAP_UNUSED) \<and>
    (z \<noteq> 0 \<longrightarrow> mem_map s z = 0)"
  using assms
proof (induction k arbitrary: "next" zero rule: less_induct)
  case (less k)
  let ?M = "max_swap_offset s"
  let ?e = "if mem_map s next = SWAP_UNUSED then next else 0"
  let ?z = "if mem_map s next \<noteq> SWAP_UNUSED \<and> mem_map s next = 0 \<and> zero = 0 then next else zero"
  let ?n = "if next + 1 = ?M then 1 else next + 1"
  have n: "1 \<le> ?n" "?n < ?M" using less.prems(1,2) by auto
  have z: "?z < ?M" "?z \<noteq> 0 \<Longrightarrow> mem_map s ?z = 0" using less.prems by (auto split: if_splits)
  have unf: "scan_entries stop next zero s =
      (if ?e = 0 \<and> ?n \<noteq> stop then scan_entries stop ?n ?z s else Some (?n, ?e, ?z))"
    by (rule scan_entries.simps [unfolded Let_def])
  show ?case
  proof (cases "?e = 0 \<and> ?n \<noteq> stop")
    case True
    let ?k = "if ?n < stop then stop - ?n else ?M - 1 - (?n - stop)"
    have "?k < k" using True less.prems(1-4,6) by (auto split: if_splits)
    from less.IH [OF this n less.prems(3,4) z(1) refl z(2)] show ?thesis
      unfolding unf if_P [OF True] .
  next
    case False
    have "scan_entries stop next zero s = Some (?n, ?e, ?z)" unfolding unf if_not_P [OF False] ..
    moreover have "?e < ?M" "?e \<noteq> 0 \<longrightarrow> mem_map s ?e = SWAP_UNUSED" using less.prems(2) by auto
    ultimately show ?thesis using n z by blast
  qed
qed

section \<open>The two lists\<close>

definition swap_lists_ok :: "mem_st \<Rightarrow> bool" where
  "swap_lists_ok s \<longleftrightarrow> distinct (active_list s) \<and> distinct (inactive_list s) \<and>
     (\<forall>p. p \<in> set (active_list s) \<longleftrightarrow> PageSwap s p \<and> PageActive s p) \<and>
     (\<forall>p. p \<in> set (inactive_list s) \<longleftrightarrow> PageSwap s p \<and> \<not> PageActive s p) \<and>
     nr_active s = length (active_list s) \<and> nr_inactive s = length (inactive_list s)"

lemma next_in_append:
  assumes "p \<notin> set us"
  shows "next_in (us @ p # vs) p = first_of vs"
proof -
  have "dropWhile (\<lambda>x. x \<noteq> p) (us @ p # vs) = p # vs" using assms by (induction us) auto
  then show ?thesis by (cases vs) (simp_all add: next_in_def first_of_def)
qed

text \<open>Moving a page without references from the active to the inactive list.\<close>

lemma demote_one:
  assumes ok: "swap_lists_ok s" and act: "active_list s = us @ p # vs"
  shows "\<exists>s'. bindR (swap_list_del p s) (swap_inactive_list_add p) = Inr s' \<and> swap_lists_ok s' \<and>
    active_list s' = us @ vs \<and> inactive_list s' = inactive_list s @ [p] \<and> swap_hash s' = swap_hash s \<and>
    (\<forall>q. pg_ref (pg s' q) = pg_ref (pg s q) \<and> PageSwap s' q = PageSwap s q \<and> pg_index (pg s' q) = pg_index (pg s q))"
proof -
  have p: "PageSwap s p" "PageActive s p" "p \<notin> set us" "p \<notin> set vs" "p \<notin> set (inactive_list s)"
    using ok act by (auto simp: swap_lists_ok_def)
  let ?s = "(upd_pg p (page_clear PG_active) s)\<lparr>active_list := us @ vs, nr_active := nr_active s - 1,
      inactive_list := inactive_list s @ [p], nr_inactive := nr_inactive s + 1\<rparr>"
  have "remove1 p (us @ p # vs) = us @ vs" using p(3) by (simp add: remove1_append)
  then have "bindR (swap_list_del p s) (swap_inactive_list_add p) = Inr ?s"
    using p act by (simp add: swap_list_del_def swap_inactive_list_add_def upd_pg_def remove1_idem)
  moreover have "swap_lists_ok ?s"
    using ok act p unfolding swap_lists_ok_def by auto
  ultimately show ?thesis by (intro exI [of _ ?s]) auto
qed

lemma refill_loop_spec:
  assumes "swap_lists_ok s" "active_list s = us @ vs"
  shows "\<exists>s'. refill_loop (length vs) (first_of vs) s = Inr s' \<and> swap_lists_ok s' \<and>
    active_list s' = us @ filter (\<lambda>p. page_ref p s \<noteq> 0) vs \<and>
    inactive_list s' = inactive_list s @ filter (\<lambda>p. page_ref p s = 0) vs \<and> swap_hash s' = swap_hash s \<and>
    (\<forall>q. pg_ref (pg s' q) = pg_ref (pg s q) \<and> PageSwap s' q = PageSwap s q \<and> pg_index (pg s' q) = pg_index (pg s q))"
  using assms
proof (induction vs arbitrary: s us)
  case (Cons p vs)
  note ok = Cons.prems(1) and act = Cons.prems(2)
  have p: "PageSwap s p" "PageActive s p" "p \<notin> set us" using ok act by (auto simp: swap_lists_ok_def)
  have nx: "next_in (active_list s) p = first_of vs" unfolding act by (rule next_in_append) (rule p(3))
  have e: "refill_loop (length (p # vs)) (first_of (p # vs)) s =
      bindR (if page_ref p s = 0 then bindR (swap_list_del p s) (swap_inactive_list_add p) else Inr s)
        (refill_loop (length vs) (first_of vs))"
    using p nx by (simp add: first_of_def)
  show ?case
  proof (cases "page_ref p s = 0")
    case True
    obtain s1 where s1: "bindR (swap_list_del p s) (swap_inactive_list_add p) = Inr s1" "swap_lists_ok s1"
      "active_list s1 = us @ vs" "inactive_list s1 = inactive_list s @ [p]" "swap_hash s1 = swap_hash s"
      "\<And>q. pg_ref (pg s1 q) = pg_ref (pg s q)" "\<And>q. PageSwap s1 q = PageSwap s q" "\<And>q. pg_index (pg s1 q) = pg_index (pg s q)"
      using demote_one [OF ok act] by blast
    have ref: "page_ref q s1 = page_ref q s" for q using s1(6) by (simp add: page_ref_def)
    from Cons.IH [OF s1(2,3)] show ?thesis unfolding e using True by (simp add: s1 ref)
  next
    case False
    have "active_list s = (us @ [p]) @ vs" using act by simp
    from Cons.IH [OF ok this] show ?thesis unfolding e using False by simp
  qed
qed (simp add: first_of_def)

section \<open>Properties\<close>

text \<open>\<open>refill_inactive_scan\<close> moves to the tail of the inactive list, in their order, exactly
  the active pages that no page table refers to, and leaves the other active pages, the swap
  entries and the invariant of the lists as they were.\<close>

theorem refill_moves_unreferenced:
  assumes "swap_lists_ok s"
  shows "\<exists>s'. refill_inactive_scan s = Inr s' \<and> swap_lists_ok s' \<and>
    active_list s' = filter (\<lambda>p. page_ref p s \<noteq> 0) (active_list s) \<and>
    inactive_list s' = inactive_list s @ filter (\<lambda>p. page_ref p s = 0) (active_list s) \<and> swap_hash s' = swap_hash s"
proof -
  have "nr_active s = length (active_list s)" using assms by (simp add: swap_lists_ok_def)
  then show ?thesis using refill_loop_spec [OF assms, of "[]"] by (auto simp: refill_inactive_scan_def)
qed

text \<open>A cache with two active pages, the first of them without references.\<close>

definition small_cache :: mem_st where
  "small_cache = \<lparr>bud = small_zone\<lparr>pages := (pages small_zone)(
        0 := page_set PG_active (page_set PG_swap \<lparr>pg_ref = 0, pg_flags = 0, pg_property = 0, pg_zone = 0, pg_index = 0x100\<rparr>),
        1 := page_set PG_active (page_set PG_swap \<lparr>pg_ref = 1, pg_flags = 0, pg_property = 0, pg_zone = 0, pg_index = 0x200\<rparr>))\<rparr>,
     frame = (\<lambda>_ _. 0), mem_map = (\<lambda>_. 1), max_swap_offset = 1024, active_list = [0, 1], nr_active = 2, inactive_list = [],
     nr_inactive = 0, swap_hash = (\<lambda>_. []), next_off = 1, disk = (\<lambda>_ _. 0), cr3_frame = 0, tlb = {}\<rparr>"

lemma page_test_zero [simp]: "pg_flags g = 0 \<Longrightarrow> \<not> page_test nr g"
  by (simp add: page_test_def test_bit_op_def)

lemma small_cache_ok: "swap_lists_ok small_cache"
proof -
  have z: "\<not> page_test PG_swap (pages small_zone p)" for p
    by (simp add: small_zone_def) (simp add: PG_swap_def PG_property_def)
  show ?thesis by (auto simp: swap_lists_ok_def small_cache_def z)
qed

text \<open>A reference that is added to a swap entry and removed again leaves the counts as they
  were.\<close>

theorem swap_reference_roundtrip:
  assumes "swap_offset e s = Inr off" "0 < mem_map s off" "mem_map s off < MAX_SWAP_REF"
  shows "\<exists>s1. swap_duplicate e s = Inr s1 \<and> mem_map s1 off = mem_map s off + 1 \<and> swap_remove_entry e s1 = Inr s"
proof -
  let ?s = "s\<lparr>mem_map := (mem_map s)(off := mem_map s off + 1)\<rparr>"
  have o: "swap_offset e ?s = Inr off" using assms(1) by (simp add: swap_offset_def split: if_splits)
  have ne: "mem_map s off + 1 \<noteq> 0"
  proof
    assume "mem_map s off + 1 = 0"
    then have "mem_map s off = - 1" by (simp add: eq_neg_iff_add_eq_0)
    with assms(3) show False by (simp add: MAX_SWAP_REF_def)
  qed
  then have "0 < mem_map ?s off" by (simp add: word_gt_0)
  with o assms(2) have "swap_remove_entry e ?s = Inr s"
    by (simp add: swap_remove_entry_def word_gt_0)
  moreover have "swap_duplicate e s = Inr ?s" using assms by (simp add: swap_duplicate_def)
  ultimately show ?thesis by auto
qed

text \<open>The search for a free swap entry ends, wherever it starts, and leaves the next start in
  range; an offset it returns as unused is in range and unused, one it returns as reclaimable is
  in range and has no references.\<close>

theorem entry_search_ends:
  assumes "1 \<le> next_off s" "next_off s < max_swap_offset s"
  shows "\<exists>n emp z. scan_entries (next_off s) (next_off s) 0 s = Some (n, emp, z) \<and> 1 \<le> n \<and> n < max_swap_offset s \<and>
    emp < max_swap_offset s \<and> z < max_swap_offset s \<and> (emp \<noteq> 0 \<longrightarrow> mem_map s emp = SWAP_UNUSED) \<and>
    (z \<noteq> 0 \<longrightarrow> mem_map s z = 0)"
  using scan_entries_spec [OF assms assms, of 0] assms by simp

end
