(* ===== verification/Page_Table.thy ===== *)
theory Page_Table
  imports Swap Mem_Layout
begin

text \<open>
  Page tables, \<open>kern/mm/pmm.c\<close>: walking and building the two levels (\<open>get_pte\<close>), mapping and
  unmapping a page, and the loops over an address range that unmap, free and copy.  A page
  directory is the number of its frame, an entry of a table is a frame and an index into it.
  \<open>tlb\<close> is the set of page numbers the processor may hold a translation of, for the directory
  \<open>cr3\<close> points to.  A loop over addresses is a \<open>partial_function\<close>: the addresses are words,
  and the code's own test for zero guards the wrap.
\<close>

section \<open>Operations\<close>

definition page2pa :: "nat \<Rightarrow> 32 word" where
  "page2pa p = push_bit 12 (of_nat p)"

definition pa2page :: "32 word \<Rightarrow> mem_st \<Rightarrow> nat res" where
  "pa2page pa s = (if PPN pa \<ge> npage (bud s) then Inl (Panic ''pa2page called with invalid pa'') else Inr (PPN pa))"

definition KADDR_frame :: "32 word \<Rightarrow> mem_st \<Rightarrow> nat res" where
  "KADDR_frame pa s = (if PPN pa \<ge> npage (bud s) then Inl (Panic ''KADDR called with invalid pa'') else Inr (PPN pa))"

definition pte2page :: "32 word \<Rightarrow> mem_st \<Rightarrow> nat res" where
  "pte2page pte s =
     (if pte AND PTE_P = 0 then Inl (Panic ''pte2page called with invalid pte'') else pa2page (PTE_ADDR pte) s)"

definition pde2page :: "32 word \<Rightarrow> mem_st \<Rightarrow> nat res" where
  "pde2page pde s = pa2page (PTE_ADDR pde) s"

definition rd_entry :: "nat \<times> nat \<Rightarrow> mem_st \<Rightarrow> 32 word" where
  "rd_entry e s = frame s (fst e) (snd e)"

definition wr_entry :: "nat \<times> nat \<Rightarrow> 32 word \<Rightarrow> mem_st \<Rightarrow> mem_st" where
  "wr_entry e v s = s\<lparr>frame := (frame s)(fst e := (frame s (fst e))(snd e := v))\<rparr>"

definition get_pte :: "nat \<Rightarrow> 32 word \<Rightarrow> bool \<Rightarrow> mem_st \<Rightarrow> ((nat \<times> nat) option \<times> mem_st) res" where
  "get_pte pgdir la create s =
     (let pdep = (pgdir, PDX la);
          found = (\<lambda>t. bindR (KADDR_frame (PTE_ADDR (rd_entry pdep t)) t) (\<lambda>f. Inr (Some (f, PTX la), t)))
      in if rd_entry pdep s AND PTE_P = 0 then
           (if \<not> create then Inr (None, s)
            else bindR (alloc_page s) (\<lambda>(page, s1).
              case page of
                None \<Rightarrow> Inr (None, s1)
              | Some p \<Rightarrow>
                  let s2 = upd_pg p (set_page_ref 1) s1; pa = page2pa p
                  in bindR (KADDR_frame pa s2) (\<lambda>f.
                     let s3 = s2\<lparr>frame := (frame s2)(f := (\<lambda>_. 0))\<rparr>
                     in found (wr_entry pdep (pa OR PTE_U OR PTE_W OR PTE_P) s3))))
         else found s)"

definition get_page :: "nat \<Rightarrow> 32 word \<Rightarrow> mem_st \<Rightarrow> nat option res" where
  "get_page pgdir la s =
     bindR (get_pte pgdir la False s) (\<lambda>(ptep, _).
       case ptep of
         None \<Rightarrow> Inr None
       | Some e \<Rightarrow> if rd_entry e s AND PTE_P \<noteq> 0 then bindR (pa2page (rd_entry e s) s) (\<lambda>p. Inr (Some p)) else Inr None)"

definition tlb_invalidate :: "nat \<Rightarrow> 32 word \<Rightarrow> mem_st \<Rightarrow> mem_st" where
  "tlb_invalidate pgdir la s = (if cr3_frame s = pgdir then s\<lparr>tlb := tlb s - {PPN la}\<rparr> else s)"

text \<open>Dropping what an entry refers to, shared by \<open>page_remove_pte\<close> and \<open>shmem_remove_entry_pte\<close>.\<close>

definition drop_mapped :: "32 word \<Rightarrow> mem_st \<Rightarrow> mem_st res" where
  "drop_mapped pte s =
     bindR (pte2page pte s) (\<lambda>p.
       if \<not> PageSwap s p then
         (let (r, s1) = page_ref_dec p s in if r = 0 then free_page p s1 else Inr s1)
       else
         (let s1 = (if pte AND PTE_D \<noteq> 0 then upd_pg p (page_set PG_dirty) s else s) in Inr (snd (page_ref_dec p s1))))"

definition page_remove_pte :: "nat \<Rightarrow> 32 word \<Rightarrow> nat \<times> nat \<Rightarrow> mem_st \<Rightarrow> mem_st res" where
  "page_remove_pte pgdir la ptep s =
     (if rd_entry ptep s AND PTE_P \<noteq> 0 then
        bindR (drop_mapped (rd_entry ptep s) s) (\<lambda>s1. Inr (tlb_invalidate pgdir la (wr_entry ptep 0 s1)))
      else if rd_entry ptep s \<noteq> 0 then
        bindR (swap_remove_entry (rd_entry ptep s) s) (\<lambda>s1. Inr (wr_entry ptep 0 s1))
      else Inr s)"

definition page_remove :: "nat \<Rightarrow> 32 word \<Rightarrow> mem_st \<Rightarrow> mem_st res" where
  "page_remove pgdir la s =
     bindR (get_pte pgdir la False s) (\<lambda>(ptep, s1).
       case ptep of None \<Rightarrow> Inr s1 | Some e \<Rightarrow> page_remove_pte pgdir la e s1)"

definition page_insert :: "nat \<Rightarrow> nat \<Rightarrow> 32 word \<Rightarrow> 32 word \<Rightarrow> mem_st \<Rightarrow> (int \<times> mem_st) res" where
  "page_insert pgdir p la perm s =
     bindR (get_pte pgdir la True s) (\<lambda>(ptep, s1).
       case ptep of
         None \<Rightarrow> Inr (- E_NO_MEM, s1)
       | Some e \<Rightarrow>
           let s2 = snd (page_ref_inc p s1); pte = rd_entry e s2
           in bindR (if pte \<noteq> 0 then
                       bindR (if pte AND PTE_P \<noteq> 0 then bindR (pte2page pte s2) (\<lambda>q. Inr (q = p)) else Inr False) (\<lambda>same.
                         if same then Inr (snd (page_ref_dec p s2)) else page_remove_pte pgdir la e s2)
                     else Inr s2)
                (\<lambda>s3. Inr (0, tlb_invalidate pgdir la (wr_entry e (page2pa p OR PTE_P OR perm) s3))))"

definition pgdir_alloc_page :: "nat \<Rightarrow> 32 word \<Rightarrow> 32 word \<Rightarrow> mem_st \<Rightarrow> (nat option \<times> mem_st) res" where
  "pgdir_alloc_page pgdir la perm s =
     bindR (alloc_page s) (\<lambda>(page, s1).
       case page of
         None \<Rightarrow> Inr (None, s1)
       | Some p \<Rightarrow>
           bindR (page_insert pgdir p la perm s1) (\<lambda>(r, s2).
             if r \<noteq> 0 then bindR (free_page p s2) (\<lambda>s3. Inr (None, s3)) else Inr (Some p, s2)))"

definition range_ok :: "32 word \<Rightarrow> 32 word \<Rightarrow> unit res" where
  "range_ok start stop =
     bindR (assertR (start mod PGSIZE = 0 \<and> stop mod PGSIZE = 0) ''start % PGSIZE == 0 && end % PGSIZE == 0'') (\<lambda>_.
       assertR (USER_ACCESS start stop) ''USER_ACCESS(start, end)'')"

partial_function (option) unmap_loop :: "nat \<Rightarrow> 32 word \<Rightarrow> 32 word \<Rightarrow> mem_st \<Rightarrow> mem_st res option" where
  "unmap_loop pgdir start stop s =
     (case get_pte pgdir start False s of
        Inl e \<Rightarrow> Some (Inl e)
      | Inr (ptep, s1) \<Rightarrow>
          let next = (case ptep of None \<Rightarrow> ROUNDDOWN (start + PTSIZE) PTSIZE | Some _ \<Rightarrow> start + PGSIZE)
          in case (case ptep of None \<Rightarrow> Inr s1
                   | Some e \<Rightarrow> if rd_entry e s1 \<noteq> 0 then page_remove_pte pgdir start e s1 else Inr s1) of
               Inl e \<Rightarrow> Some (Inl e)
             | Inr s2 \<Rightarrow> if next \<noteq> 0 \<and> next < stop then unmap_loop pgdir next stop s2 else Some (Inr s2))"

definition spinR :: "'a res option \<Rightarrow> 'a res" where
  "spinR r = (case r of None \<Rightarrow> Inl Spin | Some x \<Rightarrow> x)"

definition unmap_range :: "nat \<Rightarrow> 32 word \<Rightarrow> 32 word \<Rightarrow> mem_st \<Rightarrow> mem_st res" where
  "unmap_range pgdir start stop s = bindR (range_ok start stop) (\<lambda>_. spinR (unmap_loop pgdir start stop s))"

partial_function (option) exit_loop :: "nat \<Rightarrow> 32 word \<Rightarrow> 32 word \<Rightarrow> mem_st \<Rightarrow> mem_st res option" where
  "exit_loop pgdir start stop s =
     (let pde = rd_entry (pgdir, PDX start) s; next = start + PTSIZE
      in case (if pde AND PTE_P \<noteq> 0
               then bindR (pde2page pde s) (\<lambda>p. bindR (free_page p s) (\<lambda>s1. Inr (wr_entry (pgdir, PDX start) 0 s1)))
               else Inr s) of
           Inl e \<Rightarrow> Some (Inl e)
         | Inr s1 \<Rightarrow> if next \<noteq> 0 \<and> next < stop then exit_loop pgdir next stop s1 else Some (Inr s1))"

definition exit_range :: "nat \<Rightarrow> 32 word \<Rightarrow> 32 word \<Rightarrow> mem_st \<Rightarrow> mem_st res" where
  "exit_range pgdir start stop s =
     bindR (range_ok start stop) (\<lambda>_. spinR (exit_loop pgdir (ROUNDDOWN start PTSIZE) stop s))"

text \<open>One present page of \<open>copy_range\<close>: a private writable page becomes read-only on both sides.\<close>

definition copy_mapped :: "nat \<Rightarrow> nat \<Rightarrow> 32 word \<Rightarrow> bool \<Rightarrow> nat \<times> nat \<Rightarrow> mem_st \<Rightarrow> mem_st res" where
  "copy_mapped to from start share ptep s =
     (let pte = rd_entry ptep s; perm = pte AND PTE_USER
      in bindR (pte2page pte s) (\<lambda>p.
         bindR (if \<not> share \<and> pte AND PTE_W \<noteq> 0
                then let perm1 = perm AND NOT PTE_W
                     in bindR (page_insert from p start (perm1 OR pte AND PTE_SWAP) s) (\<lambda>(_, s1). Inr (perm1, s1))
                else Inr (perm, s)) (\<lambda>(perm2, s1).
         bindR (page_insert to p start perm2 s1) (\<lambda>(ret, s2).
         bindR (assertR (ret = 0) ''ret == 0'') (\<lambda>_. Inr s2)))))"

definition copy_one :: "nat \<Rightarrow> nat \<Rightarrow> 32 word \<Rightarrow> bool \<Rightarrow> nat \<times> nat \<Rightarrow> mem_st \<Rightarrow> (int \<times> mem_st) res" where
  "copy_one to from start share ptep s =
     bindR (get_pte to start True s) (\<lambda>(nptep, s1).
       case nptep of
         None \<Rightarrow> Inr (- E_NO_MEM, s1)
       | Some ne \<Rightarrow>
           bindR (assertR (rd_entry ptep s1 \<noteq> 0 \<and> rd_entry ne s1 = 0) ''*ptep != 0 && *nptep == 0'') (\<lambda>_.
             if rd_entry ptep s1 AND PTE_P \<noteq> 0 then bindR (copy_mapped to from start share ptep s1) (\<lambda>s2. Inr (0, s2))
             else let entry = rd_entry ptep s1
                  in bindR (swap_duplicate entry s1) (\<lambda>s2. Inr (0, wr_entry ne entry s2))))"

partial_function (option) copy_loop :: "nat \<Rightarrow> nat \<Rightarrow> 32 word \<Rightarrow> 32 word \<Rightarrow> bool \<Rightarrow> mem_st \<Rightarrow> (int \<times> mem_st) res option" where
  "copy_loop to from start stop share s =
     (case get_pte from start False s of
        Inl e \<Rightarrow> Some (Inl e)
      | Inr (ptep, s1) \<Rightarrow>
          let next = (case ptep of None \<Rightarrow> ROUNDDOWN (start + PTSIZE) PTSIZE | Some _ \<Rightarrow> start + PGSIZE)
          in case (case ptep of None \<Rightarrow> Inr (0, s1)
                   | Some e \<Rightarrow> if rd_entry e s1 \<noteq> 0 then copy_one to from start share e s1 else Inr (0, s1)) of
               Inl e \<Rightarrow> Some (Inl e)
             | Inr (r, s2) \<Rightarrow> if r \<noteq> 0 then Some (Inr (r, s2))
                 else if next \<noteq> 0 \<and> next < stop then copy_loop to from next stop share s2 else Some (Inr (0, s2)))"

definition copy_range :: "nat \<Rightarrow> nat \<Rightarrow> 32 word \<Rightarrow> 32 word \<Rightarrow> bool \<Rightarrow> mem_st \<Rightarrow> (int \<times> mem_st) res" where
  "copy_range to from start stop share s =
     bindR (range_ok start stop) (\<lambda>_. spinR (copy_loop to from start stop share s))"

fun boot_map_loop :: "nat \<Rightarrow> 32 word \<Rightarrow> nat \<Rightarrow> 32 word \<Rightarrow> 32 word \<Rightarrow> mem_st \<Rightarrow> mem_st res" where
  "boot_map_loop pgdir la 0 pa perm s = Inr s"
| "boot_map_loop pgdir la (Suc n) pa perm s =
     bindR (get_pte pgdir la True s) (\<lambda>(ptep, s1).
       case ptep of
         None \<Rightarrow> Inl (Assertion ''ptep != NULL'')
       | Some e \<Rightarrow> boot_map_loop pgdir (la + PGSIZE) n (pa + PGSIZE) perm (wr_entry e (pa OR PTE_P OR perm) s1))"

definition PGOFF :: "32 word \<Rightarrow> 32 word" where
  "PGOFF la = la AND 0xFFF"

definition boot_map_segment :: "nat \<Rightarrow> 32 word \<Rightarrow> 32 word \<Rightarrow> 32 word \<Rightarrow> 32 word \<Rightarrow> mem_st \<Rightarrow> mem_st res" where
  "boot_map_segment pgdir la sz pa perm s =
     bindR (assertR (PGOFF la = PGOFF pa) ''PGOFF(la) == PGOFF(pa)'') (\<lambda>_.
       let n = unat (ROUNDUP (sz + PGOFF la) PGSIZE div PGSIZE)
       in boot_map_loop pgdir (ROUNDDOWN la PGSIZE) n (ROUNDDOWN pa PGSIZE) perm s)"

section \<open>Page tables as maps\<close>

lemma PPN_PTE_ADDR [simp]: "PPN (PTE_ADDR w) = PPN w"
proof -
  have m: "0xFFF = (mask 12 :: 32 word)" by (simp add: mask_eq_exp_minus_1)
  have "bit (drop_bit 12 (w AND NOT (mask 12))) n = bit (drop_bit 12 w) n" for n
    using bit_imp_le_length [of w "12 + n"] by (auto simp: bit_drop_bit_eq bit_and_iff bit_not_iff bit_mask_iff)
  then have "drop_bit 12 (w AND NOT (mask 12)) = drop_bit 12 w" by (intro bit_eqI) simp
  then show ?thesis by (simp only: PPN_def PTE_ADDR_def m)
qed

text \<open>The entry for an address; a table that is not present holds no entries.\<close>

definition pt_lookup :: "mem_st \<Rightarrow> nat \<Rightarrow> 32 word \<Rightarrow> 32 word" where
  "pt_lookup s d la =
     (let pde = frame s d (PDX la) in if pde AND PTE_P = 0 then 0 else frame s (PPN pde) (PTX la))"

text \<open>The tables of a directory are frames of their own.\<close>

definition pt_shape :: "mem_st \<Rightarrow> nat \<Rightarrow> bool" where
  "pt_shape s d \<longleftrightarrow> (\<forall>i. frame s d i AND PTE_P \<noteq> 0 \<longrightarrow> PPN (frame s d i) \<noteq> d \<and>
     (\<forall>j. frame s d j AND PTE_P \<noteq> 0 \<longrightarrow> PPN (frame s d j) = PPN (frame s d i) \<longrightarrow> j = i))"

text \<open>\<open>entry_at s d la e\<close>: the entry \<open>e\<close> is the one \<open>get_pte\<close> returns for \<open>la\<close>.\<close>

definition entry_at :: "mem_st \<Rightarrow> nat \<Rightarrow> 32 word \<Rightarrow> nat \<times> nat \<Rightarrow> bool" where
  "entry_at s d la e \<longleftrightarrow> frame s d (PDX la) AND PTE_P \<noteq> 0 \<and> e = (PPN (frame s d (PDX la)), PTX la)"

lemma entry_at_rd: "entry_at s d la e \<Longrightarrow> rd_entry e s = pt_lookup s d la"
  by (simp add: entry_at_def rd_entry_def pt_lookup_def)

lemma wr_entry_frame: "frame (wr_entry e v s) f i = (if f = fst e \<and> i = snd e then v else frame s f i)"
  by (simp add: wr_entry_def)

lemma wr_entry_dir:
  assumes "pt_shape s d" "entry_at s d la e"
  shows "frame (wr_entry e v s) d = frame s d"
proof -
  have "fst e \<noteq> d" using assms by (auto simp: pt_shape_def entry_at_def)
  then show ?thesis by (simp add: wr_entry_def)
qed

lemma wr_entry_shape:
  assumes "pt_shape s d" "entry_at s d la e"
  shows "pt_shape (wr_entry e v s) d" "entry_at (wr_entry e v s) d la e"
  using assms wr_entry_dir [OF assms] by (simp_all add: pt_shape_def entry_at_def)

lemma wr_entry_lookup:
  assumes "pt_shape s d" "entry_at s d la e"
  shows "pt_lookup (wr_entry e v s) d la' = (if PPN la' = PPN la then v else pt_lookup s d la')"
proof -
  have dir: "frame (wr_entry e v s) d = frame s d" by (rule wr_entry_dir [OF assms])
  have e: "e = (PPN (frame s d (PDX la)), PTX la)" "frame s d (PDX la) AND PTE_P \<noteq> 0" using assms(2) by (simp_all add: entry_at_def)
  show ?thesis
  proof (cases "PPN la' = PPN la")
    case True
    then have "PDX la' = PDX la" "PTX la' = PTX la" using same_page [of la' la] by auto
    then show ?thesis using e dir True by (simp add: pt_lookup_def wr_entry_frame)
  next
    case False
    have ne: "\<not> (PPN (frame s d (PDX la')) = fst e \<and> PTX la' = snd e)" if "frame s d (PDX la') AND PTE_P \<noteq> 0"
    proof
      assume "PPN (frame s d (PDX la')) = fst e \<and> PTX la' = snd e"
      with assms(1) e that have "PDX la' = PDX la" "PTX la' = PTX la" by (auto simp: pt_shape_def)
      with False same_page show False by blast
    qed
    show ?thesis
    proof (cases "frame s d (PDX la') AND PTE_P = 0")
      case p: False
      then have "frame (wr_entry e v s) (PPN (frame s d (PDX la'))) (PTX la') = frame s (PPN (frame s d (PDX la'))) (PTX la')"
        using ne by (auto simp: wr_entry_frame)
      then show ?thesis using False dir p by (simp add: pt_lookup_def)
    qed (use False dir in \<open>simp add: pt_lookup_def\<close>)
  qed
qed

lemma lookup_cong: "frame s' = frame s \<Longrightarrow> pt_lookup s' d la = pt_lookup s d la"
  by (simp add: pt_lookup_def)

lemma shape_cong: "frame s' = frame s \<Longrightarrow> pt_shape s' d = pt_shape s d"
  by (simp add: pt_shape_def)

lemma entry_cong: "frame s' = frame s \<Longrightarrow> entry_at s' d la e = entry_at s d la e"
  by (simp add: entry_at_def)

section \<open>What the operations leave alone\<close>

lemma frame_simps [simp]:
  "frame (upd_pg p f s) = frame s" "frame (snd (page_ref_inc p s)) = frame s" "frame (snd (page_ref_dec p s)) = frame s"
  "frame (tlb_invalidate d la s) = frame s"
  by (simp_all add: upd_pg_def page_ref_inc_def page_ref_dec_def tlb_invalidate_def split_beta)

lemma free_page_frame: "free_page p s = Inr s' \<Longrightarrow> frame s' = frame s \<and> tlb s' = tlb s \<and> cr3_frame s' = cr3_frame s"
  by (auto simp: free_page_def res_simps)

lemma swap_list_del_frame: "swap_list_del p s = Inr s' \<Longrightarrow> frame s' = frame s \<and> tlb s' = tlb s \<and> cr3_frame s' = cr3_frame s"
  by (auto simp: swap_list_del_def res_simps split: if_splits)

lemma swap_free_page_frame: "swap_free_page p s = Inr s' \<Longrightarrow> frame s' = frame s \<and> tlb s' = tlb s \<and> cr3_frame s' = cr3_frame s"
  by (auto simp: swap_free_page_def swap_page_del_def res_simps upd_pg_def dest: free_page_frame)

lemma swap_remove_entry_frame:
  assumes "swap_remove_entry e s = Inr s'"
  shows "frame s' = frame s \<and> tlb s' = tlb s \<and> cr3_frame s' = cr3_frame s"
  using assms
  by (auto simp: swap_remove_entry_def res_simps split: if_splits option.splits
      dest!: swap_list_del_frame swap_free_page_frame)

lemma page_ref_dec_frame:
  "tlb (snd (page_ref_dec p s)) = tlb s" "cr3_frame (snd (page_ref_dec p s)) = cr3_frame s"
  "tlb (snd (page_ref_inc p s)) = tlb s" "cr3_frame (snd (page_ref_inc p s)) = cr3_frame s"
  "tlb (upd_pg p f s) = tlb s" "cr3_frame (upd_pg p f s) = cr3_frame s"
  by (simp_all add: page_ref_dec_def page_ref_inc_def upd_pg_def split_beta)

lemma drop_mapped_frame:
  assumes "drop_mapped pte s = Inr s'"
  shows "frame s' = frame s \<and> tlb s' = tlb s \<and> cr3_frame s' = cr3_frame s"
  using assms page_ref_dec_frame frame_simps(3)
  by (auto simp: drop_mapped_def res_simps split_beta split: if_splits dest!: free_page_frame)

text \<open>Removing an entry clears it and changes no other.\<close>

lemma page_remove_pte_lookup:
  assumes "pt_shape s d" "entry_at s d la e" "page_remove_pte d' la' e s = Inr s'"
  shows "pt_lookup s' d x = (if PPN x = PPN la then 0 else pt_lookup s d x)" "pt_shape s' d" "entry_at s' d la e"
    "rd_entry e s \<noteq> 0 \<Longrightarrow> cr3_frame s' = cr3_frame s" "tlb s' \<subseteq> tlb s"
proof -
  have wr: "pt_lookup t' d x = (if PPN x = PPN la then 0 else pt_lookup s d x) \<and> pt_shape t' d \<and> entry_at t' d la e"
    if "frame t = frame s" "frame t' = frame (wr_entry e 0 t)" for t t'
  proof -
    have sh: "pt_shape t d" "entry_at t d la e" using assms(1,2) that(1) shape_cong entry_cong by blast+
    show ?thesis
      using wr_entry_lookup [OF sh, of 0 x] wr_entry_shape [OF sh, of 0] lookup_cong [OF that(1)]
        lookup_cong [OF that(2)] shape_cong [OF that(2)] entry_cong [OF that(2)] by simp
  qed
  consider (p) t where "drop_mapped (rd_entry e s) s = Inr t" "s' = tlb_invalidate d' la' (wr_entry e 0 t)"
    | (q) t where "swap_remove_entry (rd_entry e s) s = Inr t" "s' = wr_entry e 0 t" | (z) "rd_entry e s = 0" "s' = s"
    using assms(3) by (auto simp: page_remove_pte_def res_simps split: if_splits)
  then have "pt_lookup s' d x = (if PPN x = PPN la then 0 else pt_lookup s d x) \<and> pt_shape s' d \<and> entry_at s' d la e \<and>
      cr3_frame s' = cr3_frame s \<and> tlb s' \<subseteq> tlb s"
  proof cases
    case p
    then show ?thesis using wr [of t s'] drop_mapped_frame [OF p(1)]
      by (auto simp: tlb_invalidate_def wr_entry_def)
  next
    case q
    then show ?thesis using wr [of t s'] swap_remove_entry_frame [OF q(1)] by (auto simp: wr_entry_def)
  next
    case z
    have "pt_lookup s d x = 0" if "PPN x = PPN la"
    proof -
      have "PDX x = PDX la" "PTX x = PTX la" using that same_page [of x la] by auto
      then have "pt_lookup s d x = pt_lookup s d la" by (simp add: pt_lookup_def)
      then show ?thesis using z(1) entry_at_rd [OF assms(2)] by simp
    qed
    then show ?thesis using z assms by simp
  qed
  then show "pt_lookup s' d x = (if PPN x = PPN la then 0 else pt_lookup s d x)" "pt_shape s' d" "entry_at s' d la e"
    "rd_entry e s \<noteq> 0 \<Longrightarrow> cr3_frame s' = cr3_frame s" "tlb s' \<subseteq> tlb s" by blast+
qed

section \<open>Walking\<close>

lemma get_pte_read:
  assumes "get_pte d la False s = Inr (r, s')"
  shows "s' = s" "r = None \<Longrightarrow> frame s d (PDX la) AND PTE_P = 0" "r = Some e \<Longrightarrow> entry_at s d la e"
  using assms by (auto simp: get_pte_def KADDR_frame_def rd_entry_def entry_at_def res_simps split: if_splits)

lemma page2pa_frame:
  assumes "p < 2 ^ 20"
  shows "PPN (page2pa p OR PTE_U OR PTE_W OR PTE_P) = p" "(page2pa p OR PTE_U OR PTE_W OR PTE_P) AND PTE_P \<noteq> 0"
    "PPN (page2pa p) = p" "(page2pa p OR PTE_P OR perm) AND PTE_P \<noteq> 0"
proof -
  have small: "drop_bit 12 PTE_U = 0" "drop_bit 12 PTE_W = 0" "drop_bit 12 PTE_P = 0"
    by (simp_all add: PTE_U_def PTE_W_def PTE_P_def)
  have "page2pa p = of_nat (p * 4096)" by (simp add: page2pa_def push_bit_eq_mult)
  then have u: "unat (page2pa p) = p * 4096" using assms by (simp only: unat_of_nat) simp
  then show 3: "PPN (page2pa p) = p" by (simp add: PPN_div)
  have "drop_bit 12 (page2pa p OR PTE_U OR PTE_W OR PTE_P) = drop_bit 12 (page2pa p)" by (simp add: drop_bit_or small)
  then show "PPN (page2pa p OR PTE_U OR PTE_W OR PTE_P) = p" using 3 by (simp add: PPN_def)
  have b: "bit PTE_P 0" by (simp add: PTE_P_def)
  show "(page2pa p OR PTE_U OR PTE_W OR PTE_P) AND PTE_P \<noteq> 0"
  proof
    assume "(page2pa p OR PTE_U OR PTE_W OR PTE_P) AND PTE_P = 0"
    then have "bit ((page2pa p OR PTE_U OR PTE_W OR PTE_P) AND PTE_P) 0 = bit (0 :: 32 word) 0" by simp
    with b show False by (simp add: bit_and_iff bit_or_iff)
  qed
  show "(page2pa p OR PTE_P OR perm) AND PTE_P \<noteq> 0"
  proof
    assume "(page2pa p OR PTE_P OR perm) AND PTE_P = 0"
    then have "bit ((page2pa p OR PTE_P OR perm) AND PTE_P) 0 = bit (0 :: 32 word) 0" by simp
    with b show False by (simp add: bit_and_iff bit_or_iff)
  qed
qed

text \<open>The memory and the tables fit together: the pages are those of a machine with at most four
  gigabytes, and neither the directory nor its tables are free pages.\<close>

definition pt_ok :: "mem_st \<Rightarrow> nat \<Rightarrow> bool" where
  "pt_ok s d \<longleftrightarrow> buddy_inv (bud s) \<and> npage (bud s) \<le> 2 ^ 20 \<and> pt_shape s d \<and> d \<notin> bfree (bud s) \<and>
     (\<forall>i. frame s d i AND PTE_P \<noteq> 0 \<longrightarrow> PPN (frame s d i) < npage (bud s) \<and> PPN (frame s d i) \<notin> bfree (bud s))"

lemma alloc_page_spec:
  assumes inv: "buddy_inv (bud s)"
  shows "(\<exists>p b. alloc_page s = Inr (Some p, s\<lparr>bud := b\<rparr>) \<and> buddy_inv b \<and> p \<in> bfree (bud s) \<and> bfree b = bfree (bud s) - {p} \<and>
      same_zones (bud s) b \<and> p < npage (bud s)) \<or> alloc_page s = Inr (None, s)"
proof -
  have one: "(1::nat) \<le> 2 ^ MAX_ORDER" by (simp add: MAX_ORDER_def)
  consider (a) p b where "buddy_alloc_pages 1 (bud s) = Inr (Some p, b)" "buddy_inv b" "same_zones (bud s) b"
      "{p..<p + 1} \<subseteq> bfree (bud s)" "bfree b = bfree (bud s) - {p..<p + 1}" | (n) "buddy_alloc_pages 1 (bud s) = Inr (None, bud s)"
    using buddy_alloc_spec [OF inv zero_less_one one] by blast
  then show ?thesis
  proof cases
    case a
    from a(4) obtain k q where "q \<in> set (free_list (bud s) k)" "p \<in> blk k q" by (auto simp: bfree_def)
    with buddy_invD(4) [OF inv] have "p < npage (bud s)" by (auto simp: good_block_def zone_pages_def)
    with a show ?thesis by (auto simp: alloc_page_def)
  next
    case n
    then show ?thesis by (simp add: alloc_page_def)
  qed
qed

lemma upd_page_bfree: "bfree (upd_page p f b) = bfree b"
  by (simp add: bfree_def)

lemma upd_ref_inv:
  assumes "buddy_inv b"
  shows "buddy_inv (upd_page p (set_page_ref v) b)" "same_zones b (upd_page p (set_page_ref v) b)"
proof -
  show z: "same_zones b (upd_page p (set_page_ref v) b)" by (simp add: same_zones_def)
  show "buddy_inv (upd_page p (set_page_ref v) b)" by (rule buddy_inv_cong(1) [OF assms _ _ z]) simp_all
qed

lemma get_pte_create:
  assumes ok: "pt_ok s d"
  obtains (none) "get_pte d la True s = Inr (None, s)" "frame s d (PDX la) AND PTE_P = 0"
    | (some) e s' where "get_pte d la True s = Inr (Some e, s')" "entry_at s' d la e" "pt_ok s' d"
      "\<And>x. pt_lookup s' d x = pt_lookup s d x" "rd_entry e s' = pt_lookup s d la" "cr3_frame s' = cr3_frame s" "tlb s' = tlb s"
      "bfree (bud s') \<subseteq> bfree (bud s)" "npage (bud s') = npage (bud s)"
      "\<And>f. f \<notin> bfree (bud s) \<Longrightarrow> f \<noteq> d \<Longrightarrow> frame s' f = frame s f"
proof (cases "frame s d (PDX la) AND PTE_P = 0")
  case False
  let ?e = "(PPN (frame s d (PDX la)), PTX la)"
  have "get_pte d la True s = Inr (Some ?e, s)"
    using False ok by (simp add: get_pte_def rd_entry_def KADDR_frame_def pt_ok_def not_le)
  moreover have "entry_at s d la ?e" using False by (simp add: entry_at_def)
  ultimately show ?thesis using ok by (intro some [of ?e s]) (simp_all add: entry_at_rd)
next
  case True
  note O = ok [unfolded pt_ok_def]
  from alloc_page_spec [of s] O consider (n) "alloc_page s = Inr (None, s)"
    | (a) p b where "alloc_page s = Inr (Some p, s\<lparr>bud := b\<rparr>)" "buddy_inv b" "p \<in> bfree (bud s)" "bfree b = bfree (bud s) - {p}"
      "same_zones (bud s) b" "p < npage (bud s)" by blast
  then show ?thesis
  proof cases
    case n
    then show ?thesis using True by (intro none) (simp_all add: get_pte_def rd_entry_def)
  next
    case a
    let ?pde = "page2pa p OR PTE_U OR PTE_W OR PTE_P" and ?b = "upd_page p (set_page_ref 1) b"
    let ?t = "s\<lparr>bud := ?b, frame := (frame s)(p := (\<lambda>_. 0))\<rparr>"
    let ?s = "wr_entry (d, PDX la) ?pde ?t" and ?e = "(p, PTX la)"
    have p20: "p < 2 ^ 20" using O a(6) by simp
    note pp = page2pa_frame [OF p20]
    have np: "npage b = npage (bud s)" using a(5) by (simp add: same_zones_def)
    have pd: "p \<noteq> d" using O a(3) by blast
    have tab: "PPN (frame s d i) \<noteq> p" if "frame s d i AND PTE_P \<noteq> 0" for i using that O a(3) by blast
    have fr: "frame ?s d i = (if i = PDX la then ?pde else frame s d i)" "frame ?s p i = 0" for i
      using pd by (simp_all add: wr_entry_def)
    have ot: "frame ?s f = frame s f" if "f \<noteq> d" "f \<noteq> p" for f using that by (simp add: wr_entry_def)
    have pde: "frame ?s d (PDX la) = ?pde" "frame ?s d i = frame s d i" if "i \<noteq> PDX la" for i using that fr by simp_all
    have g: "get_pte d la True s = Inr (Some ?e, ?s)"
      using True a(1,6) np pp pd
      by (simp add: get_pte_def rd_entry_def KADDR_frame_def upd_pg_def not_le wr_entry_def)
    have e: "entry_at ?s d la ?e" unfolding entry_at_def fr(1) if_P [OF refl] using pp(1,2) by simp
    have pres: "(frame ?s d i AND PTE_P \<noteq> 0) \<longleftrightarrow> i = PDX la \<or> frame s d i AND PTE_P \<noteq> 0" for i
      unfolding fr(1) using pp(2) True by (cases "i = PDX la") simp_all
    have ppn: "PPN (frame ?s d i) = (if i = PDX la then p else PPN (frame s d i))" for i
      unfolding fr(1) using pp(1) by simp
    have sh: "pt_shape ?s d"
      unfolding pt_shape_def pres ppn using O pd tab True by (auto simp: pt_shape_def)
    have bs: "bud ?s = ?b" by (simp add: wr_entry_def)
    have inv: "buddy_inv (bud ?s)" unfolding bs by (rule upd_ref_inv [OF a(2)])
    have bf: "bfree (bud ?s) = bfree (bud s) - {p}" unfolding bs upd_page_bfree by (rule a(4))
    have npb: "npage (bud ?s) = npage (bud s)" unfolding bs using np by simp
    have "PPN (frame ?s d i) < npage (bud ?s) \<and> PPN (frame ?s d i) \<notin> bfree (bud ?s)" if "frame ?s d i AND PTE_P \<noteq> 0" for i
      using that unfolding pres ppn bf npb using O a(6) by auto
    then have ok': "pt_ok ?s d" unfolding pt_ok_def using inv sh O bf npb by auto
    have lk: "pt_lookup ?s d x = pt_lookup s d x" for x
    proof (cases "PDX x = PDX la")
      case c: True
      then show ?thesis using True pp(1) fr by (simp add: pt_lookup_def)
    next
      case c: False
      have "frame ?s (PPN (frame s d (PDX x))) = frame s (PPN (frame s d (PDX x)))" if "frame s d (PDX x) AND PTE_P \<noteq> 0"
        by (rule ot) (use that O tab in \<open>auto simp: pt_shape_def\<close>)
      then show ?thesis using c fr(1) by (simp add: pt_lookup_def)
    qed
    show ?thesis
    proof (rule some [OF g e ok'])
      show "rd_entry ?e ?s = pt_lookup s d la" using entry_at_rd [OF e] lk by simp
      show "frame ?s f = frame s f" if "f \<notin> bfree (bud s)" "f \<noteq> d" for f by (rule ot) (use that a(3) in auto)
    qed (use lk bf npb in \<open>auto simp: wr_entry_def\<close>)
  qed
qed

section \<open>Mapping and unmapping\<close>

lemma page_insert_spec:
  assumes ok: "pt_ok s d" and r: "page_insert d p la perm s = Inr (0, s')"
  shows "(\<forall>x. pt_lookup s' d x = (if PPN x = PPN la then page2pa p OR PTE_P OR perm else pt_lookup s d x)) \<and> pt_shape s' d \<and>
    (cr3_frame s' = d \<longrightarrow> PPN la \<notin> tlb s')"
proof (cases rule: get_pte_create [OF ok, where la = la, case_names none some])
  case none
  then show ?thesis using r by (simp add: page_insert_def E_NO_MEM_def)
next
  case (some e s1)
  let ?s2 = "snd (page_ref_inc p s1)"
  have sh: "pt_shape s1 d" using some(3) by (simp add: pt_ok_def)
  have sh2: "pt_shape ?s2 d" "entry_at ?s2 d la e" using sh some(2) by (simp_all add: pt_shape_def entry_at_def)
  have lk2: "pt_lookup ?s2 d y = pt_lookup s d y" for y
    using some(4) [of y] lookup_cong [of ?s2 s1 d y] by simp
  from r some(1) obtain s3 where s3: "s' = tlb_invalidate d la (wr_entry e (page2pa p OR PTE_P OR perm) s3)"
      "s3 = ?s2 \<or> s3 = snd (page_ref_dec p ?s2) \<or> page_remove_pte d la e ?s2 = Inr s3"
    by (auto simp: page_insert_def res_simps split: if_splits)
  have "pt_shape s3 d \<and> entry_at s3 d la e \<and> (PPN y \<noteq> PPN la \<longrightarrow> pt_lookup s3 d y = pt_lookup s d y)" for y
    using s3(2)
  proof (elim disjE)
    assume "s3 = snd (page_ref_dec p ?s2)"
    then have f: "frame s3 = frame ?s2" by simp
    show ?thesis unfolding shape_cong [OF f] entry_cong [OF f] lookup_cong [OF f] using sh2 lk2 by blast
  next
    assume rm: "page_remove_pte d la e ?s2 = Inr s3"
    show ?thesis using page_remove_pte_lookup(1-3) [OF sh2 rm] lk2 [of y] by simp
  qed (use sh2 lk2 in blast)
  then have sh3: "pt_shape s3 d" "entry_at s3 d la e" and lk3: "PPN y \<noteq> PPN la \<Longrightarrow> pt_lookup s3 d y = pt_lookup s d y" for y
    by blast+
  have fs: "frame s' = frame (wr_entry e (page2pa p OR PTE_P OR perm) s3)" using s3(1) by simp
  have "pt_lookup s' d x = (if PPN x = PPN la then page2pa p OR PTE_P OR perm else pt_lookup s d x)" for x
    unfolding lookup_cong [OF fs] wr_entry_lookup [OF sh3] using lk3 by simp
  moreover have "pt_shape s' d" unfolding shape_cong [OF fs] by (rule wr_entry_shape [OF sh3])
  moreover have "PPN la \<notin> tlb s'" if "cr3_frame s' = d" using that s3(1) by (auto simp: tlb_invalidate_def split: if_splits)
  ultimately show ?thesis by blast
qed

text \<open>A page can always be mapped where nothing is mapped, unless memory for a table is missing.\<close>

lemma page_insert_empty:
  assumes ok: "pt_ok s d" and z: "pt_lookup s d la = 0"
  shows "\<exists>r s'. page_insert d p la perm s = Inr (r, s') \<and> (r \<noteq> 0 \<longrightarrow> r = - E_NO_MEM \<and> s' = s)"
proof (cases rule: get_pte_create [OF ok, where la = la, case_names none some])
  case none
  then show ?thesis by (simp add: page_insert_def)
next
  case (some e s1)
  have "rd_entry e (snd (page_ref_inc p s1)) = 0" using some(5) z by (simp add: rd_entry_def)
  then show ?thesis using some(1) by (simp add: page_insert_def)
qed

lemma page_numbers:
  fixes a :: "32 word"
  assumes "a mod PGSIZE = 0"
  shows "unat a = PPN a * 4096" "a \<le> x \<longleftrightarrow> PPN a \<le> PPN x" "x < a \<longleftrightarrow> PPN x < PPN a"
proof -
  have "unat a mod 4096 = 0" using assms by (simp add: PGSIZE_def unat_mod_distrib flip: unat_eq_0)
  then show u: "unat a = PPN a * 4096" using div_mult_mod_eq [of "unat a" 4096] by (simp add: PPN_div)
  show "x < a \<longleftrightarrow> PPN x < PPN a" unfolding word_less_nat_alt u by (simp add: PPN_div div_less_iff_less_mult)
  then show "a \<le> x \<longleftrightarrow> PPN a \<le> PPN x" by (simp add: not_less [symmetric])
qed

text \<open>The next address of the loops: the next page, or the first page of the next table.\<close>

lemma next_page:
  assumes "a mod PGSIZE = 0" "a < USERTOP"
  shows "PPN (a + PGSIZE) = PPN a + 1" "(a + PGSIZE) mod PGSIZE = 0" "a + PGSIZE \<noteq> 0"
proof -
  have u: "unat a = PPN a * 4096" by (rule page_numbers [OF assms(1)])
  have "unat a < 2952790016" using assms(2) by (simp add: USERTOP_def word_less_nat_alt)
  then have n: "unat (a + PGSIZE) = unat a + 4096" by (simp add: PGSIZE_def unat_word_ariths(1))
  show "PPN (a + PGSIZE) = PPN a + 1" by (simp add: PPN_div n)
  have "unat ((a + PGSIZE) mod PGSIZE) = 0"
    by (simp only: unat_mod_distrib n u) (simp add: PGSIZE_def)
  then show "(a + PGSIZE) mod PGSIZE = 0" by (simp only: unat_eq_zero)
  show "a + PGSIZE \<noteq> 0" using n by (auto simp flip: unat_eq_0)
qed

lemma next_table:
  assumes "a < USERTOP"
  shows "unat (ROUNDDOWN (a + PTSIZE) PTSIZE) = (PDX a + 1) * 4194304"
    "PPN (ROUNDDOWN (a + PTSIZE) PTSIZE) = (PDX a + 1) * 1024" "ROUNDDOWN (a + PTSIZE) PTSIZE mod PGSIZE = 0"
    "ROUNDDOWN (a + PTSIZE) PTSIZE \<noteq> 0"
proof -
  let ?n = "ROUNDDOWN (a + PTSIZE) PTSIZE"
  have "unat a < 2952790016" using assms by (simp add: USERTOP_def word_less_nat_alt)
  then have s: "unat (a + PTSIZE) = unat a + 4194304" by (simp add: PTSIZE_def unat_word_ariths(1))
  have le: "(a + PTSIZE) mod PTSIZE \<le> a + PTSIZE" by (simp add: word_le_nat_alt unat_mod_distrib)
  have "unat ?n = unat (a + PTSIZE) - unat ((a + PTSIZE) mod PTSIZE)"
    unfolding ROUNDDOWN_def by (rule unat_sub [OF le])
  also have "unat ((a + PTSIZE) mod PTSIZE) = (unat a + 4194304) mod 4194304"
    by (simp only: unat_mod_distrib s) (simp add: PTSIZE_def)
  also have "unat (a + PTSIZE) - (unat a + 4194304) mod 4194304 = (PDX a + 1) * 4194304"
    unfolding s minus_mod_eq_div_mult by (simp add: PDX_div div_add_self2)
  finally show n: "unat ?n = (PDX a + 1) * 4194304" .
  show "PPN ?n = (PDX a + 1) * 1024" by (simp add: PPN_div n)
  have "unat (?n mod PGSIZE) = 0" by (simp only: unat_mod_distrib n) (simp add: PGSIZE_def)
  then show "?n mod PGSIZE = 0" by (simp only: unat_eq_zero)
  show "?n \<noteq> 0" using n by (auto simp flip: unat_eq_0)
qed

lemma table_pages:
  assumes "PPN a \<le> PPN x" "PPN x < (PDX a + 1) * 1024"
  shows "PDX x = PDX a"
proof -
  have "1024 * PDX a \<le> PPN a" by (simp add: PDX_PTX)
  then show ?thesis using assms unfolding PDX_PTX(1) [of x] by (intro div_nat_eqI) simp_all
qed

lemma below_next_table: "PPN a < (PDX a + 1) * 1024"
  using div_mult_mod_eq [of "PPN a" 1024] mod_less_divisor [of 1024 "PPN a"] by (simp add: PDX_PTX)

text \<open>One turn of the unmapping loop on the page or the table at \<open>start\<close>.\<close>

lemma unmap_loop_step:
  assumes sh: "pt_shape s d" and al: "a mod PGSIZE = 0" "a < USERTOP"
  shows "(\<exists>e. unmap_loop d a b s = Some (Inl e)) \<or>
    (\<exists>t nx. unmap_loop d a b s = (if nx < b then unmap_loop d nx b t else Some (Inr t)) \<and> pt_shape t d \<and>
      nx mod PGSIZE = 0 \<and> PPN a < PPN nx \<and> (\<forall>x. PPN a \<le> PPN x \<and> PPN x < PPN nx \<longrightarrow> pt_lookup t d x = 0) \<and>
      (\<forall>x. PPN x \<noteq> PPN a \<longrightarrow> pt_lookup t d x = pt_lookup s d x))"
proof (cases "get_pte d a False s")
  case (Inl e)
  have "unmap_loop d a b s = Some (Inl e)" by (subst unmap_loop.simps) (simp add: Inl)
  then show ?thesis by blast
next
  case (Inr rs)
  obtain r t where rs: "rs = (r, t)" by (cases rs)
  note g = Inr [unfolded rs]
  have t: "t = s" by (rule get_pte_read(1) [OF g])
  show ?thesis
  proof (cases r)
    case None
    let ?n = "ROUNDDOWN (a + PTSIZE) PTSIZE"
    note n = next_table [OF al(2)]
    have z: "frame s d (PDX a) AND PTE_P = 0" by (rule get_pte_read(2) [OF g None])
    have "pt_lookup s d x = 0" if "PPN a \<le> PPN x" "PPN x < PPN ?n" for x
      using table_pages [OF that(1)] that(2) z n(2) by (simp add: pt_lookup_def)
    moreover have "unmap_loop d a b s = (if ?n < b then unmap_loop d ?n b s else Some (Inr s))"
      by (subst unmap_loop.simps) (simp add: g None t n(4))
    moreover have "PPN a < PPN ?n" unfolding n(2) by (rule below_next_table)
    ultimately show ?thesis using sh n(3) by (intro disjI2 exI [of _ s] exI [of _ ?n]) blast
  next
    case (Some e)
    have ent: "entry_at s d a e" by (rule get_pte_read(3) [OF g Some])
    note n = next_page [OF al]
    have one: "PPN a \<le> PPN x \<and> PPN x < PPN (a + PGSIZE) \<longleftrightarrow> PPN x = PPN a" for x unfolding n(1) by auto
    let ?r = "if rd_entry e s \<noteq> 0 then page_remove_pte d a e s else Inr s"
    show ?thesis
    proof (cases ?r)
      case (Inl f)
      then have "unmap_loop d a b s = Some (Inl f)"
        by (subst unmap_loop.simps) (simp add: g Some t)
      then show ?thesis by blast
    next
      case (Inr u)
      have e: "unmap_loop d a b s = (if a + PGSIZE < b then unmap_loop d (a + PGSIZE) b u else Some (Inr u))"
        by (subst unmap_loop.simps) (use Inr in \<open>simp add: g Some t n(3)\<close>)
      have rm: "page_remove_pte d a e s = Inr u"
        using Inr by (cases "rd_entry e s = 0") (simp_all add: page_remove_pte_def)
      note q = page_remove_pte_lookup [OF sh ent rm]
      have "PPN a < PPN (a + PGSIZE)" unfolding n(1) by simp
      then show ?thesis using e q(1,2) n(2) one by (intro disjI2 exI [of _ u] exI [of _ "a + PGSIZE"]) auto
    qed
  qed
qed

lemma unmap_loop_spec:
  assumes "pt_shape s d" "a mod PGSIZE = 0" "b mod PGSIZE = 0" "a < b" "b \<le> USERTOP" "k = PPN b - PPN a"
  shows "(\<exists>e. unmap_loop d a b s = Some (Inl e)) \<or>
    (\<exists>s'. unmap_loop d a b s = Some (Inr s') \<and> pt_shape s' d \<and>
      (\<forall>x. pt_lookup s' d x = (if a \<le> x \<and> x < b then 0 else pt_lookup s d x)))"
  using assms
proof (induction k arbitrary: a s rule: less_induct)
  case (less k)
  note A = page_numbers [OF less.prems(2)] and B = page_numbers [OF less.prems(3)]
  have au: "a < USERTOP" using less.prems(4,5) by simp
  have ab: "PPN a < PPN b" using less.prems(4) B(3) by blast
  from unmap_loop_step [OF less.prems(1,2) au, of b] show ?case
  proof (elim disjE exE conjE)
    fix t nx
    assume u: "unmap_loop d a b s = (if nx < b then unmap_loop d nx b t else Some (Inr t))" and sh: "pt_shape t d"
      and nx: "nx mod PGSIZE = 0" "PPN a < PPN nx"
      and z: "\<forall>x. PPN a \<le> PPN x \<and> PPN x < PPN nx \<longrightarrow> pt_lookup t d x = 0"
      and o: "\<forall>x. PPN x \<noteq> PPN a \<longrightarrow> pt_lookup t d x = pt_lookup s d x"
    note N = page_numbers [OF nx(1)]
    show ?case
    proof (cases "nx < b")
      case True
      have "PPN b - PPN nx < k" using nx(2) ab less.prems(6) by simp
      from less.IH [OF this sh nx(1) less.prems(3) True less.prems(5) refl]
      show ?thesis
      proof (elim disjE exE conjE)
        fix s' assume s': "unmap_loop d nx b t = Some (Inr s')" "pt_shape s' d"
          "\<forall>x. pt_lookup s' d x = (if nx \<le> x \<and> x < b then 0 else pt_lookup t d x)"
        have "pt_lookup s' d x = (if a \<le> x \<and> x < b then 0 else pt_lookup s d x)" for x
        proof (cases "a \<le> x \<and> x < b")
          case T: True
          then show ?thesis using s'(3) z A(2) [of x] N(2) [of x] by (cases "nx \<le> x") auto
        next
          case F: False
          have "PPN x \<noteq> PPN a" using F A(2) [of x] B(3) [of x] ab by auto
          moreover have "\<not> (nx \<le> x \<and> x < b)" using F A(2) [of x] N(2) [of x] nx(2) by auto
          ultimately show ?thesis using s'(3) o F by auto
        qed
        then show ?thesis using u True s' by simp
      qed (use u True in simp)
    next
      case False
      have n: "PPN b \<le> PPN nx" using False B(3) [of nx] by simp
      have "pt_lookup t d x = (if a \<le> x \<and> x < b then 0 else pt_lookup s d x)" for x
      proof (cases "a \<le> x \<and> x < b")
        case T: True
        then show ?thesis using z n A(2) [of x] B(3) [of x] by auto
      next
        case F: False
        have "PPN x \<noteq> PPN a" using F A(2) [of x] B(3) [of x] ab by auto
        then show ?thesis using o F by auto
      qed
      then show ?thesis using u False sh by simp
    qed
  qed blast
qed

section \<open>Copy on write\<close>

lemma page_insert_present:
  assumes "entry_at s d la e" "fst e < npage (bud s)"
  shows "rd_entry e s = 0 \<Longrightarrow> page_insert d p la perm s =
      Inr (0, tlb_invalidate d la (wr_entry e (page2pa p OR PTE_P OR perm) (snd (page_ref_inc p s))))"
    and "rd_entry e s AND PTE_P \<noteq> 0 \<Longrightarrow> pte2page (rd_entry e s) s = Inr p \<Longrightarrow> page_insert d p la perm s =
      Inr (0, tlb_invalidate d la (wr_entry e (page2pa p OR PTE_P OR perm) (snd (page_ref_dec p (snd (page_ref_inc p s))))))"
proof -
  have g: "get_pte d la True s = Inr (Some e, s)"
    using assms by (auto simp: get_pte_def entry_at_def rd_entry_def KADDR_frame_def not_le)
  have rd: "rd_entry e (snd (page_ref_inc p s)) = rd_entry e s" by (simp add: rd_entry_def)
  have pp: "pte2page w (snd (page_ref_inc p s)) = pte2page w s" for w
    by (simp add: pte2page_def pa2page_def page_ref_inc_def upd_pg_def split_beta)
  show "rd_entry e s = 0 \<Longrightarrow> page_insert d p la perm s =
      Inr (0, tlb_invalidate d la (wr_entry e (page2pa p OR PTE_P OR perm) (snd (page_ref_inc p s))))"
    by (simp add: page_insert_def g rd)
  show "rd_entry e s AND PTE_P \<noteq> 0 \<Longrightarrow> pte2page (rd_entry e s) s = Inr p \<Longrightarrow> page_insert d p la perm s =
      Inr (0, tlb_invalidate d la (wr_entry e (page2pa p OR PTE_P OR perm) (snd (page_ref_dec p (snd (page_ref_inc p s))))))"
    by (auto simp: page_insert_def g rd pp)
qed

lemma page_ref_simps:
  "pg_ref (pg (snd (page_ref_inc p s)) q) = (if q = p then pg_ref (pg s p) + 1 else pg_ref (pg s q))"
  "pg_ref (pg (snd (page_ref_dec p s)) q) = (if q = p then pg_ref (pg s p) - 1 else pg_ref (pg s q))"
  "pg (wr_entry e v s) = pg s" "pg (tlb_invalidate d la s) = pg s" "npage (bud (snd (page_ref_inc p s))) = npage (bud s)"
  "npage (bud (snd (page_ref_dec p s))) = npage (bud s)" "npage (bud (wr_entry e v s)) = npage (bud s)"
  "npage (bud (tlb_invalidate d la s)) = npage (bud s)"
  by (simp_all add: page_ref_inc_def page_ref_dec_def atomic_add_return_def atomic_sub_return_def upd_pg_def
      wr_entry_def tlb_invalidate_def split_beta)

lemma no_write_bit: "((page2pa p OR PTE_P OR ((w AND PTE_USER) AND NOT PTE_W OR v AND PTE_SWAP)) AND PTE_W) = 0"
  "((page2pa p OR PTE_P OR ((w AND PTE_USER) AND NOT PTE_W)) AND PTE_W) = 0"
proof -
  have b: "bit PTE_W n \<longleftrightarrow> n = 1" "\<not> bit PTE_P 1" "\<not> bit PTE_SWAP 1" "\<not> bit (page2pa p) 1" for n
  proof -
    show "bit PTE_W n \<longleftrightarrow> n = 1" using bit_exp_iff [of 1 n, where ?'a = "32 word"] by (auto simp: PTE_W_def)
    show "\<not> bit PTE_P 1" "\<not> bit PTE_SWAP 1" by (simp_all add: PTE_P_def PTE_SWAP_def PTE_A_def PTE_D_def bit_simps)
    show "\<not> bit (page2pa p) 1" by (simp add: page2pa_def bit_push_bit_iff)
  qed
  show "((page2pa p OR PTE_P OR ((w AND PTE_USER) AND NOT PTE_W OR v AND PTE_SWAP)) AND PTE_W) = 0"
    "((page2pa p OR PTE_P OR ((w AND PTE_USER) AND NOT PTE_W)) AND PTE_W) = 0"
    by (rule bit_word_eqI, simp only: bit_and_iff bit_or_iff bit_not_iff b(1) bit_0_eq, use b(2-4) in blast)+
qed

section \<open>Properties\<close>


text \<open>A directory in frame 0 of the small memory, with nothing mapped.\<close>

definition empty_dir :: mem_st where
  "empty_dir = small_cache\<lparr>bud := small_zone, tlb := {1}\<rparr>"

lemma empty_dir_ok: "pt_ok empty_dir 0" "pt_lookup empty_dir 0 x = 0" "bfree (bud empty_dir) = {4..<8}"
  using small_zone_spec(1,2)
  by (simp_all add: pt_ok_def empty_dir_def pt_shape_def pt_lookup_def small_cache_def)
    (simp add: small_zone_def)




text \<open>C28: copying a private, writable page into another address space makes both entries map the
  same frame without write permission, so that neither side can change what the other sees, and
  counts one more reference to the frame.\<close>

theorem copy_private_read_only:
  assumes "entry_at s from la e" "entry_at s to la ne" "fst e < npage (bud s)" "fst ne < npage (bud s)"
    and sep: "fst e \<noteq> fst ne" "fst e \<noteq> from" "fst e \<noteq> to" "fst ne \<noteq> from" "fst ne \<noteq> to"
    and pte: "rd_entry e s AND PTE_P \<noteq> 0" "rd_entry e s AND PTE_W \<noteq> 0" "rd_entry ne s = 0"
    and p: "pte2page (rd_entry e s) s = Inr p" "npage (bud s) \<le> 2 ^ 20"
  shows "\<exists>s'. copy_mapped to from la False e s = Inr s' \<and> rd_entry e s' AND PTE_W = 0 \<and> rd_entry ne s' AND PTE_W = 0 \<and>
    (\<exists>pe pn. rd_entry e s' = page2pa p OR PTE_P OR pe \<and> rd_entry ne s' = page2pa p OR PTE_P OR pn) \<and>
    pg_ref (pg s' p) = pg_ref (pg s p) + 1 \<and> (\<forall>q. q = p \<or> pg_ref (pg s' q) = pg_ref (pg s q))"
proof -
  let ?perm = "(rd_entry e s AND PTE_USER) AND NOT PTE_W" and ?sw = "rd_entry e s AND PTE_SWAP"
  let ?w1 = "page2pa p OR PTE_P OR (?perm OR ?sw)" and ?w2 = "page2pa p OR PTE_P OR ?perm"
  let ?s1 = "tlb_invalidate from la (wr_entry e ?w1 (snd (page_ref_dec p (snd (page_ref_inc p s)))))"
  let ?s2 = "tlb_invalidate to la (wr_entry ne ?w2 (snd (page_ref_inc p ?s1)))"
  have i1: "page_insert from p la (?perm OR ?sw) s = Inr (0, ?s1)"
    by (rule page_insert_present(2) [OF assms(1,3) pte(1) p(1)])
  have fr: "frame ?s1 f = frame s f" if "f \<noteq> fst e" for f using that by (simp add: wr_entry_def)
  have ne: "entry_at ?s1 to la ne" using assms(2) sep fr by (simp add: entry_at_def)
  have ne0: "rd_entry ne ?s1 = 0" using pte(3) sep fr [of "fst ne"] by (simp add: rd_entry_def)
  have np: "fst ne < npage (bud ?s1)" using assms(4) by (simp add: page_ref_simps)
  have i2: "page_insert to p la ?perm ?s1 = Inr (0, ?s2)" by (rule page_insert_present(1) [OF ne np ne0])
  have c: "copy_mapped to from la False e s = Inr ?s2"
    using p(1) pte(2) i1 i2 by (simp add: copy_mapped_def)
  have r1: "rd_entry e ?s2 = ?w1" using sep(1) by (simp add: rd_entry_def wr_entry_def)
  have r2: "rd_entry ne ?s2 = ?w2" by (simp add: rd_entry_def wr_entry_def)
  have "pg_ref (pg ?s2 q) = (if q = p then pg_ref (pg s p) + 1 else pg_ref (pg s q))" for q
    by (simp add: page_ref_simps)
  then show ?thesis using c r1 r2 no_write_bit by (intro exI [of _ ?s2]) auto
qed

text \<open>Two directories, in frames 0 and 1, with tables in frames 2 and 3; the first maps frame 5.\<close>

definition two_dirs :: mem_st where
  "two_dirs = empty_dir\<lparr>frame := (\<lambda>f i. if f = 0 \<and> i = 0 then 0x2007 else if f = 1 \<and> i = 0 then 0x3007
     else if f = 2 \<and> i = 1 then 0x5007 else 0)\<rparr>"

theorem copy_private_read_only_witness:
  "\<exists>s'. copy_mapped 1 0 0x1000 False (2, 1) two_dirs = Inr s' \<and> rd_entry (2, 1) s' AND PTE_W = 0 \<and> rd_entry (3, 1) s' AND PTE_W = 0"
proof -
  have i: "PDX 0x1000 = 0" "PTX 0x1000 = 1" by (simp_all add: PDX_div PTX_mod)
  have n: "npage (bud two_dirs) = 8" by (simp add: two_dirs_def empty_dir_def small_zone_def)
  have f: "frame two_dirs 0 0 = 0x2007" "frame two_dirs 1 0 = 0x3007" "frame two_dirs 2 1 = 0x5007" "frame two_dirs 3 1 = 0"
    by (simp_all add: two_dirs_def)
  have "entry_at two_dirs 0 0x1000 (2, 1)" "entry_at two_dirs 1 0x1000 (3, 1)"
    by (simp_all only: entry_at_def i f) (simp_all add: PPN_div PTE_P_def)
  moreover have "rd_entry (2, 1) two_dirs AND PTE_P \<noteq> 0" "rd_entry (2, 1) two_dirs AND PTE_W \<noteq> 0" "rd_entry (3, 1) two_dirs = 0"
    by (simp_all add: rd_entry_def f [simplified] PTE_P_def PTE_W_def)
  moreover have "pte2page (rd_entry (2, 1) two_dirs) two_dirs = Inr 5"
    by (simp add: rd_entry_def f [simplified] pte2page_def pa2page_def n PTE_P_def) (simp add: PPN_div)
  ultimately show ?thesis
    using copy_private_read_only [of two_dirs 0 "0x1000" "(2, 1)" 1 "(3, 1)" 5] n by auto
qed

end
