(* ===== verification/Rb_Tree.thy ===== *)
theory Rb_Tree
  imports Prelude
begin

text \<open>
  Red-black trees, \<open>kern/libs/rb_tree.c\<close>, on a store of nodes linked by \<open>parent\<close>, \<open>left\<close> and
  \<open>right\<close>.  The sentinel \<open>nil\<close> stands for missing children, and the left child of the sentinel
  \<open>root\<close> is the root of the tree.  The macros that the source expands twice, with left and
  right exchanged, are definitions over a side.  \<open>kmalloc\<close> hands out the nodes of a pool.
  A walk along pointers is a \<open>partial_function\<close>.
\<close>

section \<open>Nodes\<close>

record rb_node =
  red :: bool
  parent :: nat
  left :: nat
  right :: nat

record rb_tree =
  rb_addr :: nat
  nil :: nat
  root :: nat

type_synonym rb_store = "nat \<Rightarrow> rb_node"

datatype side = L | R

fun opp :: "side \<Rightarrow> side" where
  "opp L = R"
| "opp R = L"

definition child :: "side \<Rightarrow> rb_node \<Rightarrow> nat" where
  "child d n = (case d of L \<Rightarrow> left n | R \<Rightarrow> right n)"

definition set_child :: "side \<Rightarrow> nat \<Rightarrow> nat \<Rightarrow> rb_store \<Rightarrow> rb_store" where
  "set_child d p c st = st(p := (case d of L \<Rightarrow> (st p)\<lparr>left := c\<rparr> | R \<Rightarrow> (st p)\<lparr>right := c\<rparr>))"

definition set_parent :: "nat \<Rightarrow> nat \<Rightarrow> rb_store \<Rightarrow> rb_store" where
  "set_parent p q st = st(p := (st p)\<lparr>parent := q\<rparr>)"

definition set_red :: "nat \<Rightarrow> bool \<Rightarrow> rb_store \<Rightarrow> rb_store" where
  "set_red p b st = st(p := (st p)\<lparr>red := b\<rparr>)"

section \<open>Creation\<close>

definition rb_tree_empty :: "rb_tree \<Rightarrow> rb_store \<Rightarrow> bool" where
  "rb_tree_empty t st = (left (st (root t)) = nil t)"

text \<open>Three objects from the pool: the tree, \<open>nil\<close> and \<open>root\<close>; what was taken goes back if the
  pool runs dry.\<close>

definition rb_tree_create :: "nat list \<Rightarrow> rb_store \<Rightarrow> rb_tree option \<times> nat list \<times> rb_store" where
  "rb_tree_create pool st =
     (case pool of
        tr # n # r # rest \<Rightarrow>
          (Some \<lparr>rb_addr = tr, nil = n, root = r\<rparr>, rest,
           (st(n := \<lparr>red = False, parent = n, left = n, right = n\<rparr>))(r := \<lparr>red = False, parent = n, left = n, right = n\<rparr>))
      | tr # n # rest \<Rightarrow> (None, pool, st(n := \<lparr>red = False, parent = n, left = n, right = n\<rparr>))
      | _ \<Rightarrow> (None, pool, st))"

definition rb_tree_destroy :: "rb_tree \<Rightarrow> nat list \<Rightarrow> nat list" where
  "rb_tree_destroy t pool = rb_addr t # nil t # root t # pool"

section \<open>Rotation\<close>

definition rb_rotate :: "side \<Rightarrow> rb_tree \<Rightarrow> nat \<Rightarrow> rb_store \<Rightarrow> rb_store res" where
  "rb_rotate d t x st =
     (let y = child (opp d) (st x)
      in bindR (assertR (x \<noteq> root t \<and> x \<noteq> nil t \<and> y \<noteq> nil t) ''x != tree->root && x != nil && y != nil'') (\<lambda>_.
         let st1 = set_child (opp d) x (child d (st y)) st;
             c = child d (st1 y);
             st2 = (if c \<noteq> nil t then set_parent c x st1 else st1);
             st3 = set_parent y (parent (st2 x)) st2;
             q = parent (st3 x);
             st4 = (if x = child d (st3 q) then set_child d q y st3 else set_child (opp d) q y st3);
             st5 = set_child d y x st4;
             st6 = set_parent x y st5
         in bindR (assertR (\<not> red (st6 (nil t))) ''!(nil->red)'') (\<lambda>_. Inr st6)))"

definition rb_left_rotate :: "rb_tree \<Rightarrow> nat \<Rightarrow> rb_store \<Rightarrow> rb_store res" where
  "rb_left_rotate t x st = rb_rotate L t x st"

definition rb_right_rotate :: "rb_tree \<Rightarrow> nat \<Rightarrow> rb_store \<Rightarrow> rb_store res" where
  "rb_right_rotate t x st = rb_rotate R t x st"

section \<open>Insertion\<close>

partial_function (option) insert_descend :: "(nat \<Rightarrow> nat \<Rightarrow> int) \<Rightarrow> rb_tree \<Rightarrow> nat \<Rightarrow> nat \<Rightarrow> nat \<Rightarrow> rb_store \<Rightarrow> nat option" where
  "insert_descend cmp t node y x st =
     (if x \<noteq> nil t then insert_descend cmp t node x (if cmp x node > 0 then left (st x) else right (st x)) st else Some y)"

definition rb_insert_binary :: "(nat \<Rightarrow> nat \<Rightarrow> int) \<Rightarrow> rb_tree \<Rightarrow> nat \<Rightarrow> rb_store \<Rightarrow> rb_store option" where
  "rb_insert_binary cmp t z st =
     (let st1 = set_child R z (nil t) st; st2 = set_child L z (nil t) st1
      in map_option (\<lambda>y.
           let st3 = set_parent z y st2
           in if y = root t \<or> cmp y z > 0 then set_child L y z st3 else set_child R y z st3)
         (insert_descend cmp t z (root t) (left (st2 (root t))) st2))"

text \<open>\<open>RB_INSERT_SUB(_left, _right)\<close> with \<open>d\<close> for \<open>_left\<close>: it returns the new \<open>x\<close>.\<close>

definition insert_sub :: "side \<Rightarrow> rb_tree \<Rightarrow> nat \<Rightarrow> rb_store \<Rightarrow> (nat \<times> rb_store) res" where
  "insert_sub d t x st =
     (let g = parent (st (parent (st x))); y = child (opp d) (st g)
      in if red (st y) then
           let st1 = set_red (parent (st x)) False st; st2 = set_red y False st1;
               g1 = parent (st2 (parent (st2 x)))
           in Inr (g1, set_red g1 True st2)
         else
           bindR (if x = child (opp d) (st (parent (st x)))
                  then let x1 = parent (st x) in bindR (rb_rotate d t x1 st) (\<lambda>st1. Inr (x1, st1))
                  else Inr (x, st)) (\<lambda>(x1, st1).
           let st2 = set_red (parent (st1 x1)) False st1;
               g1 = parent (st2 (parent (st2 x1)));
               st3 = set_red g1 True st2
           in bindR (rb_rotate (opp d) t (parent (st3 (parent (st3 x1)))) st3) (\<lambda>st4. Inr (x1, st4))))"

partial_function (option) insert_fixup :: "rb_tree \<Rightarrow> nat \<Rightarrow> rb_store \<Rightarrow> rb_store res option" where
  "insert_fixup t x st =
     (if red (st (parent (st x))) then
        (case insert_sub (if parent (st x) = left (st (parent (st (parent (st x))))) then L else R) t x st of
           Inl e \<Rightarrow> Some (Inl e)
         | Inr (x1, st1) \<Rightarrow> insert_fixup t x1 st1)
      else Some (Inr st))"

definition rb_insert :: "(nat \<Rightarrow> nat \<Rightarrow> int) \<Rightarrow> rb_tree \<Rightarrow> nat \<Rightarrow> rb_store \<Rightarrow> rb_store res" where
  "rb_insert cmp t node st =
     (case rb_insert_binary cmp t node st of
        None \<Rightarrow> Inl Spin
      | Some st1 \<Rightarrow>
          (case insert_fixup t node (set_red node True st1) of
             None \<Rightarrow> Inl Spin
           | Some r \<Rightarrow> bindR r (\<lambda>st2.
               let st3 = set_red (left (st2 (root t))) False st2
               in bindR (assertR (\<not> red (st3 (nil t)) \<and> \<not> red (st3 (root t))) ''!(tree->nil->red) && !(tree->root->red)'')
                    (\<lambda>_. Inr st3))))"

section \<open>Neighbours\<close>

partial_function (option) descend :: "side \<Rightarrow> rb_tree \<Rightarrow> nat \<Rightarrow> rb_store \<Rightarrow> nat option" where
  "descend d t y st = (if child d (st y) \<noteq> nil t then descend d t (child d (st y)) st else Some y)"

partial_function (option) climb_right :: "rb_tree \<Rightarrow> nat \<Rightarrow> nat \<Rightarrow> rb_store \<Rightarrow> nat option" where
  "climb_right t x y st = (if x = right (st y) then climb_right t y (parent (st y)) st else Some y)"

definition rb_tree_successor :: "rb_tree \<Rightarrow> nat \<Rightarrow> rb_store \<Rightarrow> nat option" where
  "rb_tree_successor t x st =
     (if right (st x) \<noteq> nil t then descend L t (right (st x)) st
      else map_option (\<lambda>y. if y = root t then nil t else y) (climb_right t x (parent (st x)) st))"

partial_function (option) climb_left :: "rb_tree \<Rightarrow> nat \<Rightarrow> nat \<Rightarrow> rb_store \<Rightarrow> nat option" where
  "climb_left t x y st =
     (if x = left (st y) then (if y = root t then Some (nil t) else climb_left t y (parent (st y)) st) else Some y)"

definition rb_tree_predecessor :: "rb_tree \<Rightarrow> nat \<Rightarrow> rb_store \<Rightarrow> nat option" where
  "rb_tree_predecessor t x st =
     (if left (st x) \<noteq> nil t then descend R t (left (st x)) st else climb_left t x (parent (st x)) st)"

definition rb_node_prev :: "rb_tree \<Rightarrow> nat \<Rightarrow> rb_store \<Rightarrow> nat option option" where
  "rb_node_prev t x st = map_option (\<lambda>p. if p \<noteq> nil t then Some p else None) (rb_tree_predecessor t x st)"

definition rb_node_next :: "rb_tree \<Rightarrow> nat \<Rightarrow> rb_store \<Rightarrow> nat option option" where
  "rb_node_next t x st = map_option (\<lambda>p. if p \<noteq> nil t then Some p else None) (rb_tree_successor t x st)"

definition rb_node_root :: "rb_tree \<Rightarrow> rb_store \<Rightarrow> nat option" where
  "rb_node_root t st = (let n = left (st (root t)) in if n \<noteq> nil t then Some n else None)"

definition rb_node_left :: "rb_tree \<Rightarrow> nat \<Rightarrow> rb_store \<Rightarrow> nat option" where
  "rb_node_left t x st = (let n = left (st x) in if n \<noteq> nil t then Some n else None)"

definition rb_node_right :: "rb_tree \<Rightarrow> nat \<Rightarrow> rb_store \<Rightarrow> nat option" where
  "rb_node_right t x st = (let n = right (st x) in if n \<noteq> nil t then Some n else None)"

partial_function (option) search_walk :: "(nat \<Rightarrow> int) \<Rightarrow> rb_tree \<Rightarrow> nat \<Rightarrow> rb_store \<Rightarrow> nat option" where
  "search_walk cmp t node st =
     (if node \<noteq> nil t \<and> cmp node \<noteq> 0
      then search_walk cmp t (if cmp node > 0 then left (st node) else right (st node)) st else Some node)"

definition rb_search :: "(nat \<Rightarrow> int) \<Rightarrow> rb_tree \<Rightarrow> rb_store \<Rightarrow> nat option option" where
  "rb_search cmp t st = map_option (\<lambda>n. if n \<noteq> nil t then Some n else None) (search_walk cmp t (left (st (root t))) st)"

section \<open>Deletion\<close>

text \<open>\<open>RB_DELETE_FIXUP_SUB(_left, _right)\<close>; \<open>r\<close> is the root noted before the loop.\<close>

definition delete_sub :: "side \<Rightarrow> rb_tree \<Rightarrow> nat \<Rightarrow> nat \<Rightarrow> rb_store \<Rightarrow> (nat \<times> rb_store) res" where
  "delete_sub d t r x st =
     (let w = child (opp d) (st (parent (st x)))
      in bindR (if red (st w) then
                  let st1 = set_red w False st; st2 = set_red (parent (st1 x)) True st1
                  in bindR (rb_rotate d t (parent (st2 x)) st2) (\<lambda>st3. Inr (child (opp d) (st3 (parent (st3 x))), st3))
                else Inr (w, st)) (\<lambda>(w, st).
         if \<not> red (st (child d (st w))) \<and> \<not> red (st (child (opp d) (st w))) then
           let st1 = set_red w True st in Inr (parent (st1 x), st1)
         else
           bindR (if \<not> red (st (child (opp d) (st w))) then
                    let st1 = set_red (child d (st w)) False st; st2 = set_red w True st1
                    in bindR (rb_rotate (opp d) t w st2) (\<lambda>st3. Inr (child (opp d) (st3 (parent (st3 x))), st3))
                  else Inr (w, st)) (\<lambda>(w, st).
           let st1 = set_red w (red (st (parent (st x)))) st;
               st2 = set_red (parent (st1 x)) False st1;
               st3 = set_red (child (opp d) (st2 w)) False st2
           in bindR (rb_rotate d t (parent (st3 x)) st3) (\<lambda>st4. Inr (r, st4)))))"

partial_function (option) delete_loop :: "rb_tree \<Rightarrow> nat \<Rightarrow> nat \<Rightarrow> rb_store \<Rightarrow> (nat \<times> rb_store) res option" where
  "delete_loop t r x st =
     (if x \<noteq> r \<and> \<not> red (st x) then
        (case delete_sub (if x = left (st (parent (st x))) then L else R) t r x st of
           Inl e \<Rightarrow> Some (Inl e)
         | Inr (x1, st1) \<Rightarrow> delete_loop t r x1 st1)
      else Some (Inr (x, st)))"

definition rb_delete_fixup :: "rb_tree \<Rightarrow> nat \<Rightarrow> rb_store \<Rightarrow> rb_store res" where
  "rb_delete_fixup t x st =
     (case delete_loop t (left (st (root t))) x st of
        None \<Rightarrow> Inl Spin
      | Some r \<Rightarrow> bindR r (\<lambda>(x1, st1). Inr (set_red x1 False st1)))"

text \<open>Replacing a child of its parent.\<close>

definition replace_child :: "nat \<Rightarrow> nat \<Rightarrow> rb_store \<Rightarrow> rb_store" where
  "replace_child y x st =
     (let q = parent (st y) in if y = left (st q) then set_child L q x st else set_child R q x st)"

definition rb_delete :: "rb_tree \<Rightarrow> nat \<Rightarrow> rb_store \<Rightarrow> rb_store res" where
  "rb_delete t z st =
     (case (if left (st z) = nil t \<or> right (st z) = nil t then Some z else rb_tree_successor t z st) of
        None \<Rightarrow> Inl Spin
      | Some y \<Rightarrow>
          let x = (if left (st y) \<noteq> nil t then left (st y) else right (st y))
          in bindR (assertR (y \<noteq> root t \<and> y \<noteq> nil t) ''y != root && y != nil'') (\<lambda>_.
             let st1 = set_parent x (parent (st y)) st;
                 st2 = replace_child y x st1;
                 need_fixup = (\<not> red (st2 y));
                 st3 = (if y \<noteq> z then
                          let u1 = replace_child z y st2;
                              u2 = set_parent (right (u1 z)) y u1;
                              u3 = set_parent (left (u2 z)) y u2
                          in u3(y := u3 z)
                        else st2)
             in if need_fixup then rb_delete_fixup t x st3 else Inr st3))"

end
