(* ===== verification/Shmem.thy ===== *)
theory Shmem
  imports Page_Table Rb_Tree
begin

text \<open>
  Shared memory objects, \<open>kern/mm/shmem.c\<close>, and the state of virtual memory they are part of: the
  areas, address spaces, shared objects and their nodes are records in maps from addresses, and
  \<open>kmalloc\<close> hands out the addresses of a pool.  A node covers the pages of one frame of entries;
  the nodes of an object are listed in the order of their addresses.  The locks of objects and
  address spaces are taken and released inside one operation; their protocol is that of
  \<open>kern/sync/sync.h\<close>.
\<close>

section \<open>State\<close>

record shmn_t =
  sn_start :: "32 word"
  sn_end :: "32 word"
  sn_entry :: nat

record shmem_struct =
  shmn_list :: "nat list"
  shmn_cache :: "nat option"
  sh_len :: "32 word"
  sh_ref :: "32 word"
  sh_lock :: "32 word"

record vma_struct =
  vm_mm :: nat
  vm_start :: "32 word"
  vm_end :: "32 word"
  vm_flags :: "32 word"
  vm_shmem :: "nat option"
  vm_shmem_off :: "32 word"

record mm_struct =
  mmap_list :: "nat list"
  mmap_tree :: "rb_tree option"
  mmap_cache :: "nat option"
  mm_pgdir :: nat
  map_count :: int
  swap_address :: "32 word"
  mm_count :: "32 word"
  mm_lock :: "32 word"
  locked_by :: int
  brk_start :: "32 word"
  brk :: "32 word"

record vm_st =
  mem :: mem_st
  vmas :: "nat \<Rightarrow> vma_struct"
  mms :: "nat \<Rightarrow> mm_struct"
  shmems :: "nat \<Rightarrow> shmem_struct"
  shmns :: "nat \<Rightarrow> shmn_t"
  rbs :: rb_store
  kpool :: "nat list"

text \<open>Running an operation of the layers below on its part of the state.\<close>

definition on_mem :: "(mem_st \<Rightarrow> mem_st res) \<Rightarrow> vm_st \<Rightarrow> vm_st res" where
  "on_mem f s = bindR (f (mem s)) (\<lambda>m. Inr (s\<lparr>mem := m\<rparr>))"

definition on_mem_val :: "(mem_st \<Rightarrow> ('a \<times> mem_st) res) \<Rightarrow> vm_st \<Rightarrow> ('a \<times> vm_st) res" where
  "on_mem_val f s = bindR (f (mem s)) (\<lambda>(v, m). Inr (v, s\<lparr>mem := m\<rparr>))"

definition kmalloc :: "vm_st \<Rightarrow> nat option \<times> vm_st" where
  "kmalloc s = (case kpool s of [] \<Rightarrow> (None, s) | p # ps \<Rightarrow> (Some p, s\<lparr>kpool := ps\<rparr>))"

definition kfree :: "nat \<Rightarrow> vm_st \<Rightarrow> vm_st" where
  "kfree p s = s\<lparr>kpool := p # kpool s\<rparr>"

definition upd_shmem :: "nat \<Rightarrow> (shmem_struct \<Rightarrow> shmem_struct) \<Rightarrow> vm_st \<Rightarrow> vm_st" where
  "upd_shmem h f s = s\<lparr>shmems := (shmems s)(h := f (shmems s h))\<rparr>"

section \<open>Operations\<close>

definition shmem_create :: "32 word \<Rightarrow> vm_st \<Rightarrow> nat option \<times> vm_st" where
  "shmem_create len s =
     (case kmalloc s of
        (None, s1) \<Rightarrow> (None, s1)
      | (Some h, s1) \<Rightarrow> (Some h, upd_shmem h (\<lambda>_. \<lparr>shmn_list = [], shmn_cache = None, sh_len = len, sh_ref = atomic_set 0,
            sh_lock = lock_init\<rparr>) s1))"

definition SHMN_NENTRY :: "32 word" where "SHMN_NENTRY = 1024"

text \<open>The assertion of \<open>shmn_create\<close> groups as \<open>(start % PGSIZE) * SHMN_NENTRY == 0\<close>.\<close>

definition shmn_create :: "32 word \<Rightarrow> vm_st \<Rightarrow> (nat option \<times> vm_st) res" where
  "shmn_create start s =
     bindR (assertR (start mod PGSIZE * SHMN_NENTRY = 0) ''start % PGSIZE * SHMN_NENTRY == 0'') (\<lambda>_.
       case kmalloc s of
         (None, s1) \<Rightarrow> Inr (None, s1)
       | (Some n, s1) \<Rightarrow>
           bindR (on_mem_val alloc_page s1) (\<lambda>(page, s2).
             case page of
               None \<Rightarrow> Inr (None, kfree n s2)
             | Some p \<Rightarrow>
                 let s3 = s2\<lparr>shmns := (shmns s2)(n := \<lparr>sn_start = start, sn_end = start + PGSIZE * SHMN_NENTRY, sn_entry = p\<rparr>)\<rparr>
                 in Inr (Some n, s3\<lparr>mem := (mem s3)\<lparr>frame := (frame (mem s3))(p := (\<lambda>_. 0))\<rparr>\<rparr>)))"

definition shmem_remove_entry_pte :: "nat \<times> nat \<Rightarrow> mem_st \<Rightarrow> mem_st res" where
  "shmem_remove_entry_pte ptep s =
     (if rd_entry ptep s AND PTE_P \<noteq> 0 then bindR (drop_mapped (rd_entry ptep s) s) (\<lambda>s1. Inr (wr_entry ptep 0 s1))
      else if rd_entry ptep s \<noteq> 0 then bindR (swap_remove_entry (rd_entry ptep s) s) (\<lambda>s1. Inr (wr_entry ptep 0 s1))
      else Inr s)"

fun remove_entries :: "nat \<Rightarrow> nat list \<Rightarrow> mem_st \<Rightarrow> mem_st res" where
  "remove_entries f [] s = Inr s"
| "remove_entries f (i # is) s = bindR (shmem_remove_entry_pte (f, i) s) (remove_entries f is)"

definition shmn_destroy :: "nat \<Rightarrow> vm_st \<Rightarrow> vm_st res" where
  "shmn_destroy n s =
     (let f = sn_entry (shmns s n)
      in bindR (on_mem (remove_entries f [0..<1024]) s) (\<lambda>s1. bindR (on_mem (free_page f) s1) (\<lambda>s2. Inr (kfree n s2))))"

fun find_shmn_in :: "(nat \<Rightarrow> shmn_t) \<Rightarrow> 32 word \<Rightarrow> nat list \<Rightarrow> nat option" where
  "find_shmn_in ns addr [] = None"
| "find_shmn_in ns addr (n # l) = (if sn_start (ns n) \<le> addr \<and> addr < sn_end (ns n) then Some n else find_shmn_in ns addr l)"

definition find_shmn :: "nat \<Rightarrow> 32 word \<Rightarrow> vm_st \<Rightarrow> nat option \<times> vm_st" where
  "find_shmn h addr s =
     (let sh = shmems s h;
          found = (case shmn_cache sh of
              Some n \<Rightarrow> if sn_start (shmns s n) \<le> addr \<and> addr < sn_end (shmns s n) then Some n
                        else find_shmn_in (shmns s) addr (shmn_list sh)
            | None \<Rightarrow> find_shmn_in (shmns s) addr (shmn_list sh))
      in (found, case found of None \<Rightarrow> s | Some n \<Rightarrow> upd_shmem h (\<lambda>x. x\<lparr>shmn_cache := Some n\<rparr>) s))"

definition check_shmn_overlap :: "shmn_t \<Rightarrow> shmn_t \<Rightarrow> unit res" where
  "check_shmn_overlap a b =
     bindR (assertR (sn_start a < sn_end a) ''prev->start < prev->end'') (\<lambda>_.
     bindR (assertR (sn_end a \<le> sn_start b) ''prev->end <= next->start'') (\<lambda>_.
       assertR (sn_start b < sn_end b) ''next->start < next->end''))"

definition insert_shmn :: "nat \<Rightarrow> nat \<Rightarrow> vm_st \<Rightarrow> vm_st res" where
  "insert_shmn h n s =
     (let l = shmn_list (shmems s h); f = shmns s;
          before = takeWhile (\<lambda>m. \<not> sn_start (f m) > sn_start (f n)) l; after = dropWhile (\<lambda>m. \<not> sn_start (f m) > sn_start (f n)) l
      in bindR (if before \<noteq> [] then check_shmn_overlap (f (last before)) (f n) else Inr ()) (\<lambda>_.
         bindR (if after \<noteq> [] then check_shmn_overlap (f n) (f (hd after)) else Inr ()) (\<lambda>_.
           Inr (upd_shmem h (\<lambda>x. x\<lparr>shmn_list := before @ n # after\<rparr>) s))))"

fun shmns_destroy :: "nat list \<Rightarrow> vm_st \<Rightarrow> vm_st res" where
  "shmns_destroy [] s = Inr s"
| "shmns_destroy (n # l) s = bindR (shmn_destroy n s) (shmns_destroy l)"

definition shmem_destroy :: "nat \<Rightarrow> vm_st \<Rightarrow> vm_st res" where
  "shmem_destroy h s =
     (let l = shmn_list (shmems s h)
      in bindR (shmns_destroy l (upd_shmem h (\<lambda>x. x\<lparr>shmn_list := []\<rparr>) s)) (\<lambda>s1. Inr (kfree h s1)))"

definition shmem_get_entry :: "nat \<Rightarrow> 32 word \<Rightarrow> bool \<Rightarrow> vm_st \<Rightarrow> ((nat \<times> nat) option \<times> vm_st) res" where
  "shmem_get_entry h addr0 create s =
     bindR (assertR (addr0 < sh_len (shmems s h)) ''addr < shmem->len'') (\<lambda>_.
       let addr = ROUNDDOWN addr0 PGSIZE; (shmn, s1) = find_shmn h addr s
       in bindR (case shmn of
                   Some n \<Rightarrow> Inr (Some n, s1)
                 | None \<Rightarrow>
                     if \<not> create then Inr (None, s1)
                     else bindR (shmn_create (ROUNDDOWN addr (PGSIZE * SHMN_NENTRY)) s1) (\<lambda>(r, s2).
                       case r of None \<Rightarrow> Inr (None, s2)
                       | Some n \<Rightarrow> bindR (insert_shmn h n s2) (\<lambda>s3. Inr (Some n, s3)))) (\<lambda>(r, s2).
          case r of
            None \<Rightarrow> Inr (None, s2)
          | Some n \<Rightarrow>
              let e = (sn_entry (shmns s2 n), unat ((addr - sn_start (shmns s2 n)) div PGSIZE))
              in if rd_entry e (mem s2) = 0 \<and> create then
                   bindR (on_mem_val alloc_page s2) (\<lambda>(page, s3).
                     case page of
                       None \<Rightarrow> Inr (Some e, s3)
                     | Some p \<Rightarrow> Inr (Some e, s3\<lparr>mem := snd (page_ref_inc p (wr_entry e (page2pa p OR PTE_P) (mem s3)))\<rparr>))
                 else Inr (Some e, s2)))"

definition shmem_insert_entry :: "nat \<Rightarrow> 32 word \<Rightarrow> 32 word \<Rightarrow> vm_st \<Rightarrow> (int \<times> vm_st) res" where
  "shmem_insert_entry h addr entry s =
     bindR (shmem_get_entry h addr True s) (\<lambda>(r, s1).
       case r of
         None \<Rightarrow> Inr (- E_NO_MEM, s1)
       | Some e \<Rightarrow>
           bindR (if rd_entry e (mem s1) \<noteq> 0 then on_mem (shmem_remove_entry_pte e) s1 else Inr s1) (\<lambda>s2.
           bindR (if entry AND PTE_P \<noteq> 0 then
                    bindR (pte2page entry (mem s2)) (\<lambda>p. Inr (s2\<lparr>mem := snd (page_ref_inc p (mem s2))\<rparr>))
                  else if entry \<noteq> 0 then on_mem (swap_duplicate entry) s2 else Inr s2) (\<lambda>s3.
             Inr (0, s3\<lparr>mem := wr_entry e entry (mem s3)\<rparr>))))"

definition shmem_remove_entry :: "nat \<Rightarrow> 32 word \<Rightarrow> vm_st \<Rightarrow> (int \<times> vm_st) res" where
  "shmem_remove_entry h addr s = shmem_insert_entry h addr 0 s"

definition shmem_ref_inc :: "nat \<Rightarrow> vm_st \<Rightarrow> int \<times> vm_st" where
  "shmem_ref_inc h s = (let (v, r) = atomic_add_return (sh_ref (shmems s h)) 1 in (r, upd_shmem h (\<lambda>x. x\<lparr>sh_ref := v\<rparr>) s))"

definition shmem_ref_dec :: "nat \<Rightarrow> vm_st \<Rightarrow> int \<times> vm_st" where
  "shmem_ref_dec h s = (let (v, r) = atomic_sub_return (sh_ref (shmems s h)) 1 in (r, upd_shmem h (\<lambda>x. x\<lparr>sh_ref := v\<rparr>) s))"

end
