(* ===== verification/Vmm.thy ===== *)
theory Vmm
  imports Shmem
begin

text \<open>
  Address spaces, \<open>kern/mm/vmm.c\<close>.  An address space keeps its areas in a list sorted by
  address and, once there are 32 of them, in a red-black tree as well; the node of an area in the
  tree has the address of the area.  A pointer to an address space that the source
  compares with null is an option.  \<open>cur\<close> is the pid of the current process (\<open>None\<close>: no
  process yet) and \<open>sch\<close> what happens to the state while the current process waits in \<open>schedule\<close>.
  Areas handed out through a pointer argument are part of the result.
\<close>

section \<open>Locks\<close>

partial_function (option) lock_loop :: "(vm_st \<Rightarrow> vm_st) \<Rightarrow> (vm_st \<Rightarrow> 32 word) \<Rightarrow> (32 word \<Rightarrow> vm_st \<Rightarrow> vm_st) \<Rightarrow> vm_st \<Rightarrow> vm_st option" where
  "lock_loop sch get put s =
     (let (l, ok) = try_lock (get s); s1 = put l s in if ok then Some s1 else lock_loop sch get put (sch s1))"

definition upd_mm :: "nat \<Rightarrow> (mm_struct \<Rightarrow> mm_struct) \<Rightarrow> vm_st \<Rightarrow> vm_st" where
  "upd_mm m f s = s\<lparr>mms := (mms s)(m := f (mms s m))\<rparr>"

definition upd_vma :: "nat \<Rightarrow> (vma_struct \<Rightarrow> vma_struct) \<Rightarrow> vm_st \<Rightarrow> vm_st" where
  "upd_vma v f s = s\<lparr>vmas := (vmas s)(v := f (vmas s v))\<rparr>"

definition note_locker :: "int option \<Rightarrow> nat \<Rightarrow> vm_st \<Rightarrow> vm_st" where
  "note_locker cur m s = (case cur of None \<Rightarrow> s | Some pid \<Rightarrow> upd_mm m (\<lambda>d. d\<lparr>locked_by := pid\<rparr>) s)"

definition lock_mm :: "(vm_st \<Rightarrow> vm_st) \<Rightarrow> int option \<Rightarrow> nat option \<Rightarrow> vm_st \<Rightarrow> vm_st res" where
  "lock_mm sch cur mm s =
     (case mm of
        None \<Rightarrow> Inr s
      | Some m \<Rightarrow>
          (case lock_loop sch (\<lambda>s. mm_lock (mms s m)) (\<lambda>l. upd_mm m (\<lambda>d. d\<lparr>mm_lock := l\<rparr>)) s of
             None \<Rightarrow> Inl Spin
           | Some s1 \<Rightarrow> Inr (note_locker cur m s1)))"

definition unlock_mm :: "nat option \<Rightarrow> vm_st \<Rightarrow> vm_st res" where
  "unlock_mm mm s =
     (case mm of
        None \<Rightarrow> Inr s
      | Some m \<Rightarrow> bindR (unlock (mm_lock (mms s m))) (\<lambda>l. Inr (upd_mm m (\<lambda>d. d\<lparr>mm_lock := l, locked_by := 0\<rparr>) s)))"

definition try_lock_mm :: "int option \<Rightarrow> nat option \<Rightarrow> vm_st \<Rightarrow> bool \<times> vm_st" where
  "try_lock_mm cur mm s =
     (case mm of
        None \<Rightarrow> (True, s)
      | Some m \<Rightarrow>
          let (l, ok) = try_lock (mm_lock (mms s m)); s1 = upd_mm m (\<lambda>d. d\<lparr>mm_lock := l\<rparr>) s
          in if \<not> ok then (False, s1) else (True, note_locker cur m s1))"

definition lock_shmem :: "(vm_st \<Rightarrow> vm_st) \<Rightarrow> nat \<Rightarrow> vm_st \<Rightarrow> vm_st res" where
  "lock_shmem sch h s =
     (case lock_loop sch (\<lambda>s. sh_lock (shmems s h)) (\<lambda>l. upd_shmem h (\<lambda>x. x\<lparr>sh_lock := l\<rparr>)) s of
        None \<Rightarrow> Inl Spin | Some s1 \<Rightarrow> Inr s1)"

definition unlock_shmem :: "nat \<Rightarrow> vm_st \<Rightarrow> vm_st res" where
  "unlock_shmem h s = bindR (unlock (sh_lock (shmems s h))) (\<lambda>l. Inr (upd_shmem h (\<lambda>x. x\<lparr>sh_lock := l\<rparr>) s))"

section \<open>Areas\<close>

definition VM_READ :: "32 word" where "VM_READ = 0x01"
definition VM_WRITE :: "32 word" where "VM_WRITE = 0x02"
definition VM_EXEC :: "32 word" where "VM_EXEC = 0x04"
definition VM_STACK :: "32 word" where "VM_STACK = 0x08"
definition VM_SHARE :: "32 word" where "VM_SHARE = 0x10"
definition RB_MIN_MAP_COUNT :: int where "RB_MIN_MAP_COUNT = 32"

definition mm_create :: "vm_st \<Rightarrow> nat option \<times> vm_st" where
  "mm_create s =
     (case kmalloc s of
        (None, s1) \<Rightarrow> (None, s1)
      | (Some m, s1) \<Rightarrow>
          (Some m, upd_mm m (\<lambda>_. \<lparr>mmap_list = [], mmap_tree = None, mmap_cache = None, mm_pgdir = 0, map_count = 0,
             swap_address = 0, mm_count = atomic_set 0, mm_lock = lock_init, locked_by = 0, brk_start = 0, brk = 0\<rparr>) s1))"

definition vma_create :: "32 word \<Rightarrow> 32 word \<Rightarrow> 32 word \<Rightarrow> vm_st \<Rightarrow> nat option \<times> vm_st" where
  "vma_create start stop flags s =
     (case kmalloc s of
        (None, s1) \<Rightarrow> (None, s1)
      | (Some v, s1) \<Rightarrow>
          (Some v, upd_vma v (\<lambda>a. a\<lparr>vm_start := start, vm_end := stop, vm_flags := flags, vm_shmem := None, vm_shmem_off := 0\<rparr>) s1))"

definition vma_destroy :: "nat \<Rightarrow> vm_st \<Rightarrow> vm_st res" where
  "vma_destroy v s =
     bindR (if vm_flags (vmas s v) AND VM_SHARE \<noteq> 0 then
              bindR (deref (vm_shmem (vmas s v))) (\<lambda>h.
                let (r, s1) = shmem_ref_dec h s in if r = 0 then shmem_destroy h s1 else Inr s1)
            else Inr s) (\<lambda>s1. Inr (kfree v s1))"

partial_function (option) find_vma_rb_loop :: "rb_tree \<Rightarrow> 32 word \<Rightarrow> vm_st \<Rightarrow> nat option \<Rightarrow> nat option \<Rightarrow> nat option option" where
  "find_vma_rb_loop t addr s node vma =
     (case node of
        None \<Rightarrow> Some vma
      | Some tmp \<Rightarrow>
          if vm_end (vmas s tmp) > addr then
            if vm_start (vmas s tmp) \<le> addr then Some (Some tmp)
            else find_vma_rb_loop t addr s (rb_node_left t tmp (rbs s)) (Some tmp)
          else find_vma_rb_loop t addr s (rb_node_right t tmp (rbs s)) vma)"

definition find_vma_rb :: "rb_tree \<Rightarrow> 32 word \<Rightarrow> vm_st \<Rightarrow> nat option res" where
  "find_vma_rb t addr s = spinR (map_option Inr (find_vma_rb_loop t addr s (rb_node_root t (rbs s)) None))"

fun find_vma_list :: "(nat \<Rightarrow> vma_struct) \<Rightarrow> 32 word \<Rightarrow> nat list \<Rightarrow> nat option" where
  "find_vma_list f addr [] = None"
| "find_vma_list f addr (v # vs) = (if addr < vm_end (f v) then Some v else find_vma_list f addr vs)"

definition find_vma_uncached :: "nat \<Rightarrow> 32 word \<Rightarrow> vm_st \<Rightarrow> nat option res" where
  "find_vma_uncached m addr s =
     (case mmap_tree (mms s m) of
        Some t \<Rightarrow> find_vma_rb t addr s
      | None \<Rightarrow> Inr (find_vma_list (vmas s) addr (mmap_list (mms s m))))"

definition find_vma :: "nat option \<Rightarrow> 32 word \<Rightarrow> vm_st \<Rightarrow> (nat option \<times> vm_st) res" where
  "find_vma mm addr s =
     (case mm of
        None \<Rightarrow> Inr (None, s)
      | Some m \<Rightarrow>
          bindR (case mmap_cache (mms s m) of
                   Some v \<Rightarrow> if vm_start (vmas s v) \<le> addr \<and> vm_end (vmas s v) > addr then Inr (Some v)
                             else find_vma_uncached m addr s
                 | None \<Rightarrow> find_vma_uncached m addr s) (\<lambda>vma.
            Inr (vma, case vma of None \<Rightarrow> s | Some v \<Rightarrow> upd_mm m (\<lambda>d. d\<lparr>mmap_cache := Some v\<rparr>) s)))"

definition find_vma_intersection :: "nat option \<Rightarrow> 32 word \<Rightarrow> 32 word \<Rightarrow> vm_st \<Rightarrow> (nat option \<times> vm_st) res" where
  "find_vma_intersection mm start stop s =
     bindR (find_vma mm start s) (\<lambda>(vma, s1).
       case vma of
         None \<Rightarrow> Inr (None, s1)
       | Some v \<Rightarrow> Inr (if stop \<le> vm_start (vmas s1 v) then None else Some v, s1))"

definition vma_compare :: "(nat \<Rightarrow> vma_struct) \<Rightarrow> nat \<Rightarrow> nat \<Rightarrow> int" where
  "vma_compare f v1 v2 =
     (let start1 = vm_start (f v1); start2 = vm_start (f v2)
      in if start1 < start2 then - 1 else if start1 > start2 then 1 else 0)"

definition check_vma_overlap :: "vma_struct \<Rightarrow> vma_struct \<Rightarrow> unit res" where
  "check_vma_overlap prev next =
     bindR (assertR (vm_start prev < vm_end prev) ''prev->vm_start < prev->vm_end'') (\<lambda>_.
     bindR (assertR (vm_end prev \<le> vm_start next) ''prev->vm_end <= next->vm_start'') (\<lambda>_.
       assertR (vm_start next < vm_end next) ''next->vm_start < next->vm_end''))"

definition insert_vma_rb :: "rb_tree \<Rightarrow> nat \<Rightarrow> vm_st \<Rightarrow> vm_st res" where
  "insert_vma_rb t v s = bindR (rb_insert (vma_compare (vmas s)) t v (rbs s)) (\<lambda>st. Inr (s\<lparr>rbs := st\<rparr>))"

definition vma_prev_rb :: "rb_tree \<Rightarrow> nat \<Rightarrow> vm_st \<Rightarrow> nat option res" where
  "vma_prev_rb t v s = spinR (map_option Inr (rb_node_prev t v (rbs s)))"

fun insert_vmas_rb :: "rb_tree \<Rightarrow> nat list \<Rightarrow> vm_st \<Rightarrow> vm_st res" where
  "insert_vmas_rb t [] s = Inr s"
| "insert_vmas_rb t (v # vs) s = bindR (insert_vma_rb t v s) (insert_vmas_rb t vs)"

text \<open>\<open>list_add_after\<close> on the list of areas; \<open>None\<close> is the head of the list.\<close>

definition insert_after :: "nat option \<Rightarrow> nat \<Rightarrow> nat list \<Rightarrow> nat list" where
  "insert_after prev v l =
     (case prev of None \<Rightarrow> v # l | Some p \<Rightarrow> takeWhile (\<lambda>x. x \<noteq> p) l @ p # v # tl (dropWhile (\<lambda>x. x \<noteq> p) l))"

definition list_after :: "nat option \<Rightarrow> nat list \<Rightarrow> nat option" where
  "list_after prev l = (case prev of None \<Rightarrow> first_of l | Some p \<Rightarrow> next_in l p)"

fun find_prev_vma :: "(nat \<Rightarrow> vma_struct) \<Rightarrow> 32 word \<Rightarrow> nat list \<Rightarrow> nat option \<Rightarrow> nat option" where
  "find_prev_vma f start [] prev = prev"
| "find_prev_vma f start (u # us) prev = (if vm_start (f u) > start then prev else find_prev_vma f start us (Some u))"

definition build_vma_tree :: "nat \<Rightarrow> vm_st \<Rightarrow> vm_st res" where
  "build_vma_tree m s =
     (let (tree, pool, st) = rb_tree_create (kpool s) (rbs s); s1 = s\<lparr>kpool := pool, rbs := st\<rparr>
      in case tree of
           None \<Rightarrow> Inr s1
         | Some t \<Rightarrow> insert_vmas_rb t (mmap_list (mms s1 m)) (upd_mm m (\<lambda>d. d\<lparr>mmap_tree := Some t\<rparr>) s1))"

definition insert_vma_struct :: "nat \<Rightarrow> nat \<Rightarrow> vm_st \<Rightarrow> vm_st res" where
  "insert_vma_struct m v s =
     bindR (assertR (vm_start (vmas s v) < vm_end (vmas s v)) ''vma->vm_start < vma->vm_end'') (\<lambda>_.
     bindR (case mmap_tree (mms s m) of
              Some t \<Rightarrow> bindR (insert_vma_rb t v s) (\<lambda>s1. bindR (vma_prev_rb t v s1) (\<lambda>prev. Inr (prev, s1)))
            | None \<Rightarrow> Inr (find_prev_vma (vmas s) (vm_start (vmas s v)) (mmap_list (mms s m)) None, s)) (\<lambda>(prev, s1).
     let next = list_after prev (mmap_list (mms s1 m))
     in bindR (case prev of Some p \<Rightarrow> check_vma_overlap (vmas s1 p) (vmas s1 v) | None \<Rightarrow> Inr ()) (\<lambda>_.
        bindR (case next of Some n \<Rightarrow> check_vma_overlap (vmas s1 v) (vmas s1 n) | None \<Rightarrow> Inr ()) (\<lambda>_.
        bindR (chk32 (map_count (mms s1 m) + 1)) (\<lambda>count.
        let s2 = upd_vma v (\<lambda>a. a\<lparr>vm_mm := m\<rparr>) s1;
            s3 = upd_mm m (\<lambda>d. d\<lparr>mmap_list := insert_after prev v (mmap_list d), map_count := count\<rparr>) s2
        in if mmap_tree (mms s3 m) = None \<and> map_count (mms s3 m) \<ge> RB_MIN_MAP_COUNT then build_vma_tree m s3
           else Inr s3)))))"

definition remove_vma_struct :: "nat \<Rightarrow> nat \<Rightarrow> vm_st \<Rightarrow> vm_st res" where
  "remove_vma_struct m v s =
     bindR (assertR (m = vm_mm (vmas s v)) ''mm == vma->vm_mm'') (\<lambda>_.
     bindR (case mmap_tree (mms s m) of
              Some t \<Rightarrow> bindR (rb_delete t v (rbs s)) (\<lambda>st. Inr (s\<lparr>rbs := st\<rparr>))
            | None \<Rightarrow> Inr s) (\<lambda>s1.
     bindR (chk32 (map_count (mms s1 m) - 1)) (\<lambda>count.
       Inr (upd_mm m (\<lambda>d. d\<lparr>mmap_list := remove1 v (mmap_list d),
          mmap_cache := (if mmap_cache d = Some v then None else mmap_cache d), map_count := count\<rparr>) s1))))"

fun vmas_destroy :: "nat list \<Rightarrow> vm_st \<Rightarrow> vm_st res" where
  "vmas_destroy [] s = Inr s"
| "vmas_destroy (v # vs) s = bindR (vma_destroy v s) (vmas_destroy vs)"

definition mm_destroy :: "nat \<Rightarrow> vm_st \<Rightarrow> vm_st res" where
  "mm_destroy m s =
     bindR (assertR (atomic_read (mm_count (mms s m)) = 0) ''mm_count(mm) == 0'') (\<lambda>_.
       let s1 = (case mmap_tree (mms s m) of None \<Rightarrow> s | Some t \<Rightarrow> s\<lparr>kpool := rb_tree_destroy t (kpool s)\<rparr>);
           l = mmap_list (mms s1 m)
       in bindR (vmas_destroy l (upd_mm m (\<lambda>d. d\<lparr>mmap_list := []\<rparr>) s1)) (\<lambda>s2. Inr (kfree m s2)))"

section \<open>Mapping\<close>

definition mm_map :: "nat option \<Rightarrow> 32 word \<Rightarrow> 32 word \<Rightarrow> 32 word \<Rightarrow> vm_st \<Rightarrow> (int \<times> nat option \<times> vm_st) res" where
  "mm_map mm addr len flags s =
     (let start = ROUNDDOWN addr PGSIZE; stop = ROUNDUP (addr + len) PGSIZE
      in if \<not> USER_ACCESS start stop then Inr (- E_INVAL, None, s)
         else bindR (assertR (mm \<noteq> None) ''mm != NULL'') (\<lambda>_. bindR (deref mm) (\<lambda>m.
              bindR (find_vma (Some m) start s) (\<lambda>(vma, s1).
                if (case vma of None \<Rightarrow> False | Some v \<Rightarrow> stop > vm_start (vmas s1 v)) then Inr (- E_INVAL, None, s1)
                else case vma_create start stop (flags AND NOT VM_SHARE) s1 of
                       (None, s2) \<Rightarrow> Inr (- E_NO_MEM, None, s2)
                     | (Some v, s2) \<Rightarrow> bindR (insert_vma_struct m v s2) (\<lambda>s3. Inr (0, Some v, s3))))))"

definition mm_map_shmem :: "nat option \<Rightarrow> 32 word \<Rightarrow> 32 word \<Rightarrow> nat option \<Rightarrow> vm_st \<Rightarrow> (int \<times> nat option \<times> vm_st) res" where
  "mm_map_shmem mm addr flags shmem s =
     (case shmem of
        None \<Rightarrow> Inr (- E_INVAL, None, s)
      | Some h \<Rightarrow>
          if addr mod PGSIZE \<noteq> 0 then Inr (- E_INVAL, None, s)
          else let s1 = snd (shmem_ref_inc h s)
               in bindR (mm_map mm addr (sh_len (shmems s1 h)) flags s1) (\<lambda>(ret, vma, s2).
                  if ret \<noteq> 0 then Inr (ret, None, snd (shmem_ref_dec h s2))
                  else bindR (deref vma) (\<lambda>v.
                    Inr (0, Some v, upd_vma v (\<lambda>a. a\<lparr>vm_shmem := Some h, vm_shmem_off := 0, vm_flags := vm_flags a OR VM_SHARE\<rparr>) s2))))"

definition vma_resize :: "nat \<Rightarrow> 32 word \<Rightarrow> 32 word \<Rightarrow> vm_st \<Rightarrow> vm_st res" where
  "vma_resize v start stop s =
     bindR (assertR (start mod PGSIZE = 0 \<and> stop mod PGSIZE = 0) ''start % PGSIZE == 0 && end % PGSIZE == 0'') (\<lambda>_.
     bindR (assertR (vm_start (vmas s v) \<le> start \<and> start < stop \<and> stop \<le> vm_end (vmas s v))
       ''vma->vm_start <= start && start < end && end <= vma->vm_end'') (\<lambda>_.
       Inr (upd_vma v (\<lambda>a. a\<lparr>vm_shmem_off := (if vm_flags a AND VM_SHARE \<noteq> 0 then vm_shmem_off a + (start - vm_start a) else vm_shmem_off a),
          vm_start := start, vm_end := stop\<rparr>) s)))"

text \<open>The areas from the first one on that start before the end of the range leave the address
  space; the list they are moved to is in the reverse order.\<close>

fun unmap_collect :: "nat \<Rightarrow> 32 word \<Rightarrow> nat list \<Rightarrow> nat list \<Rightarrow> vm_st \<Rightarrow> (nat list \<times> vm_st) res" where
  "unmap_collect m stop [] free s = Inr (free, s)"
| "unmap_collect m stop (v # vs) free s =
     (if vm_start (vmas s v) < stop then bindR (remove_vma_struct m v s) (unmap_collect m stop vs (v # free))
      else Inr (free, s))"

definition unmap_one :: "nat \<Rightarrow> 32 word \<Rightarrow> 32 word \<Rightarrow> nat \<Rightarrow> vm_st \<Rightarrow> vm_st res" where
  "unmap_one m start stop v s =
     (let a = vmas s v; pgdir = mm_pgdir (mms s m)
      in if vm_start a < start then
           bindR (vma_resize v (vm_start a) start s) (\<lambda>s1. bindR (insert_vma_struct m v s1)
             (on_mem (unmap_range pgdir start (vm_end a))))
         else if stop < vm_end a then
           bindR (vma_resize v stop (vm_end a) s) (\<lambda>s1. bindR (insert_vma_struct m v s1)
             (on_mem (unmap_range pgdir (vm_start a) stop)))
         else bindR (vma_destroy v s) (on_mem (unmap_range pgdir (vm_start a) (vm_end a))))"

fun unmap_each :: "nat \<Rightarrow> 32 word \<Rightarrow> 32 word \<Rightarrow> nat list \<Rightarrow> vm_st \<Rightarrow> vm_st res" where
  "unmap_each m start stop [] s = Inr s"
| "unmap_each m start stop (v # vs) s = bindR (unmap_one m start stop v s) (unmap_each m start stop vs)"

definition mm_unmap :: "nat option \<Rightarrow> 32 word \<Rightarrow> 32 word \<Rightarrow> vm_st \<Rightarrow> (int \<times> vm_st) res" where
  "mm_unmap mm addr len s =
     (let start = ROUNDDOWN addr PGSIZE; stop = ROUNDUP (addr + len) PGSIZE
      in if \<not> USER_ACCESS start stop then Inr (- E_INVAL, s)
         else bindR (assertR (mm \<noteq> None) ''mm != NULL'') (\<lambda>_. bindR (deref mm) (\<lambda>m.
              bindR (find_vma (Some m) start s) (\<lambda>(vma, s1).
                case vma of
                  None \<Rightarrow> Inr (0, s1)
                | Some v \<Rightarrow>
                    let a = vmas s1 v
                    in if stop \<le> vm_start a then Inr (0, s1)
                       else if vm_start a < start \<and> stop < vm_end a then
                         (case vma_create (vm_start a) start (vm_flags a) s1 of
                            (None, s2) \<Rightarrow> Inr (- E_NO_MEM, s2)
                          | (Some nv, s2) \<Rightarrow>
                              bindR (vma_resize v stop (vm_end a) s2) (\<lambda>s3.
                              bindR (insert_vma_struct m nv s3) (\<lambda>s4.
                              bindR (on_mem (unmap_range (mm_pgdir (mms s4 m)) start stop) s4) (\<lambda>s5. Inr (0, s5)))))
                       else
                         bindR (unmap_collect m stop (dropWhile (\<lambda>x. x \<noteq> v) (mmap_list (mms s1 m))) [] s1) (\<lambda>(free, s2).
                         bindR (unmap_each m start stop free s2) (\<lambda>s3. Inr (0, s3)))))))"

fun dup_areas :: "nat \<Rightarrow> nat \<Rightarrow> nat list \<Rightarrow> vm_st \<Rightarrow> (int \<times> vm_st) res" where
  "dup_areas to from [] s = Inr (0, s)"
| "dup_areas to from (v # vs) s =
     (let a = vmas s v
      in case vma_create (vm_start a) (vm_end a) (vm_flags a) s of
           (None, s1) \<Rightarrow> Inr (- E_NO_MEM, s1)
         | (Some nv, s1) \<Rightarrow>
             bindR (if vm_flags a AND VM_SHARE \<noteq> 0 then
                      bindR (deref (vm_shmem a)) (\<lambda>h.
                        Inr (snd (shmem_ref_inc h (upd_vma nv (\<lambda>b. b\<lparr>vm_shmem := Some h, vm_shmem_off := vm_shmem_off a\<rparr>) s1))))
                    else Inr s1) (\<lambda>s2.
             bindR (insert_vma_struct to nv s2) (\<lambda>s3.
             bindR (on_mem_val (copy_range (mm_pgdir (mms s3 to)) (mm_pgdir (mms s3 from)) (vm_start a) (vm_end a)
               (vm_flags a AND VM_SHARE \<noteq> 0)) s3) (\<lambda>(ret, s4).
               if ret \<noteq> 0 then Inr (- E_NO_MEM, s4) else dup_areas to from vs s4))))"

definition dup_mmap :: "nat option \<Rightarrow> nat option \<Rightarrow> vm_st \<Rightarrow> (int \<times> vm_st) res" where
  "dup_mmap to from s =
     bindR (assertR (to \<noteq> None \<and> from \<noteq> None) ''to != NULL && from != NULL'') (\<lambda>_.
     bindR (deref to) (\<lambda>t. bindR (deref from) (\<lambda>f. dup_areas t f (rev (mmap_list (mms s f))) s)))"

fun unmap_areas :: "nat \<Rightarrow> nat list \<Rightarrow> vm_st \<Rightarrow> vm_st res" where
  "unmap_areas pgdir [] s = Inr s"
| "unmap_areas pgdir (v # vs) s =
     bindR (on_mem (unmap_range pgdir (vm_start (vmas s v)) (vm_end (vmas s v))) s) (unmap_areas pgdir vs)"

fun exit_areas :: "nat \<Rightarrow> nat list \<Rightarrow> vm_st \<Rightarrow> vm_st res" where
  "exit_areas pgdir [] s = Inr s"
| "exit_areas pgdir (v # vs) s =
     bindR (on_mem (exit_range pgdir (vm_start (vmas s v)) (vm_end (vmas s v))) s) (exit_areas pgdir vs)"

definition exit_mmap :: "nat option \<Rightarrow> vm_st \<Rightarrow> vm_st res" where
  "exit_mmap mm s =
     bindR (assertR (case mm of None \<Rightarrow> False | Some m \<Rightarrow> atomic_read (mm_count (mms s m)) = 0) ''mm != NULL && mm_count(mm) == 0'') (\<lambda>_.
     bindR (deref mm) (\<lambda>m.
       let pgdir = mm_pgdir (mms s m); l = mmap_list (mms s m)
       in bindR (unmap_areas pgdir l s) (exit_areas pgdir l)))"

text \<open>The areas from the highest down.\<close>

fun find_gap :: "(nat \<Rightarrow> vma_struct) \<Rightarrow> 32 word \<Rightarrow> nat list \<Rightarrow> 32 word \<Rightarrow> 32 word" where
  "find_gap f len [] start = (if start \<ge> USERBASE then start else 0)"
| "find_gap f len (v # vs) start =
     (if start \<ge> vm_end (f v) then start
      else if start + len > vm_start (f v) then
        if len \<ge> vm_start (f v) then 0 else find_gap f len vs (vm_start (f v) - len)
      else find_gap f len vs start)"

definition get_unmapped_area :: "nat \<Rightarrow> 32 word \<Rightarrow> vm_st \<Rightarrow> 32 word" where
  "get_unmapped_area m len s =
     (if len = 0 \<or> len > USERTOP then 0 else find_gap (vmas s) len (rev (mmap_list (mms s m))) (USERTOP - len))"

definition mm_brk :: "nat \<Rightarrow> 32 word \<Rightarrow> 32 word \<Rightarrow> vm_st \<Rightarrow> (int \<times> vm_st) res" where
  "mm_brk m addr len s =
     (let start = ROUNDDOWN addr PGSIZE; stop = ROUNDUP (addr + len) PGSIZE; flags = VM_READ OR VM_WRITE
      in if \<not> USER_ACCESS start stop then Inr (- E_INVAL, s)
         else bindR (mm_unmap (Some m) start (stop - start) s) (\<lambda>(ret, s1).
           if ret \<noteq> 0 then Inr (ret, s1)
           else bindR (find_vma (Some m) (start - 1) s1) (\<lambda>(vma, s2).
             let create = (case vma_create start stop flags s2 of
                   (None, s3) \<Rightarrow> Inr (- E_NO_MEM, s3)
                 | (Some nv, s3) \<Rightarrow> bindR (insert_vma_struct m nv s3) (\<lambda>s4. Inr (0, s4)))
             in case vma of
                  None \<Rightarrow> create
                | Some v \<Rightarrow>
                    if vm_end (vmas s2 v) = start \<and> vm_flags (vmas s2 v) = flags
                    then Inr (0, upd_vma v (\<lambda>a. a\<lparr>vm_end := stop\<rparr>) s2) else create)))"

section \<open>Access from the kernel\<close>

partial_function (option) user_check_loop :: "nat \<Rightarrow> 32 word \<Rightarrow> 32 word \<Rightarrow> bool \<Rightarrow> vm_st \<Rightarrow> (bool \<times> vm_st) res option" where
  "user_check_loop m start stop write s =
     (if start < stop then
        (case find_vma (Some m) start s of
           Inl e \<Rightarrow> Some (Inl e)
         | Inr (vma, s1) \<Rightarrow>
             (case vma of
                None \<Rightarrow> Some (Inr (False, s1))
              | Some v \<Rightarrow>
                  if start < vm_start (vmas s1 v) then Some (Inr (False, s1))
                  else if vm_flags (vmas s1 v) AND (if write then VM_WRITE else VM_READ) = 0 then Some (Inr (False, s1))
                  else if write \<and> vm_flags (vmas s1 v) AND VM_STACK \<noteq> 0 \<and> start < vm_start (vmas s1 v) + PGSIZE
                    then Some (Inr (False, s1))
                  else user_check_loop m (vm_end (vmas s1 v)) stop write s1))
      else Some (Inr (True, s)))"

definition user_mem_check :: "nat option \<Rightarrow> 32 word \<Rightarrow> 32 word \<Rightarrow> bool \<Rightarrow> vm_st \<Rightarrow> (bool \<times> vm_st) res" where
  "user_mem_check mm addr len write s =
     (case mm of
        None \<Rightarrow> Inr (KERN_ACCESS addr (addr + len), s)
      | Some m \<Rightarrow>
          if \<not> USER_ACCESS addr (addr + len) then Inr (False, s)
          else spinR (user_check_loop m addr (addr + len) write s))"

text \<open>\<open>um\<close> is the memory as the running process addresses it.\<close>

definition copy_from_user :: "nat option \<Rightarrow> 32 word \<Rightarrow> 32 word \<Rightarrow> 32 word \<Rightarrow> bool \<Rightarrow> Cstring.mem \<Rightarrow> vm_st \<Rightarrow> (bool \<times> Cstring.mem \<times> vm_st) res" where
  "copy_from_user mm dst src len writable um s =
     bindR (user_mem_check mm src len writable s) (\<lambda>(ok, s1).
       if \<not> ok then Inr (False, um, s1) else Inr (True, memcpy (unat dst) (unat src) (unat len) um, s1))"

definition copy_to_user :: "nat option \<Rightarrow> 32 word \<Rightarrow> 32 word \<Rightarrow> 32 word \<Rightarrow> Cstring.mem \<Rightarrow> vm_st \<Rightarrow> (bool \<times> Cstring.mem \<times> vm_st) res" where
  "copy_to_user mm dst src len um s =
     bindR (user_mem_check mm dst len True s) (\<lambda>(ok, s1).
       if \<not> ok then Inr (False, um, s1) else Inr (True, memcpy (unat dst) (unat src) (unat len) um, s1))"

section \<open>Page faults\<close>

text \<open>The checks on the area that was found: the address lies in it, not in the guard page of a stack,
  and the access is one the area allows.\<close>

definition fault_allowed :: "32 word \<Rightarrow> 32 word \<Rightarrow> vma_struct \<Rightarrow> bool" where
  "fault_allowed error_code addr a =
     (\<not> vm_start a > addr \<and>
      \<not> (vm_flags a AND VM_STACK \<noteq> 0 \<and> addr < vm_start a + PGSIZE) \<and>
      (let code = error_code AND 3
       in if code = 1 then False
          else if code = 0 then vm_flags a AND (VM_READ OR VM_EXEC) \<noteq> 0
          else vm_flags a AND VM_WRITE \<noteq> 0))"

text \<open>The entry is empty: a fresh page for a private area, the page of the object for a shared one.\<close>

definition fault_fresh :: "(vm_st \<Rightarrow> vm_st) \<Rightarrow> nat \<Rightarrow> vma_struct \<Rightarrow> 32 word \<Rightarrow> 32 word \<Rightarrow> nat \<times> nat \<Rightarrow> vm_st \<Rightarrow> (int \<times> vm_st) res" where
  "fault_fresh sch m a addr perm ptep s =
     (let pgdir = mm_pgdir (mms s m)
      in if vm_flags a AND VM_SHARE = 0 then
           bindR (on_mem_val (pgdir_alloc_page pgdir addr perm) s) (\<lambda>(page, s1).
             Inr (if page = None then - E_NO_MEM else 0, s1))
         else
           bindR (deref (vm_shmem a)) (\<lambda>h.
           bindR (lock_shmem sch h s) (\<lambda>s1.
           bindR (shmem_get_entry h (addr - vm_start a + vm_shmem_off a) True s1) (\<lambda>(sh_ptep, s2).
           bindR (unlock_shmem h s2) (\<lambda>s3.
             case sh_ptep of
               None \<Rightarrow> Inr (- E_NO_MEM, s3)
             | Some e \<Rightarrow>
                 let w = rd_entry e (mem s3)
                 in if w = 0 then Inr (- E_NO_MEM, s3)
                    else if w AND PTE_P \<noteq> 0 then
                      bindR (pa2page w (mem s3)) (\<lambda>p.
                      bindR (on_mem_val (page_insert pgdir p addr perm) s3) (\<lambda>(_, s4). Inr (0, s4)))
                    else
                      bindR (on_mem (swap_duplicate (rd_entry ptep (mem s3))) s3) (\<lambda>s4.
                        Inr (0, s4\<lparr>mem := wr_entry ptep (rd_entry e (mem s4)) (mem s4)\<rparr>)))))))"

text \<open>The entry maps a page that may not be written, or is a swap entry.  \<open>ret\<close> is \<open>- E_NO_MEM\<close>
  until \<open>swap_in_page\<close> has set it.\<close>

definition fault_insert :: "nat \<Rightarrow> 32 word \<Rightarrow> 32 word \<Rightarrow> nat \<Rightarrow> nat option \<Rightarrow> mem_st \<Rightarrow> (int \<times> mem_st) res" where
  "fault_insert pgdir addr perm page newpage s =
     bindR (page_insert pgdir page addr perm s) (\<lambda>(_, s1).
       case newpage of None \<Rightarrow> Inr (0, s1) | Some n \<Rightarrow> bindR (free_page n s1) (\<lambda>s2. Inr (0, s2)))"

definition fault_copy :: "nat \<Rightarrow> 32 word \<Rightarrow> 32 word \<Rightarrow> bool \<Rightarrow> int \<Rightarrow> nat \<Rightarrow> nat option \<Rightarrow> mem_st \<Rightarrow> (int \<times> mem_st) res" where
  "fault_copy pgdir addr perm copy ret page newpage s =
     (if copy then
        bindR (swap_page_count page s) (\<lambda>c.
        bindR (chk32 (page_ref page s + c)) (\<lambda>n.
          if n > 1 then
            (case newpage of
               None \<Rightarrow> Inr (ret, s)
             | Some q \<Rightarrow> fault_insert pgdir addr perm q None (s\<lparr>frame := (frame s)(q := frame s page)\<rparr>))
          else fault_insert pgdir addr perm page newpage s))
      else fault_insert pgdir addr perm page newpage s)"

definition fault_mapped :: "(32 word \<Rightarrow> int) \<Rightarrow> (mem_st \<Rightarrow> mem_st) \<Rightarrow> nat \<Rightarrow> vma_struct \<Rightarrow> 32 word \<Rightarrow> 32 word \<Rightarrow> 32 word \<Rightarrow> nat \<times> nat \<Rightarrow> mem_st \<Rightarrow> (int \<times> mem_st) res" where
  "fault_mapped rd env pgdir a error_code addr perm ptep s =
     (let cow = (vm_flags a AND (VM_SHARE OR VM_WRITE) = VM_WRITE); w = rd_entry ptep s
      in bindR (assertR (w AND PTE_P = 0 \<or> error_code AND 2 \<noteq> 0 \<and> w AND PTE_W = 0 \<and> cow)
           ''!(*ptep & PTE_P) || ((error_code & 2) && !(*ptep & PTE_W) && cow)'') (\<lambda>_.
         bindR (if cow then alloc_page s else Inr (None, s)) (\<lambda>(newpage, s1).
           if rd_entry ptep s1 AND PTE_P \<noteq> 0 then
             bindR (pte2page (rd_entry ptep s1) s1) (\<lambda>page. fault_copy pgdir addr perm cow (- E_NO_MEM) page newpage s1)
           else
             bindR (swap_in_page rd env (rd_entry ptep s1) s1) (\<lambda>(ret, page, s2).
               if ret \<noteq> 0 then
                 (case newpage of None \<Rightarrow> Inr (ret, s2) | Some n \<Rightarrow> bindR (free_page n s2) (\<lambda>s3. Inr (ret, s3)))
               else bindR (deref page) (\<lambda>p.
                 if error_code AND 2 = 0 \<and> cow then fault_copy pgdir addr (perm AND NOT PTE_W) False 0 p newpage s2
                 else fault_copy pgdir addr perm cow 0 p newpage s2)))))"

definition fault_body :: "(32 word \<Rightarrow> int) \<Rightarrow> (mem_st \<Rightarrow> mem_st) \<Rightarrow> (vm_st \<Rightarrow> vm_st) \<Rightarrow> nat \<Rightarrow> 32 word \<Rightarrow> 32 word \<Rightarrow> vm_st \<Rightarrow> (int \<times> vm_st) res" where
  "fault_body rd env sch m error_code addr0 s =
     bindR (find_vma (Some m) addr0 s) (\<lambda>(vma, s1).
       case vma of
         None \<Rightarrow> Inr (- E_INVAL, s1)
       | Some v \<Rightarrow>
           let a = vmas s1 v
           in if \<not> fault_allowed error_code addr0 a then Inr (- E_INVAL, s1)
              else let perm = (if vm_flags a AND VM_WRITE \<noteq> 0 then PTE_U OR PTE_W else PTE_U);
                       addr = ROUNDDOWN addr0 PGSIZE; pgdir = mm_pgdir (mms s1 m)
                   in bindR (on_mem_val (get_pte pgdir addr True) s1) (\<lambda>(ptep, s2).
                        case ptep of
                          None \<Rightarrow> Inr (- E_NO_MEM, s2)
                        | Some e \<Rightarrow>
                            if rd_entry e (mem s2) = 0 then fault_fresh sch m a addr perm e s2
                            else on_mem_val (fault_mapped rd env pgdir a error_code addr perm e) s2))"

definition do_pgfault :: "(32 word \<Rightarrow> int) \<Rightarrow> (mem_st \<Rightarrow> mem_st) \<Rightarrow> (vm_st \<Rightarrow> vm_st) \<Rightarrow> int option \<Rightarrow> nat option \<Rightarrow> 32 word \<Rightarrow> 32 word \<Rightarrow> vm_st \<Rightarrow> (int \<times> vm_st) res" where
  "do_pgfault rd env sch cur mm error_code addr s =
     (case mm of
        None \<Rightarrow> bindR (assertR (cur \<noteq> None) ''current != NULL'') (\<lambda>_. Inl (Panic ''page fault in kernel thread''))
      | Some m \<Rightarrow>
          let (ok, s1) = try_lock_mm cur mm s
          in bindR (if ok then Inr (True, s1)
                    else if cur \<noteq> None \<and> cur = Some (locked_by (mms s1 m)) then Inr (False, s1)
                    else bindR (lock_mm sch cur mm s1) (\<lambda>s2. Inr (True, s2))) (\<lambda>(need_unlock, s2).
             bindR (fault_body rd env sch m error_code addr s2) (\<lambda>(ret, s3).
               if need_unlock then bindR (unlock_mm mm s3) (\<lambda>s4. Inr (ret, s4)) else Inr (ret, s3))))"

end
