(* ===== verification/Vmm_Areas.thy ===== *)
theory Vmm_Areas
  imports Vmm
begin

text \<open>
  The areas of an address space without a tree: the invariant of their list, the abstract address
  space they stand for, and what finding, inserting and mapping areas, the search for a free range
  and the check of a user access are in terms of it.
\<close>

section \<open>Well-formed address spaces\<close>

text \<open>The areas of a space are not empty, disjoint and sorted.\<close>

definition areas_ok :: "(nat \<Rightarrow> vma_struct) \<Rightarrow> nat list \<Rightarrow> bool" where
  "areas_ok f l = ((\<forall>v\<in>set l. vm_start (f v) < vm_end (f v)) \<and> sorted_wrt (\<lambda>u v. vm_end (f u) \<le> vm_start (f v)) l)"

definition covers :: "vma_struct \<Rightarrow> 32 word \<Rightarrow> bool" where
  "covers a x = (vm_start a \<le> x \<and> x < vm_end a)"

text \<open>Areas consist of whole pages of user space.\<close>

definition user_area :: "vma_struct \<Rightarrow> bool" where
  "user_area a = (vm_start a mod PGSIZE = 0 \<and> vm_end a mod PGSIZE = 0 \<and> USERBASE \<le> vm_start a \<and> vm_end a \<le> USERTOP)"

text \<open>A space without a tree: the list is well formed, belongs to the space and is counted, and the
  addresses the pool hands out are in no use.\<close>

definition mm_ok :: "vm_st \<Rightarrow> nat \<Rightarrow> bool" where
  "mm_ok s m =
     (let l = mmap_list (mms s m)
      in areas_ok (vmas s) l \<and> (\<forall>v\<in>set l. vm_mm (vmas s v) = m \<and> user_area (vmas s v)) \<and> mmap_tree (mms s m) = None \<and>
         (\<forall>v. mmap_cache (mms s m) = Some v \<longrightarrow> v \<in> set l) \<and> map_count (mms s m) = int (length l) \<and>
         distinct (kpool s) \<and> set (kpool s) \<inter> set l = {})"

text \<open>The abstract address space: what an address may be used for, and for a shared area the object and
  where in it the address lies.\<close>

type_synonym addr_use = "32 word \<times> (nat option \<times> 32 word) option"

definition use_of :: "vma_struct \<Rightarrow> 32 word \<Rightarrow> addr_use" where
  "use_of a x = (vm_flags a, if vm_flags a AND VM_SHARE \<noteq> 0 then Some (vm_shmem a, x - vm_start a + vm_shmem_off a) else None)"

definition space :: "vm_st \<Rightarrow> nat \<Rightarrow> 32 word \<Rightarrow> addr_use option" where
  "space s m x = map_option (\<lambda>v. use_of (vmas s v) x) (find (\<lambda>v. covers (vmas s v) x) (mmap_list (mms s m)))"

lemma areas_ok_Nil [simp]: "areas_ok f []"
  by (simp add: areas_ok_def)

lemma areas_ok_Cons [simp]:
  "areas_ok f (v # l) \<longleftrightarrow> vm_start (f v) < vm_end (f v) \<and> (\<forall>u\<in>set l. vm_end (f v) \<le> vm_start (f u)) \<and> areas_ok f l"
  by (auto simp: areas_ok_def)

lemma areas_ok_append:
  "areas_ok f (us @ vs) \<longleftrightarrow> areas_ok f us \<and> areas_ok f vs \<and> (\<forall>u\<in>set us. \<forall>v\<in>set vs. vm_end (f u) \<le> vm_start (f v))"
  by (induction us) auto

lemma areas_ok_distinct: "areas_ok f l \<Longrightarrow> distinct l"
  by (induction l) auto

lemma areas_ok_mem: "areas_ok f l \<Longrightarrow> v \<in> set l \<Longrightarrow> vm_start (f v) < vm_end (f v)"
  by (simp add: areas_ok_def)

lemma areas_ok_cong: "(\<And>v. v \<in> set l \<Longrightarrow> vm_start (f v) = vm_start (g v) \<and> vm_end (f v) = vm_end (g v)) \<Longrightarrow> areas_ok f l = areas_ok g l"
  by (induction l) auto

lemma covers_unique:
  assumes "areas_ok f l" "u \<in> set l" "v \<in> set l" "covers (f u) x" "covers (f v) x"
  shows "u = v"
  using assms
proof (induction l)
  case (Cons w l)
  have "\<not> covers (f y) x" if "y \<in> set l" "covers (f w) x" for y
    using that Cons.prems(1) by (force simp: covers_def)
  with Cons show ?case by auto
qed simp

lemma space_None: "space s m x = None \<longleftrightarrow> (\<forall>v\<in>set (mmap_list (mms s m)). \<not> covers (vmas s v) x)"
  using find_None_iff [of "\<lambda>v. covers (vmas s v) x" "mmap_list (mms s m)"]
  by (auto simp: space_def)

lemma space_Some:
  assumes "areas_ok (vmas s) (mmap_list (mms s m))" "v \<in> set (mmap_list (mms s m))" "covers (vmas s v) x"
  shows "space s m x = Some (use_of (vmas s v) x)"
proof -
  obtain u where u: "find (\<lambda>v. covers (vmas s v) x) (mmap_list (mms s m)) = Some u"
    using assms(2,3) by (metis find_None_iff option.exhaust)
  then have "u \<in> set (mmap_list (mms s m))" "covers (vmas s u) x" by (auto simp: find_Some_iff)
  then have "u = v" using covers_unique [OF assms(1) _ assms(2) _ assms(3)] by blast
  then show ?thesis using u by (simp add: space_def)
qed

lemma space_cong:
  assumes "mmap_list (mms s' m) = mmap_list (mms s m)" "\<And>u. u \<in> set (mmap_list (mms s m)) \<Longrightarrow> vmas s' u = vmas s u"
  shows "space s' m = space s m"
proof (rule ext)
  fix x
  have "find (\<lambda>u. covers (vmas s' u) x) (mmap_list (mms s m)) = find (\<lambda>u. covers (vmas s u) x) (mmap_list (mms s m))"
    by (rule find_cong) (simp_all add: assms(2))
  moreover have "vmas s' u = vmas s u" if "find (\<lambda>u. covers (vmas s u) x) (mmap_list (mms s m)) = Some u" for u
    using that assms(2) [of u] by (auto simp: find_Some_iff)
  ultimately show "space s' m x = space s m x"
    by (cases "find (\<lambda>u. covers (vmas s u) x) (mmap_list (mms s m))") (simp_all add: space_def assms(1))
qed

lemma mm_okD:
  assumes "mm_ok s m"
  shows "areas_ok (vmas s) (mmap_list (mms s m))" "mmap_tree (mms s m) = None" "distinct (kpool s)"
    "map_count (mms s m) = int (length (mmap_list (mms s m)))" "set (kpool s) \<inter> set (mmap_list (mms s m)) = {}"
    "\<And>v. v \<in> set (mmap_list (mms s m)) \<Longrightarrow> vm_mm (vmas s v) = m" "\<And>v. v \<in> set (mmap_list (mms s m)) \<Longrightarrow> user_area (vmas s v)"
  using assms by (simp_all add: mm_ok_def)

section \<open>Finding areas\<close>

lemma find_vma_list_None: "find_vma_list f x l = None \<longleftrightarrow> (\<forall>v\<in>set l. vm_end (f v) \<le> x)"
  by (induction l) auto

lemma find_vma_list_Some:
  "find_vma_list f x l = Some v \<longleftrightarrow> (\<exists>us ws. l = us @ v # ws \<and> (\<forall>u\<in>set us. vm_end (f u) \<le> x) \<and> x < vm_end (f v))"
proof
  assume "find_vma_list f x l = Some v"
  then show "\<exists>us ws. l = us @ v # ws \<and> (\<forall>u\<in>set us. vm_end (f u) \<le> x) \<and> x < vm_end (f v)"
  proof (induction l)
    case (Cons w l)
    show ?case
    proof (cases "x < vm_end (f w)")
      case True
      then show ?thesis using Cons.prems by (intro exI [of _ "[]"] exI [of _ l]) auto
    next
      case False
      then obtain us ws where "l = us @ v # ws" "\<forall>u\<in>set us. vm_end (f u) \<le> x" "x < vm_end (f v)"
        using Cons by auto
      then show ?thesis using False by (intro exI [of _ "w # us"] exI [of _ ws]) auto
    qed
  qed simp
next
  assume "\<exists>us ws. l = us @ v # ws \<and> (\<forall>u\<in>set us. vm_end (f u) \<le> x) \<and> x < vm_end (f v)"
  then obtain us ws where "l = us @ v # ws" "\<forall>u\<in>set us. vm_end (f u) \<le> x" "x < vm_end (f v)" by blast
  then show "find_vma_list f x l = Some v" by (induction us arbitrary: l) (auto simp: not_less)
qed

lemma find_vma_list_covers:
  assumes "areas_ok f l" "v \<in> set l" "covers (f v) x"
  shows "find_vma_list f x l = Some v"
proof -
  obtain us ws where l: "l = us @ v # ws" using assms(2) by (auto simp: in_set_conv_decomp)
  then have "\<forall>u\<in>set us. vm_end (f u) \<le> x" using assms(1,3) by (force simp: areas_ok_append covers_def)
  then show ?thesis using l assms(3) by (auto simp: find_vma_list_Some covers_def)
qed

definition cache_vma :: "nat \<Rightarrow> nat option \<Rightarrow> vm_st \<Rightarrow> vm_st" where
  "cache_vma m vma s = (case vma of None \<Rightarrow> s | Some v \<Rightarrow> upd_mm m (\<lambda>d. d\<lparr>mmap_cache := Some v\<rparr>) s)"

lemma find_vma_spec:
  assumes "mm_ok s m"
  shows "find_vma (Some m) x s = Inr (find_vma_list (vmas s) x (mmap_list (mms s m)), cache_vma m (find_vma_list (vmas s) x (mmap_list (mms s m))) s)"
proof -
  have ok: "areas_ok (vmas s) (mmap_list (mms s m))" "mmap_tree (mms s m) = None"
    "\<And>v. mmap_cache (mms s m) = Some v \<Longrightarrow> v \<in> set (mmap_list (mms s m))"
    using assms by (simp_all add: mm_ok_def)
  have "find_vma_list (vmas s) x (mmap_list (mms s m)) = Some v"
    if "mmap_cache (mms s m) = Some v" "vm_start (vmas s v) \<le> x" "x < vm_end (vmas s v)" for v
    using find_vma_list_covers [OF ok(1) ok(3)] that by (simp add: covers_def)
  then show ?thesis
    by (auto simp: find_vma_def find_vma_uncached_def ok(2) cache_vma_def split: option.splits)
qed

lemma cache_vma_simps [simp]:
  "vmas (cache_vma m v s) = vmas s" "mem (cache_vma m v s) = mem s" "kpool (cache_vma m v s) = kpool s" "shmems (cache_vma m v s) = shmems s"
  "rbs (cache_vma m v s) = rbs s" "shmns (cache_vma m v s) = shmns s"
  "mmap_list (mms (cache_vma m v s) k) = mmap_list (mms s k)" "mmap_tree (mms (cache_vma m v s) k) = mmap_tree (mms s k)"
  "mm_pgdir (mms (cache_vma m v s) k) = mm_pgdir (mms s k)" "map_count (mms (cache_vma m v s) k) = map_count (mms s k)"
  "mm_lock (mms (cache_vma m v s) k) = mm_lock (mms s k)"
  by (simp_all add: cache_vma_def upd_mm_def split: option.splits)

lemma cache_vma_ok [kinv]:
  assumes "mm_ok s m" "\<And>u. v = Some u \<Longrightarrow> u \<in> set (mmap_list (mms s m))"
  shows "mm_ok (cache_vma m v s) m"
proof -
  have "mmap_cache (mms (cache_vma m v s) m) = (if v = None then mmap_cache (mms s m) else v)"
    by (auto simp: cache_vma_def upd_mm_def split: option.splits)
  then show ?thesis using assms by (auto simp: mm_ok_def)
qed

lemma find_vma_list_mem: "find_vma_list f x l = Some v \<Longrightarrow> v \<in> set l"
  by (auto simp: find_vma_list_Some)

lemma space_cache_vma [simp]: "space (cache_vma m v s) = space s"
  by (rule ext, rule ext) (simp add: space_def)

section \<open>Inserting areas\<close>

definition put_vma :: "nat \<Rightarrow> nat list \<Rightarrow> nat \<Rightarrow> vm_st \<Rightarrow> vm_st" where
  "put_vma m l v s = upd_mm m (\<lambda>d. d\<lparr>mmap_list := l, map_count := map_count d + 1\<rparr>) (upd_vma v (\<lambda>a. a\<lparr>vm_mm := m\<rparr>) s)"

lemma put_vma_simps [simp]:
  "mem (put_vma m l v s) = mem s" "kpool (put_vma m l v s) = kpool s" "shmems (put_vma m l v s) = shmems s"
  "vm_start (vmas (put_vma m l v s) u) = vm_start (vmas s u)" "vm_end (vmas (put_vma m l v s) u) = vm_end (vmas s u)"
  "vm_flags (vmas (put_vma m l v s) u) = vm_flags (vmas s u)" "vm_shmem (vmas (put_vma m l v s) u) = vm_shmem (vmas s u)"
  "vm_shmem_off (vmas (put_vma m l v s) u) = vm_shmem_off (vmas s u)"
  "vm_mm (vmas (put_vma m l v s) u) = (if u = v then m else vm_mm (vmas s u))"
  "mmap_list (mms (put_vma m l v s) k) = (if k = m then l else mmap_list (mms s k))"
  "mm_pgdir (mms (put_vma m l v s) k) = mm_pgdir (mms s k)" "mmap_tree (mms (put_vma m l v s) k) = mmap_tree (mms s k)"
  "mmap_cache (mms (put_vma m l v s) k) = mmap_cache (mms s k)"
  "map_count (mms (put_vma m l v s) m) = map_count (mms s m) + 1" "mm_lock (mms (put_vma m l v s) k) = mm_lock (mms s k)"
  "covers (vmas (put_vma m l v s) u) x = covers (vmas s u) x" "use_of (vmas (put_vma m l v s) u) x = use_of (vmas s u) x"
  "user_area (vmas (put_vma m l v s) u) = user_area (vmas s u)"
  by (simp_all add: put_vma_def upd_mm_def upd_vma_def covers_def use_of_def user_area_def)

lemma find_prev_vma_eq:
  "find_prev_vma f start l p = (let us = takeWhile (\<lambda>u. \<not> vm_start (f u) > start) l in if us = [] then p else Some (last us))"
  by (induction l arbitrary: p) auto

lemma insert_after_last:
  assumes "distinct (us @ ws)"
  shows "insert_after (if us = [] then None else Some (last us)) v (us @ ws) = us @ v # ws"
    "list_after (if us = [] then None else Some (last us)) (us @ ws) = first_of ws"
proof -
  have "insert_after (if us = [] then None else Some (last us)) v (us @ ws) = us @ v # ws \<and>
    list_after (if us = [] then None else Some (last us)) (us @ ws) = first_of ws"
  proof (cases us rule: rev_cases)
    case (snoc vs u)
    then have "takeWhile (\<lambda>x. x \<noteq> u) (vs @ u # ws) = vs" "dropWhile (\<lambda>x. x \<noteq> u) (vs @ u # ws) = u # ws"
      using assms by (auto simp: takeWhile_append dropWhile_append)
    then show ?thesis using snoc
      by (simp add: insert_after_def list_after_def next_in_def first_of_def split: list.split)
  qed (simp add: insert_after_def list_after_def)
  then show "insert_after (if us = [] then None else Some (last us)) v (us @ ws) = us @ v # ws"
    "list_after (if us = [] then None else Some (last us)) (us @ ws) = first_of ws" by auto
qed

text \<open>Where an area that overlaps none of the others goes.\<close>

lemma insertion_point:
  assumes "areas_ok f l" "vm_start (f v) < vm_end (f v)"
    and "\<And>u. u \<in> set l \<Longrightarrow> vm_end (f u) \<le> vm_start (f v) \<or> vm_end (f v) \<le> vm_start (f u)"
  defines "us \<equiv> takeWhile (\<lambda>u. \<not> vm_start (f u) > vm_start (f v)) l" and "ws \<equiv> dropWhile (\<lambda>u. \<not> vm_start (f u) > vm_start (f v)) l"
  shows "areas_ok f (us @ v # ws)"
proof -
  have l: "l = us @ ws" by (simp add: us_def ws_def)
  have ok: "areas_ok f us" "areas_ok f ws" "\<forall>u\<in>set us. \<forall>w\<in>set ws. vm_end (f u) \<le> vm_start (f w)"
    using assms(1) unfolding l areas_ok_append by auto
  have "vm_end (f u) \<le> vm_start (f v)" if u: "u \<in> set us" for u
  proof -
    have "vm_start (f u) \<le> vm_start (f v)" using u by (auto simp: us_def dest: set_takeWhileD)
    moreover have "u \<in> set l" using u l by simp
    ultimately show ?thesis using assms(2) assms(3) [of u] by auto
  qed
  moreover have "vm_end (f v) \<le> vm_start (f w)" if w: "w \<in> set ws" for w
  proof -
    obtain w0 ws' where ws: "ws = w0 # ws'" using w by (cases ws) auto
    have "vm_start (f v) < vm_start (f w0)"
      using ws unfolding ws_def by (simp add: dropWhile_eq_Cons_conv)
    moreover have "vm_start (f w0) < vm_end (f w0)" "w = w0 \<or> vm_end (f w0) \<le> vm_start (f w)" using ok(2) w ws by auto
    moreover have "w \<in> set l" "w0 \<in> set l" using w ws l by auto
    ultimately show ?thesis using assms(3) [of w] assms(3) [of w0] by auto
  qed
  ultimately show ?thesis using ok assms(2) by (simp add: areas_ok_append)
qed

lemma insert_vma_struct_spec:
  assumes ok: "mm_ok s m" and v: "vm_start (vmas s v) < vm_end (vmas s v)"
    and free: "\<And>u. u \<in> set (mmap_list (mms s m)) \<Longrightarrow> vm_end (vmas s u) \<le> vm_start (vmas s v) \<or> vm_end (vmas s v) \<le> vm_start (vmas s u)"
    and few: "length (mmap_list (mms s m)) < 31"
  obtains us ws where "mmap_list (mms s m) = us @ ws" "areas_ok (vmas s) (us @ v # ws)"
    "insert_vma_struct m v s = Inr (put_vma m (us @ v # ws) v s)"
proof -
  let ?l = "mmap_list (mms s m)" and ?P = "\<lambda>u. \<not> vm_start (vmas s u) > vm_start (vmas s v)"
  define us where "us = takeWhile ?P ?l"
  define ws where "ws = dropWhile ?P ?l"
  have l: "?l = us @ ws" by (simp add: us_def ws_def)
  have ok': "areas_ok (vmas s) ?l" "mmap_tree (mms s m) = None" "map_count (mms s m) = int (length ?l)"
    using ok by (simp_all add: mm_ok_def)
  have a: "areas_ok (vmas s) (us @ v # ws)" unfolding us_def ws_def by (rule insertion_point [OF ok'(1) v free])
  let ?prev = "if us = [] then None else Some (last us)"
  have p: "find_prev_vma (vmas s) (vm_start (vmas s v)) ?l None = ?prev" by (simp add: find_prev_vma_eq us_def)
  have d: "distinct (us @ ws)" using areas_ok_distinct [OF ok'(1)] l by simp
  note ins = insert_after_last [OF d]
  have c1: "(case ?prev of Some p \<Rightarrow> check_vma_overlap (vmas s p) (vmas s v) | None \<Rightarrow> Inr ()) = Inr ()"
    using a last_in_set [of us] areas_ok_mem [of _ us "last us"] by (auto simp: check_vma_overlap_def areas_ok_append)
  have c2: "(case first_of ws of Some n \<Rightarrow> check_vma_overlap (vmas s v) (vmas s n) | None \<Rightarrow> Inr ()) = Inr ()"
    using a by (auto simp: check_vma_overlap_def areas_ok_append first_of_def split: list.split)
  have k: "chk32 (map_count (mms s m) + 1) = Inr (int (length ?l) + 1)"
    using few ok'(3) by (simp add: chk32_def in_int_def INT_MAX_def INT_MIN_def)
  have m: "map_count (mms s m) + 1 = int (length ?l) + 1" using ok'(3) by simp
  have "insert_vma_struct m v s = Inr (put_vma m (us @ v # ws) v s)"
    unfolding insert_vma_struct_def
    using v few k p ok'(2,3) ins c1 c2 l
    by (simp add: upd_mm_def upd_vma_def put_vma_def RB_MIN_MAP_COUNT_def)
  with l a show thesis by (rule that)
qed

lemma put_vma_ok [kinv]:
  assumes "mm_ok s m" "mmap_list (mms s m) = us @ ws" "areas_ok (vmas s) (us @ v # ws)" "v \<notin> set (kpool s)"
    "user_area (vmas s v)"
  shows "mm_ok (put_vma m (us @ v # ws) v s) m"
proof -
  have "areas_ok (vmas (put_vma m (us @ v # ws) v s)) (us @ v # ws)"
    using assms(3) areas_ok_cong [of "us @ v # ws" "vmas (put_vma m (us @ v # ws) v s)" "vmas s"] by simp
  then show ?thesis using assms(1,2,4,5) by (auto simp: mm_ok_def)
qed

lemma space_put_vma:
  assumes "mmap_list (mms s m) = us @ ws" "areas_ok (vmas s) (us @ v # ws)"
  shows "space (put_vma m (us @ v # ws) v s) m x =
    (if covers (vmas s v) x then Some (use_of (vmas s v) x) else space s m x)"
proof (cases "covers (vmas s v) x")
  case True
  let ?s = "put_vma m (us @ v # ws) v s"
  have "areas_ok (vmas ?s) (mmap_list (mms ?s m))"
    using assms(2) areas_ok_cong [of "us @ v # ws" "vmas ?s" "vmas s"] by simp
  from space_Some [OF this, of v x] True show ?thesis by simp
next
  case False
  have "find (\<lambda>u. covers (vmas s u) x) (us @ v # ws) = find (\<lambda>u. covers (vmas s u) x) (us @ ws)"
    using False by (induction us) auto
  with False assms(1) show ?thesis by (simp add: space_def)
qed

text \<open>The range is free exactly when the first area that ends above its start begins at or above its
  end.\<close>

lemma range_free_iff:
  assumes "areas_ok f l" "a < b"
  shows "(\<forall>v\<in>set l. \<forall>x. a \<le> x \<and> x < b \<longrightarrow> \<not> covers (f v) x) \<longleftrightarrow>
    (case find_vma_list f a l of None \<Rightarrow> True | Some v \<Rightarrow> b \<le> vm_start (f v))"
    (is "?free \<longleftrightarrow> ?first")
proof
  assume free: ?free
  show ?first
  proof (cases "find_vma_list f a l")
    case (Some v)
    then have v: "v \<in> set l" "a < vm_end (f v)" by (auto simp: find_vma_list_Some)
    have "b \<le> vm_start (f v)"
    proof (rule ccontr)
      assume "\<not> b \<le> vm_start (f v)"
      then have "covers (f v) (max a (vm_start (f v)))" "a \<le> max a (vm_start (f v))" "max a (vm_start (f v)) < b"
        using v areas_ok_mem [OF assms(1) v(1)] assms(2) by (auto simp: covers_def max_def)
      with free v(1) show False by blast
    qed
    with Some show ?thesis by simp
  qed simp
next
  assume first: ?first
  show ?free
  proof (cases "find_vma_list f a l")
    case None
    then show ?thesis by (force simp: find_vma_list_None covers_def)
  next
    case (Some v)
    then obtain us ws where l: "l = us @ v # ws" "\<forall>u\<in>set us. vm_end (f u) \<le> a" by (auto simp: find_vma_list_Some)
    have "b \<le> vm_start (f u)" if "u = v \<or> u \<in> set ws" for u
    proof -
      have "vm_start (f v) < vm_end (f v)" "u = v \<or> vm_end (f v) \<le> vm_start (f u)"
        using assms(1) l that by (auto simp: areas_ok_append)
      then show ?thesis using first Some by auto
    qed
    then show ?thesis using l by (force simp: covers_def)
  qed
qed

lemma disjoint_from_free:
  assumes "vm_start (f u) < vm_end (f u)" "vm_start a < vm_end a" "\<And>x. covers a x \<Longrightarrow> \<not> covers (f u) x"
  shows "vm_end (f u) \<le> vm_start a \<or> vm_end a \<le> vm_start (f u)"
proof (rule ccontr)
  assume "\<not> ?thesis"
  then have "covers a (max (vm_start a) (vm_start (f u)))" "covers (f u) (max (vm_start a) (vm_start (f u)))"
    using assms(1,2) by (auto simp: covers_def max_def)
  with assms(3) show False by blast
qed

text \<open>The state after \<open>vma_create\<close>.\<close>

definition new_vma :: "32 word \<Rightarrow> 32 word \<Rightarrow> 32 word \<Rightarrow> nat \<Rightarrow> nat list \<Rightarrow> vm_st \<Rightarrow> vm_st" where
  "new_vma start stop flags v ps s = upd_vma v (\<lambda>a. a\<lparr>vm_start := start, vm_end := stop, vm_flags := flags,
     vm_shmem := None, vm_shmem_off := 0\<rparr>) (s\<lparr>kpool := ps\<rparr>)"

lemma vma_create_eq:
  "vma_create start stop flags s = (case kpool s of [] \<Rightarrow> (None, s) | v # ps \<Rightarrow> (Some v, new_vma start stop flags v ps s))"
  by (simp add: vma_create_def kmalloc_def new_vma_def split: list.split)

lemma new_vma_simps [simp]:
  "mms (new_vma b e fl v ps s) = mms s" "mem (new_vma b e fl v ps s) = mem s" "kpool (new_vma b e fl v ps s) = ps"
  "shmems (new_vma b e fl v ps s) = shmems s"
  "u \<noteq> v \<Longrightarrow> vmas (new_vma b e fl v ps s) u = vmas s u"
  "vm_start (vmas (new_vma b e fl v ps s) v) = b" "vm_end (vmas (new_vma b e fl v ps s) v) = e"
  "vm_flags (vmas (new_vma b e fl v ps s) v) = fl" "vm_shmem (vmas (new_vma b e fl v ps s) v) = None"
  "vm_shmem_off (vmas (new_vma b e fl v ps s) v) = 0"
  "covers (vmas (new_vma b e fl v ps s) v) x = (b \<le> x \<and> x < e)"
  "use_of (vmas (new_vma b e fl v ps s) v) x = (fl, if fl AND VM_SHARE \<noteq> 0 then Some (None, x - b) else None)"
  by (simp_all add: new_vma_def upd_vma_def covers_def use_of_def)

lemma new_vma_ok:
  assumes "mm_ok s m" "kpool s = v # ps"
  shows "mm_ok (new_vma b e fl v ps s) m" "v \<notin> set (mmap_list (mms s m))" "v \<notin> set ps"
    "space (new_vma b e fl v ps s) m = space s m"
proof -
  show v: "v \<notin> set (mmap_list (mms s m))" "v \<notin> set ps" using assms by (auto simp: mm_ok_def)
  have e: "vmas (new_vma b e fl v ps s) u = vmas s u" if "u \<in> set (mmap_list (mms s m))" for u
    using v(1) that by (cases "u = v") simp_all
  have "areas_ok (vmas (new_vma b e fl v ps s)) (mmap_list (mms s m)) = areas_ok (vmas s) (mmap_list (mms s m))"
    by (rule areas_ok_cong) (simp add: e)
  then show "mm_ok (new_vma b e fl v ps s) m" using assms e by (simp add: mm_ok_def)
  show "space (new_vma b e fl v ps s) m = space s m" by (rule space_cong) (simp_all add: e)
qed

definition range_free :: "vm_st \<Rightarrow> nat \<Rightarrow> 32 word \<Rightarrow> 32 word \<Rightarrow> bool" where
  "range_free s m a b = (\<forall>x. a \<le> x \<and> x < b \<longrightarrow> space s m x = None)"

lemma range_free_find:
  assumes "mm_ok s m" "a < b"
  shows "range_free s m a b \<longleftrightarrow> (case find_vma_list (vmas s) a (mmap_list (mms s m)) of None \<Rightarrow> True | Some v \<Rightarrow> b \<le> vm_start (vmas s v))"
  using range_free_iff [of "vmas s" "mmap_list (mms s m)" a b] assms
  by (auto simp: range_free_def space_None mm_ok_def)

text \<open>A new area in a free range.\<close>

lemma insert_new_vma:
  assumes ok: "mm_ok s m" and p: "kpool s = v # ps" and ab: "USER_ACCESS a b" "a mod PGSIZE = 0" "b mod PGSIZE = 0" and free: "range_free s m a b"
    and few: "length (mmap_list (mms s m)) < 31"
  obtains s' where "insert_vma_struct m v (new_vma a b fl v ps s) = Inr s'" "mm_ok s' m" "mem s' = mem s" "kpool s' = ps"
    "shmems s' = shmems s" "\<And>k. mm_pgdir (mms s' k) = mm_pgdir (mms s k)" "\<And>k. mm_lock (mms s' k) = mm_lock (mms s k)"
    "length (mmap_list (mms s' m)) = Suc (length (mmap_list (mms s m)))"
    "\<And>x. space s' m x = (if a \<le> x \<and> x < b then Some (fl, if fl AND VM_SHARE \<noteq> 0 then Some (None, x - a) else None) else space s m x)"
    "v \<in> set (mmap_list (mms s' m))" "vm_start (vmas s' v) = a" "vm_end (vmas s' v) = b"
proof -
  let ?s = "new_vma a b fl v ps s"
  note n = new_vma_ok(1) [OF ok p, of a b fl] new_vma_ok(2,3) [OF ok p] new_vma_ok(4) [OF ok p, of a b fl]
  have d: "vm_end (vmas ?s u) \<le> vm_start (vmas ?s v) \<or> vm_end (vmas ?s v) \<le> vm_start (vmas ?s u)"
    if u: "u \<in> set (mmap_list (mms ?s m))" for u
  proof (rule disjoint_from_free)
    have "u \<noteq> v" using u n(2) by auto
    moreover have "vm_start (vmas s u) < vm_end (vmas s u)" using areas_ok_mem [OF mm_okD(1) [OF ok]] u by simp
    ultimately show "vm_start (vmas ?s u) < vm_end (vmas ?s u)" by simp
    show "\<not> covers (vmas ?s u) x" if "covers (vmas ?s v) x" for x
      using free u that \<open>u \<noteq> v\<close> by (simp add: range_free_def space_None)
  qed (use ab(1) in \<open>simp add: USER_ACCESS_def\<close>)
  obtain us ws where ins: "mmap_list (mms ?s m) = us @ ws" "areas_ok (vmas ?s) (us @ v # ws)"
    "insert_vma_struct m v ?s = Inr (put_vma m (us @ v # ws) v ?s)"
    by (rule insert_vma_struct_spec [OF n(1), of v]) (use d few ab(1) in \<open>simp_all add: USER_ACCESS_def\<close>)
  have "v \<notin> set (kpool ?s)" using n(3) by simp
  moreover have "user_area (vmas ?s v)" using ab by (simp add: user_area_def USER_ACCESS_def)
  ultimately have k: "mm_ok (put_vma m (us @ v # ws) v ?s) m" by (rule put_vma_ok [OF n(1) ins(1,2)])
  have sp: "space (put_vma m (us @ v # ws) v ?s) m x = (if a \<le> x \<and> x < b then Some (fl, if fl AND VM_SHARE \<noteq> 0 then Some (None, x - a) else None) else space s m x)" for x
    using space_put_vma [OF ins(1,2), of x] n(4) by simp
  have len: "mmap_list (mms s m) = us @ ws" using ins(1) by simp
  show thesis
    by (rule that [OF ins(3) k]) (use len sp in simp_all)
qed

lemma unat_ROUNDDOWN_page: "unat (ROUNDDOWN x PGSIZE) = unat x div 4096 * 4096"
proof -
  have m: "unat (x mod PGSIZE) = unat x mod 4096" by (simp add: PGSIZE_def unat_mod_distrib)
  then have "x mod PGSIZE \<le> x" by (simp add: word_le_nat_alt)
  then have "unat (ROUNDDOWN x PGSIZE) = unat x - unat x mod 4096" using m by (simp add: ROUNDDOWN_def unat_sub)
  then show ?thesis by (simp add: minus_mod_eq_div_mult)
qed

lemma ROUND_page: "ROUNDDOWN x PGSIZE mod PGSIZE = 0" "ROUNDUP x PGSIZE mod PGSIZE = 0"
proof -
  have "unat (ROUNDDOWN x PGSIZE mod PGSIZE) = 0" for x
    using unat_ROUNDDOWN_page [of x] by (simp add: PGSIZE_def unat_mod_distrib)
  then show "ROUNDDOWN x PGSIZE mod PGSIZE = 0" "ROUNDUP x PGSIZE mod PGSIZE = 0"
    by (simp_all only: ROUNDUP_def unat_eq_0)
qed

lemma clear_share: "(fl AND NOT VM_SHARE) AND VM_SHARE = 0"
  by (simp add: and.assoc)

lemma mm_map_spec:
  fixes addr len :: "32 word"
  assumes ok: "mm_ok s m" and few: "length (mmap_list (mms s m)) < 31"
  defines "a \<equiv> ROUNDDOWN addr PGSIZE" and "b \<equiv> ROUNDUP (addr + len) PGSIZE"
  shows "\<exists>ret v s'. mm_map (Some m) addr len fl s = Inr (ret, v, s') \<and> mm_ok s' m \<and> mem s' = mem s \<and> shmems s' = shmems s \<and>
    (\<forall>k. mm_pgdir (mms s' k) = mm_pgdir (mms s k)) \<and>
    (if USER_ACCESS a b \<and> range_free s m a b \<and> kpool s \<noteq> []
     then ret = 0 \<and> (\<exists>u. v = Some u \<and> u \<in> set (mmap_list (mms s' m)) \<and> vm_start (vmas s' u) = a \<and> vm_end (vmas s' u) = b) \<and> (\<forall>x. space s' m x = (if a \<le> x \<and> x < b then Some (fl AND NOT VM_SHARE, None) else space s m x))
     else ret = (if USER_ACCESS a b \<and> range_free s m a b then - E_NO_MEM else - E_INVAL) \<and> space s' m = space s m \<and> kpool s' = kpool s \<and>
       mmap_list (mms s' m) = mmap_list (mms s m))"
proof (cases "USER_ACCESS a b")
  case False
  then show ?thesis using ok by (simp add: mm_map_def a_def b_def)
next
  case ua: True
  then have ab: "a < b" by (simp add: USER_ACCESS_def)
  have al: "a mod PGSIZE = 0" "b mod PGSIZE = 0" by (simp_all add: a_def b_def ROUND_page)
  have ns: "(fl AND NOT VM_SHARE) AND VM_SHARE = 0" by (rule clear_share)
  let ?f = "find_vma_list (vmas s) a (mmap_list (mms s m))"
  let ?s1 = "cache_vma m ?f s"
  have k1: "mm_ok ?s1 m" by (rule cache_vma_ok [OF ok find_vma_list_mem])
  note ff = range_free_find [OF ok ab]
  show ?thesis
  proof (cases "range_free s m a b")
    case False
    then show ?thesis using ff ua k1 find_vma_spec [OF ok, of a]
      by (auto simp: mm_map_def a_def [symmetric] b_def [symmetric] deref_def not_le split: option.splits)
  next
    case True
    have e: "mm_map (Some m) addr len fl s = (case vma_create a b (fl AND NOT VM_SHARE) ?s1 of (None, s2) \<Rightarrow> Inr (- E_NO_MEM, None, s2)
      | (Some v, s2) \<Rightarrow> bindR (insert_vma_struct m v s2) (\<lambda>s3. Inr (0, Some v, s3)))"
      using True ff ua find_vma_spec [OF ok, of a]
      by (auto simp: mm_map_def a_def [symmetric] b_def [symmetric] deref_def not_less split: option.splits)
    show ?thesis
    proof (cases "kpool s")
      case Nil
      then show ?thesis using e k1 True ua by (simp add: vma_create_eq)
    next
      case (Cons v ps)
      then have p: "kpool ?s1 = v # ps" by simp
      have fr: "range_free ?s1 m a b" "length (mmap_list (mms ?s1 m)) < 31" using True few by (simp_all add: range_free_def)
      obtain s' where s': "insert_vma_struct m v (new_vma a b (fl AND NOT VM_SHARE) v ps ?s1) = Inr s'" "mm_ok s' m" "mem s' = mem ?s1" "shmems s' = shmems ?s1"
        "\<And>k. mm_pgdir (mms s' k) = mm_pgdir (mms ?s1 k)" "\<And>x. space s' m x = (if a \<le> x \<and> x < b then Some (fl AND NOT VM_SHARE, if (fl AND NOT VM_SHARE) AND VM_SHARE \<noteq> 0 then Some (None, x - a) else None) else space ?s1 m x)"
        "v \<in> set (mmap_list (mms s' m))" "vm_start (vmas s' v) = a" "vm_end (vmas s' v) = b"
        by (rule insert_new_vma [OF k1 p ua al fr, of "fl AND NOT VM_SHARE"]) (rule that; assumption)
      have "mm_map (Some m) addr len fl s = Inr (0, Some v, s')" using e p s'(1) by (simp add: vma_create_eq)
      then show ?thesis using s' True ua Cons ns by simp
    qed
  qed
qed

section \<open>Free ranges\<close>

text \<open>A place for \<open>len\<close> bytes that keeps clear of some areas.\<close>

definition clear_of :: "(nat \<Rightarrow> vma_struct) \<Rightarrow> nat list \<Rightarrow> 32 word \<Rightarrow> 32 word \<Rightarrow> bool" where
  "clear_of f vs len y = (\<forall>v\<in>set vs. vm_end (f v) \<le> y \<or> unat y + unat len \<le> unat (vm_start (f v)))"

lemma find_gap_spec:
  assumes "areas_ok f (rev vs)" "\<forall>v\<in>set vs. USERBASE \<le> vm_start (f v)" "unat start + unat len \<le> unat USERTOP"
  shows "(find_gap f len vs start \<noteq> 0 \<longrightarrow> USERBASE \<le> find_gap f len vs start \<and> find_gap f len vs start \<le> start \<and>
      clear_of f vs len (find_gap f len vs start)) \<and>
    (\<forall>y. USERBASE \<le> y \<and> y \<le> start \<and> clear_of f vs len y \<longrightarrow> find_gap f len vs start \<noteq> 0 \<and> y \<le> find_gap f len vs start)"
  using assms
proof (induction vs arbitrary: start)
  case Nil
  have "\<not> USERBASE \<le> 0" by (simp add: USERBASE_def)
  then show ?case by (auto simp: clear_of_def)
next
  case (Cons v vs)
  have ok: "areas_ok f (rev vs)" "\<And>u. u \<in> set vs \<Longrightarrow> vm_end (f u) \<le> vm_start (f v)" "vm_start (f v) < vm_end (f v)"
    "USERBASE \<le> vm_start (f v)" "\<forall>u\<in>set vs. USERBASE \<le> vm_start (f u)" using Cons.prems by (auto simp: areas_ok_append)
  have base: "0 < unat USERBASE" by (simp add: USERBASE_def)
  have top: "unat USERTOP < 2 ^ 32" by (simp add: USERTOP_def)
  have sum: "unat (start + len) = unat start + unat len" using Cons.prems(3) top by (simp add: unat_word_ariths)
  show ?case
  proof (cases "vm_end (f v) \<le> start")
    case True
    have "clear_of f (v # vs) len start" using True ok(2,3) by (force simp: clear_of_def)
    moreover have "USERBASE \<le> start" using True ok(3,4) by simp
    moreover have "start \<noteq> 0" using base \<open>USERBASE \<le> start\<close> by (auto simp: word_le_nat_alt)
    ultimately show ?thesis using True by simp
  next
    case below: False
    have cl: "clear_of f (v # vs) len y \<longleftrightarrow> unat y + unat len \<le> unat (vm_start (f v)) \<and> clear_of f vs len y" if "y \<le> start" for y
      using below that by (auto simp: clear_of_def)
    show ?thesis
    proof (cases "start + len > vm_start (f v)")
      case False
      then have "unat y + unat len \<le> unat (vm_start (f v))" if "y \<le> start" for y
        using sum that by (simp add: word_le_nat_alt word_less_nat_alt)
      with Cons.IH [OF ok(1,5) Cons.prems(3)] below False cl show ?thesis by auto
    next
      case over: True
      show ?thesis
      proof (cases "len \<ge> vm_start (f v)")
        case True
        then have "\<not> (USERBASE \<le> y \<and> y \<le> start \<and> clear_of f (v # vs) len y)" for y
          using cl base by (auto simp: word_le_nat_alt)
        then show ?thesis using below over True by auto
      next
        case False
        let ?st = "vm_start (f v) - len"
        have st: "unat ?st = unat (vm_start (f v)) - unat len" "unat len < unat (vm_start (f v))"
          using False by (simp_all add: word_less_nat_alt word_le_nat_alt unat_sub)
        have "unat ?st + unat len \<le> unat USERTOP" using st over sum Cons.prems(3) by (simp add: word_less_nat_alt)
        note ih = Cons.IH [OF ok(1,5) this]
        have le: "unat y + unat len \<le> unat (vm_start (f v)) \<longleftrightarrow> y \<le> ?st" for y using st by (auto simp: word_le_nat_alt)
        have "?st \<le> start" using st over sum by (simp add: word_le_nat_alt word_less_nat_alt)
        then have "y \<le> start" if "y \<le> ?st" for y using that by simp
        then show ?thesis using ih le cl below over False by (auto simp: not_le)
      qed
    qed
  qed
qed

lemma clear_of_free:
  assumes ok: "areas_ok (vmas s) (mmap_list (mms s m))" and y: "unat y + unat len < 2 ^ 32" "0 < len"
  shows "clear_of (vmas s) (mmap_list (mms s m)) len y \<longleftrightarrow> range_free s m y (y + len)"
proof -
  have sum: "unat (y + len) = unat y + unat len" using y(1) by (simp add: unat_word_ariths)
  have "(vm_end (vmas s v) \<le> y \<or> unat y + unat len \<le> unat (vm_start (vmas s v))) \<longleftrightarrow>
    (\<forall>x. y \<le> x \<and> x < y + len \<longrightarrow> \<not> covers (vmas s v) x)" if v: "v \<in> set (mmap_list (mms s m))" for v
  proof -
    let ?a = "(vmas s v)\<lparr>vm_start := y, vm_end := y + len\<rparr>"
    have ne: "vm_start (vmas s v) < vm_end (vmas s v)" by (rule areas_ok_mem [OF ok v])
    have "y < y + len" using sum y(2) by (simp add: word_less_nat_alt)
    then have "vm_end (vmas s v) \<le> y \<or> y + len \<le> vm_start (vmas s v)" if "\<forall>x. y \<le> x \<and> x < y + len \<longrightarrow> \<not> covers (vmas s v) x"
      using disjoint_from_free [of "vmas s" v ?a] ne that by (simp add: covers_def)
    moreover have "\<forall>x. y \<le> x \<and> x < y + len \<longrightarrow> \<not> covers (vmas s v) x"
      if "vm_end (vmas s v) \<le> y \<or> y + len \<le> vm_start (vmas s v)" using that by (auto simp: covers_def)
    ultimately show ?thesis using sum by (auto simp: word_le_nat_alt)
  qed
  then show ?thesis by (auto simp: clear_of_def range_free_def space_None)
qed

lemma get_unmapped_area_spec:
  assumes mm: "mm_ok s m" and len: "0 < len" "len \<le> USERTOP"
  defines "fits \<equiv> \<lambda>y. USERBASE \<le> y \<and> y \<le> USERTOP - len \<and> range_free s m y (y + len)"
  shows "if get_unmapped_area m len s = 0 then \<forall>y. \<not> fits y
    else fits (get_unmapped_area m len s) \<and> (\<forall>y. fits y \<longrightarrow> y \<le> get_unmapped_area m len s)"
proof -
  let ?l = "mmap_list (mms s m)" and ?st = "USERTOP - len" and ?r = "get_unmapped_area m len s"
  note ok = mm_okD(1) [OF mm]
  have low: "USERBASE \<le> vm_start (vmas s v)" if "v \<in> set ?l" for v using mm_okD(7) [OF mm that] by (simp add: user_area_def)
  have st: "unat ?st + unat len = unat USERTOP" using len(2) by (simp add: unat_sub word_le_nat_alt)
  have b: "unat USERTOP < 2 ^ 32" by (simp add: USERTOP_def)
  have r: "?r = find_gap (vmas s) len (rev ?l) ?st" using len by (auto simp: get_unmapped_area_def)
  note g = find_gap_spec [of "vmas s" "rev ?l" ?st len] 
  have g': "(?r \<noteq> 0 \<longrightarrow> USERBASE \<le> ?r \<and> ?r \<le> ?st \<and> clear_of (vmas s) ?l len ?r) \<and>
    (\<forall>y. USERBASE \<le> y \<and> y \<le> ?st \<and> clear_of (vmas s) ?l len y \<longrightarrow> ?r \<noteq> 0 \<and> y \<le> ?r)"
    using g ok low st unfolding r by (simp add: clear_of_def)
  have "clear_of (vmas s) ?l len y \<longleftrightarrow> range_free s m y (y + len)" if "y \<le> ?st" for y
    by (rule clear_of_free [OF ok _ len(1)]) (use that st b in \<open>simp add: word_le_nat_alt\<close>)
  then show ?thesis using g' by (auto simp: fits_def)
qed

section \<open>User accesses\<close>

definition permits :: "vm_st \<Rightarrow> nat \<Rightarrow> bool \<Rightarrow> 32 word \<Rightarrow> bool" where
  "permits s m write x =
     (case space s m x of None \<Rightarrow> False | Some (fl, _) \<Rightarrow> fl AND (if write then VM_WRITE else VM_READ) \<noteq> 0)"

definition stack_at :: "vm_st \<Rightarrow> nat \<Rightarrow> 32 word \<Rightarrow> bool" where
  "stack_at s m x = (case space s m x of None \<Rightarrow> False | Some (fl, _) \<Rightarrow> fl AND VM_STACK \<noteq> 0)"

lemma find_vma_covers:
  assumes "mm_ok s m" "find_vma_list (vmas s) x (mmap_list (mms s m)) = r"
  shows "space s m x = None \<longleftrightarrow> (case r of None \<Rightarrow> True | Some v \<Rightarrow> x < vm_start (vmas s v))"
proof (cases r)
  case None
  then show ?thesis using assms by (force simp: find_vma_list_None space_None covers_def)
next
  case (Some v)
  then have v: "v \<in> set (mmap_list (mms s m))" "x < vm_end (vmas s v)" using assms(2) by (auto simp: find_vma_list_Some)
  have "u = v" if "u \<in> set (mmap_list (mms s m))" "covers (vmas s u) x" for u
    using find_vma_list_covers [OF mm_okD(1) [OF assms(1)] that] assms(2) Some by simp
  then have "space s m x = None \<longleftrightarrow> \<not> covers (vmas s v) x" using v(1) unfolding space_None by blast
  then show ?thesis using v(2) Some by (simp add: covers_def not_le)
qed

lemma user_check_spec:
  assumes "mm_ok s m"
  shows "\<exists>ok s'. user_check_loop m start stop write s = Some (Inr (ok, s')) \<and> mm_ok s' m \<and> space s' m = space s m \<and> mem s' = mem s \<and>
    (\<forall>k. mm_pgdir (mms s' k) = mm_pgdir (mms s k)) \<and> (ok \<longrightarrow> (\<forall>x. start \<le> x \<and> x < stop \<longrightarrow> permits s m write x)) \<and>
    ((\<forall>x. start \<le> x \<and> x < stop \<longrightarrow> permits s m write x \<and> \<not> (write \<and> stack_at s m x)) \<longrightarrow> ok)"
  using assms
proof (induction "unat stop - unat start" arbitrary: start s rule: less_induct)
  case less
  let ?f = "find_vma_list (vmas s) start (mmap_list (mms s m))"
  let ?s1 = "cache_vma m ?f s"
  have k1: "mm_ok ?s1 m" by (rule cache_vma_ok [OF less.prems find_vma_list_mem])
  note fv = find_vma_spec [OF less.prems, of start] find_vma_covers [OF less.prems refl, of start]
  show ?case
  proof (cases "start < stop")
    case False
    then have "user_check_loop m start stop write s = Some (Inr (True, s))" by (subst user_check_loop.simps) simp
    moreover have "\<not> (start \<le> x \<and> x < stop)" for x using False by (meson le_less_trans)
    ultimately show ?thesis using less.prems by (intro exI [of _ True] exI [of _ s]) blast
  next
    case lt: True
    show ?thesis
    proof (cases "space s m start")
      case None
      then have "user_check_loop m start stop write s = Some (Inr (False, ?s1))"
        using fv lt by (subst user_check_loop.simps) (auto split: option.splits)
      moreover have "\<not> permits s m write start" using None by (simp add: permits_def)
      ultimately show ?thesis using k1 lt by auto
    next
      case (Some c)
      then obtain v where f: "?f = Some v" and v: "vm_start (vmas s v) \<le> start" using fv(2) by (auto simp: not_less split: option.splits)
      have vl: "v \<in> set (mmap_list (mms s m))" "start < vm_end (vmas s v)" using f by (auto simp: find_vma_list_Some)
      have sp: "space s m x = Some (use_of (vmas s v) x)"
        if "start \<le> x" "x < vm_end (vmas s v)" for x
        by (rule space_Some [OF mm_okD(1) [OF less.prems] vl(1)]) (use that v in \<open>simp add: covers_def\<close>)
      let ?perm = "vm_flags (vmas s v) AND (if write then VM_WRITE else VM_READ) \<noteq> 0"
      let ?guard = "write \<and> vm_flags (vmas s v) AND VM_STACK \<noteq> 0 \<and> start < vm_start (vmas s v) + PGSIZE"
      have loop: "user_check_loop m start stop write s =
        (if ?perm \<and> \<not> ?guard then user_check_loop m (vm_end (vmas s v)) stop write ?s1 else Some (Inr (False, ?s1)))"
        using fv(1) lt f v by (subst user_check_loop.simps) (simp add: not_less [symmetric])
      show ?thesis
      proof (cases "?perm \<and> \<not> ?guard")
        case False
        then have "\<not> (permits s m write start \<and> \<not> (write \<and> stack_at s m start))"
          using sp [of start] vl(2) by (auto simp: permits_def stack_at_def use_of_def)
        moreover have "user_check_loop m start stop write s = Some (Inr (False, ?s1))" using False loop by auto
        ultimately show ?thesis using k1 lt by auto
      next
        case True
        have "unat stop - unat (vm_end (vmas s v)) < unat stop - unat start"
          using lt vl(2) unfolding word_less_nat_alt by linarith
        from less.hyps [OF this k1] loop True obtain ok s' where
          ih: "user_check_loop m start stop write s = Some (Inr (ok, s'))" "mm_ok s' m" "space s' m = space s m" "mem s' = mem s"
          "\<And>k. mm_pgdir (mms s' k) = mm_pgdir (mms s k)" "ok \<longrightarrow> (\<forall>x. vm_end (vmas s v) \<le> x \<and> x < stop \<longrightarrow> permits ?s1 m write x)"
          "(\<forall>x. vm_end (vmas s v) \<le> x \<and> x < stop \<longrightarrow> permits ?s1 m write x \<and> \<not> (write \<and> stack_at ?s1 m x)) \<longrightarrow> ok"
          by auto
        have eq: "permits ?s1 = permits s" "stack_at ?s1 = stack_at s" by (simp_all add: fun_eq_iff permits_def stack_at_def)
        have "permits s m write x" if "start \<le> x" "x < vm_end (vmas s v)" for x
          using sp [OF that] True by (simp add: permits_def use_of_def)
        then have "ok \<longrightarrow> (\<forall>x. start \<le> x \<and> x < stop \<longrightarrow> permits s m write x)" using ih(6) unfolding eq by (meson not_le)
        moreover have "start \<le> x" if "vm_end (vmas s v) \<le> x" for x using vl(2) that by simp
        ultimately show ?thesis using ih unfolding eq by (intro exI [of _ ok] exI [of _ s']) blast
      qed
    qed
  qed
qed

end
