(* ===== verification/Vmm_Unmap.thy ===== *)
theory Vmm_Unmap
  imports Vmm_Areas
begin

text \<open>
  Unmapping: the areas of the range are taken out of the list, what sticks out of the range is put
  back, and the pages of the range are removed.  In terms of the abstract address space the
  range becomes empty and nothing else changes.
\<close>

section \<open>Taking areas out\<close>

definition cut_vmas :: "nat \<Rightarrow> nat list \<Rightarrow> vm_st \<Rightarrow> vm_st" where
  "cut_vmas m cs s = upd_mm m (\<lambda>d. d\<lparr>mmap_list := filter (\<lambda>v. v \<notin> set cs) (mmap_list d),
     mmap_cache := (case mmap_cache d of None \<Rightarrow> None | Some v \<Rightarrow> if v \<in> set cs then None else Some v),
     map_count := map_count d - int (length cs)\<rparr>) s"

lemma cut_vmas_simps [simp]:
  "mem (cut_vmas m cs s) = mem s" "kpool (cut_vmas m cs s) = kpool s" "vmas (cut_vmas m cs s) = vmas s"
  "mmap_list (mms (cut_vmas m cs s) m) = filter (\<lambda>v. v \<notin> set cs) (mmap_list (mms s m))"
  "mm_pgdir (mms (cut_vmas m cs s) k) = mm_pgdir (mms s k)" "mmap_tree (mms (cut_vmas m cs s) k) = mmap_tree (mms s k)"
  "map_count (mms (cut_vmas m cs s) m) = map_count (mms s m) - int (length cs)"
  by (simp_all add: cut_vmas_def upd_mm_def)

lemma upd_mm_cong: "f (mms s m) = g (mms s m) \<Longrightarrow> upd_mm m f s = upd_mm m g s"
  by (simp add: upd_mm_def)

lemma upd_mm_same: "f (mms s m) = mms s m \<Longrightarrow> upd_mm m f s = s"
  by (simp add: upd_mm_def)

lemma cut_vmas_Nil [simp]: "cut_vmas m [] s = s"
  unfolding cut_vmas_def by (rule upd_mm_same, rule mm_struct.equality) (simp_all split: option.split)

lemma cut_vmas_Cons: "cut_vmas m cs (cut_vmas m [c] s) = cut_vmas m (c # cs) s"
  by (auto simp: cut_vmas_def upd_mm_def fun_eq_iff conj_commute intro!: arg_cong [where f = "\<lambda>d. s\<lparr>mms := (mms s)(m := d)\<rparr>"] split: option.split)

lemma areas_ok_filter: "areas_ok f l \<Longrightarrow> areas_ok f (filter P l)"
  by (induction l) auto

lemma length_filter_out: "distinct l \<Longrightarrow> distinct cs \<Longrightarrow> set cs \<subseteq> set l \<Longrightarrow> length (filter (\<lambda>v. v \<notin> set cs) l) = length l - length cs"
  by (simp add: distinct_length_filter Int_commute Collect_neg_eq Diff_eq [symmetric] card_Diff_subset distinct_card)

lemma cut_vmas_ok [kinv]:
  assumes "mm_ok s m" "distinct cs" "set cs \<subseteq> set (mmap_list (mms s m))"
  shows "mm_ok (cut_vmas m cs s) m"
proof -
  let ?l = "mmap_list (mms s m)"
  note d = areas_ok_distinct [OF mm_okD(1) [OF assms(1)]]
  have "length cs \<le> length ?l" using assms(2,3) d by (metis distinct_card card_mono List.finite_set)
  then have "map_count (mms s m) - int (length cs) = int (length (filter (\<lambda>v. v \<notin> set cs) ?l))"
    using length_filter_out [OF d assms(2,3)] mm_okD(4) [OF assms(1)] by simp
  moreover have "mmap_cache (mms (cut_vmas m cs s) m) = Some v \<Longrightarrow> v \<in> set ?l \<and> v \<notin> set cs" for v
    using assms(1) by (auto simp: cut_vmas_def upd_mm_def mm_ok_def split: option.splits if_splits)
  ultimately show ?thesis using assms(1) by (auto simp: mm_ok_def areas_ok_filter)
qed

lemma space_cut_vmas:
  assumes "areas_ok (vmas s) (mmap_list (mms s m))" "set cs \<subseteq> set (mmap_list (mms s m))"
  shows "space (cut_vmas m cs s) m x = (if \<exists>v\<in>set cs. covers (vmas s v) x then None else space s m x)"
proof (cases "\<exists>v\<in>set cs. covers (vmas s v) x")
  case True
  then obtain v where v: "v \<in> set cs" "covers (vmas s v) x" by blast
  then have "u = v" if "u \<in> set (mmap_list (mms s m))" "covers (vmas s u) x" for u
    using covers_unique [OF assms(1) that(1) _ that(2)] assms(2) by blast
  then have "space (cut_vmas m cs s) m x = None" using v by (auto simp: space_None)
  then show ?thesis using True by simp
next
  case False
  have "find (\<lambda>v. covers (vmas s v) x) (filter (\<lambda>v. v \<notin> set cs) l) = find (\<lambda>v. covers (vmas s v) x) l" for l
    using False by (induction l) auto
  then show ?thesis using False by (auto simp: space_def)
qed

lemma remove_vma_struct_eq:
  assumes "mm_ok s m" "v \<in> set (mmap_list (mms s m))" "length (mmap_list (mms s m)) < 32"
  shows "remove_vma_struct m v s = Inr (cut_vmas m [v] s)"
proof -
  have "0 < length (mmap_list (mms s m))" using assms(2) by (cases "mmap_list (mms s m)") auto
  then have "chk32 (map_count (mms s m) - 1) = Inr (map_count (mms s m) - 1)"
    using assms(3) mm_okD(4) [OF assms(1)] by (simp add: chk32_def in_int_def INT_MAX_def INT_MIN_def)
  moreover have "remove1 v (mmap_list (mms s m)) = filter (\<lambda>u. u \<noteq> v) (mmap_list (mms s m))"
    using areas_ok_distinct [OF mm_okD(1) [OF assms(1)]] by (simp add: distinct_remove1_removeAll removeAll_filter_not_eq eq_commute)
  ultimately have "remove_vma_struct m v s = Inr (upd_mm m (\<lambda>d. d\<lparr>mmap_list := filter (\<lambda>u. u \<noteq> v) (mmap_list (mms s m)),
      mmap_cache := (if mmap_cache d = Some v then None else mmap_cache d), map_count := map_count (mms s m) - 1\<rparr>) s)"
    using mm_okD(2,6) [OF assms(1)] assms(2) by (simp add: remove_vma_struct_def upd_mm_def)
  also have "\<dots> = Inr (cut_vmas m [v] s)"
    unfolding cut_vmas_def by (rule arg_cong [where f = Inr], rule upd_mm_cong) (auto split: option.split)
  finally show ?thesis .
qed

lemma unmap_collect_spec:
  assumes "mm_ok s m" "mmap_list (mms s m) = us @ vs" "length (us @ vs) < 32"
  shows "unmap_collect m stop vs free s =
    (let cs = takeWhile (\<lambda>v. vm_start (vmas s v) < stop) vs in Inr (rev cs @ free, cut_vmas m cs s))"
  using assms
proof (induction vs arbitrary: s free)
  case (Cons v vs)
  show ?case
  proof (cases "vm_start (vmas s v) < stop")
    case True
    have v: "v \<in> set (mmap_list (mms s m))" using Cons.prems(2) by simp
    have rm: "remove_vma_struct m v s = Inr (cut_vmas m [v] s)"
      by (rule remove_vma_struct_eq [OF Cons.prems(1) v]) (use Cons.prems(2,3) in simp)
    have "distinct (us @ v # vs)" using areas_ok_distinct [OF mm_okD(1) [OF Cons.prems(1)]] Cons.prems(2) by simp
    then have "filter (\<lambda>u. u \<notin> set [v]) us = us" "filter (\<lambda>u. u \<notin> set [v]) vs = vs" by (auto simp: filter_id_conv)
    then have "mmap_list (mms (cut_vmas m [v] s) m) = us @ vs" using Cons.prems(2) by simp
    moreover have "mm_ok (cut_vmas m [v] s) m" by (rule cut_vmas_ok [OF Cons.prems(1)]) (use v in simp_all)
    ultimately show ?thesis using Cons.IH [of "cut_vmas m [v] s" "v # free"] Cons.prems(3) rm True
      by (simp add: cut_vmas_Cons)
  qed simp
qed simp

section \<open>Putting back what sticks out\<close>

lemma mem_update_simps [simp]: "mm_ok (s\<lparr>mem := x\<rparr>) m = mm_ok s m" "space (s\<lparr>mem := x\<rparr>) m = space s m"
  by (simp_all add: mm_ok_def space_def fun_eq_iff)

definition detached :: "vm_st \<Rightarrow> nat \<Rightarrow> nat \<Rightarrow> bool" where
  "detached s m v = (v \<notin> set (mmap_list (mms s m)) \<and> v \<notin> set (kpool s) \<and> user_area (vmas s v) \<and>
     vm_start (vmas s v) < vm_end (vmas s v) \<and> vm_flags (vmas s v) AND VM_SHARE = 0 \<and>
     (\<forall>x. covers (vmas s v) x \<longrightarrow> space s m x = None))"

lemma reinsert_spec:
  assumes ok: "mm_ok s m" and v: "detached s m v" and lh: "vm_start (vmas s v) \<le> lo" "lo < hi" "hi \<le> vm_end (vmas s v)"
    "lo mod PGSIZE = 0" "hi mod PGSIZE = 0" and few: "length (mmap_list (mms s m)) < 31"
  obtains s' where "bindR (vma_resize v lo hi s) (insert_vma_struct m v) = Inr s'" "mm_ok s' m" "mem s' = mem s" "kpool s' = kpool s"
    "\<And>k. mm_pgdir (mms s' k) = mm_pgdir (mms s k)" "set (mmap_list (mms s' m)) = insert v (set (mmap_list (mms s m)))"
    "length (mmap_list (mms s' m)) = Suc (length (mmap_list (mms s m)))" "\<And>u. u \<noteq> v \<Longrightarrow> vmas s' u = vmas s u"
    "\<And>x. space s' m x = (if lo \<le> x \<and> x < hi then Some (use_of (vmas s v) x) else space s m x)"
proof -
  let ?s = "upd_vma v (\<lambda>a. a\<lparr>vm_shmem_off := (if vm_flags a AND VM_SHARE \<noteq> 0 then vm_shmem_off a + (lo - vm_start a) else vm_shmem_off a),
          vm_start := lo, vm_end := hi\<rparr>) s"
  have r: "vma_resize v lo hi s = Inr ?s" using lh by (simp add: vma_resize_def)
  have nv: "v \<notin> set (mmap_list (mms s m))" "v \<notin> set (kpool s)" "vm_flags (vmas s v) AND VM_SHARE = 0" using v by (simp_all add: detached_def)
  have same: "mms ?s = mms s" "kpool ?s = kpool s" "mem ?s = mem s" "u \<noteq> v \<Longrightarrow> vmas ?s u = vmas s u" for u
    by (simp_all add: upd_vma_def)
  have new: "vm_start (vmas ?s v) = lo" "vm_end (vmas ?s v) = hi" "covers (vmas ?s v) x \<longleftrightarrow> lo \<le> x \<and> x < hi"
    "use_of (vmas ?s v) x = use_of (vmas s v) x" for x
    using nv(3) by (simp_all add: upd_vma_def covers_def use_of_def)
  have e: "vmas ?s u = vmas s u" if "u \<in> set (mmap_list (mms s m))" for u
    by (rule same(4)) (use that nv(1) in auto)
  have ok1: "mm_ok ?s m"
    using ok e areas_ok_cong [of "mmap_list (mms s m)" "vmas ?s" "vmas s"] by (simp add: mm_ok_def same)
  have sp: "space ?s m = space s m" by (rule space_cong) (simp_all add: same(1) e)
  have d: "vm_end (vmas ?s u) \<le> vm_start (vmas ?s v) \<or> vm_end (vmas ?s v) \<le> vm_start (vmas ?s u)"
    if u: "u \<in> set (mmap_list (mms ?s m))" for u
  proof (rule disjoint_from_free)
    have u': "u \<in> set (mmap_list (mms s m))" using u by (simp add: same)
    show "vm_start (vmas ?s u) < vm_end (vmas ?s u)" using areas_ok_mem [OF mm_okD(1) [OF ok1] u] .
    show "\<not> covers (vmas ?s u) x" if "covers (vmas ?s v) x" for x
    proof -
      have "covers (vmas s v) x" using that lh unfolding new(3) by (auto simp: covers_def)
      then show ?thesis using v u' e [OF u'] by (simp add: detached_def space_None)
    qed
  qed (simp only: new lh)
  obtain us ws where ins: "mmap_list (mms ?s m) = us @ ws" "areas_ok (vmas ?s) (us @ v # ws)"
    "insert_vma_struct m v ?s = Inr (put_vma m (us @ v # ws) v ?s)"
    by (rule insert_vma_struct_spec [OF ok1, of v]) (use d few new(1,2) lh(2) in \<open>simp_all only: same\<close>)
  have ua: "user_area (vmas ?s v)" using v lh by (auto simp: detached_def user_area_def upd_vma_def)
  have "v \<notin> set (kpool ?s)" using nv(2) by (simp add: same)
  note k = put_vma_ok [OF ok1 ins(1,2) this ua]
  have len: "mmap_list (mms s m) = us @ ws" using ins(1) by (simp add: same)
  have sp': "space (put_vma m (us @ v # ws) v ?s) m x = (if lo \<le> x \<and> x < hi then Some (use_of (vmas s v) x) else space s m x)" for x
    using space_put_vma [OF ins(1,2), of x] unfolding new sp .
  show thesis
    by (rule that [OF _ k]) (use r ins(3) len sp' in \<open>simp_all add: upd_vma_def put_vma_def upd_mm_def\<close>)
qed

lemma on_unmap_range:
  assumes "pt_shape (mem s) d" "lo mod PGSIZE = 0" "hi mod PGSIZE = 0" "USER_ACCESS lo hi"
  shows "(\<exists>e. on_mem (unmap_range d lo hi) s = Inl e \<and> unmap_loop d lo hi (mem s) = Some (Inl e)) \<or>
    (\<exists>t. on_mem (unmap_range d lo hi) s = Inr (s\<lparr>mem := t\<rparr>) \<and> pt_shape t d \<and>
      (\<forall>x. pt_lookup t d x = (if lo \<le> x \<and> x < hi then 0 else pt_lookup (mem s) d x)))"
  using unmap_loop_spec [OF assms(1-3), of "PPN hi - PPN lo"] assms
  by (auto simp: on_mem_def unmap_range_def range_ok_def spinR_def USER_ACCESS_def)

text \<open>The page tables of the space, and what a step of unmapping leaves of a state.\<close>

abbreviation pgdir_of :: "vm_st \<Rightarrow> nat \<Rightarrow> nat" where
  "pgdir_of s m \<equiv> mm_pgdir (mms s m)"

definition mapped_at :: "vm_st \<Rightarrow> nat \<Rightarrow> 32 word \<Rightarrow> 32 word" where
  "mapped_at s m x = pt_lookup (mem s) (pgdir_of s m) x"

definition vm_ok :: "vm_st \<Rightarrow> nat \<Rightarrow> bool" where
  "vm_ok s m = (mm_ok s m \<and> pt_shape (mem s) (pgdir_of s m))"

definition bad_entry :: "nat \<Rightarrow> fault \<Rightarrow> bool" where
  "bad_entry d e = (\<exists>lo hi t. unmap_loop d lo hi t = Some (Inl e))"

lemma kfree_ok:
  assumes "mm_ok s m" "v \<notin> set (mmap_list (mms s m))" "v \<notin> set (kpool s)"
  shows "mm_ok (kfree v s) m" "space (kfree v s) m = space s m"
  using assms by (simp_all add: mm_ok_def kfree_def space_def fun_eq_iff)

lemma unmap_pages:
  assumes "vm_ok s m" "lo mod PGSIZE = 0" "hi mod PGSIZE = 0" "USER_ACCESS lo hi"
  obtains (bad) e where "on_mem (unmap_range (pgdir_of s m) lo hi) s = Inl e" "bad_entry (pgdir_of s m) e"
    | (good) t where "on_mem (unmap_range (pgdir_of s m) lo hi) s = Inr (s\<lparr>mem := t\<rparr>)" "vm_ok (s\<lparr>mem := t\<rparr>) m"
      "\<And>x. mapped_at (s\<lparr>mem := t\<rparr>) m x = (if lo \<le> x \<and> x < hi then 0 else mapped_at s m x)"
proof -
  from on_unmap_range [of s "pgdir_of s m" lo hi] assms
  consider e where "on_mem (unmap_range (pgdir_of s m) lo hi) s = Inl e" "unmap_loop (pgdir_of s m) lo hi (mem s) = Some (Inl e)"
    | t where "on_mem (unmap_range (pgdir_of s m) lo hi) s = Inr (s\<lparr>mem := t\<rparr>)" "pt_shape t (pgdir_of s m)"
      "\<forall>x. pt_lookup t (pgdir_of s m) x = (if lo \<le> x \<and> x < hi then 0 else pt_lookup (mem s) (pgdir_of s m) x)"
    by (auto simp: vm_ok_def)
  then show thesis
  proof cases
    case 1
    then show thesis by (intro bad) (auto simp: bad_entry_def)
  next
    case 2
    then show thesis using assms(1) by (intro good [of t]) (simp_all add: vm_ok_def mapped_at_def)
  qed
qed

definition unmapped :: "vm_st \<Rightarrow> nat \<Rightarrow> 32 word \<Rightarrow> 32 word \<Rightarrow> nat \<Rightarrow> vm_st \<Rightarrow> bool" where
  "unmapped s m a b v s' =
     (vm_ok s' m \<and> pgdir_of s' m = pgdir_of s m \<and> length (mmap_list (mms s' m)) \<le> Suc (length (mmap_list (mms s m))) \<and>
      set (mmap_list (mms s' m)) \<subseteq> insert v (set (mmap_list (mms s m))) \<and> set (kpool s') \<subseteq> insert v (set (kpool s)) \<and>
      (\<forall>u. u \<noteq> v \<longrightarrow> vmas s' u = vmas s u) \<and>
      (\<forall>x. space s' m x = (if covers (vmas s v) x \<and> \<not> (a \<le> x \<and> x < b) then Some (use_of (vmas s v) x) else space s m x)) \<and>
      (\<forall>x. mapped_at s' m x = (if covers (vmas s v) x \<and> a \<le> x \<and> x < b then 0 else mapped_at s m x)))"

lemma unmap_part:
  assumes ok: "vm_ok s m" and v: "detached s m v" and few: "length (mmap_list (mms s m)) < 31"
    and keep: "vm_start (vmas s v) \<le> lo" "lo < hi" "hi \<le> vm_end (vmas s v)" "lo mod PGSIZE = 0" "hi mod PGSIZE = 0"
    and cut: "un_lo mod PGSIZE = 0" "un_hi mod PGSIZE = 0" "USER_ACCESS un_lo un_hi"
    and split: "\<And>x. covers (vmas s v) x \<Longrightarrow> (lo \<le> x \<and> x < hi) = (\<not> (a \<le> x \<and> x < b))"
      "\<And>x. (un_lo \<le> x \<and> x < un_hi) = (covers (vmas s v) x \<and> a \<le> x \<and> x < b)"
  defines "r \<equiv> bindR (vma_resize v lo hi s) (\<lambda>s1. bindR (insert_vma_struct m v s1) (on_mem (unmap_range (pgdir_of s m) un_lo un_hi)))"
  shows "(\<exists>e. r = Inl e \<and> bad_entry (pgdir_of s m) e) \<or> (\<exists>s'. r = Inr s' \<and> unmapped s m a b v s')"
proof -
  have mm: "mm_ok s m" using ok by (simp add: vm_ok_def)
  obtain s1 where s1: "bindR (vma_resize v lo hi s) (insert_vma_struct m v) = Inr s1" "mm_ok s1 m" "mem s1 = mem s" "kpool s1 = kpool s"
    "\<And>k. mm_pgdir (mms s1 k) = mm_pgdir (mms s k)" "set (mmap_list (mms s1 m)) = insert v (set (mmap_list (mms s m)))"
    "length (mmap_list (mms s1 m)) = Suc (length (mmap_list (mms s m)))" "\<And>u. u \<noteq> v \<Longrightarrow> vmas s1 u = vmas s u"
    "\<And>x. space s1 m x = (if lo \<le> x \<and> x < hi then Some (use_of (vmas s v) x) else space s m x)"
    by (rule reinsert_spec [OF mm v keep few]) (rule that; assumption)
  have r: "r = on_mem (unmap_range (pgdir_of s m) un_lo un_hi) s1"
    unfolding r_def using s1(1) by (simp add: bindR_assoc [symmetric])
  have ok1: "vm_ok s1 m" using ok s1(2,3,5) by (simp add: vm_ok_def)
  have sp: "space s1 m x = (if covers (vmas s v) x \<and> \<not> (a \<le> x \<and> x < b) then Some (use_of (vmas s v) x) else space s m x)" for x
  proof (cases "covers (vmas s v) x")
    case True
    then show ?thesis using s1(9) [of x] split(1) [OF True] by simp
  next
    case False
    then have "\<not> (lo \<le> x \<and> x < hi)" using keep by (auto simp: covers_def)
    then show ?thesis using s1(9) [of x] False by auto
  qed
  show ?thesis
  proof (cases rule: unmap_pages [OF ok1 cut, case_names bad good])
    case (bad e)
    then show ?thesis using r s1(5) by auto
  next
    case (good t)
    have "mapped_at s1 m x = mapped_at s m x" for x using s1(3,5) by (simp add: mapped_at_def)
    then show ?thesis using r good s1(4-8) sp split(2) by (auto simp: unmapped_def)
  qed
qed

lemma sub_USER_ACCESS: "USER_ACCESS a b \<Longrightarrow> a \<le> lo \<Longrightarrow> lo < hi \<Longrightarrow> hi \<le> b \<Longrightarrow> USER_ACCESS lo hi"
  by (auto simp: USER_ACCESS_def)

text \<open>One area of the range.\<close>

lemma unmap_one_spec:
  assumes ok: "vm_ok s m" and v: "detached s m v" and few: "length (mmap_list (mms s m)) < 31"
    and ab: "a mod PGSIZE = 0" "b mod PGSIZE = 0" "USER_ACCESS a b"
    and meet: "vm_start (vmas s v) < b" "a < vm_end (vmas s v)" "\<not> (vm_start (vmas s v) < a \<and> b < vm_end (vmas s v))"
  shows "(\<exists>e. unmap_one m a b v s = Inl e \<and> bad_entry (pgdir_of s m) e) \<or> (\<exists>s'. unmap_one m a b v s = Inr s' \<and> unmapped s m a b v s')"
proof -
  let ?a = "vmas s v"
  have ua: "vm_start ?a mod PGSIZE = 0" "vm_end ?a mod PGSIZE = 0" "USERBASE \<le> vm_start ?a" "vm_end ?a \<le> USERTOP" "vm_start ?a < vm_end ?a"
    using v by (auto simp: detached_def user_area_def)
  consider (low) "vm_start ?a < a" "vm_end ?a \<le> b" | (high) "a \<le> vm_start ?a" "b < vm_end ?a" | (all) "a \<le> vm_start ?a" "vm_end ?a \<le> b"
    using meet(3) by (meson not_le)
  then show ?thesis
  proof cases
    case low
    have u: "USER_ACCESS a (vm_end ?a)" by (rule sub_USER_ACCESS [OF ab(3)]) (use meet low in simp_all)
    have "unmap_one m a b v s = bindR (vma_resize v (vm_start ?a) a s)
      (\<lambda>s1. bindR (insert_vma_struct m v s1) (on_mem (unmap_range (pgdir_of s m) a (vm_end ?a))))"
      using low by (simp add: unmap_one_def)
    moreover have "(vm_start ?a \<le> x \<and> x < a) = (\<not> (a \<le> x \<and> x < b))" if "covers ?a x" for x
      using that low by (auto simp: covers_def)
    moreover have "(a \<le> x \<and> x < vm_end ?a) = (covers ?a x \<and> a \<le> x \<and> x < b)" for x
      using low by (auto simp: covers_def)
    ultimately show ?thesis
      using unmap_part [OF ok v few, of "vm_start ?a" a a "vm_end ?a" a b] ua ab low(1) meet(2) u by auto
  next
    case high
    have u: "USER_ACCESS (vm_start ?a) b" by (rule sub_USER_ACCESS [OF ab(3)]) (use meet high in simp_all)
    have "unmap_one m a b v s = bindR (vma_resize v b (vm_end ?a) s)
      (\<lambda>s1. bindR (insert_vma_struct m v s1) (on_mem (unmap_range (pgdir_of s m) (vm_start ?a) b)))"
      using high by (simp add: unmap_one_def leD)
    moreover have "(b \<le> x \<and> x < vm_end ?a) = (\<not> (a \<le> x \<and> x < b))" if "covers ?a x" for x
      using that high meet(1) by (auto simp: covers_def)
    moreover have "(vm_start ?a \<le> x \<and> x < b) = (covers ?a x \<and> a \<le> x \<and> x < b)" for x
      using high by (auto simp: covers_def)
    ultimately show ?thesis
      using unmap_part [OF ok v few, of b "vm_end ?a" "vm_start ?a" b a b] ua ab high(2) meet(1) u by auto
  next
    case all
    have mm: "mm_ok s m" using ok by (simp add: vm_ok_def)
    have u: "USER_ACCESS (vm_start ?a) (vm_end ?a)" by (rule sub_USER_ACCESS [OF ab(3)]) (use ua all in simp_all)
    have out: "v \<notin> set (mmap_list (mms s m))" "v \<notin> set (kpool s)" "vm_flags ?a AND VM_SHARE = 0" using v by (simp_all add: detached_def)
    note kf = kfree_ok [OF mm out(1,2)]
    have same: "mem (kfree v s) = mem s" "mms (kfree v s) = mms s" "vmas (kfree v s) = vmas s" "kpool (kfree v s) = v # kpool s"
      by (simp_all add: kfree_def)
    have r: "unmap_one m a b v s = on_mem (unmap_range (pgdir_of s m) (vm_start ?a) (vm_end ?a)) (kfree v s)"
      using all out(3) by (simp add: unmap_one_def leD vma_destroy_def)
    have ok1: "vm_ok (kfree v s) m" using ok kf by (simp add: vm_ok_def same)
    have c: "covers ?a x \<longleftrightarrow> vm_start ?a \<le> x \<and> x < vm_end ?a" "covers ?a x \<Longrightarrow> a \<le> x \<and> x < b" for x
      using all by (auto simp: covers_def)
    show ?thesis
    proof (cases rule: unmap_pages [OF ok1 ua(1,2) u, case_names bad good])
      case (bad e)
      then show ?thesis using r same by auto
    next
      case (good t)
      have "mapped_at (kfree v s) m x = mapped_at s m x" for x by (simp add: mapped_at_def same)
      then have "unmapped s m a b v ((kfree v s)\<lparr>mem := t\<rparr>)"
        using good(2,3) c kf(2) by (auto simp: unmapped_def same)
      then show ?thesis using r good(1) same by auto
    qed
  qed
qed

text \<open>All of them.\<close>

definition meets :: "vm_st \<Rightarrow> 32 word \<Rightarrow> 32 word \<Rightarrow> nat \<Rightarrow> bool" where
  "meets s a b v = (vm_start (vmas s v) < b \<and> a < vm_end (vmas s v) \<and> \<not> (vm_start (vmas s v) < a \<and> b < vm_end (vmas s v)))"

lemma found_cong:
  "(\<And>u. u \<in> set fs \<Longrightarrow> f u = g u) \<Longrightarrow>
    map_option (\<lambda>u. use_of (f u) x) (find (\<lambda>u. covers (f u) x) fs) = map_option (\<lambda>u. use_of (g u) x) (find (\<lambda>u. covers (g u) x) fs)"
  by (induction fs) auto

lemma unmap_each_spec:
  assumes "vm_ok s m" and ab: "a mod PGSIZE = 0" "b mod PGSIZE = 0" "USER_ACCESS a b"
    and "distinct fs" "\<forall>v\<in>set fs. detached s m v \<and> meets s a b v"
    "\<forall>u\<in>set fs. \<forall>v\<in>set fs. \<forall>x. covers (vmas s u) x \<and> covers (vmas s v) x \<longrightarrow> u = v"
    "length (mmap_list (mms s m)) + length fs \<le> 31"
  shows "(\<exists>e. unmap_each m a b fs s = Inl e \<and> bad_entry (pgdir_of s m) e) \<or>
    (\<exists>s'. unmap_each m a b fs s = Inr s' \<and> vm_ok s' m \<and> pgdir_of s' m = pgdir_of s m \<and>
      (\<forall>x. space s' m x = (if \<exists>v\<in>set fs. covers (vmas s v) x
         then (if a \<le> x \<and> x < b then None else map_option (\<lambda>v. use_of (vmas s v) x) (find (\<lambda>v. covers (vmas s v) x) fs)) else space s m x)) \<and>
      (\<forall>x. mapped_at s' m x = (if (\<exists>v\<in>set fs. covers (vmas s v) x) \<and> a \<le> x \<and> x < b then 0 else mapped_at s m x)))"
  using assms(1,5-)
proof (induction fs arbitrary: s)
  case (Cons v fs)
  have v: "detached s m v" "meets s a b v" "v \<notin> set fs" using Cons.prems(2,3) by auto
  have few: "length (mmap_list (mms s m)) < 31" using Cons.prems(5) by simp
  from unmap_one_spec [OF Cons.prems(1) v(1) few ab] v(2)
  consider e where "unmap_one m a b v s = Inl e" "bad_entry (pgdir_of s m) e"
    | s1 where "unmap_one m a b v s = Inr s1" "unmapped s m a b v s1" by (auto simp: meets_def)
  then show ?case
  proof cases
    case (2 s1)
    have s1: "vm_ok s1 m" "pgdir_of s1 m = pgdir_of s m" "length (mmap_list (mms s1 m)) \<le> Suc (length (mmap_list (mms s m)))"
      "set (mmap_list (mms s1 m)) \<subseteq> insert v (set (mmap_list (mms s m)))" "set (kpool s1) \<subseteq> insert v (set (kpool s))"
      "\<And>u. u \<noteq> v \<Longrightarrow> vmas s1 u = vmas s u"
      "\<And>x. space s1 m x = (if covers (vmas s v) x \<and> \<not> (a \<le> x \<and> x < b) then Some (use_of (vmas s v) x) else space s m x)"
      "\<And>x. mapped_at s1 m x = (if covers (vmas s v) x \<and> a \<le> x \<and> x < b then 0 else mapped_at s m x)"
      using 2(2) by (simp_all add: unmapped_def)
    have eq: "vmas s1 u = vmas s u" if "u \<in> set fs" for u by (rule s1(6)) (use v(3) that in auto)
    have other: "\<not> covers (vmas s v) x" if "u \<in> set fs" "covers (vmas s u) x" for u x
      using Cons.prems(4) that v(3) by auto
    have det: "detached s1 m u \<and> meets s1 a b u" if u: "u \<in> set fs" for u
    proof -
      have "detached s m u" "meets s a b u" "u \<noteq> v" using Cons.prems(3) u v(3) by auto
      then show ?thesis using s1(4,5,7) eq [OF u] other [OF u] by (auto simp: detached_def meets_def)
    qed
    have "length (mmap_list (mms s1 m)) + length fs \<le> 31" using s1(3) Cons.prems(5) by simp
    moreover have "distinct fs" using Cons.prems(2) by simp
    moreover have "\<forall>u\<in>set fs. \<forall>w\<in>set fs. \<forall>x. covers (vmas s1 u) x \<and> covers (vmas s1 w) x \<longrightarrow> u = w"
      using Cons.prems(4) eq by simp
    ultimately have ih: "(\<exists>e. unmap_each m a b fs s1 = Inl e \<and> bad_entry (pgdir_of s1 m) e) \<or>
      (\<exists>s'. unmap_each m a b fs s1 = Inr s' \<and> vm_ok s' m \<and> pgdir_of s' m = pgdir_of s1 m \<and>
        (\<forall>x. space s' m x = (if \<exists>v\<in>set fs. covers (vmas s1 v) x
           then (if a \<le> x \<and> x < b then None else map_option (\<lambda>v. use_of (vmas s1 v) x) (find (\<lambda>v. covers (vmas s1 v) x) fs)) else space s1 m x)) \<and>
        (\<forall>x. mapped_at s' m x = (if (\<exists>v\<in>set fs. covers (vmas s1 v) x) \<and> a \<le> x \<and> x < b then 0 else mapped_at s1 m x)))"
      by (intro Cons.IH [OF s1(1)] ballI det) blast+
    have ex: "(\<exists>u\<in>set fs. covers (vmas s1 u) x) = (\<exists>u\<in>set fs. covers (vmas s u) x)" for x by (simp add: eq)
    have fnd: "map_option (\<lambda>u. use_of (vmas s1 u) x) (find (\<lambda>u. covers (vmas s1 u) x) fs) =
      map_option (\<lambda>u. use_of (vmas s u) x) (find (\<lambda>u. covers (vmas s u) x) fs)" for x
      by (rule found_cong) (simp add: eq)
    have oth: "covers (vmas s v) x \<Longrightarrow> \<not> (\<exists>u\<in>set fs. covers (vmas s u) x)" for x using other by blast
    from ih show ?thesis unfolding ex fnd s1(2)
    proof (elim disjE exE conjE)
      fix e assume "unmap_each m a b fs s1 = Inl e" "bad_entry (pgdir_of s m) e"
      then show ?thesis using 2(1) by simp
    next
      fix s' assume s': "unmap_each m a b fs s1 = Inr s'" "vm_ok s' m" "pgdir_of s' m = pgdir_of s m"
        and sp: "\<forall>x. space s' m x = (if \<exists>v\<in>set fs. covers (vmas s v) x then (if a \<le> x \<and> x < b then None
          else map_option (\<lambda>v. use_of (vmas s v) x) (find (\<lambda>v. covers (vmas s v) x) fs)) else space s1 m x)"
        and mp: "\<forall>x. mapped_at s' m x = (if (\<exists>v\<in>set fs. covers (vmas s v) x) \<and> a \<le> x \<and> x < b then 0 else mapped_at s1 m x)"
      have "space s' m x = (if \<exists>v\<in>set (v # fs). covers (vmas s v) x then (if a \<le> x \<and> x < b then None
          else map_option (\<lambda>v. use_of (vmas s v) x) (find (\<lambda>v. covers (vmas s v) x) (v # fs))) else space s m x)" for x
        using spec [OF sp, of x] s1(7) [of x] oth [of x] v(1) by (cases "covers (vmas s v) x") (simp_all add: detached_def)
      moreover have "mapped_at s' m x = (if (\<exists>v\<in>set (v # fs). covers (vmas s v) x) \<and> a \<le> x \<and> x < b then 0 else mapped_at s m x)" for x
        using spec [OF mp, of x] s1(8) [of x] by auto
      ultimately show ?thesis using 2(1) s' by simp
    qed
  qed simp
qed simp

section \<open>Cutting an area in the middle\<close>

lemma insert_detached:
  assumes ok: "mm_ok s m" and v: "detached s m v" and few: "length (mmap_list (mms s m)) < 31"
  obtains s' where "insert_vma_struct m v s = Inr s'" "mm_ok s' m" "mem s' = mem s" "\<And>k. mm_pgdir (mms s' k) = mm_pgdir (mms s k)"
    "\<And>x. space s' m x = (if covers (vmas s v) x then Some (use_of (vmas s v) x) else space s m x)"
proof -
  have u: "vm_start (vmas s v) mod PGSIZE = 0" "vm_end (vmas s v) mod PGSIZE = 0" "vm_start (vmas s v) < vm_end (vmas s v)"
    "vm_flags (vmas s v) AND VM_SHARE = 0" using v by (simp_all add: detached_def user_area_def)
  have "vma_resize v (vm_start (vmas s v)) (vm_end (vmas s v)) s = Inr s"
    using u by (simp add: vma_resize_def upd_vma_def)
  then have e: "bindR (vma_resize v (vm_start (vmas s v)) (vm_end (vmas s v)) s) (insert_vma_struct m v) = insert_vma_struct m v s" by simp
  obtain s' where "bindR (vma_resize v (vm_start (vmas s v)) (vm_end (vmas s v)) s) (insert_vma_struct m v) = Inr s'" "mm_ok s' m"
    "mem s' = mem s" "\<And>k. mm_pgdir (mms s' k) = mm_pgdir (mms s k)"
    "\<And>x. space s' m x = (if vm_start (vmas s v) \<le> x \<and> x < vm_end (vmas s v) then Some (use_of (vmas s v) x) else space s m x)"
    by (rule reinsert_spec [OF ok v order_refl u(3) order_refl u(1,2) few]) (rule that; assumption)
  then show thesis using that e by (simp add: covers_def)
qed

lemma vma_resize_private:
  assumes "vm_flags (vmas s v) AND VM_SHARE = 0"
    and "vm_start (vmas s v) \<le> lo" "lo < hi" "hi \<le> vm_end (vmas s v)" "lo mod PGSIZE = 0" "hi mod PGSIZE = 0"
  obtains s' where "vma_resize v lo hi s = Inr s'" "mms s' = mms s" "kpool s' = kpool s" "mem s' = mem s"
    "\<And>u. u \<noteq> v \<Longrightarrow> vmas s' u = vmas s u" "vm_start (vmas s' v) = lo" "vm_end (vmas s' v) = hi"
    "\<And>x. covers (vmas s' v) x \<longleftrightarrow> lo \<le> x \<and> x < hi" "\<And>u x. use_of (vmas s' u) x = use_of (vmas s u) x"
    "\<And>u. vm_mm (vmas s' u) = vm_mm (vmas s u)"
  using assms by (intro that [of "upd_vma v (\<lambda>a. a\<lparr>vm_shmem_off := (if vm_flags a AND VM_SHARE \<noteq> 0 then vm_shmem_off a + (lo - vm_start a) else vm_shmem_off a),
          vm_start := lo, vm_end := hi\<rparr>) s"])
    (simp_all add: vma_resize_def upd_vma_def covers_def use_of_def)

lemma shrink_vma:
  assumes ok: "mm_ok s m" and v: "v \<in> set (mmap_list (mms s m))" "vm_flags (vmas s v) AND VM_SHARE = 0"
    and lh: "vm_start (vmas s v) \<le> lo" "lo < hi" "hi \<le> vm_end (vmas s v)" "lo mod PGSIZE = 0" "hi mod PGSIZE = 0"
  obtains s' where "vma_resize v lo hi s = Inr s'" "mm_ok s' m" "mem s' = mem s" "kpool s' = kpool s" "mms s' = mms s"
    "\<And>u. u \<noteq> v \<Longrightarrow> vmas s' u = vmas s u"
    "\<And>x. space s' m x = (if covers (vmas s v) x \<and> \<not> (lo \<le> x \<and> x < hi) then None else space s m x)"
proof -
  let ?l = "mmap_list (mms s m)"
  obtain s' where r: "vma_resize v lo hi s = Inr s'" and same: "mms s' = mms s" "kpool s' = kpool s" "mem s' = mem s"
    "\<And>u. u \<noteq> v \<Longrightarrow> vmas s' u = vmas s u" and new: "vm_start (vmas s' v) = lo" "vm_end (vmas s' v) = hi"
    "\<And>x. covers (vmas s' v) x \<longleftrightarrow> lo \<le> x \<and> x < hi" "\<And>u x. use_of (vmas s' u) x = use_of (vmas s u) x"
    "\<And>u. vm_mm (vmas s' u) = vm_mm (vmas s u)" by (rule vma_resize_private [OF v(2) lh]) (rule that; assumption)
  have sub: "vm_start (vmas s u) \<le> vm_start (vmas s' u)" "vm_end (vmas s' u) \<le> vm_end (vmas s u)"
    "vm_start (vmas s u) < vm_end (vmas s u) \<Longrightarrow> vm_start (vmas s' u) < vm_end (vmas s' u)" for u
    using lh new(1,2) same(4) [of u] by (cases "u = v"; simp)+
  have "areas_ok (vmas s') l" if "areas_ok (vmas s) l" for l
    using that
  proof (induction l)
    case (Cons w l)
    then have "\<forall>u\<in>set l. vm_end (vmas s' w) \<le> vm_start (vmas s' u)" using sub(1,2) by (meson areas_ok_Cons order_trans)
    then show ?case using Cons sub(3) by simp
  qed simp
  then have a: "areas_ok (vmas s') ?l" using mm_okD(1) [OF ok] by blast
  have "user_area (vmas s' u) \<and> vm_mm (vmas s' u) = m" if "u \<in> set ?l" for u
    using mm_okD(6,7) [OF ok that] lh same(4) [of u] new(1,2,5) by (cases "u = v") (auto simp: user_area_def)
  then have k: "mm_ok s' m" using ok a by (simp add: mm_ok_def same)
  have "space s' m x = (if covers (vmas s v) x \<and> \<not> (lo \<le> x \<and> x < hi) then None else space s m x)" for x
  proof (cases "covers (vmas s v) x")
    case True
    have "\<not> covers (vmas s' u) x" if "u \<in> set ?l" "\<not> (lo \<le> x \<and> x < hi)" for u
      using covers_unique [OF mm_okD(1) [OF ok] that(1) v(1) _ True] that(2) new(3) same(4) [of u] by (cases "u = v") auto
    then have "space s' m x = None" if "\<not> (lo \<le> x \<and> x < hi)"
      using that unfolding space_None same(1) by blast
    moreover have "space s' m x = space s m x" if "lo \<le> x \<and> x < hi"
      using space_Some [of s' m v x] space_Some [OF mm_okD(1) [OF ok] v(1) True] a v(1) that new(3,4) by (simp add: same(1))
    ultimately show ?thesis using True by auto
  next
    case False
    then have "\<not> (lo \<le> x \<and> x < hi)" using lh(1,3) by (auto simp: covers_def)
    then have nv: "\<not> covers (vmas s' v) x" unfolding new(3) .
    have "covers (vmas s' u) x = covers (vmas s u) x" for u using nv False same(4) [of u] by (cases "u = v") simp_all
    then show ?thesis using False by (simp add: space_def same(1) new(4))
  qed
  then show thesis using r k same by (intro that [of s']) simp_all
qed

section \<open>The whole range\<close>

lemma take_below:
  assumes "areas_ok f vs"
  shows "set (takeWhile (\<lambda>v. vm_start (f v) < b) vs) = {v \<in> set vs. vm_start (f v) < b}"
  using assms
proof (induction vs)
  case (Cons v vs)
  have "vm_start (f v) \<le> vm_start (f u)" if "u \<in> set vs" for u using Cons.prems that by force
  then show ?case using Cons by (auto simp: not_less)
qed simp

definition unshared :: "vm_st \<Rightarrow> nat \<Rightarrow> 32 word \<Rightarrow> 32 word \<Rightarrow> bool" where
  "unshared s m a b = (\<forall>x c. a \<le> x \<and> x < b \<longrightarrow> space s m x = Some c \<longrightarrow> snd c = None)"

lemma private_area:
  assumes "mm_ok s m" "unshared s m a b" "v \<in> set (mmap_list (mms s m))" "vm_start (vmas s v) < b" "a < vm_end (vmas s v)" "a < b"
  shows "vm_flags (vmas s v) AND VM_SHARE = 0"
proof -
  let ?x = "max a (vm_start (vmas s v))"
  have "vm_start (vmas s v) < vm_end (vmas s v)" by (rule areas_ok_mem [OF mm_okD(1) [OF assms(1)] assms(3)])
  then have c: "covers (vmas s v) ?x" "a \<le> ?x" "?x < b" using assms(4-6) by (auto simp: covers_def max_def)
  from space_Some [OF mm_okD(1) [OF assms(1)] assms(3) c(1)] assms(2) c(2,3)
  have "snd (use_of (vmas s v) ?x) = None" unfolding unshared_def by blast
  then show ?thesis by (simp add: use_of_def split: if_splits)
qed

definition range_cleared :: "vm_st \<Rightarrow> nat \<Rightarrow> 32 word \<Rightarrow> 32 word \<Rightarrow> vm_st \<Rightarrow> bool" where
  "range_cleared s m a b s' = (vm_ok s' m \<and> pgdir_of s' m = pgdir_of s m \<and>
     (\<forall>x. space s' m x = (if a \<le> x \<and> x < b then None else space s m x)) \<and>
     (\<forall>x. mapped_at s' m x = (if a \<le> x \<and> x < b \<and> space s m x \<noteq> None then 0 else mapped_at s m x)))"

lemma unmap_several:
  assumes ok: "vm_ok s m" and few: "length (mmap_list (mms s m)) < 31"
    and ab: "a mod PGSIZE = 0" "b mod PGSIZE = 0" "USER_ACCESS a b" and pr: "unshared s m a b"
    and v: "find_vma_list (vmas s) a (mmap_list (mms s m)) = Some v" and ns: "\<not> (vm_start (vmas s v) < a \<and> b < vm_end (vmas s v))"
  defines "r \<equiv> bindR (unmap_collect m b (dropWhile (\<lambda>x. x \<noteq> v) (mmap_list (mms s m))) [] s) (\<lambda>(free, s2). unmap_each m a b free s2)"
  shows "(\<exists>e. r = Inl e \<and> bad_entry (pgdir_of s m) e) \<or> (\<exists>s'. r = Inr s' \<and> range_cleared s m a b s')"
proof -
  let ?l = "mmap_list (mms s m)"
  have mm: "mm_ok s m" using ok by (simp add: vm_ok_def)
  note l_ok = mm_okD(1) [OF mm]
  have ab': "a < b" using ab(3) by (simp add: USER_ACCESS_def)
  obtain us ws where l: "?l = us @ v # ws" "\<forall>u\<in>set us. vm_end (vmas s u) \<le> a" "a < vm_end (vmas s v)"
    using v by (auto simp: find_vma_list_Some)
  define vs where "vs = v # ws"
  have l': "?l = us @ vs" using l(1) vs_def by simp
  have dl: "distinct ?l" by (rule areas_ok_distinct [OF l_ok])
  then have dw: "dropWhile (\<lambda>x. x \<noteq> v) ?l = vs" unfolding l(1) vs_def by (auto simp: dropWhile_append)
  define cs where "cs = takeWhile (\<lambda>v. vm_start (vmas s v) < b) vs"
  define s2 where "s2 = cut_vmas m cs s"
  have r: "r = unmap_each m a b (rev cs) s2"
    unfolding r_def dw using unmap_collect_spec [OF mm l', of b "[]"] few by (simp add: l' cs_def s2_def)
  have vs_ok: "areas_ok (vmas s) vs" using l_ok l' by (simp add: areas_ok_append)
  have cs: "set cs = {u \<in> set vs. vm_start (vmas s u) < b}" unfolding cs_def by (rule take_below [OF vs_ok])
  then have sub: "set cs \<subseteq> set ?l" using l' by auto
  have dcs: "distinct cs" using dl l' unfolding cs_def by (simp add: distinct_takeWhile)
  have ends: "a < vm_end (vmas s u) \<and> (u = v \<or> a \<le> vm_start (vmas s u))" if "u \<in> set vs" for u
  proof -
    have "u = v \<or> vm_end (vmas s v) \<le> vm_start (vmas s u) \<and> vm_start (vmas s u) < vm_end (vmas s u)"
      using vs_ok that areas_ok_mem [OF vs_ok that] unfolding vs_def by auto
    then show ?thesis using l(3) by auto
  qed
  have in_cs: "u \<in> set cs" if "u \<in> set ?l" "covers (vmas s u) x" "a \<le> x" "x < b" for u x
    using that l(2) l' cs by (force simp: covers_def)
  have mm2: "mm_ok s2 m" unfolding s2_def by (rule cut_vmas_ok [OF mm dcs sub])
  have ok2: "vm_ok s2 m" using ok mm2 by (simp add: vm_ok_def s2_def)
  have sp2: "space s2 m x = (if \<exists>v\<in>set cs. covers (vmas s v) x then None else space s m x)" for x
    unfolding s2_def by (rule space_cut_vmas [OF l_ok sub])
  have det: "detached s2 m u \<and> meets s2 a b u" if u: "u \<in> set cs" for u
  proof -
    have u': "u \<in> set ?l" "vm_start (vmas s u) < b" "u \<in> set vs" using u sub cs by auto
    have "vm_flags (vmas s u) AND VM_SHARE = 0" by (rule private_area [OF mm pr u'(1,2)]) (use ends [OF u'(3)] ab' in auto)
    moreover have "u \<notin> set (kpool s)" using mm_okD(5) [OF mm] u'(1) by auto
    ultimately show ?thesis using u u' ends [OF u'(3)] ns areas_ok_mem [OF l_ok u'(1)] mm_okD(7) [OF mm u'(1)] sp2
      by (auto simp: detached_def meets_def s2_def)
  qed
  have len: "length (mmap_list (mms s2 m)) + length (rev cs) \<le> 31"
    using length_filter_out [OF dl dcs sub] few distinct_card [OF dcs] distinct_card [OF dl] card_mono [OF _ sub] by (simp add: s2_def)
  have uniq: "\<forall>u\<in>set (rev cs). \<forall>w\<in>set (rev cs). \<forall>x. covers (vmas s2 u) x \<and> covers (vmas s2 w) x \<longrightarrow> u = w"
    using covers_unique [OF l_ok] sub by (auto simp: s2_def)
  have drev: "distinct (rev cs)" "\<forall>u\<in>set (rev cs). detached s2 m u \<and> meets s2 a b u" using dcs det by simp_all
  from unmap_each_spec [OF ok2 ab drev uniq len] show ?thesis
  proof (elim disjE exE conjE)
    fix s' assume s': "unmap_each m a b (rev cs) s2 = Inr s'" "vm_ok s' m" "pgdir_of s' m = pgdir_of s2 m"
      and sp: "\<forall>x. space s' m x = (if \<exists>v\<in>set (rev cs). covers (vmas s2 v) x then (if a \<le> x \<and> x < b then None
          else map_option (\<lambda>v. use_of (vmas s2 v) x) (find (\<lambda>v. covers (vmas s2 v) x) (rev cs))) else space s2 m x)"
      and mp: "\<forall>x. mapped_at s' m x = (if (\<exists>v\<in>set (rev cs). covers (vmas s2 v) x) \<and> a \<le> x \<and> x < b then 0 else mapped_at s2 m x)"
    have v2: "vmas s2 = vmas s" "pgdir_of s2 m = pgdir_of s m" "mapped_at s2 m = mapped_at s m"
      by (simp_all add: s2_def mapped_at_def fun_eq_iff)
    have none: "space s m x = None \<longleftrightarrow> \<not> (\<exists>u\<in>set cs. covers (vmas s u) x)" if "a \<le> x" "x < b" for x
      using in_cs that sub unfolding space_None by blast
    have "space s' m x = (if a \<le> x \<and> x < b then None else space s m x)" for x
    proof (cases "\<exists>u\<in>set cs. covers (vmas s u) x")
      case True
      then obtain w where w: "find (\<lambda>v. covers (vmas s v) x) (rev cs) = Some w"
        by (cases "find (\<lambda>v. covers (vmas s v) x) (rev cs)") (auto simp: find_None_iff)
      then have "w \<in> set (rev cs)" "covers (vmas s w) x" by (auto simp only: find_Some_iff nth_mem)
      then have "space s m x = Some (use_of (vmas s w) x)" using sub by (intro space_Some [OF l_ok]) auto
      then show ?thesis using spec [OF sp, of x] True w unfolding v2 by simp
    next
      case False
      then show ?thesis using spec [OF sp, of x] sp2 [of x] none [of x] unfolding v2 by simp
    qed
    moreover have "mapped_at s' m x = (if a \<le> x \<and> x < b \<and> space s m x \<noteq> None then 0 else mapped_at s m x)" for x
      using spec [OF mp, of x] none [of x] unfolding v2 by auto
    ultimately show ?thesis using s' v2(2) by (simp add: range_cleared_def r)
  qed (simp_all add: s2_def r)
qed

text \<open>The range lies inside one area, which is cut in two.\<close>

lemma unmap_middle:
  assumes ok: "vm_ok s m" and few: "length (mmap_list (mms s m)) < 31"
    and ab: "a mod PGSIZE = 0" "b mod PGSIZE = 0" "USER_ACCESS a b" and pr: "unshared s m a b"
    and v: "v \<in> set (mmap_list (mms s m))" "vm_start (vmas s v) < a" "b < vm_end (vmas s v)" and p: "kpool s = nv # ps"
  defines "r \<equiv> bindR (vma_resize v b (vm_end (vmas s v)) (new_vma (vm_start (vmas s v)) a (vm_flags (vmas s v)) nv ps s)) (\<lambda>s3.
    bindR (insert_vma_struct m nv s3) (\<lambda>s4. on_mem (unmap_range (pgdir_of s4 m) a b) s4))"
  shows "(\<exists>e. r = Inl e \<and> bad_entry (pgdir_of s m) e) \<or> (\<exists>s'. r = Inr s' \<and> range_cleared s m a b s')"
proof -
  let ?a = "vmas s v" and ?s2 = "new_vma (vm_start (vmas s v)) a (vm_flags (vmas s v)) nv ps s"
  have mm: "mm_ok s m" using ok by (simp add: vm_ok_def)
  have ab': "a < b" using ab(3) by (simp add: USER_ACCESS_def)
  have ua: "user_area ?a" by (rule mm_okD(7) [OF mm v(1)])
  have pv: "vm_flags ?a AND VM_SHARE = 0" by (rule private_area [OF mm pr v(1)]) (use v ab' in auto)
  note n = new_vma_ok(1) [OF mm p, of "vm_start ?a" a "vm_flags ?a"] new_vma_ok(2,3) [OF mm p] new_vma_ok(4) [OF mm p, of "vm_start ?a" a "vm_flags ?a"]
  have nvv: "nv \<noteq> v" using n(2) v(1) by auto
  then have v2: "vmas ?s2 v = ?a" by simp
  have hi: "vm_start (vmas ?s2 v) \<le> b" "b < vm_end ?a" "vm_end ?a \<le> vm_end (vmas ?s2 v)" "b mod PGSIZE = 0" "vm_end ?a mod PGSIZE = 0"
    unfolding v2 using v ab ab' ua by (auto simp: user_area_def)
  have v2l: "v \<in> set (mmap_list (mms ?s2 m))" "vm_flags (vmas ?s2 v) AND VM_SHARE = 0" using v(1) pv v2 by simp_all
  obtain s3 where s3: "vma_resize v b (vm_end ?a) ?s2 = Inr s3" "mm_ok s3 m" "mem s3 = mem ?s2" "kpool s3 = kpool ?s2" "mms s3 = mms ?s2"
    "\<And>u. u \<noteq> v \<Longrightarrow> vmas s3 u = vmas ?s2 u"
    "\<And>x. space s3 m x = (if covers (vmas ?s2 v) x \<and> \<not> (b \<le> x \<and> x < vm_end ?a) then None else space ?s2 m x)"
    by (rule shrink_vma [OF n(1) v2l hi]) (rule that; assumption)
  have nv3: "vmas s3 nv = vmas ?s2 nv" by (rule s3(6) [OF nvv])
  have low: "covers ?a x" if "vm_start ?a \<le> x" "x < a" for x using that v ab' by (auto simp: covers_def)
  have sp3: "space s3 m x = (if covers ?a x \<and> \<not> (b \<le> x \<and> x < vm_end ?a) then None else space s m x)" for x
    using s3(7) [of x] unfolding v2 n(4) .
  have det: "detached s3 m nv"
    using n(2,3) s3(4,5) nv3 ua v(2) ab pv low sp3 ab' v(3)
    by (auto simp: detached_def user_area_def USER_ACCESS_def)
  have few3: "length (mmap_list (mms s3 m)) < 31" using few s3(5) by simp
  obtain s4 where s4: "insert_vma_struct m nv s3 = Inr s4" "mm_ok s4 m" "mem s4 = mem s3" "\<And>k. mm_pgdir (mms s4 k) = mm_pgdir (mms s3 k)"
    "\<And>x. space s4 m x = (if covers (vmas s3 nv) x then Some (use_of (vmas s3 nv) x) else space s3 m x)"
    by (rule insert_detached [OF s3(2) det few3]) (rule that; assumption)
  have pg: "pgdir_of s4 m = pgdir_of s m" "mem s4 = mem s" using s3 s4 by simp_all
  have ok4: "vm_ok s4 m" using ok s4(2) pg by (simp add: vm_ok_def)
  have r: "r = on_mem (unmap_range (pgdir_of s4 m) a b) s4" unfolding r_def using s3(1) s4(1) by simp
  have inside: "covers ?a x \<and> space s m x = Some (use_of ?a x)" if "vm_start ?a \<le> x" "x < vm_end ?a" for x
    using space_Some [OF mm_okD(1) [OF mm] v(1), of x] that by (simp add: covers_def)
  have u3: "use_of (vmas s3 nv) x = use_of ?a x" for x using nv3 pv by (simp add: use_of_def)
  have c3: "covers (vmas s3 nv) x \<longleftrightarrow> vm_start ?a \<le> x \<and> x < a" for x using nv3 by simp
  have sp4: "space s4 m x = (if vm_start ?a \<le> x \<and> x < a then Some (use_of ?a x)
    else if covers ?a x \<and> \<not> (b \<le> x \<and> x < vm_end ?a) then None else space s m x)" for x
    unfolding s4(5) u3 c3 sp3 ..
  have sp: "space s4 m x = (if a \<le> x \<and> x < b then None else space s m x)" for x
  proof (cases "vm_start ?a \<le> x \<and> x < vm_end ?a")
    case True
    then have "covers ?a x" "space s m x = Some (use_of ?a x)" using inside by auto
    then show ?thesis using sp4 [of x] True ab' v by (auto simp: not_less not_le)
  next
    case False
    then have "\<not> covers ?a x" "\<not> (a \<le> x \<and> x < b)" "\<not> (vm_start ?a \<le> x \<and> x < a)" using v ab' by (auto simp: covers_def)
    then show ?thesis using sp4 [of x] by auto
  qed
  have "space s m x \<noteq> None" if "a \<le> x" "x < b" for x using inside [of x] that v by auto
  then have none: "(a \<le> x \<and> x < b) = (a \<le> x \<and> x < b \<and> space s m x \<noteq> None)" for x by blast
  show ?thesis
  proof (cases rule: unmap_pages [OF ok4 ab, case_names bad good])
    case (bad e)
    then show ?thesis using r pg by auto
  next
    case (good t)
    have "mapped_at s4 m x = mapped_at s m x" for x using pg by (simp add: mapped_at_def)
    then have "range_cleared s m a b (s4\<lparr>mem := t\<rparr>)"
      using good(2,3) sp none pg(1) by (auto simp: range_cleared_def)
    then show ?thesis using r good(1) by auto
  qed
qed

lemma vm_ok_cache:
  assumes "vm_ok s m" "\<And>u. v = Some u \<Longrightarrow> u \<in> set (mmap_list (mms s m))"
  shows "vm_ok (cache_vma m v s) m" "mapped_at (cache_vma m v s) m = mapped_at s m" "range_cleared (cache_vma m v s) m a b = range_cleared s m a b"
    "unshared (cache_vma m v s) m a b = unshared s m a b"
  using assms cache_vma_ok [of s m v] by (simp_all add: vm_ok_def mapped_at_def range_cleared_def unshared_def fun_eq_iff)

lemma mm_unmap_spec:
  fixes addr len :: "32 word"
  assumes ok: "vm_ok s m" and few: "length (mmap_list (mms s m)) < 31"
  defines "a \<equiv> ROUNDDOWN addr PGSIZE" and "b \<equiv> ROUNDUP (addr + len) PGSIZE"
  assumes pr: "unshared s m a b"
  shows "(\<exists>e. mm_unmap (Some m) addr len s = Inl e \<and> bad_entry (pgdir_of s m) e) \<or>
    (\<exists>ret s'. mm_unmap (Some m) addr len s = Inr (ret, s') \<and>
      (if \<not> USER_ACCESS a b then ret = - E_INVAL \<and> s' = s
       else ret = 0 \<and> range_cleared s m a b s' \<or> ret = - E_NO_MEM \<and> kpool s = [] \<and> vm_ok s' m \<and> space s' = space s \<and> mem s' = mem s \<and>
         pgdir_of s' m = pgdir_of s m))"
proof (cases "USER_ACCESS a b")
  case False
  then show ?thesis by (simp add: mm_unmap_def a_def b_def)
next
  case ua: True
  then have ab: "a < b" by (simp add: USER_ACCESS_def)
  have mm: "mm_ok s m" using ok by (simp add: vm_ok_def)
  have al: "a mod PGSIZE = 0" "b mod PGSIZE = 0" by (simp_all add: a_def b_def ROUND_page)
  let ?f = "find_vma_list (vmas s) a (mmap_list (mms s m))"
  let ?s1 = "cache_vma m ?f s"
  have fm: "?f = Some u \<Longrightarrow> u \<in> set (mmap_list (mms s m))" for u by (rule find_vma_list_mem)
  note c = vm_ok_cache(1,2) [OF ok fm] vm_ok_cache(3,4) [OF ok fm, where a = a and b = b]
  have few1: "length (mmap_list (mms ?s1 m)) < 31" using few by simp
  have pr1: "unshared ?s1 m a b" using pr c(4) by simp
  note fv = find_vma_spec [OF mm, of a]
  show ?thesis
  proof (cases "range_free s m a b")
    case True
    then have "mm_unmap (Some m) addr len s = Inr (0, ?s1)"
      using range_free_find [OF mm ab] fv ua
      by (auto simp: mm_unmap_def a_def [symmetric] b_def [symmetric] deref_def split: option.splits)
    moreover have "range_cleared s m a b ?s1"
      using c(1,2) True by (auto simp: range_cleared_def range_free_def fun_eq_iff)
    ultimately show ?thesis using ua by simp
  next
    case False
    then obtain v where f: "?f = Some v" and vb: "vm_start (vmas s v) < b"
      using range_free_find [OF mm ab] by (auto simp: not_le split: option.splits)
    then have v: "v \<in> set (mmap_list (mms s m))" "a < vm_end (vmas s v)" by (auto simp: find_vma_list_Some)
    have nb: "\<not> b \<le> vm_start (vmas s v)" using vb by simp
    show ?thesis
    proof (cases "vm_start (vmas s v) < a \<and> b < vm_end (vmas s v)")
      case mid: True
      have e: "mm_unmap (Some m) addr len s = (case vma_create (vm_start (vmas s v)) a (vm_flags (vmas s v)) ?s1 of
          (None, s2) \<Rightarrow> Inr (- E_NO_MEM, s2)
        | (Some nv, s2) \<Rightarrow> bindR (vma_resize v b (vm_end (vmas s v)) s2) (\<lambda>s3. bindR (insert_vma_struct m nv s3) (\<lambda>s4.
            bindR (on_mem (unmap_range (pgdir_of s4 m) a b) s4) (\<lambda>s5. Inr (0, s5)))))"
        using fv f nb mid ua
        by (simp add: mm_unmap_def a_def [symmetric] b_def [symmetric] deref_def cong: option.case_cong prod.case_cong)
      show ?thesis
      proof (cases "kpool s")
        case Nil
        then show ?thesis using e ua c(1) by (simp add: vma_create_eq fun_eq_iff)
      next
        case (Cons nv ps)
        let ?r = "bindR (vma_resize v b (vm_end (vmas s v)) (new_vma (vm_start (vmas s v)) a (vm_flags (vmas s v)) nv ps ?s1)) (\<lambda>s3.
          bindR (insert_vma_struct m nv s3) (\<lambda>s4. on_mem (unmap_range (pgdir_of s4 m) a b) s4))"
        have "mm_unmap (Some m) addr len s = bindR ?r (\<lambda>s'. Inr (0, s'))" using e Cons by (simp add: vma_create_eq bindR_assoc)
        moreover have "(\<exists>e. ?r = Inl e \<and> bad_entry (pgdir_of s m) e) \<or> (\<exists>s'. ?r = Inr s' \<and> range_cleared s m a b s')"
          using unmap_middle [OF c(1) few1 al ua pr1, of v nv ps] v mid Cons c(3) by simp
        ultimately show ?thesis using ua by auto
      qed
    next
      case False
      let ?r = "bindR (unmap_collect m b (dropWhile (\<lambda>x. x \<noteq> v) (mmap_list (mms ?s1 m))) [] ?s1) (\<lambda>(free, s2). unmap_each m a b free s2)"
      have nm: "(vm_start (vmas s v) < a \<and> b < vm_end (vmas s v)) = False" using False by simp
      have "mm_unmap (Some m) addr len s = bindR ?r (\<lambda>s'. Inr (0, s'))"
        using fv f nb ua
        by (simp add: nm mm_unmap_def a_def [symmetric] b_def [symmetric] deref_def bindR_assoc cong: option.case_cong prod.case_cong) (simp add: split_def)
      moreover have "(\<exists>e. ?r = Inl e \<and> bad_entry (pgdir_of s m) e) \<or> (\<exists>s'. ?r = Inr s' \<and> range_cleared s m a b s')"
        using unmap_several [OF c(1) few1 al ua pr1, of v] f False c(3) by simp
      ultimately show ?thesis using ua by auto
    qed
  qed
qed

end
