(* ===== verification/Vmm_Fault.thy ===== *)
theory Vmm_Fault
  imports Vmm_Unmap
begin

text \<open>
  Page faults.  An access the areas do not allow is refused and changes nothing; a fault on a
  private address with no page maps a fresh page there and changes no other translation; a
  write to a page that is shared with another address space goes to a copy.
\<close>

section \<open>The lock around the handler\<close>

lemma free_lock: "try_lock 0 = (1, True)" "unlock 1 = Inr 0"
  by (simp_all add: try_lock_def unlock_def test_and_set_bit_def test_and_clear_bit_def unset_bit_0)

definition locked_state :: "int option \<Rightarrow> nat \<Rightarrow> vm_st \<Rightarrow> vm_st" where
  "locked_state cur m s = note_locker cur m (upd_mm m (\<lambda>d. d\<lparr>mm_lock := 1\<rparr>) s)"

lemma locked_state_simps [simp]:
  "mem (locked_state cur m s) = mem s" "vmas (locked_state cur m s) = vmas s" "kpool (locked_state cur m s) = kpool s"
  "shmems (locked_state cur m s) = shmems s" "shmns (locked_state cur m s) = shmns s"
  "mmap_list (mms (locked_state cur m s) k) = mmap_list (mms s k)" "mmap_tree (mms (locked_state cur m s) k) = mmap_tree (mms s k)"
  "mmap_cache (mms (locked_state cur m s) k) = mmap_cache (mms s k)" "map_count (mms (locked_state cur m s) k) = map_count (mms s k)"
  "mm_pgdir (mms (locked_state cur m s) k) = mm_pgdir (mms s k)" "mm_lock (mms (locked_state cur m s) m) = 1"
  by (simp_all add: locked_state_def note_locker_def upd_mm_def split: option.split)

lemma locked_state_ok [simp]:
  "mm_ok (locked_state cur m s) k = mm_ok s k" "space (locked_state cur m s) = space s" "mapped_at (locked_state cur m s) = mapped_at s"
  by (simp_all add: mm_ok_def space_def mapped_at_def fun_eq_iff)

lemma do_pgfault_unlocked:
  assumes "mm_lock (mms s m) = 0"
  shows "do_pgfault rd env sch cur (Some m) error_code addr s =
    bindR (fault_body rd env sch m error_code addr (locked_state cur m s)) (\<lambda>(ret, s3).
      bindR (unlock_mm (Some m) s3) (\<lambda>s4. Inr (ret, s4)))"
  using assms by (simp add: do_pgfault_def try_lock_mm_def free_lock locked_state_def)

definition released :: "nat \<Rightarrow> vm_st \<Rightarrow> vm_st" where
  "released m s = upd_mm m (\<lambda>d. d\<lparr>mm_lock := 0, locked_by := 0\<rparr>) s"

lemma released_simps [simp]:
  "mem (released m s) = mem s" "vmas (released m s) = vmas s" "space (released m s) = space s" "mapped_at (released m s) = mapped_at s"
  "mm_lock (mms (released m s) m) = 0" "mm_pgdir (mms (released m s) k) = mm_pgdir (mms s k)" "mm_ok (released m s) k = mm_ok s k"
  by (simp_all add: released_def upd_mm_def space_def mapped_at_def mm_ok_def fun_eq_iff)

lemma unlock_released:
  "mm_lock (mms s m) = 1 \<Longrightarrow> unlock_mm (Some m) s = Inr (released m s)"
  by (simp add: unlock_mm_def free_lock released_def)

section \<open>Refused accesses\<close>

text \<open>What the fault handler requires of the area that covers the address.\<close>

definition access_ok :: "vm_st \<Rightarrow> nat \<Rightarrow> 32 word \<Rightarrow> 32 word \<Rightarrow> bool" where
  "access_ok s m error_code addr = (\<exists>v\<in>set (mmap_list (mms s m)). covers (vmas s v) addr \<and> fault_allowed error_code addr (vmas s v))"

lemma fault_find:
  assumes "mm_ok s m"
  shows "access_ok s m error_code addr \<longleftrightarrow>
    (case find_vma_list (vmas s) addr (mmap_list (mms s m)) of None \<Rightarrow> False | Some v \<Rightarrow> fault_allowed error_code addr (vmas s v))"
proof (cases "find_vma_list (vmas s) addr (mmap_list (mms s m))")
  case None
  then have "\<not> covers (vmas s u) addr" if "u \<in> set (mmap_list (mms s m))" for u
    using that by (auto simp: find_vma_list_None covers_def not_less)
  then show ?thesis using None by (auto simp: access_ok_def)
next
  case (Some v)
  then have v: "v \<in> set (mmap_list (mms s m))" "addr < vm_end (vmas s v)" by (auto simp: find_vma_list_Some)
  have "u = v" if "u \<in> set (mmap_list (mms s m))" "covers (vmas s u) addr" for u
    using find_vma_list_covers [OF mm_okD(1) [OF assms] that] Some by simp
  then have "access_ok s m error_code addr \<longleftrightarrow> covers (vmas s v) addr \<and> fault_allowed error_code addr (vmas s v)"
    using v(1) unfolding access_ok_def by blast
  moreover have "covers (vmas s v) addr" if "fault_allowed error_code addr (vmas s v)"
    using that v(2) by (simp add: fault_allowed_def covers_def not_less)
  ultimately show ?thesis using Some by auto
qed

lemma fault_refused:
  assumes "mm_ok s m" "mm_lock (mms s m) = 0" "\<not> access_ok s m error_code addr"
  shows "\<exists>s'. do_pgfault rd env sch cur (Some m) error_code addr s = Inr (- E_INVAL, s') \<and> mem s' = mem s \<and> space s' = space s \<and>
    mm_ok s' m \<and> mm_lock (mms s' m) = 0"
proof -
  let ?s = "locked_state cur m s"
  let ?f = "find_vma_list (vmas s) addr (mmap_list (mms s m))"
  let ?s1 = "cache_vma m ?f ?s"
  have ok: "mm_ok ?s m" using assms(1) by simp
  have "find_vma (Some m) addr ?s = Inr (?f, ?s1)" using find_vma_spec [OF ok, of addr] by simp
  then have "fault_body rd env sch m error_code addr ?s = Inr (- E_INVAL, ?s1)"
    using fault_find [OF assms(1)] assms(3) by (auto simp: fault_body_def split: option.splits)
  moreover have "unlock_mm (Some m) ?s1 = Inr (released m ?s1)" by (rule unlock_released) simp
  ultimately have "do_pgfault rd env sch cur (Some m) error_code addr s = Inr (- E_INVAL, released m ?s1)"
    by (simp add: do_pgfault_unlocked [OF assms(2)])
  moreover have "mm_ok ?s1 m" by (rule cache_vma_ok [OF ok]) (auto dest: find_vma_list_mem)
  ultimately show ?thesis by simp
qed

section \<open>Fresh pages\<close>

lemma pgdir_alloc_fresh:
  assumes ok: "pt_ok s d" and e: "entry_at s d la e" "rd_entry e s = 0"
  shows "pgdir_alloc_page d la perm s = Inr (None, s) \<or>
    (\<exists>p s'. pgdir_alloc_page d la perm s = Inr (Some p, s') \<and> p \<in> bfree (bud s) \<and>
      (\<forall>x. pt_lookup s' d x = (if PPN x = PPN la then page2pa p OR PTE_P OR perm else pt_lookup s d x)))"
proof -
  note O = ok [unfolded pt_ok_def]
  from alloc_page_spec [of s] O consider (n) "alloc_page s = Inr (None, s)"
    | (a) p b where "alloc_page s = Inr (Some p, s\<lparr>bud := b\<rparr>)" "buddy_inv b" "p \<in> bfree (bud s)" "bfree b = bfree (bud s) - {p}"
      "same_zones (bud s) b" by blast
  then show ?thesis
  proof cases
    case n
    then show ?thesis by (simp add: pgdir_alloc_page_def)
  next
    case (a p b)
    let ?s = "s\<lparr>bud := b\<rparr>"
    have np: "npage b = npage (bud s)" using a(5) by (simp add: same_zones_def)
    have ok1: "pt_ok ?s d" using O a(2,4) np by (auto simp: pt_ok_def pt_shape_def)
    have e1: "entry_at ?s d la e" "rd_entry e ?s = 0" using e by (simp_all add: entry_at_def rd_entry_def)
    have "fst e < npage (bud ?s)" using e(1) O np by (auto simp: entry_at_def)
    note i = page_insert_present(1) [OF e1(1) this e1(2), of p perm]
    have "pgdir_alloc_page d la perm s = Inr (Some p, tlb_invalidate d la (wr_entry e (page2pa p OR PTE_P OR perm) (snd (page_ref_inc p ?s))))"
      using a(1) i by (simp add: pgdir_alloc_page_def)
    moreover have "pt_lookup ?s d x = pt_lookup s d x" for x by (simp add: pt_lookup_def)
    ultimately show ?thesis using page_insert_spec [OF ok1 i] a(3) by auto
  qed
qed

definition fault_perm :: "vma_struct \<Rightarrow> 32 word" where
  "fault_perm a = (if vm_flags a AND VM_WRITE \<noteq> 0 then PTE_U OR PTE_W else PTE_U)"

lemma ROUNDDOWN_PPN: "PPN (ROUNDDOWN x PGSIZE) = PPN x"
  using unat_ROUNDDOWN_page [of x] by (simp add: PPN_div)

lemma fault_fresh_private:
  assumes ok: "mm_ok s m" and lock: "mm_lock (mms s m) = 0" and pt: "pt_ok (mem s) (pgdir_of s m)"
    and v: "v \<in> set (mmap_list (mms s m))" "covers (vmas s v) addr" "fault_allowed error_code addr (vmas s v)"
      "vm_flags (vmas s v) AND VM_SHARE = 0"
    and empty: "mapped_at s m addr = 0"
  shows "\<exists>ret s'. do_pgfault rd env sch cur (Some m) error_code addr s = Inr (ret, s') \<and> space s' = space s \<and> mm_ok s' m \<and>
    mm_lock (mms s' m) = 0 \<and>
    (ret = 0 \<and> (\<exists>p\<in>bfree (bud (mem s)). \<forall>x. mapped_at s' m x =
        (if PPN x = PPN addr then page2pa p OR PTE_P OR fault_perm (vmas s v) else mapped_at s m x)) \<or>
     ret = - E_NO_MEM \<and> mapped_at s' m = mapped_at s m)"
proof -
  let ?s = "locked_state cur m s" and ?d = "pgdir_of s m" and ?a = "ROUNDDOWN addr PGSIZE" and ?p = "fault_perm (vmas s v)"
  let ?s1 = "cache_vma m (Some v) ?s"
  have f: "find_vma_list (vmas s) addr (mmap_list (mms s m)) = Some v" by (rule find_vma_list_covers [OF mm_okD(1) [OF ok] v(1,2)])
  have okl: "mm_ok ?s m" using ok by simp
  have fv: "find_vma (Some m) addr ?s = Inr (Some v, ?s1)" using find_vma_spec [OF okl, of addr] f by simp
  have ok1: "mm_ok ?s1 m" by (rule cache_vma_ok [OF okl]) (use v(1) in simp)
  have body: "fault_body rd env sch m error_code addr ?s =
    bindR (on_mem_val (get_pte ?d ?a True) ?s1) (\<lambda>(ptep, s2). case ptep of None \<Rightarrow> Inr (- E_NO_MEM, s2)
      | Some e \<Rightarrow> if rd_entry e (mem s2) = 0 then fault_fresh sch m (vmas s v) ?a ?p e s2
          else on_mem_val (fault_mapped rd env ?d (vmas s v) error_code ?a ?p e) s2)"
    using v(3) by (simp add: fault_body_def fv fault_perm_def cong: option.case_cong if_cong)
  have fin: "do_pgfault rd env sch cur (Some m) error_code addr s = Inr (ret, released m (?s1\<lparr>mem := t\<rparr>))"
    if "fault_body rd env sch m error_code addr ?s = Inr (ret, ?s1\<lparr>mem := t\<rparr>)" for ret t
  proof -
    have "unlock_mm (Some m) (?s1\<lparr>mem := t\<rparr>) = Inr (released m (?s1\<lparr>mem := t\<rparr>))" by (rule unlock_released) simp
    then show ?thesis using that by (simp add: do_pgfault_unlocked [OF lock])
  qed
  have mp: "mapped_at (released m (?s1\<lparr>mem := t\<rparr>)) m x = pt_lookup t ?d x" for t x by (simp add: mapped_at_def)
  have sp: "space (released m (?s1\<lparr>mem := t\<rparr>)) = space s" "mm_ok (released m (?s1\<lparr>mem := t\<rparr>)) m"
    "mm_lock (mms (released m (?s1\<lparr>mem := t\<rparr>)) m) = 0" for t
    using ok1 by (simp_all add: fun_eq_iff)
  have z: "pt_lookup (mem s) ?d ?a = 0" 
    using empty same_page [of ?a addr] ROUNDDOWN_PPN [of addr] by (auto simp: mapped_at_def pt_lookup_def split: if_splits)
  show ?thesis
  proof (cases rule: get_pte_create [OF pt, where la = ?a, case_names none some])
    case none
    then have "fault_body rd env sch m error_code addr ?s = Inr (- E_NO_MEM, ?s1\<lparr>mem := mem s\<rparr>)"
      unfolding body by (simp add: on_mem_val_def)
    from fin [OF this] show ?thesis using sp [of "mem s"] mp [of "mem s"] by (auto simp: mapped_at_def fun_eq_iff)
  next
    case (some e t)
    let ?s2 = "?s1\<lparr>mem := t\<rparr>"
    have r: "rd_entry e t = 0" using some(5) z by simp
    have "fault_body rd env sch m error_code addr ?s = fault_fresh sch m (vmas s v) ?a ?p e ?s2"
      unfolding body using some(1) r by (simp add: on_mem_val_def)
    then have b: "fault_body rd env sch m error_code addr ?s =
      bindR (pgdir_alloc_page ?d ?a ?p t) (\<lambda>(page, t'). Inr (if page = None then - E_NO_MEM else 0, ?s1\<lparr>mem := t'\<rparr>))"
      using v(4) by (simp add: fault_fresh_def on_mem_val_def bindR_assoc split_def)
    from pgdir_alloc_fresh [OF some(3,2) r, of ?p] show ?thesis
    proof (elim disjE exE conjE)
      assume "pgdir_alloc_page ?d ?a ?p t = Inr (None, t)"
      then have "fault_body rd env sch m error_code addr ?s = Inr (- E_NO_MEM, ?s1\<lparr>mem := t\<rparr>)" using b by simp
      from fin [OF this] show ?thesis using sp [of t] mp [of t] some(4) by (auto simp: mapped_at_def fun_eq_iff)
    next
      fix p t' assume p: "pgdir_alloc_page ?d ?a ?p t = Inr (Some p, t')" "p \<in> bfree (bud t)"
        "\<forall>x. pt_lookup t' ?d x = (if PPN x = PPN ?a then page2pa p OR PTE_P OR ?p else pt_lookup t ?d x)"
      then have "fault_body rd env sch m error_code addr ?s = Inr (0, ?s1\<lparr>mem := t'\<rparr>)" using b by simp
      from fin [OF this] have res: "do_pgfault rd env sch cur (Some m) error_code addr s = Inr (0, released m (?s1\<lparr>mem := t'\<rparr>))" .
      have "\<forall>x. mapped_at (released m (?s1\<lparr>mem := t'\<rparr>)) m x =
        (if PPN x = PPN addr then page2pa p OR PTE_P OR ?p else mapped_at s m x)"
        unfolding mp p(3) [rule_format] some(4) ROUNDDOWN_PPN by (simp add: mapped_at_def)
      moreover have "p \<in> bfree (bud (mem s))" using p(2) some(8) by blast
      ultimately show ?thesis using res sp [of t'] by blast
    qed
  qed
qed

section \<open>Copy on write\<close>

text \<open>Taking a block leaves the descriptors of the pages that are not free alone.\<close>

lemma split_block_pages: "q \<notin> {p..<p + 2 ^ c} \<Longrightarrow> pages (split_block p order c s) q = pages s q"
proof (induction c arbitrary: s)
  case (Suc c)
  have "q \<notin> {p..<p + 2 ^ c}" "q \<noteq> p + 2 ^ c" using Suc.prems by auto
  then show ?case using Suc.IH by (simp add: add_block_def)
qed simp

lemma alloc_from_pages: "q \<notin> bfree s \<Longrightarrow> pages (snd (alloc_from order c s)) q = pages s q"
proof (induction order c s rule: alloc_from.induct)
  case (1 order c s)
  show ?case
  proof (cases "c \<le> MAX_ORDER")
    case le: True
    show ?thesis
    proof (cases "free_list s c")
      case Nil
      then show ?thesis using 1 le by (subst alloc_from.simps) simp
    next
      case (Cons p ps)
      then have "p \<in> set (free_list s c)" by simp
      then have "{p..<p + 2 ^ c} \<subseteq> bfree s" unfolding bfree_def blk_def by blast
      then have "q \<notin> {p..<p + 2 ^ c}" using "1.prems" by blast
      moreover then have "q \<noteq> p" by auto
      ultimately show ?thesis using Cons le by (subst alloc_from.simps) (simp add: split_block_pages take_block_def)
    qed
  qed (subst alloc_from.simps, simp)
qed

lemma alloc_page_pages:
  assumes "alloc_page s = Inr (r, s')" "q \<notin> bfree (bud s)"
  shows "pg s' q = pg s q"
proof -
  have g: "getorder (Suc 0) = Inr 0" by (simp add: getorder_def getorder_from.simps)
  have "r = fst (alloc_from 0 0 (bud s)) \<and> s' = s\<lparr>bud := snd (alloc_from 0 0 (bud s))\<rparr>"
    using assms(1) by (auto simp: alloc_page_def buddy_alloc_pages_def buddy_alloc_pages_sub_def g split_def split: option.splits if_splits)
  then show ?thesis using alloc_from_pages [OF assms(2), of 0 0] by simp
qed

lemma ref_after_dec:
  assumes "1 < atomic_read w"
  shows "snd (atomic_sub_return (w + 1 - 1) 1) \<noteq> 0" "snd (atomic_sub_return w 1) \<noteq> 0" "in_int (atomic_read w + 0)"
proof -
  have "w \<noteq> 1" using assms by (auto simp: atomic_read_def)
  then have "sint (w - 1) \<noteq> 0" by (simp add: signed_eq_0_iff)
  then show "snd (atomic_sub_return w 1) \<noteq> 0" "snd (atomic_sub_return (w + 1 - 1) 1) \<noteq> 0"
    by (simp_all add: atomic_sub_return_def atomic_add_return_def)
  show "in_int (atomic_read w + 0)"
    using sint_greater_eq [of w] sint_less [of w] by (simp add: in_int_def INT_MAX_def INT_MIN_def atomic_read_def)
qed

text \<open>A write to a page others refer to as well.\<close>

lemma cow_write:
  assumes ok: "pt_ok s d" and e: "entry_at s d la e" "rd_entry e s AND PTE_P \<noteq> 0" "rd_entry e s AND PTE_W = 0"
    and p: "pte2page (rd_entry e s) s = Inr p" "p \<notin> bfree (bud s)" "fst e \<noteq> p" "\<not> PageSwap s p" "1 < page_ref p s"
    and a: "vm_flags a AND (VM_SHARE OR VM_WRITE) = VM_WRITE" "err AND 2 \<noteq> 0"
  shows "fault_mapped rd env d a err la perm e s = Inr (- E_NO_MEM, s) \<or>
    (\<exists>q s'. fault_mapped rd env d a err la perm e s = Inr (0, s') \<and> q \<in> bfree (bud s) \<and>
      (\<forall>x. pt_lookup s' d x = (if PPN x = PPN la then page2pa q OR PTE_P OR perm else pt_lookup s d x)) \<and>
      frame s' q = frame s p \<and> frame s' p = frame s p \<and> pg_ref (pg s' p) = pg_ref (pg s p) - 1)"
proof -
  note O = ok [unfolded pt_ok_def]
  have m: "fault_mapped rd env d a err la perm e s = fault_copy d la perm True (- E_NO_MEM) p newpage t"
    if "alloc_page s = Inr (newpage, t)" "rd_entry e t = rd_entry e s" "pte2page (rd_entry e s) t = Inr p" for newpage t
    using e(2,3) a that by (simp add: fault_mapped_def)
  from alloc_page_spec [of s] O consider (n) "alloc_page s = Inr (None, s)"
    | (q) q b where "alloc_page s = Inr (Some q, s\<lparr>bud := b\<rparr>)" "buddy_inv b" "q \<in> bfree (bud s)" "bfree b = bfree (bud s) - {q}"
      "same_zones (bud s) b" by blast
  then show ?thesis
  proof cases
    case n
    have "fault_copy d la perm True (- E_NO_MEM) p None s = Inr (- E_NO_MEM, s)"
      using p(4,5) ref_after_dec(3) [of "pg_ref (pg s p)"] by (simp add: fault_copy_def swap_page_count_def page_ref_def)
    then show ?thesis using m [OF n refl p(1)] by simp
  next
    case (q q b)
    let ?s1 = "s\<lparr>bud := b\<rparr>" and ?s2 = "s\<lparr>bud := b, frame := (frame s)(q := frame s p)\<rparr>"
    have np: "npage b = npage (bud s)" using q(5) by (simp add: same_zones_def)
    have pq: "p \<noteq> q" using p(2) q(3) by auto
    have pgp: "pages b p = pg s p" using alloc_page_pages [OF q(1) p(2)] by simp
    have tabs: "q \<noteq> d" "fst e \<noteq> q" using O q(3) e(1) by (auto simp: entry_at_def)
    have e2: "entry_at ?s2 d la e" "rd_entry e ?s2 = rd_entry e s" "fst e < npage (bud ?s2)"
      using e(1) tabs O np by (auto simp: entry_at_def rd_entry_def)
    have tab2: "PPN (frame s d i) \<noteq> q" if "frame s d i AND PTE_P \<noteq> 0" for i using O q(3) that by blast
    have fd: "frame ?s2 d = frame s d" using tabs by simp
    have ok2: "pt_ok ?s2 d" using O q(2,4) np tabs by (auto simp: pt_ok_def pt_shape_def)
    have lk2: "pt_lookup ?s2 d x = pt_lookup s d x" for x
      using fd tab2 by (simp add: pt_lookup_def)
    have pt: "pte2page (rd_entry e s) t = Inr p" if "npage (bud t) = npage (bud s)" for t
      using p(1) that by (auto simp: pte2page_def pa2page_def split: if_splits)
    let ?t = "snd (page_ref_dec p (snd (page_ref_inc q ?s2)))"
    have ref: "pg_ref (pg (snd (page_ref_inc q ?s2)) p) = pg_ref (pg s p)" using pq by (simp add: page_ref_simps pgp)
    have gp: "get_pte d la True ?s2 = Inr (Some e, ?s2)"
      using e2(1,3) by (auto simp: get_pte_def entry_at_def rd_entry_def KADDR_frame_def not_le)
    have sw: "\<not> PageSwap (snd (page_ref_inc q ?s2)) p"
      using p(4) pq by (simp add: page_ref_inc_def upd_pg_def split_def pgp)
    have dm: "drop_mapped (rd_entry e s) (snd (page_ref_inc q ?s2)) = Inr ?t"
      using sw ref_after_dec(2) [of "pg_ref (pg s p)"] p(5) ref pt [of "snd (page_ref_inc q ?s2)"] np
      by (simp add: drop_mapped_def page_ref_dec_def page_ref_def page_ref_simps split_def)
    have rm: "page_remove_pte d la e (snd (page_ref_inc q ?s2)) = Inr (tlb_invalidate d la (wr_entry e 0 ?t))"
      using e(2) e2(2) dm by (auto simp: page_remove_pte_def rd_entry_def)
    let ?u = "tlb_invalidate d la (wr_entry e (page2pa q OR PTE_P OR perm) (tlb_invalidate d la (wr_entry e 0 ?t)))"
    have nz: "rd_entry e s \<noteq> 0" using e(2) by auto
    have pi: "page_insert d q la perm ?s2 = Inr (0, ?u)"
      using gp rm e(2) nz e2(2) pt [of "snd (page_ref_inc q ?s2)"] np pq by (simp add: page_insert_def rd_entry_def page_ref_simps)
    have fc: "fault_copy d la perm True (- E_NO_MEM) p (Some q) ?s1 = Inr (0, ?u)"
      using p(4,5) ref_after_dec(3) [of "pg_ref (pg s p)"] pgp pi
      by (simp add: fault_copy_def swap_page_count_def page_ref_def fault_insert_def)
    have "rd_entry e ?s1 = rd_entry e s" by (simp add: rd_entry_def)
    then have res: "fault_mapped rd env d a err la perm e s = Inr (0, ?u)"
      using m [OF q(1)] pt [of ?s1] np fc by simp
    have fr: "frame ?u f = frame ?s2 f" if "f \<noteq> fst e" for f using that by (simp add: wr_entry_def)
    have "frame ?u q = frame s p" "frame ?u p = frame s p" using fr [of q] fr [of p] tabs p(3) pq by simp_all
    moreover have "pt_lookup ?u d x = (if PPN x = PPN la then page2pa q OR PTE_P OR perm else pt_lookup s d x)" for x
      using page_insert_spec [OF ok2 pi] lk2 by simp
    moreover have "pg_ref (pg ?u p) = pg_ref (pg s p) - 1" using ref by (simp add: page_ref_simps)
    ultimately show ?thesis using res q(3) by blast
  qed
qed

end
