(* ===== verification/Vmm_Props.thy ===== *)
theory Vmm_Props
  imports Vmm_Fault
begin

text \<open>
  The properties of address spaces: mapping, unmapping, the search for a free range, the check of
  user pointers and page faults, with a small address space on which each is exercised.
\<close>

section \<open>A small address space\<close>

text \<open>One readable and writable area of two pages, a directory without tables, four free page frames
  and three addresses for new areas.\<close>

definition small_space :: vm_st where
  "small_space = \<lparr>mem = empty_dir,
     vmas = (\<lambda>_. \<lparr>vm_mm = 7, vm_start = 0x400000, vm_end = 0x402000, vm_flags = 3, vm_shmem = None, vm_shmem_off = 0\<rparr>),
     mms = (\<lambda>_. \<lparr>mmap_list = [10], mmap_tree = None, mmap_cache = None, mm_pgdir = 0, map_count = 1, swap_address = 0,
       mm_count = 1, mm_lock = 0, locked_by = 0, brk_start = 0, brk = 0\<rparr>),
     shmems = (\<lambda>_. \<lparr>shmn_list = [], shmn_cache = None, sh_len = 0, sh_ref = 0, sh_lock = 0\<rparr>),
     shmns = (\<lambda>_. \<lparr>sn_start = 0, sn_end = 0, sn_entry = 0\<rparr>), rbs = (\<lambda>_. \<lparr>red = False, parent = 0, left = 0, right = 0\<rparr>),
     kpool = [20, 21, 22]\<rparr>"

lemma small_space_simps [simp]:
  "mem small_space = empty_dir" "mmap_list (mms small_space m) = [10]" "mm_pgdir (mms small_space m) = 0"
  "mm_lock (mms small_space m) = 0" "kpool small_space = [20, 21, 22]" "mmap_cache (mms small_space m) = None"
  "vmas small_space v = \<lparr>vm_mm = 7, vm_start = 0x400000, vm_end = 0x402000, vm_flags = 3, vm_shmem = None, vm_shmem_off = 0\<rparr>"
  by (simp_all add: small_space_def)

lemma small_space_ok: "mm_ok small_space 7" "vm_ok small_space 7" "pt_ok (mem small_space) (pgdir_of small_space 7)"
  "mapped_at small_space 7 x = 0"
proof -
  show m: "mm_ok small_space 7"
    by (simp add: mm_ok_def user_area_def PGSIZE_def USERBASE_def USERTOP_def) (simp add: small_space_def)
  show p: "pt_ok (mem small_space) (pgdir_of small_space 7)" using empty_dir_ok(1) by simp
  show "vm_ok small_space 7" using m p by (simp add: vm_ok_def pt_ok_def)
  show "mapped_at small_space 7 x = 0" using empty_dir_ok(2) by (simp add: mapped_at_def)
qed

lemma small_space_at: "space small_space 7 x = (if 0x400000 \<le> x \<and> x < 0x402000 then Some (3, None) else None)"
  by (simp add: space_def covers_def use_of_def VM_SHARE_def)

section \<open>Mapping and unmapping\<close>

text \<open>Mapping a range always returns: if the range lies in user space, is free and memory for the area
  is there, exactly the range gets the given use, never shared; otherwise the call fails with the
  error the source documents and the address space stays as it was.  The list of areas stays well
  formed and no memory is touched.\<close>

theorem mm_map_total:
  fixes addr len :: "32 word"
  assumes "mm_ok s m" "length (mmap_list (mms s m)) < 31"
  defines "a \<equiv> ROUNDDOWN addr PGSIZE" and "b \<equiv> ROUNDUP (addr + len) PGSIZE"
  shows "\<exists>ret v s'. mm_map (Some m) addr len fl s = Inr (ret, v, s') \<and> mm_ok s' m \<and> mem s' = mem s \<and>
    (if USER_ACCESS a b \<and> range_free s m a b \<and> kpool s \<noteq> []
     then ret = 0 \<and> (\<forall>x. space s' m x = (if a \<le> x \<and> x < b then Some (fl AND NOT VM_SHARE, None) else space s m x))
     else ret = (if USER_ACCESS a b \<and> range_free s m a b then - E_NO_MEM else - E_INVAL) \<and> space s' m = space s m)"
  using mm_map_spec [OF assms(1,2), of addr len fl] unfolding a_def b_def
  by (elim exE conjE) (intro exI conjI, assumption, simp_all split: if_splits)



text \<open>C32: the search for a free range returns the highest place in user space where the range fits without
  touching an area, and zero only when there is none.\<close>

theorem get_unmapped_area_highest:
  assumes "mm_ok s m" "0 < len" "len \<le> USERTOP"
  shows "if get_unmapped_area m len s = 0
    then \<forall>y. \<not> (USERBASE \<le> y \<and> y \<le> USERTOP - len \<and> range_free s m y (y + len))
    else USERBASE \<le> get_unmapped_area m len s \<and> get_unmapped_area m len s \<le> USERTOP - len \<and>
      range_free s m (get_unmapped_area m len s) (get_unmapped_area m len s + len) \<and>
      (\<forall>y. USERBASE \<le> y \<and> y \<le> USERTOP - len \<and> range_free s m y (y + len) \<longrightarrow> y \<le> get_unmapped_area m len s)"
  using get_unmapped_area_spec [OF assms] by (simp split: if_splits)

theorem get_unmapped_area_highest_witness: "get_unmapped_area 7 0x2000 small_space = 0xAFFFE000"
proof -
  have t: "USERTOP - 0x2000 = 0xAFFFE000" "USERBASE \<le> 0xAFFFE000" "(0x2000 :: 32 word) \<le> USERTOP"
    by (simp_all add: USERTOP_def USERBASE_def)
  have "range_free small_space 7 0xAFFFE000 (0xAFFFE000 + 0x2000)"
    by (auto simp: range_free_def small_space_at dest: order_le_less_trans)
  moreover have l: "0 < (0x2000 :: 32 word)" by simp
  note g = get_unmapped_area_highest [OF small_space_ok(1) l t(3), unfolded t(1)]
  ultimately have "get_unmapped_area 7 0x2000 small_space \<noteq> 0" "0xAFFFE000 \<le> get_unmapped_area 7 0x2000 small_space"
    "get_unmapped_area 7 0x2000 small_space \<le> 0xAFFFE000"
    using g t(2) by (meson order_refl)+
  then show ?thesis by simp
qed

section \<open>User pointers\<close>

text \<open>The check of a user range always returns; it accepts only ranges every address of which an area
  permits, and it accepts every such range in which no stack guard can interfere.\<close>

theorem user_mem_check_decides:
  assumes "mm_ok s m" "USER_ACCESS addr (addr + len)"
  shows "\<exists>ok s'. user_mem_check (Some m) addr len write s = Inr (ok, s') \<and> space s' m = space s m \<and>
    (ok \<longrightarrow> (\<forall>x. addr \<le> x \<and> x < addr + len \<longrightarrow> permits s m write x)) \<and>
    ((\<forall>x. addr \<le> x \<and> x < addr + len \<longrightarrow> permits s m write x \<and> \<not> (write \<and> stack_at s m x)) \<longrightarrow> ok)"
proof -
  obtain ok s' where "user_check_loop m addr (addr + len) write s = Some (Inr (ok, s'))" "space s' m = space s m"
    "ok \<longrightarrow> (\<forall>x. addr \<le> x \<and> x < addr + len \<longrightarrow> permits s m write x)"
    "(\<forall>x. addr \<le> x \<and> x < addr + len \<longrightarrow> permits s m write x \<and> \<not> (write \<and> stack_at s m x)) \<longrightarrow> ok"
    using user_check_spec [OF assms(1), of addr "addr + len" "write"] by blast
  then show ?thesis using assms(2) by (intro exI [of _ ok] exI [of _ s']) (simp add: user_mem_check_def spinR_def)
qed

section \<open>Pages stay inside the areas\<close>

text \<open>What a process does to its address space between faults: it maps, unmaps private ranges and passes
  pointers to the kernel.\<close>

inductive space_step :: "nat \<Rightarrow> vm_st \<Rightarrow> vm_st \<Rightarrow> bool" for m where
  map: "length (mmap_list (mms s m)) < 31 \<Longrightarrow> mm_map (Some m) addr len fl s = Inr (ret, v, s') \<Longrightarrow> space_step m s s'"
| unmap: "length (mmap_list (mms s m)) < 31 \<Longrightarrow> unshared s m (ROUNDDOWN addr PGSIZE) (ROUNDUP (addr + len) PGSIZE) \<Longrightarrow>
    mm_unmap (Some m) addr len s = Inr (ret, s') \<Longrightarrow> space_step m s s'"
| check: "USER_ACCESS addr (addr + len) \<Longrightarrow> user_mem_check (Some m) addr len write s = Inr (ok, s') \<Longrightarrow> space_step m s s'"

inductive space_steps :: "nat \<Rightarrow> vm_st \<Rightarrow> vm_st \<Rightarrow> bool" for m where
  start: "space_steps m s s"
| step: "space_steps m s t \<Longrightarrow> space_step m t u \<Longrightarrow> space_steps m s u"

definition pages_in_areas :: "vm_st \<Rightarrow> nat \<Rightarrow> bool" where
  "pages_in_areas s m = (\<forall>x. x < USERTOP \<longrightarrow> mapped_at s m x \<noteq> 0 \<longrightarrow> space s m x \<noteq> None)"

lemma range_cleared_pages:
  assumes "range_cleared s m a b s'" "pages_in_areas s m"
  shows "pages_in_areas s' m"
  unfolding pages_in_areas_def
proof (intro allI impI)
  fix x assume x: "x < USERTOP" "mapped_at s' m x \<noteq> 0"
  have m: "mapped_at s' m x = (if a \<le> x \<and> x < b \<and> space s m x \<noteq> None then 0 else mapped_at s m x)"
    and sp: "space s' m x = (if a \<le> x \<and> x < b then None else space s m x)" using assms(1) unfolding range_cleared_def by blast+
  have "space s m x \<noteq> None" if "mapped_at s m x \<noteq> 0" using assms(2) x(1) that unfolding pages_in_areas_def by blast
  with m sp x(2) show "space s' m x \<noteq> None" by (metis (no_types, lifting))
qed

lemma space_step_keeps:
  assumes "space_step m s s'" "vm_ok s m" "pages_in_areas s m"
  shows "vm_ok s' m \<and> pages_in_areas s' m"
  using assms(1)
proof (cases rule: space_step.cases)
  case (map addr len fl ret v)
  have ok: "mm_ok s m" using assms(2) by (simp add: vm_ok_def)
  from mm_map_spec [OF ok map(1), of addr len fl] map(2)
  have s': "mm_ok s' m" "mem s' = mem s" "pgdir_of s' m = pgdir_of s m" "\<And>x. space s m x \<noteq> None \<Longrightarrow> space s' m x \<noteq> None"
    by (auto split: if_splits)
  then show ?thesis using assms(2,3) by (simp add: vm_ok_def pages_in_areas_def mapped_at_def)
next
  case (unmap addr len ret)
  let ?a = "ROUNDDOWN addr PGSIZE" and ?b = "ROUNDUP (addr + len) PGSIZE"
  from mm_unmap_spec [OF assms(2) unmap(1,2)] unmap(3)
  consider "s' = s" | "range_cleared s m ?a ?b s'" | "vm_ok s' m" "space s' = space s" "mem s' = mem s" "pgdir_of s' m = pgdir_of s m"
    by (auto split: if_splits)
  then show ?thesis
  proof cases
    case 2
    then show ?thesis using range_cleared_pages [OF 2 assms(3)] by (simp add: range_cleared_def)
  qed (use assms(2,3) in \<open>simp_all add: pages_in_areas_def mapped_at_def\<close>)
next
  case (check addr len "write" ok)
  have mm: "mm_ok s m" using assms(2) by (simp add: vm_ok_def)
  from user_check_spec [OF mm, of addr "addr + len" "write"] check
  have "mm_ok s' m" "space s' m = space s m" "mem s' = mem s" "pgdir_of s' m = pgdir_of s m"
    by (auto simp: user_mem_check_def spinR_def)
  then show ?thesis using assms(2,3) by (simp add: vm_ok_def pages_in_areas_def mapped_at_def)
qed



section \<open>Page faults\<close>






text \<open>A directory that maps frame 3, which has two references, read-only at 0x1000.\<close>

definition cow_mem :: mem_st where
  "cow_mem = empty_dir\<lparr>bud := upd_page 3 (set_page_ref 2) small_zone,
     frame := (\<lambda>f i. if f = 0 \<and> i = 0 then 0x2007 else if f = 2 \<and> i = 1 then 0x3005 else 0)\<rparr>"

lemma cow_mem_ok: "pt_ok cow_mem 0" "bfree (bud cow_mem) = {4..<8}"
proof -
  have b: "bud cow_mem = upd_page 3 (set_page_ref 2) small_zone" "npage small_zone = 8" by (simp_all add: cow_mem_def small_zone_def)
  show f: "bfree (bud cow_mem) = {4..<8}" unfolding b(1) upd_page_bfree by (rule small_zone_spec(2))
  have p: "PPN 0x2007 = 2" by (simp add: PPN_div)
  have d: "frame cow_mem 0 i AND PTE_P \<noteq> 0 \<longleftrightarrow> i = 0" "frame cow_mem 0 0 = 0x2007" for i
    by (simp_all add: cow_mem_def PTE_P_def)
  show "pt_ok cow_mem 0"
    using upd_ref_inv(1) [OF small_zone_spec(1), of 3 2] f p
    by (simp add: pt_ok_def pt_shape_def d b)
qed


text \<open>C37: a fault on a page of a shared area that the object holds in the swap space stops the kernel: the
  reference is taken on the empty entry of the process instead of the entry of the object, and the
  empty entry is no swap entry.\<close>

theorem shared_swapped_fault_panics:
  assumes "vm_flags a AND VM_SHARE \<noteq> 0" "vm_shmem a = Some h" "sh_lock (shmems s h) = 0"
    and "shmem_get_entry h (addr - vm_start a + vm_shmem_off a) True (upd_shmem h (\<lambda>x. x\<lparr>sh_lock := 1\<rparr>) s) = Inr (Some e, s2)"
    and "sh_lock (shmems s2 h) = 1" "rd_entry e (mem s2) \<noteq> 0" "rd_entry e (mem s2) AND PTE_P = 0" "rd_entry ptep (mem s2) = 0"
  shows "fault_fresh sch m a addr perm ptep s = Inl (Panic ''invalid swap_entry_t'')"
proof -
  have l: "lock_shmem sch h s = Inr (upd_shmem h (\<lambda>x. x\<lparr>sh_lock := 1\<rparr>) s)"
    unfolding lock_shmem_def by (subst lock_loop.simps) (simp add: assms(3) free_lock)
  have "unlock_shmem h s2 = Inr (upd_shmem h (\<lambda>x. x\<lparr>sh_lock := 0\<rparr>) s2)" by (simp add: unlock_shmem_def assms(5) free_lock)
  then show ?thesis using assms(1,2,4,6-8) l
    by (simp add: fault_fresh_def on_mem_def swap_duplicate_def swap_offset_def upd_shmem_def)
qed

text \<open>A shared object of one page, whose entry is swap entry 1, and an area that maps it.\<close>

definition swapped_shmem :: vm_st where
  "swapped_shmem = small_space\<lparr>mem := empty_dir\<lparr>frame := (\<lambda>f i. if f = 3 \<and> i = 0 then 0x100 else 0)\<rparr>,
     shmems := (\<lambda>_. \<lparr>shmn_list = [31], shmn_cache = None, sh_len = 0x1000, sh_ref = 1, sh_lock = 0\<rparr>),
     shmns := (\<lambda>_. \<lparr>sn_start = 0, sn_end = 0x400000, sn_entry = 3\<rparr>)\<rparr>"

theorem shared_swapped_fault_panics_witness:
  "fault_fresh (\<lambda>t. t) 7 \<lparr>vm_mm = 7, vm_start = 0x400000, vm_end = 0x401000, vm_flags = 0x13, vm_shmem = Some 30, vm_shmem_off = 0\<rparr>
     0x400000 PTE_U (2, 0) swapped_shmem = Inl (Panic ''invalid swap_entry_t'')"
proof -
  let ?s1 = "upd_shmem 30 (\<lambda>x. x\<lparr>sh_lock := 1\<rparr>) swapped_shmem"
  let ?s2 = "upd_shmem 30 (\<lambda>x. x\<lparr>shmn_cache := Some 31\<rparr>) ?s1"
  have r: "rd_entry (3, 0) (mem ?s2) = 0x100" "rd_entry (2, 0) (mem ?s2) = 0" "sh_lock (shmems ?s2 30) = 1" "sh_lock (shmems swapped_shmem 30) = 0"
    by (simp_all add: rd_entry_def swapped_shmem_def upd_shmem_def)
  have "shmem_get_entry 30 0 True ?s1 = Inr (Some (3, 0), ?s2)"
    by (simp add: shmem_get_entry_def find_shmn_def swapped_shmem_def upd_shmem_def rd_entry_def ROUNDDOWN_def)
  then show ?thesis using r
    by (intro shared_swapped_fault_panics [where h = 30 and e = "(3, 0)" and ?s2.0 = ?s2]) (simp_all add: VM_SHARE_def PTE_P_def)
qed

end
