(* ===== verification/Swap_Cache.thy ===== *)
theory Swap_Cache
  imports Page_Table
begin

text \<open>
  The invariant of the swap cache of \<open>kern/mm/swap.c\<close> and that every operation keeps it.  A page with
  \<open>PG_swap\<close> is on the hash list of its entry and on exactly one of the two lists, is a page the
  allocator has handed out, and its entry is in use; an entry whose count is zero has its page in
  the cache.  Between two steps of an operation the pages of \<open>X\<close> are on neither list and the
  counts of the offsets in \<open>Y\<close> are not settled; between operations both are empty.
\<close>

section \<open>Taking and giving pages\<close>

text \<open>The allocator touches no reference count, no index and no flag but its own.\<close>

definition same_page_data :: "page \<Rightarrow> page \<Rightarrow> bool" where
  "same_page_data g g' \<longleftrightarrow> pg_ref g' = pg_ref g \<and> pg_index g' = pg_index g \<and>
     (\<forall>nr < 32. nr \<noteq> PG_property \<longrightarrow> page_test nr g' = page_test nr g)"

lemma same_page_data_refl [simp]: "same_page_data g g"
  by (simp add: same_page_data_def)

lemma same_page_data_trans: "same_page_data g g' \<Longrightarrow> same_page_data g' g'' \<Longrightarrow> same_page_data g g''"
  by (auto simp: same_page_data_def)

lemma same_page_dataD:
  assumes "same_page_data g g'"
  shows "pg_ref g' = pg_ref g" "pg_index g' = pg_index g" "page_test PG_swap g' = page_test PG_swap g"
    "page_test PG_active g' = page_test PG_active g" "page_test PG_dirty g' = page_test PG_dirty g"
proof -
  have "PG_swap \<noteq> PG_property" "PG_active \<noteq> PG_property" "PG_dirty \<noteq> PG_property"
    by (simp_all add: PG_swap_def PG_active_def PG_dirty_def PG_property_def)
  with assms show "pg_ref g' = pg_ref g" "pg_index g' = pg_index g" "page_test PG_swap g' = page_test PG_swap g"
    "page_test PG_active g' = page_test PG_active g" "page_test PG_dirty g' = page_test PG_dirty g"
    by (simp_all add: same_page_data_def)
qed

lemma add_block_data: "same_page_data (pages s q) (pages (add_block k p s) q)"
  by (auto simp: same_page_data_def)

lemma split_block_data: "same_page_data (pages s q) (pages (split_block p order c s) q)"
proof (induction c arbitrary: s)
  case (Suc c)
  then show ?case using same_page_data_trans [OF add_block_data Suc.IH] by simp
qed simp

lemma alloc_from_data: "same_page_data (pages s q) (pages (snd (alloc_from order c s)) q)"
proof (induction order c s rule: alloc_from.induct)
  case (1 order c s)
  show ?case
  proof (cases "c \<le> MAX_ORDER \<and> free_list s c \<noteq> []")
    case True
    then obtain p ps where p: "free_list s c = p # ps" "c \<le> MAX_ORDER" by (cases "free_list s c") auto
    have "same_page_data (pages s q) (pages (split_block p order c (take_block c p s)) q)"
      using split_block_data [of "take_block c p s" q p order c] by (simp add: take_block_def)
    then have "same_page_data (pages s q) (pages (upd_page p (page_clear PG_property) (split_block p order c (take_block c p s))) q)"
      by (auto simp: same_page_data_def)
    then show ?thesis using p by (subst alloc_from.simps) simp
  next
    case False
    show ?thesis using 1 False by (subst alloc_from.simps) (auto split: list.split)
  qed
qed

lemma merge_data: "same_page_data (pages s q) (pages (snd (snd (merge z i k s))) q)"
proof (induction z i k s rule: merge.induct)
  case (1 z i k s)
  let ?b = "idx2page z (i XOR 2 ^ k) s"
  show ?case
  proof (cases "k < MAX_ORDER \<and> page_is_buddy ?b k z s")
    case True
    let ?s = "upd_page ?b (page_clear PG_property) (take_block k ?b s)"
    have "same_page_data (pages s q) (pages ?s q)" by (auto simp: same_page_data_def take_block_def)
    moreover have "same_page_data (pages ?s q) (pages (snd (snd (merge z i k s))) q)"
      using 1 True by (subst merge.simps) simp
    ultimately show ?thesis by (rule same_page_data_trans)
  qed (subst merge.simps, simp)
qed

definition data_except :: "nat \<Rightarrow> mem_st \<Rightarrow> mem_st \<Rightarrow> bool" where
  "data_except p s s' \<longleftrightarrow> (\<forall>q. q \<noteq> p \<longrightarrow> same_page_data (pg s q) (pg s' q))"

lemma free_page_data:
  assumes "free_page p s = Inr s'"
  shows "data_except p s s'" "\<not> PageSwap s' p" "\<exists>b. s' = s\<lparr>bud := b\<rparr>"
proof -
  obtain b where b: "buddy_free_pages_sub p 0 (bud s) = Inr b" "s' = s\<lparr>bud := b\<rparr>"
    using assms by (auto simp: free_page_def buddy_free_pages_def bindR_eq_Inr)
  then show "\<exists>b. s' = s\<lparr>bud := b\<rparr>" by blast
  let ?r = "upd_page p (\<lambda>g. set_page_ref 0 (g\<lparr>pg_flags := 0\<rparr>)) (bud s)"
  obtain z i k where e: "b = (let m = merge z i k ?r in add_block (fst (snd m)) (idx2page z (fst m) (snd (snd m))) (snd (snd m)))"
    using b(1) by (auto simp: buddy_free_pages_sub_def bindR_eq_Inr assertR_Inr split_def)
  have d: "same_page_data (pages ?r q) (pages b q)" for q
    unfolding e Let_def by (rule same_page_data_trans [OF merge_data add_block_data])
  have "same_page_data (pg s q) (pages b q)" if "q \<noteq> p" for q using d [of q] that by simp
  then show "data_except p s s'" unfolding data_except_def b(2) by simp
  show "\<not> PageSwap s' p" using same_page_dataD(3) [OF d [of p]] unfolding b(2) by (simp add: page_test_def set_page_ref_def test_bit_op_def)
qed

lemma alloc_page_data:
  assumes "alloc_page s = Inr (r, s')"
  shows "same_page_data (pg s q) (pg s' q)"
proof -
  have g: "getorder (Suc 0) = Inr 0" by (simp add: getorder_def getorder_from.simps)
  have "r = fst (alloc_from 0 0 (bud s)) \<and> s' = s\<lparr>bud := snd (alloc_from 0 0 (bud s))\<rparr>"
    using assms by (auto simp: alloc_page_def buddy_alloc_pages_def buddy_alloc_pages_sub_def g split_def split: option.splits if_splits)
  then show ?thesis using alloc_from_data [of "bud s" q 0 0] by simp
qed

section \<open>The invariant\<close>

definition held :: "mem_st \<Rightarrow> nat \<Rightarrow> bool" where
  "held s p \<longleftrightarrow> freeable (bud s) (pg_zone (pg s p)) p 1"

definition cached :: "mem_st \<Rightarrow> nat \<Rightarrow> bool" where
  "cached s off \<longleftrightarrow> (\<exists>p. PageSwap s p \<and> pg_index (pg s p) = entry_of off)"

abbreviation swap_slot :: "mem_st \<Rightarrow> nat \<Rightarrow> bool" where
  "swap_slot s off \<equiv> 0 < off \<and> off < max_swap_offset s"

definition lists_but :: "nat set \<Rightarrow> mem_st \<Rightarrow> bool" where
  "lists_but X s \<longleftrightarrow> distinct (active_list s) \<and> distinct (inactive_list s) \<and>
     set (active_list s) = {p. PageSwap s p \<and> PageActive s p \<and> p \<notin> X} \<and>
     set (inactive_list s) = {p. PageSwap s p \<and> \<not> PageActive s p \<and> p \<notin> X} \<and>
     nr_active s = length (active_list s) \<and> nr_inactive s = length (inactive_list s)"

definition slots_but :: "nat set \<Rightarrow> mem_st \<Rightarrow> bool" where
  "slots_but Y s \<longleftrightarrow> (\<forall>off. swap_slot s off \<longrightarrow> off \<notin> Y \<longrightarrow>
     (mem_map s off = 0 \<longrightarrow> cached s off) \<and> (mem_map s off = SWAP_UNUSED \<longrightarrow> \<not> cached s off))"

definition cache_inv :: "nat set \<Rightarrow> nat set \<Rightarrow> mem_st \<Rightarrow> bool" where
  "cache_inv X Y s \<longleftrightarrow> buddy_inv (bud s) \<and> swap_hash_ok s \<and> lists_but X s \<and> slots_but Y s \<and>
     max_swap_offset s < MAX_SWAP_OFFSET_LIMIT \<and> swap_slot s (next_off s) \<and>
     (\<forall>p. PageSwap s p \<longrightarrow> held s p \<and> (\<exists>off. swap_slot s off \<and> pg_index (pg s p) = entry_of off))"

abbreviation cache_ok :: "mem_st \<Rightarrow> bool" where
  "cache_ok \<equiv> cache_inv {} {}"

lemma cache_invD:
  assumes "cache_inv X Y s"
  shows "buddy_inv (bud s)" "swap_hash_ok s" "lists_but X s" "slots_but Y s" "max_swap_offset s < MAX_SWAP_OFFSET_LIMIT"
    "0 < next_off s" "next_off s < max_swap_offset s" "PageSwap s p \<Longrightarrow> held s p"
    "PageSwap s p \<Longrightarrow> \<exists>off. swap_slot s off \<and> pg_index (pg s p) = entry_of off"
  using assms by (simp_all add: cache_inv_def)

lemma lists_but_ok: "lists_but {} s = swap_lists_ok s"
  by (simp only: lists_but_def swap_lists_ok_def set_eq_iff mem_Collect_eq empty_iff not_False_eq_True simp_thms conj_assoc)

lemma held_iff: "held s p \<longleftrightarrow> p < npage (bud s) \<and> \<not> PageReserved (bud s) p \<and> mem_base (bud s) (pg_zone (pg s p)) \<le> p \<and> p \<notin> bfree (bud s)"
  by (auto simp: held_def freeable_def zone_pages_def)

lemma held_cong:
  assumes "same_zones (bud s) (bud s')" "p \<in> bfree (bud s') \<longleftrightarrow> p \<in> bfree (bud s)"
  shows "held s' p = held s p"
  using assms by (auto simp: held_iff same_zones_def)

lemma entry_of_inj:
  assumes "a < MAX_SWAP_OFFSET_LIMIT" "b < MAX_SWAP_OFFSET_LIMIT"
  shows "entry_of a = entry_of b \<longleftrightarrow> a = b"
  using unat_push8 [OF assms(1)] unat_push8 [OF assms(2)] by metis

lemma cache_entry:
  assumes "cache_inv X Y s" "PageSwap s p"
  obtains off where "swap_slot s off" "pg_index (pg s p) = entry_of off" "swap_offset (pg_index (pg s p)) s = Inr off"
proof -
  obtain off where o: "swap_slot s off" "pg_index (pg s p) = entry_of off" using cache_invD(9) [OF assms] by blast
  with swap_offset_entry(1) [of off s] cache_invD(5) [OF assms(1)] that show ?thesis by simp
qed

text \<open>What the invariant reads of a state.\<close>

definition same_cache :: "mem_st \<Rightarrow> mem_st \<Rightarrow> bool" where
  "same_cache s s' \<longleftrightarrow> swap_hash s' = swap_hash s \<and> active_list s' = active_list s \<and> inactive_list s' = inactive_list s \<and>
     nr_active s' = nr_active s \<and> nr_inactive s' = nr_inactive s \<and> mem_map s' = mem_map s \<and> max_swap_offset s' = max_swap_offset s \<and>
     (\<forall>p. PageSwap s' p = PageSwap s p) \<and>
     (\<forall>p. PageSwap s p \<longrightarrow> PageActive s' p = PageActive s p \<and> pg_index (pg s' p) = pg_index (pg s p))"

lemma cache_inv_cong:
  assumes "cache_inv X Y s" "same_cache s s'" "buddy_inv (bud s')" "same_zones (bud s) (bud s')"
    "\<forall>p. PageSwap s p \<longrightarrow> p \<notin> bfree (bud s')" "swap_slot s (next_off s')"
  shows "cache_inv X Y s'"
proof -
  note C = assms(2) [unfolded same_cache_def]
  have "cached s' off = cached s off" for off using C by (auto simp: cached_def)
  then have "slots_but Y s'" using cache_invD(4) [OF assms(1)] C by (simp add: slots_but_def)
  moreover have "lists_but X s'" using cache_invD(3) [OF assms(1)] C by (auto simp: lists_but_def)
  moreover have "swap_hash_ok s'"
    using cache_invD(2) [OF assms(1)] C unfolding swap_hash_ok_def by metis
  moreover have "held s' p" if "PageSwap s p" for p
    using cache_invD(8) [OF assms(1) that] assms(4,5) that by (auto simp: held_iff same_zones_def)
  ultimately show ?thesis using assms(1,3,6) C unfolding cache_inv_def by simp
qed

section \<open>Steps\<close>

text \<open>Steps on the parts of the state the invariant does not read.\<close>

definition harmless :: "(page \<Rightarrow> page) \<Rightarrow> bool" where
  "harmless h \<longleftrightarrow> (\<forall>g. pg_zone (h g) = pg_zone g \<and> pg_property (h g) = pg_property g \<and> pg_index (h g) = pg_index g \<and>
     (\<forall>nr \<in> {PG_reserved, PG_property, PG_swap, PG_active}. page_test nr (h g) = page_test nr g))"

lemma harmlessD:
  assumes "harmless h"
  shows "pg_zone (h g) = pg_zone g" "pg_property (h g) = pg_property g" "pg_index (h g) = pg_index g"
    "page_test PG_reserved (h g) = page_test PG_reserved g" "page_test PG_property (h g) = page_test PG_property g"
    "page_test PG_swap (h g) = page_test PG_swap g" "page_test PG_active (h g) = page_test PG_active g"
  using assms by (simp_all add: harmless_def)

lemma harmless_steps [simp]:
  "harmless (\<lambda>g. g\<lparr>pg_ref := v\<rparr>)" "harmless (page_set PG_dirty)" "harmless (page_clear PG_dirty)"
proof -
  have t: "page_test nr (g\<lparr>pg_ref := v\<rparr>) = page_test nr g" for nr g by (simp add: page_test_def)
  show "harmless (\<lambda>g. g\<lparr>pg_ref := v\<rparr>)" by (simp add: harmless_def t)
  have "PG_dirty \<noteq> PG_property" "PG_dirty \<noteq> PG_reserved" "PG_property \<noteq> PG_dirty" "PG_reserved \<noteq> PG_dirty"
    by (simp_all add: PG_dirty_def PG_property_def PG_reserved_def)
  then show "harmless (page_set PG_dirty)" "harmless (page_clear PG_dirty)" by (simp_all add: harmless_def)
qed

lemma upd_pg_bud: "bud (upd_pg p h s) = upd_page p h (bud s)"
  by (simp add: upd_pg_def)

lemma upd_page_quiet:
  assumes "buddy_inv b" "\<forall>g. pg_zone (h g) = pg_zone g \<and> pg_property (h g) = pg_property g \<and>
    page_test PG_reserved (h g) = page_test PG_reserved g \<and> page_test PG_property (h g) = page_test PG_property g"
  shows "buddy_inv (upd_page p h b)" "same_zones b (upd_page p h b)"
proof -
  show z: "same_zones b (upd_page p h b)" using assms(2) by (simp add: same_zones_def)
  show "buddy_inv (upd_page p h b)" by (rule buddy_inv_cong(1) [OF assms(1) _ _ z]) (use assms(2) in simp_all)
qed

lemma cache_inv_free: "cache_inv X Y s \<Longrightarrow> PageSwap s p \<Longrightarrow> p \<notin> bfree (bud s)"
  using cache_invD(8) by (auto simp: held_iff)

lemma cache_inv_harmless [kinv]:
  assumes inv: "cache_inv X Y s" and h: "harmless h"
  shows "cache_inv X Y (upd_pg p h s)"
proof (rule cache_inv_cong [OF inv])
  show "buddy_inv (bud (upd_pg p h s))" "same_zones (bud s) (bud (upd_pg p h s))"
    unfolding upd_pg_bud by (rule upd_page_quiet [OF cache_invD(1) [OF inv]]; simp add: harmlessD [OF h])+
  show "same_cache s (upd_pg p h s)" by (simp add: same_cache_def harmlessD [OF h])
  show "\<forall>q. PageSwap s q \<longrightarrow> q \<notin> bfree (bud (upd_pg p h s))" using cache_inv_free [OF inv] by (simp add: upd_pg_bud upd_page_bfree)
  show "swap_slot s (next_off (upd_pg p h s))" using cache_invD(6,7) [OF inv] by simp
qed

lemma cache_inv_other [kinv]:
  assumes "cache_inv X Y s"
  shows "cache_inv X Y (s\<lparr>frame := f\<rparr>)" "cache_inv X Y (s\<lparr>disk := d\<rparr>)" "cache_inv X Y (s\<lparr>tlb := t\<rparr>)"
  by (rule cache_inv_cong [OF assms]; use cache_inv_free [OF assms] cache_invD(1,6,7) [OF assms] in \<open>simp add: same_cache_def\<close>)+

lemma cache_inv_refs [kinv]:
  assumes "cache_inv X Y s"
  shows "cache_inv X Y (snd (page_ref_inc p s))" "cache_inv X Y (snd (page_ref_dec p s))"
  using assms by (simp_all add: page_ref_inc_def page_ref_dec_def split_def cache_inv_harmless)

text \<open>Taking a page from the allocator, and giving one back that is not in the cache.\<close>

lemma cache_inv_alloc [kinv]:
  assumes inv: "cache_inv X Y s"
  shows "(\<exists>p s'. alloc_page s = Inr (Some p, s') \<and> cache_inv X Y s' \<and> p \<in> bfree (bud s) \<and> held s' p \<and> \<not> PageSwap s' p \<and>
      (\<exists>b. s' = s\<lparr>bud := b\<rparr>)) \<or> alloc_page s = Inr (None, s)"
proof -
  from alloc_page_spec [OF cache_invD(1) [OF inv]] show ?thesis
  proof (elim disjE exE conjE)
    fix p b assume a: "alloc_page s = Inr (Some p, s\<lparr>bud := b\<rparr>)" "buddy_inv b" "p \<in> bfree (bud s)" "bfree b = bfree (bud s) - {p}"
      "same_zones (bud s) b" "p < npage (bud s)"
    let ?s = "s\<lparr>bud := b\<rparr>"
    note d = same_page_dataD [OF alloc_page_data [OF a(1)]]
    have np: "\<not> PageSwap s p" using cache_inv_free [OF inv] a(3) by blast
    have "same_cache s ?s" using d by (simp add: same_cache_def)
    moreover have "\<forall>q. PageSwap s q \<longrightarrow> q \<notin> bfree (bud ?s)" using a(4) cache_inv_free [OF inv] by simp
    ultimately have "cache_inv X Y ?s"
      using cache_inv_cong [OF inv, of ?s] a(2,5) cache_invD(6,7) [OF inv] by simp
    moreover obtain k q where kq: "q \<in> set (free_list (bud s) k)" "p \<in> blk k q" using a(3) by (auto simp: bfree_mem)
    then have "zone_pages (bud s) (pg_zone (pg s q)) (blk k q)" using buddy_invD(4) [OF cache_invD(1) [OF inv]] by (simp add: good_block_def)
    then have "mem_base (bud s) (pg_zone (pg s p)) \<le> p" "\<not> PageReserved (bud s) p" using kq(2) unfolding zone_pages_def by metis+
    then have "held ?s p" using a(4,5,6) by (simp add: held_iff same_zones_def)
    ultimately show ?thesis using a(1,3) np d by auto
  qed simp
qed

lemma cache_inv_free_page [kinv]:
  assumes inv: "cache_inv X Y s" and p: "\<not> PageSwap s p" "held s p"
  shows "\<exists>s'. free_page p s = Inr s' \<and> cache_inv X Y s' \<and> data_except p s s' \<and> (\<exists>b. s' = s\<lparr>bud := b\<rparr>)"
proof -
  have lim: "(1::nat) < 2 ^ Suc MAX_ORDER" by (simp add: MAX_ORDER_def)
  obtain b where b: "buddy_free_pages p 1 (bud s) = Inr b" "buddy_inv b" "same_zones (bud s) b" "bfree b = bfree (bud s) \<union> {p}"
    using buddy_free_spec [OF cache_invD(1) [OF inv] p(2) [unfolded held_def] zero_less_one lim] by auto
  have f: "free_page p s = Inr (s\<lparr>bud := b\<rparr>)" using b(1) by (simp add: free_page_def)
  note d = free_page_data [OF f]
  have q: "same_page_data (pg s q) (pages b q)" if "q \<noteq> p" for q using d(1) that by (simp add: data_except_def)
  have sw: "page_test PG_swap (pages b q) = PageSwap s q" for q
    by (cases "q = p") (use d(2) p(1) same_page_dataD(3) [OF q [of q]] in simp_all)
  have "cache_inv X Y (s\<lparr>bud := b\<rparr>)"
  proof (rule cache_inv_cong [OF inv])
    have "PageActive (s\<lparr>bud := b\<rparr>) q = PageActive s q" "pg_index (pg (s\<lparr>bud := b\<rparr>) q) = pg_index (pg s q)" if "PageSwap s q" for q
      using same_page_dataD(2,4) [OF q [of q]] that p(1) by (cases "q = p"; simp)+
    then show "same_cache s (s\<lparr>bud := b\<rparr>)" using sw by (simp add: same_cache_def)
  qed (use b cache_inv_free [OF inv] p(1) cache_invD(6,7) [OF inv] in auto)
  with f d(1) show ?thesis by blast
qed

section \<open>Lists and hash lists\<close>

text \<open>States that differ only in the two lists.\<close>

definition relisted :: "mem_st \<Rightarrow> mem_st \<Rightarrow> bool" where
  "relisted s s' \<longleftrightarrow> s' = s\<lparr>active_list := active_list s', nr_active := nr_active s', inactive_list := inactive_list s',
     nr_inactive := nr_inactive s'\<rparr>"

lemma relistedD:
  assumes "relisted s s'"
  shows "bud s' = bud s" "mem_map s' = mem_map s" "max_swap_offset s' = max_swap_offset s" "swap_hash s' = swap_hash s"
    "next_off s' = next_off s" "frame s' = frame s" "disk s' = disk s" "cached s' off = cached s off" "held s' p = held s p"
    "cr3_frame s' = cr3_frame s" "tlb s' = tlb s"
proof -
  obtain al na il ni where "s' = s\<lparr>active_list := al, nr_active := na, inactive_list := il, nr_inactive := ni\<rparr>"
    using assms unfolding relisted_def by blast
  then show "bud s' = bud s" "mem_map s' = mem_map s" "max_swap_offset s' = max_swap_offset s" "swap_hash s' = swap_hash s"
    "next_off s' = next_off s" "frame s' = frame s" "disk s' = disk s" "cached s' off = cached s off" "held s' p = held s p"
    "cr3_frame s' = cr3_frame s" "tlb s' = tlb s" by (simp_all add: cached_def held_def)
qed

lemma relisted_inv:
  assumes "cache_inv X Y s" "relisted s s'" "lists_but X' s'"
  shows "cache_inv X' Y s'"
  using assms(1,3) by (simp add: cache_inv_def slots_but_def swap_hash_ok_def relistedD [OF assms(2)])

lemma list_del_inv [kinv]:
  assumes inv: "cache_inv X Y s" and p: "PageSwap s p" "p \<notin> X"
  shows "\<exists>s'. swap_list_del p s = Inr s' \<and> cache_inv (insert p X) Y s' \<and> relisted s s' \<and>
    inactive_list s' = remove1 p (inactive_list s)"
proof -
  note L = cache_invD(3) [OF inv, unfolded lists_but_def]
  let ?s1 = "if PageActive s p then s\<lparr>nr_active := nr_active s - 1\<rparr> else s\<lparr>nr_inactive := nr_inactive s - 1\<rparr>"
  let ?s = "?s1\<lparr>active_list := remove1 p (active_list ?s1), inactive_list := remove1 p (inactive_list ?s1)\<rparr>"
  have e: "swap_list_del p s = Inr ?s" using p by (simp add: swap_list_del_def)
  have r: "relisted s ?s" "inactive_list ?s = remove1 p (inactive_list s)"
    by (simp_all add: relisted_def)
  have "lists_but (insert p X) ?s"
  proof (cases "PageActive s p")
    case True
    then have m: "p \<in> set (active_list s)" "p \<notin> set (inactive_list s)" using L p by auto
    then show ?thesis using L True by (auto simp: lists_but_def length_remove1 remove1_idem)
  next
    case False
    then have m: "p \<in> set (inactive_list s)" "p \<notin> set (active_list s)" using L p by auto
    then show ?thesis using L False by (auto simp: lists_but_def length_remove1 remove1_idem)
  qed
  with relisted_inv [OF inv r(1)] e r show ?thesis by blast
qed

text \<open>Adding a page to a list sets or clears \<open>PG_active\<close>.\<close>

lemma active_flag_inv:
  assumes inv: "cache_inv X Y s" and p: "PageSwap s p" "p \<in> X"
  shows "cache_inv X Y (upd_pg p (page_set PG_active) s)" "cache_inv X Y (upd_pg p (page_clear PG_active) s)"
proof -
  have n: "PG_active \<noteq> PG_property" "PG_active \<noteq> PG_reserved" "PG_property \<noteq> PG_active" "PG_reserved \<noteq> PG_active"
    by (simp_all add: PG_active_def PG_property_def PG_reserved_def)
  note L = cache_invD(3) [OF inv, unfolded lists_but_def]
  have *: "cache_inv X Y (upd_pg p h s)"
    if h: "\<And>g. pg_zone (h g) = pg_zone g \<and> pg_property (h g) = pg_property g \<and> pg_index (h g) = pg_index g \<and>
      page_test PG_reserved (h g) = page_test PG_reserved g \<and> page_test PG_property (h g) = page_test PG_property g \<and>
      page_test PG_swap (h g) = page_test PG_swap g" for h
  proof -
    have q: "buddy_inv (bud (upd_pg p h s))" "same_zones (bud s) (bud (upd_pg p h s))"
      unfolding upd_pg_bud by (rule upd_page_quiet [OF cache_invD(1) [OF inv]]; simp add: h)+
    have sw: "PageSwap (upd_pg p h s) r = PageSwap s r" "pg_index (pg (upd_pg p h s) r) = pg_index (pg s r)" for r using h by simp_all
    have "lists_but X (upd_pg p h s)" using L p(2) sw(1) by (auto simp: lists_but_def)
    moreover have "swap_hash_ok (upd_pg p h s)"
      using cache_invD(2) [OF inv] unfolding swap_hash_ok_def sw upd_pg_simps(8) .
    moreover have "slots_but Y (upd_pg p h s)"
      using cache_invD(4) [OF inv] unfolding slots_but_def cached_def sw upd_pg_simps(2,3) .
    moreover have "held (upd_pg p h s) r = held s r" for r
      by (rule held_cong [OF q(2)]) (simp add: upd_pg_bud upd_page_bfree)
    ultimately show ?thesis using inv q(1) unfolding cache_inv_def sw by simp
  qed
  show "cache_inv X Y (upd_pg p (page_set PG_active) s)" "cache_inv X Y (upd_pg p (page_clear PG_active) s)"
    by (rule *; use n in simp)+
qed

lemma active_add_inv [kinv]:
  assumes inv: "cache_inv X Y s" and p: "PageSwap s p" "p \<in> X"
  shows "\<exists>s'. swap_active_list_add p s = Inr s' \<and> cache_inv (X - {p}) Y s' \<and> relisted (upd_pg p (page_set PG_active) s) s' \<and>
    inactive_list s' = inactive_list s"
proof -
  let ?s1 = "upd_pg p (page_set PG_active) s"
  let ?s = "?s1\<lparr>nr_active := nr_active s + 1, active_list := active_list s @ [p]\<rparr>"
  note inv1 = active_flag_inv(1) [OF assms]
  note L = cache_invD(3) [OF inv1, unfolded lists_but_def]
  have e: "swap_active_list_add p s = Inr ?s" using p by (simp add: swap_active_list_add_def)
  have r: "relisted ?s1 ?s" by (simp add: relisted_def)
  have "p \<notin> set (active_list ?s1)" using L p(2) by auto
  then have "lists_but (X - {p}) ?s" using L p by (auto simp: lists_but_def)
  with relisted_inv [OF inv1 r] e r show ?thesis by auto
qed

lemma inactive_add_inv [kinv]:
  assumes inv: "cache_inv X Y s" and p: "PageSwap s p" "p \<in> X"
  shows "\<exists>s'. swap_inactive_list_add p s = Inr s' \<and> cache_inv (X - {p}) Y s' \<and> relisted (upd_pg p (page_clear PG_active) s) s' \<and>
    inactive_list s' = inactive_list s @ [p]"
proof -
  let ?s1 = "upd_pg p (page_clear PG_active) s"
  let ?s = "?s1\<lparr>nr_inactive := nr_inactive s + 1, inactive_list := inactive_list s @ [p]\<rparr>"
  note inv1 = active_flag_inv(2) [OF assms]
  note L = cache_invD(3) [OF inv1, unfolded lists_but_def]
  have e: "swap_inactive_list_add p s = Inr ?s" using p by (simp add: swap_inactive_list_add_def)
  have r: "relisted ?s1 ?s" by (simp add: relisted_def)
  have "p \<notin> set (inactive_list ?s1)" using L p(2) by auto
  then have "lists_but (X - {p}) ?s" using L p by (auto simp: lists_but_def)
  with relisted_inv [OF inv1 r] e r show ?thesis by auto
qed

lemma set_count_inv [kinv]:
  assumes inv: "cache_inv X Y s" and v: "v = 0 \<Longrightarrow> cached s off" "v = SWAP_UNUSED \<Longrightarrow> \<not> cached s off"
  shows "cache_inv X (Y - {off}) (s\<lparr>mem_map := (mem_map s)(off := v)\<rparr>)"
proof -
  let ?s = "s\<lparr>mem_map := (mem_map s)(off := v)\<rparr>"
  have "cached ?s o' = cached s o'" for o' by (simp add: cached_def)
  then have "slots_but (Y - {off}) ?s" using cache_invD(4) [OF inv] v by (auto simp: slots_but_def)
  then show ?thesis using inv by (simp add: cache_inv_def lists_but_def swap_hash_ok_def held_def)
qed

lemma unsettle: "cache_inv X Y s \<Longrightarrow> cache_inv X (insert off Y) s"
  by (auto simp: cache_inv_def slots_but_def)

text \<open>Setting and clearing \<open>PG_swap\<close>.\<close>

lemma swap_flag_quiet:
  assumes "buddy_inv (bud s)"
  shows "buddy_inv (bud (upd_pg p (page_clear PG_swap) s))" "same_zones (bud s) (bud (upd_pg p (page_clear PG_swap) s))"
    "buddy_inv (bud (upd_pg p (\<lambda>g. (page_set PG_swap g)\<lparr>pg_index := e\<rparr>) s))"
    "same_zones (bud s) (bud (upd_pg p (\<lambda>g. (page_set PG_swap g)\<lparr>pg_index := e\<rparr>) s))"
proof -
  have n: "PG_swap \<noteq> PG_property" "PG_swap \<noteq> PG_reserved" "PG_property \<noteq> PG_swap" "PG_reserved \<noteq> PG_swap"
    by (simp_all add: PG_swap_def PG_property_def PG_reserved_def)
  have t: "page_test nr (g\<lparr>pg_index := e\<rparr>) = page_test nr g" for nr g by (simp add: page_test_def)
  show "buddy_inv (bud (upd_pg p (page_clear PG_swap) s))" "same_zones (bud s) (bud (upd_pg p (page_clear PG_swap) s))"
    "buddy_inv (bud (upd_pg p (\<lambda>g. (page_set PG_swap g)\<lparr>pg_index := e\<rparr>) s))"
    "same_zones (bud s) (bud (upd_pg p (\<lambda>g. (page_set PG_swap g)\<lparr>pg_index := e\<rparr>) s))"
    unfolding upd_pg_bud by (rule upd_page_quiet [OF assms]; simp add: n t)+
qed

lemma page_del_inv [kinv]:
  assumes inv: "cache_inv X Y s" and p: "PageSwap s p" "p \<in> X" and o: "swap_slot s off" "pg_index (pg s p) = entry_of off"
  shows "\<exists>s'. swap_page_del p s = Inr s' \<and> cache_inv (X - {p}) (insert off Y) s' \<and> \<not> PageSwap s' p \<and> held s' p \<and> \<not> cached s' off \<and>
    s' = (upd_pg p (page_clear PG_swap) s)\<lparr>swap_hash := swap_hash s'\<rparr>"
proof -
  let ?s1 = "upd_pg p (page_clear PG_swap) s"
  let ?s = "?s1\<lparr>swap_hash := (\<lambda>h. remove1 p (swap_hash ?s1 h))\<rparr>"
  note q = swap_flag_quiet(1,2) [OF cache_invD(1) [OF inv], of p]
  note H = cache_invD(2) [OF inv, unfolded swap_hash_ok_def]
  have e: "swap_page_del p s = Inr ?s" using p by (simp add: swap_page_del_def)
  have sw: "PageSwap ?s r \<longleftrightarrow> r \<noteq> p \<and> PageSwap s r" "PageActive ?s r = PageActive s r" "pg_index (pg ?s r) = pg_index (pg s r)" for r
    by auto
  have d: "distinct (swap_hash s h)" for h using H by blast
  have "swap_hash_ok ?s"
    unfolding swap_hash_ok_def sw using H by (auto simp: set_remove1_eq [OF d])
  moreover have "lists_but (X - {p}) ?s"
    using cache_invD(3) [OF inv] unfolding lists_but_def sw using p(2) by auto
  moreover have un: "r = p" if "PageSwap s r" "pg_index (pg s r) = entry_of off" for r using H p(1) o(2) that by metis
  have nc: "\<not> cached ?s off" unfolding cached_def sw using un by blast
  have ca: "cached ?s o' = cached s o'" if "o' \<noteq> off" "swap_slot s o'" for o'
  proof -
    have "entry_of o' \<noteq> entry_of off" using that o(1) cache_invD(5) [OF inv] entry_of_inj [of o' off] by simp
    then show ?thesis unfolding cached_def sw using o(2) by metis
  qed
  have "slots_but (insert off Y) ?s"
    using cache_invD(4) [OF inv] ca unfolding slots_but_def by simp
  moreover have he: "held ?s r = held s r" for r
    using held_cong [OF q(2), of r] by (simp add: upd_pg_bud upd_page_bfree held_def)
  ultimately have "cache_inv (X - {p}) (insert off Y) ?s"
    using inv q(1) unfolding cache_inv_def sw by simp
  moreover have "held ?s p" unfolding he by (rule cache_invD(8) [OF inv p(1)])
  ultimately show ?thesis using e nc by (intro exI [of _ ?s]) simp
qed

lemma page_link_inv [kinv]:
  assumes inv: "cache_inv X Y s" and p: "\<not> PageSwap s p" "held s p" and o: "swap_slot s off" "\<not> cached s off"
  shows "cache_inv (insert p X) (insert off Y) (swap_page_link p (entry_of off) s)"
    "cached (swap_page_link p (entry_of off) s) off"
proof -
  let ?s1 = "upd_pg p (\<lambda>g. (page_set PG_swap g)\<lparr>pg_index := entry_of off\<rparr>) s"
  let ?h = "entry_hashfn (entry_of off)"
  let ?s = "swap_page_link p (entry_of off) s"
  have e: "?s = ?s1\<lparr>swap_hash := (swap_hash s)(?h := p # swap_hash s ?h)\<rparr>" by (simp add: swap_page_link_def)
  note q = swap_flag_quiet(3,4) [OF cache_invD(1) [OF inv], of p "entry_of off"]
  note H = cache_invD(2) [OF inv, unfolded swap_hash_ok_def]
  have t: "page_test nr (g\<lparr>pg_index := e\<rparr>) = page_test nr g" for nr g e by (simp add: page_test_def)
  have sw: "PageSwap ?s r \<longleftrightarrow> r = p \<or> PageSwap s r" "PageActive ?s r = PageActive s r"
    "pg_index (pg ?s r) = (if r = p then entry_of off else pg_index (pg s r))" for r
    unfolding e by (auto simp: t)
  have nl: "p \<notin> set (swap_hash s h)" for h using H p(1) by blast
  have no: "PageSwap s r \<Longrightarrow> pg_index (pg s r) \<noteq> entry_of off" "PageSwap s r \<Longrightarrow> entry_of off \<noteq> pg_index (pg s r)" for r
    using o(2) unfolding cached_def by metis+
  have hs: "swap_hash ?s h = (if h = ?h then p # swap_hash s h else swap_hash s h)" for h unfolding e by simp
  have "swap_hash_ok ?s"
    unfolding swap_hash_ok_def sw hs using H nl p(1) by (auto split: if_splits dest: no)
  moreover have "lists_but (insert p X) ?s"
  proof -
    have "active_list ?s = active_list s" "inactive_list ?s = inactive_list s" "nr_active ?s = nr_active s" "nr_inactive ?s = nr_inactive s"
      unfolding e by simp_all
    then show ?thesis using cache_invD(3) [OF inv] p(1) unfolding lists_but_def sw by auto
  qed
  moreover have ca: "cached ?s o' = cached s o'" if "o' \<noteq> off" "swap_slot s o'" for o'
  proof -
    have "entry_of o' \<noteq> entry_of off" using that o(1) cache_invD(5) [OF inv] entry_of_inj [of o' off] by simp
    then show ?thesis unfolding cached_def sw using p(1) by auto
  qed
  have mm: "mem_map ?s = mem_map s" "max_swap_offset ?s = max_swap_offset s" "next_off ?s = next_off s" "bud ?s = bud ?s1"
    unfolding e by simp_all
  have "slots_but (insert off Y) ?s"
    using cache_invD(4) [OF inv] ca unfolding slots_but_def mm by simp
  moreover have he: "held ?s r = held s r" for r
    using held_cong [OF q(2), of r] mm(4) by (simp add: upd_pg_bud upd_page_bfree held_def)
  ultimately show "cache_inv (insert p X) (insert off Y) ?s"
    using inv q(1) p(2) o(1) unfolding cache_inv_def sw mm he by auto
  show "cached ?s off" unfolding cached_def sw by auto
qed

section \<open>Entries\<close>

text \<open>What no operation on entries changes: the contents of frames, the disk and the translations.\<close>

definition same_memory :: "mem_st \<Rightarrow> mem_st \<Rightarrow> bool" where
  "same_memory s s' \<longleftrightarrow> frame s' = frame s \<and> disk s' = disk s \<and> tlb s' = tlb s \<and> cr3_frame s' = cr3_frame s \<and>
     same_zones (bud s) (bud s') \<and> max_swap_offset s' = max_swap_offset s"

lemma same_memory_refl [simp]: "same_memory s s"
  by (simp add: same_memory_def)

lemma same_memory_trans: "same_memory s s' \<Longrightarrow> same_memory s' s'' \<Longrightarrow> same_memory s s''"
  using same_zones_trans by (auto simp: same_memory_def)

lemma relisted_memory: "relisted s s' \<Longrightarrow> same_memory s s'"
  by (simp add: same_memory_def relistedD)

lemma map_memory [simp]: "same_memory s (s\<lparr>mem_map := f\<rparr>)" "same_memory s (s\<lparr>next_off := n\<rparr>)"
  by (simp_all add: same_memory_def)

lemma free_page_cached [kinv]:
  assumes inv: "cache_inv X Y s" and p: "PageSwap s p" "p \<in> X" "page_ref p s = 0" and o: "swap_slot s off" "pg_index (pg s p) = entry_of off"
  shows "\<exists>s'. swap_free_page p s = Inr s' \<and> cache_inv (X - {p}) (insert off Y) s' \<and> \<not> cached s' off \<and> data_except p s s' \<and>
    \<not> PageSwap s' p \<and> same_memory s s' \<and> mem_map s' = mem_map s \<and> bfree (bud s') = insert p (bfree (bud s)) \<and>
    inactive_list s' = inactive_list s"
proof -
  obtain t where t: "swap_page_del p s = Inr t" "cache_inv (X - {p}) (insert off Y) t" "\<not> PageSwap t p" "held t p" "\<not> cached t off"
    "t = (upd_pg p (page_clear PG_swap) s)\<lparr>swap_hash := swap_hash t\<rparr>" using page_del_inv [OF inv p(1,2) o] by blast
  then obtain sh where te: "t = (upd_pg p (page_clear PG_swap) s)\<lparr>swap_hash := sh\<rparr>" by blast
  have lim: "(1::nat) < 2 ^ Suc MAX_ORDER" by (simp add: MAX_ORDER_def)
  obtain b where b: "buddy_free_pages p 1 (bud t) = Inr b" "buddy_inv b" "same_zones (bud t) b" "bfree b = bfree (bud t) \<union> {p}"
    using buddy_free_spec [OF cache_invD(1) [OF t(2)] t(4) [unfolded held_def] zero_less_one lim] by auto
  have f: "free_page p t = Inr (t\<lparr>bud := b\<rparr>)" using b(1) by (simp add: free_page_def)
  obtain s' where s': "free_page p t = Inr s'" "cache_inv (X - {p}) (insert off Y) s'" "data_except p t s'"
    using cache_inv_free_page [OF t(2,3,4)] by blast
  have e: "s' = t\<lparr>bud := b\<rparr>" using f s'(1) by simp
  have d: "data_except p s s'" using s'(3) unfolding te data_except_def by simp
  have np: "\<not> PageSwap s' p" by (rule free_page_data(2) [OF s'(1)])
  have bt: "bud t = upd_page p (page_clear PG_swap) (bud s)" unfolding te by (simp add: upd_pg_bud)
  have z: "same_zones (bud s) (bud s')" 
    using same_zones_trans [OF swap_flag_quiet(2) [OF cache_invD(1) [OF inv], of p] b(3) [unfolded bt upd_pg_bud [symmetric]]] e by simp
  have "cached s' off \<Longrightarrow> False"
  proof -
    assume "cached s' off"
    then obtain q where q: "PageSwap s' q" "pg_index (pg s' q) = entry_of off" unfolding cached_def by blast
    then have "q \<noteq> p" using np by blast
    with s'(3) have "same_page_data (pg t q) (pg s' q)" by (simp add: data_except_def)
    from same_page_dataD(2,3) [OF this] q have "cached t off" unfolding cached_def by metis
    with t(5) show False by blast
  qed
  moreover have "swap_free_page p s = Inr s'" using p t(1) s'(1) by (simp add: swap_free_page_def)
  moreover have "same_memory s s'" using z unfolding same_memory_def e by (simp add: te upd_pg_def)
  moreover have "mem_map s' = mem_map s" "inactive_list s' = inactive_list s" unfolding e by (simp_all add: te)
  moreover have "bfree (bud s') = insert p (bfree (bud s))" unfolding e by (simp add: b(4) bt upd_page_bfree)
  ultimately show ?thesis using s'(2) d np by blast
qed

lemma page_ref_relisted: "relisted s s' \<Longrightarrow> page_ref p s' = page_ref p s"
  by (simp add: page_ref_def relistedD)

lemma try_alloc_inv [kinv]:
  assumes inv: "cache_ok s"
  shows "\<exists>e s'. try_alloc_swap_entry s = Inr (e, s') \<and> cache_ok s' \<and> same_memory s s' \<and>
    (\<forall>q. \<not> PageSwap s q \<longrightarrow> same_page_data (pg s q) (pg s' q) \<and> (held s q \<longrightarrow> held s' q)) \<and>
    (e = 0 \<or> (\<exists>off. e = entry_of off \<and> swap_slot s' off \<and> mem_map s' off = SWAP_UNUSED))"
proof -
  note I = cache_invD [OF inv]
  obtain n emp z where sc: "scan_entries (next_off s) (next_off s) 0 s = Some (n, emp, z)" "1 \<le> n" "n < max_swap_offset s"
    "emp < max_swap_offset s" "z < max_swap_offset s" "emp \<noteq> 0 \<longrightarrow> mem_map s emp = SWAP_UNUSED" "z \<noteq> 0 \<longrightarrow> mem_map s z = 0"
    using scan_entries_spec [of "next_off s" s "next_off s" 0] I(6,7) by auto
  let ?s1 = "s\<lparr>next_off := n\<rparr>"
  have inv1: "cache_ok ?s1"
    by (rule cache_inv_cong [OF inv]) (use sc(2,3) I(1) cache_inv_free [OF inv] in \<open>auto simp: same_cache_def\<close>)
  have h1: "held ?s1 q = held s q" for q by (simp add: held_def)
  show ?thesis
  proof (cases "emp = 0 \<and> z \<noteq> 0")
    case False
    then show ?thesis using sc inv1 h1 by (cases "emp = 0") (auto simp: try_alloc_swap_entry_def)
  next
    case True
    then have z: "swap_slot s z" "mem_map s z = 0" using sc(5,7) by auto
    have "cached s z" using I(4) z by (simp add: slots_but_def)
    then obtain p where p: "PageSwap s p" "pg_index (pg s p) = entry_of z" by (auto simp: cached_def)
    have f: "swap_hash_find (entry_of z) ?s1 = Some p" using swap_hash_find_spec [OF cache_invD(2) [OF inv1]] p by simp
    obtain s2 where s2: "swap_list_del p ?s1 = Inr s2" "cache_inv {p} {} s2" "relisted ?s1 s2"
      using list_del_inv [OF inv1, of p] p by auto
    note r2 = relistedD [OF s2(3)]
    have p2: "PageSwap s2 p" "swap_slot s2 z" "pg_index (pg s2 p) = entry_of z" using p z by (simp_all add: r2)
    obtain s3 where s3: "(if page_ref p s2 = 0 then swap_free_page p s2 else swap_page_del p s2) = Inr s3" "cache_inv {} {z} s3"
      "\<not> cached s3 z" "data_except p s s3" "same_memory s s3" "bfree (bud s3) \<subseteq> insert p (bfree (bud s))"
    proof (cases "page_ref p s2 = 0")
      case True
      from free_page_cached [OF s2(2) p2(1) _ True p2(2,3)] obtain s3 where s3: "swap_free_page p s2 = Inr s3" "cache_inv {} {z} s3"
        "\<not> cached s3 z" "data_except p s2 s3" "same_memory s2 s3" "bfree (bud s3) = insert p (bfree (bud s2))" by auto
      have "same_memory s s3"
        using same_memory_trans [OF same_memory_trans [OF map_memory(2) relisted_memory [OF s2(3)]] s3(5)] .
      moreover have "data_except p s s3" using s3(4) by (simp add: data_except_def r2)
      ultimately show ?thesis using that [of s3] s3 True by (simp add: r2)
    next
      case False
      from page_del_inv [OF s2(2) p2(1) _ p2(2,3)] obtain s3 where s3: "swap_page_del p s2 = Inr s3" "cache_inv {} {z} s3"
        "\<not> cached s3 z" "s3 = (upd_pg p (page_clear PG_swap) s2)\<lparr>swap_hash := swap_hash s3\<rparr>" by auto
      obtain sh where e3: "s3 = (upd_pg p (page_clear PG_swap) s2)\<lparr>swap_hash := sh\<rparr>" using s3(4) by blast
      have "data_except p s s3" unfolding e3 data_except_def by (simp add: r2)
      moreover have "same_memory s s3" 
        using swap_flag_quiet(2) [OF cache_invD(1) [OF inv], of p] unfolding same_memory_def e3 by (simp add: r2 upd_pg_def)
      moreover have "bfree (bud s3) = bfree (bud s)" unfolding e3 by (simp add: r2 upd_pg_bud upd_page_bfree)
      ultimately show ?thesis using that [of s3] s3 False by auto
    qed
    let ?s = "s3\<lparr>mem_map := (mem_map s3)(z := SWAP_UNUSED)\<rparr>"
    have unz: "SWAP_UNUSED \<noteq> 0" by (simp add: SWAP_UNUSED_def)
    have "cache_inv {} ({z} - {z}) ?s" by (rule set_count_inv [OF s3(2)]) (use s3(3) unz in auto)
    then have ok: "cache_ok ?s" by simp
    have e: "try_alloc_swap_entry s = Inr (entry_of z, ?s)"
      using sc(1) True f p s2(1) s3(1) by (simp add: try_alloc_swap_entry_def)
    have sm: "same_memory s ?s" by (rule same_memory_trans [OF s3(5) map_memory(1)])
    have data: "same_page_data (pg s q) (pg ?s q) \<and> (held s q \<longrightarrow> held ?s q)" if "\<not> PageSwap s q" for q
    proof -
      have "q \<noteq> p" using that p(1) by blast
      then show ?thesis using s3(4,6) sm by (auto simp: data_except_def held_iff same_memory_def same_zones_def)
    qed
    have "swap_slot ?s z" using z s3(5) by (simp add: same_memory_def)
    then show ?thesis using e ok sm data by (intro exI [of _ "entry_of z"] exI [of _ ?s]) auto
  qed
qed

text \<open>Giving a page an entry and putting it on the active list, the two steps every caller does.\<close>

lemma link_simps [simp]:
  "mem_map (swap_page_link p e s) = mem_map s" "max_swap_offset (swap_page_link p e s) = max_swap_offset s"
  "PageSwap (swap_page_link p e s) q \<longleftrightarrow> q = p \<or> PageSwap s q"
  "pg_index (pg (swap_page_link p e s) q) = (if q = p then e else pg_index (pg s q))"
  "pg_ref (pg (swap_page_link p e s) q) = pg_ref (pg s q)" "PageDirty (swap_page_link p e s) q = PageDirty s q"
proof -
  have t: "page_test nr (g\<lparr>pg_index := i\<rparr>) = page_test nr g" for nr g i by (simp add: page_test_def)
  show "mem_map (swap_page_link p e s) = mem_map s" "max_swap_offset (swap_page_link p e s) = max_swap_offset s"
    "PageSwap (swap_page_link p e s) q \<longleftrightarrow> q = p \<or> PageSwap s q"
    "pg_index (pg (swap_page_link p e s) q) = (if q = p then e else pg_index (pg s q))"
    "pg_ref (pg (swap_page_link p e s) q) = pg_ref (pg s q)" "PageDirty (swap_page_link p e s) q = PageDirty s q"
    by (auto simp: swap_page_link_def t)
qed

lemma link_memory: "same_memory s (swap_page_link p e s)"
proof -
  have t: "page_test nr (g\<lparr>pg_index := i\<rparr>) = page_test nr g" for nr g i by (simp add: page_test_def)
  show ?thesis by (auto simp: same_memory_def swap_page_link_def same_zones_def upd_pg_def t PG_swap_def PG_reserved_def)
qed

lemma flag_memory: "same_memory s (upd_pg p (page_set PG_dirty) s)" "same_memory s (upd_pg p (page_set PG_active) s)"
  "same_memory s (upd_pg p (page_clear PG_active) s)" "same_memory s (upd_pg p (page_clear PG_dirty) s)"
  by (auto simp: same_memory_def same_zones_def upd_pg_def PG_dirty_def PG_active_def PG_reserved_def)

lemma link_list_inv:
  assumes inv: "cache_inv {} Y s" and p: "\<not> PageSwap s p" "held s p" and o: "swap_slot s off" "\<not> cached s off" "mem_map s off \<noteq> SWAP_UNUSED"
  shows "\<exists>s'. swap_active_list_add p (swap_page_link p (entry_of off) s) = Inr s' \<and> cache_inv {} (Y - {off}) s' \<and> same_memory s s' \<and>
    PageSwap s' p \<and> PageActive s' p \<and> pg_index (pg s' p) = entry_of off \<and> mem_map s' = mem_map s \<and>
    (\<forall>q. pg_ref (pg s' q) = pg_ref (pg s q) \<and> PageDirty s' q = PageDirty s q \<and> (q \<noteq> p \<longrightarrow> pg s' q = pg s q)) \<and> bfree (bud s') = bfree (bud s)"
proof -
  let ?t = "swap_page_link p (entry_of off) s"
  note l = page_link_inv [OF inv p o(1,2)]
  have "cache_inv (insert p {}) (insert off Y) ?t" using l(1) by simp
  from active_add_inv [OF this, of p] obtain s' where s': "swap_active_list_add p ?t = Inr s'" "cache_inv {} (insert off Y) s'"
    "relisted (upd_pg p (page_set PG_active) ?t) s'" by auto
  note r = relistedD [OF s'(3)]
  have m: "mem_map s' = mem_map s" by (simp add: r)
  have "s'\<lparr>mem_map := (mem_map s')(off := mem_map s off)\<rparr> = s'" using m by (simp add: fun_upd_idem)
  moreover have "cached s' off = cached ?t off" by (simp add: cached_def r)
  ultimately have "cache_inv {} (insert off Y - {off}) s'" using set_count_inv [OF s'(2), of "mem_map s off" off] l(2) o(3) by simp
  moreover have "insert off Y - {off} = Y - {off}" by blast
  moreover have "same_memory s s'"
    by (rule same_memory_trans [OF same_memory_trans [OF link_memory flag_memory(2)] relisted_memory [OF s'(3)]])
  moreover have "pg s' q = pg s q" if "q \<noteq> p" for q using that by (simp add: r swap_page_link_def)
  moreover have "bfree (bud s') = bfree (bud s)" by (simp add: r swap_page_link_def upd_pg_bud upd_page_bfree)
  ultimately show ?thesis using s'(1) m by (simp add: r)
qed

lemma page_add_new [kinv]:
  assumes inv: "cache_ok s" and p: "\<not> PageSwap s p" "held s p"
  shows "(\<exists>s'. swap_page_add p 0 s = Inr (False, s') \<and> cache_ok s' \<and> same_memory s s' \<and> pg_ref (pg s' p) = pg_ref (pg s p) \<and>
      held s' p \<and> \<not> PageSwap s' p) \<or>
    (\<exists>s1 s' off. swap_page_add p 0 s = Inr (True, s1) \<and> swap_active_list_add p s1 = Inr s' \<and> cache_ok s' \<and> same_memory s s' \<and>
      PageSwap s' p \<and> PageActive s' p \<and> PageDirty s' p \<and> swap_slot s' off \<and> pg_index (pg s' p) = entry_of off \<and> mem_map s' off = 0 \<and>
      pg_ref (pg s' p) = pg_ref (pg s p) \<and> pg_index (pg s1 p) = pg_index (pg s' p))"
proof -
  obtain e t where t: "try_alloc_swap_entry s = Inr (e, t)" "cache_ok t" "same_memory s t"
    "\<forall>q. \<not> PageSwap s q \<longrightarrow> same_page_data (pg s q) (pg t q) \<and> (held s q \<longrightarrow> held t q)"
    "e = 0 \<or> (\<exists>off. e = entry_of off \<and> swap_slot t off \<and> mem_map t off = SWAP_UNUSED)" using try_alloc_inv [OF inv] by blast
  have d: "same_page_data (pg s p) (pg t p)" "held t p" using t(4) p by blast+
  note D = same_page_dataD [OF d(1)]
  have np: "\<not> PageSwap t p" using D p(1) by simp
  show ?thesis
  proof (cases "e = 0")
    case True
    then have "swap_page_add p 0 s = Inr (False, t)" using p t(1) by (simp add: swap_page_add_def)
    then show ?thesis using t(2,3) D d np by blast
  next
    case False
    then obtain off where off: "e = entry_of off" "swap_slot t off" "mem_map t off = SWAP_UNUSED" using t(5) by blast
    note lim = cache_invD(5) [OF t(2)]
    have so: "swap_offset e t = Inr off" using swap_offset_entry(1) [of off t] off lim by simp
    have nc: "\<not> cached t off" using cache_invD(4) [OF t(2)] off by (simp add: slots_but_def)
    let ?u = "upd_pg p (page_set PG_dirty) (t\<lparr>mem_map := (mem_map t)(off := 0)\<rparr>)"
    have "cache_inv {} {off} t" by (rule unsettle [OF t(2)])
    moreover have "cache_inv {} {off} (t\<lparr>mem_map := (mem_map t)(off := 0)\<rparr>)"
      using t(2) by (auto simp: cache_inv_def slots_but_def lists_but_def swap_hash_ok_def held_def cached_def)
    ultimately have iu: "cache_inv {} {off} ?u" by (intro cache_inv_harmless) simp_all
    have cu: "\<not> cached ?u off" using nc by (auto simp: cached_def split: if_splits)
    have hu: "held ?u p" using d(2) by (auto simp: held_iff upd_pg_bud upd_page_bfree PG_dirty_def PG_reserved_def)
    have npu: "\<not> PageSwap ?u p" using np by simp
    have un: "mem_map ?u off \<noteq> SWAP_UNUSED" "swap_slot ?u off" using off(2) by (simp_all add: SWAP_UNUSED_def)
    obtain s' where s': "swap_active_list_add p (swap_page_link p e ?u) = Inr s'" "cache_inv {} ({off} - {off}) s'" "same_memory ?u s'"
      "PageSwap s' p" "PageActive s' p" "pg_index (pg s' p) = e" "mem_map s' = mem_map ?u"
      "\<forall>q. pg_ref (pg s' q) = pg_ref (pg ?u q) \<and> PageDirty s' q = PageDirty ?u q"
      using link_list_inv [OF iu npu hu un(2) cu un(1)] off(1) by blast
    have add: "swap_page_add p 0 s = Inr (True, swap_page_link p e ?u)"
      using p t(1) False so off(3) by (simp add: swap_page_add_def SWAP_UNUSED_def)
    have mem': "same_memory s s'"
      by (rule same_memory_trans [OF same_memory_trans [OF same_memory_trans [OF t(3) map_memory(1)] flag_memory(1)] s'(3)])
    have "PageDirty s' p" "pg_ref (pg s' p) = pg_ref (pg s p)" using s'(8) D(1) by simp_all
    moreover have "swap_slot s' off" "mem_map s' off = 0" using off(2) s'(3,7) by (simp_all add: same_memory_def)
    moreover have "pg_index (pg (swap_page_link p e ?u) p) = pg_index (pg s' p)" using s'(6) by simp
    ultimately show ?thesis using add s'(1,2,4-6) mem' off(1) by (intro disjI2 exI [of _ "swap_page_link p e ?u"] exI [of _ s'] exI [of _ off]) simp
  qed
qed

section \<open>References\<close>

lemma slot_entry:
  assumes "cache_inv X Y s" "swap_slot s off"
  shows "swap_offset (entry_of off) s = Inr off"
  using swap_offset_entry(1) [of off s] assms(2) cache_invD(5) [OF assms(1)] by simp

lemma offset_slot: "swap_offset e s = Inr off \<Longrightarrow> swap_slot s off \<and> unat (drop_bit 8 e) = off"
  by (auto simp: swap_offset_def split: if_splits)

lemma duplicate_inv [kinv]:
  assumes inv: "cache_inv X Y s" and o: "swap_offset e s = Inr off" and m: "mem_map s off < MAX_SWAP_REF"
  shows "\<exists>s'. swap_duplicate e s = Inr s' \<and> cache_inv X (Y - {off}) s' \<and> s' = s\<lparr>mem_map := (mem_map s)(off := mem_map s off + 1)\<rparr>"
proof -
  let ?s = "s\<lparr>mem_map := (mem_map s)(off := mem_map s off + 1)\<rparr>"
  have "uint (mem_map s off) < 0xFFFE" using m by (simp add: MAX_SWAP_REF_def word_less_alt)
  then have "uint (mem_map s off + 1) = uint (mem_map s off) + 1"
    by (simp add: uint_word_ariths take_bit_eq_mod)
  then have "mem_map s off + 1 \<noteq> 0" "mem_map s off + 1 \<noteq> SWAP_UNUSED"
    using \<open>uint (mem_map s off) < 0xFFFE\<close> uint_0_iff [of "mem_map s off + 1"] uint_ge_0 [of "mem_map s off"]
    by (auto simp: SWAP_UNUSED_def)
  then have "cache_inv X (Y - {off}) ?s" by (intro set_count_inv [OF inv]) simp_all
  then show ?thesis using o m by (simp add: swap_duplicate_def)
qed

text \<open>Removing a reference: with the last one the page goes too, unless it is still mapped.\<close>

lemma remove_entry_inv [kinv]:
  assumes inv: "cache_ok s" and o: "swap_slot s off" and m: "0 < mem_map s off" "mem_map s off \<noteq> SWAP_UNUSED"
  shows "\<exists>s'. swap_remove_entry (entry_of off) s = Inr s' \<and> cache_ok s' \<and> same_memory s s' \<and>
    (\<forall>o'. o' \<noteq> off \<longrightarrow> mem_map s' o' = mem_map s o') \<and>
    (1 < mem_map s off \<longrightarrow> mem_map s' off = mem_map s off - 1 \<and> bud s' = bud s)"
proof -
  note so = slot_entry [OF inv o]
  let ?v = "mem_map s off - 1"
  let ?s1 = "s\<lparr>mem_map := (mem_map s)(off := ?v)\<rparr>"
  have nu: "?v \<noteq> SWAP_UNUSED"
  proof
    assume "?v = SWAP_UNUSED"
    then have "mem_map s off = SWAP_UNUSED + 1" by (simp add: diff_eq_eq)
    with m(1) show False by (simp add: SWAP_UNUSED_def)
  qed
  have c1: "cached ?s1 o' = cached s o'" for o' by (simp add: cached_def)
  show ?thesis
  proof (cases "?v = 0")
    case False
    have "cache_inv {} ({} - {off}) ?s1" by (rule set_count_inv [OF inv]) (use False nu in auto)
    moreover have "swap_remove_entry (entry_of off) s = Inr ?s1" using so m(1) False by (simp add: swap_remove_entry_def word_gt_0)
    ultimately show ?thesis by auto
  next
    case True
    then have one: "mem_map s off = 1" by (simp add: diff_eq_eq)
    have inv1: "cache_inv {} {off} ?s1"
      using inv by (auto simp: cache_inv_def slots_but_def lists_but_def swap_hash_ok_def held_def cached_def)
    have unz: "SWAP_UNUSED \<noteq> 0" by (simp add: SWAP_UNUSED_def)
    show ?thesis
    proof (cases "swap_hash_find (entry_of off) ?s1")
      case None
      then have nc: "\<not> cached ?s1 off" using swap_hash_find_spec [OF cache_invD(2) [OF inv1]] unfolding cached_def by (metis option.distinct(1))
      have "cache_inv {} ({off} - {off}) (?s1\<lparr>mem_map := (mem_map ?s1)(off := SWAP_UNUSED)\<rparr>)"
        by (rule set_count_inv [OF inv1]) (use nc unz in auto)
      moreover have "swap_remove_entry (entry_of off) s = Inr (?s1\<lparr>mem_map := (mem_map ?s1)(off := SWAP_UNUSED)\<rparr>)"
        using so one None by (simp add: swap_remove_entry_def word_gt_0)
      ultimately show ?thesis using one by auto
    next
      case (Some p)
      then have p: "PageSwap s p" "pg_index (pg s p) = entry_of off" using swap_hash_find_spec [OF cache_invD(2) [OF inv1]] by auto
      then have ca: "cached s off" unfolding cached_def by blast
      show ?thesis
      proof (cases "page_ref p s = 0")
        case False
        have "cache_inv {} ({} - {off}) ?s1" by (rule set_count_inv [OF inv]) (use ca nu in auto)
        moreover have "swap_remove_entry (entry_of off) s = Inr ?s1" using so one Some False
          by (simp add: swap_remove_entry_def word_gt_0 page_ref_def)
        ultimately show ?thesis using one by auto
      next
        case ref: True
        obtain s2 where s2: "swap_list_del p ?s1 = Inr s2" "cache_inv {p} {off} s2" "relisted ?s1 s2"
          using list_del_inv [OF inv1, of p] p by auto
        note r = relistedD [OF s2(3)]
        have r2: "page_ref p s2 = 0" using page_ref_relisted [OF s2(3)] ref by (simp add: page_ref_def)
        have p2: "PageSwap s2 p" "swap_slot s2 off" "pg_index (pg s2 p) = entry_of off" using p o by (simp_all add: r)
        from free_page_cached [OF s2(2) p2(1) _ r2 p2(2,3)] obtain s3 where s3: "swap_free_page p s2 = Inr s3" "cache_inv {} {off} s3"
          "\<not> cached s3 off" "same_memory s2 s3" "mem_map s3 = mem_map s2" by auto
        have "cache_inv {} ({off} - {off}) (s3\<lparr>mem_map := (mem_map s3)(off := SWAP_UNUSED)\<rparr>)"
          by (rule set_count_inv [OF s3(2)]) (use s3(3) unz in auto)
        moreover have "swap_remove_entry (entry_of off) s = Inr (s3\<lparr>mem_map := (mem_map s3)(off := SWAP_UNUSED)\<rparr>)"
          using so one Some ref s2(1) s3(1) by (simp add: swap_remove_entry_def word_gt_0 page_ref_def)
        moreover have "same_memory s (s3\<lparr>mem_map := (mem_map s3)(off := SWAP_UNUSED)\<rparr>)"
          using same_memory_trans [OF same_memory_trans [OF same_memory_trans [OF map_memory(1) relisted_memory [OF s2(3)]] s3(4)] map_memory(1)] .
        ultimately show ?thesis using one s3(5) by (auto simp: r)
      qed
    qed
  qed
qed

section \<open>Writing out and reading in\<close>

text \<open>One page of \<open>page_launder\<close>, with a device that answers as it likes.  A page that is freed had no
  references; if its entry still has, the disk holds its contents.\<close>

definition on_disk :: "mem_st \<Rightarrow> nat \<Rightarrow> nat \<Rightarrow> bool" where
  "on_disk s off p \<longleftrightarrow> disk s off = frame s p"

lemma settle:
  assumes inv: "cache_inv X Y s" and v: "mem_map s off = 0 \<Longrightarrow> cached s off" "mem_map s off = SWAP_UNUSED \<Longrightarrow> \<not> cached s off"
  shows "cache_inv X (Y - {off}) s"
  using inv v by (auto simp: cache_inv_def slots_but_def)

text \<open>Freeing a page that is off the lists, with its entry as it is.\<close>

lemma launder_free:
  assumes inv: "cache_inv {p} Y s" and Y: "Y \<subseteq> {off}" and p: "PageSwap s p" "page_ref p s = 0"
    and o: "swap_slot s off" "pg_index (pg s p) = entry_of off" and nz: "mem_map s off \<noteq> 0"
  shows "\<exists>s'. swap_free_page p s = Inr s' \<and> cache_ok s' \<and> same_memory s s' \<and> mem_map s' = mem_map s \<and> \<not> cached s' off \<and>
    data_except p s s' \<and> p \<in> bfree (bud s') \<and> inactive_list s' = inactive_list s"
proof -
  from free_page_cached [OF inv p(1) _ p(2) o] obtain s' where s': "swap_free_page p s = Inr s'" "cache_inv {} (insert off Y) s'"
    "\<not> cached s' off" "data_except p s s'" "same_memory s s'" "mem_map s' = mem_map s" "bfree (bud s') = insert p (bfree (bud s))" "inactive_list s' = inactive_list s" by auto
  have "cache_inv {} (insert off Y - {off}) s'" by (rule settle [OF s'(2)]) (use s'(3,6) nz in auto)
  moreover have "insert off Y - {off} = {}" using Y by blast
  ultimately show ?thesis using s' by auto
qed

lemma launder_inv [kinv]:
  assumes inv: "cache_ok s" and p: "PageSwap s p" "\<not> PageActive s p" and o: "swap_slot s off" "pg_index (pg s p) = entry_of off"
    and few: "mem_map s off < MAX_SWAP_REF"
  shows "\<exists>freed s'. launder_one wr p s = Inr (freed, s') \<and> cache_ok s' \<and> frame s' = frame s \<and> data_except p s s' \<and>
    max_swap_offset s' = max_swap_offset s \<and> (\<forall>o'. o' \<noteq> off \<longrightarrow> disk s' o' = disk s o' \<and> mem_map s' o' = mem_map s o') \<and>
    (freed \<longrightarrow> page_ref p s = 0 \<and> p \<in> bfree (bud s') \<and> \<not> cached s' off \<and>
      mem_map s' off = (if mem_map s off = 0 then SWAP_UNUSED else mem_map s off) \<and>
      (mem_map s off \<noteq> 0 \<longrightarrow> (if PageDirty s p then disk s' off = frame s p else disk s' = disk s))) \<and>
    (\<not> freed \<longrightarrow> PageSwap s' p \<and> mem_map s' = mem_map s \<and> disk s' = disk s \<and> pg_index (pg s' p) = pg_index (pg s p) \<and>
       pg_ref (pg s' p) = pg_ref (pg s p) \<and> PageDirty s' p = PageDirty s p) \<and>
    (\<exists>tl. inactive_list s' = remove1 p (inactive_list s) @ tl)"
proof -
  obtain s1 where s1: "swap_list_del p s = Inr s1" "cache_inv {p} {} s1" "relisted s s1"
    "inactive_list s1 = remove1 p (inactive_list s)" using list_del_inv [OF inv p(1)] by auto
  note r = relistedD [OF s1(3)]
  have p1: "PageSwap s1 p" "swap_slot s1 off" "pg_index (pg s1 p) = entry_of off" using p o by (simp_all add: r)
  have ref1: "page_ref p s1 = page_ref p s" by (rule page_ref_relisted [OF s1(3)])
  have ne: "mem_map s off \<noteq> SWAP_UNUSED"
  proof
    assume "mem_map s off = SWAP_UNUSED"
    then have "\<not> cached s off" using cache_invD(4) [OF inv] o(1) by (simp add: slots_but_def)
    then show False using p(1) o(2) by (auto simp: cached_def)
  qed
  have so: "swap_offset (entry_of off) t = Inr off" if "max_swap_offset t = max_swap_offset s" for t
    using slot_entry [OF inv o(1)] that by (simp add: swap_offset_def)
  show ?thesis
  proof (cases "page_ref p s = 0")
    case False
    from active_add_inv [OF s1(2) p1(1)] obtain s2 where s2: "swap_active_list_add p s1 = Inr s2" "cache_inv {} {} s2"
      "relisted (upd_pg p (page_set PG_active) s1) s2" "inactive_list s2 = inactive_list s1" by auto
    note r2 = relistedD [OF s2(3)]
    have "launder_one wr p s = Inr (False, s2)" using s1(1) s2(1) False ref1 by (simp add: launder_one_def)
    moreover have "data_except p s s2" by (simp add: data_except_def r r2)
    ultimately show ?thesis using s2(2) p1(1) by (intro exI [of _ False] exI [of _ s2]) (simp add: r r2 s1(4) s2(4))
  next
    case ref: True
    have l: "launder_one wr p s = (bindR (try_free_swap_entry (entry_of off) s1) (\<lambda>(freed, s2).
       if \<not> freed \<and> PageDirty s2 p then
         let s3 = upd_pg p (page_clear PG_dirty) s2
         in bindR (swap_duplicate (entry_of off) s3) (\<lambda>s4.
            bindR (swapfs_write wr (entry_of off) p s4) (\<lambda>(r, s5).
            let s6 = (if r \<noteq> 0 then upd_pg p (page_set PG_dirty) s5 else s5)
            in bindR (swap_offset (entry_of off) s6) (\<lambda>k.
               let s7 = s6\<lparr>mem_map := (mem_map s6)(k := mem_map s6 k - 1)\<rparr>
               in if page_ref p s7 \<noteq> 0 then bindR (swap_active_list_add p s7) (\<lambda>s8. Inr (False, s8))
                  else if PageDirty s7 p then bindR (swap_inactive_list_add p s7) (\<lambda>s8. Inr (False, s8))
                  else bindR (try_free_swap_entry (entry_of off) s7) (\<lambda>(_, s8).
                       bindR (swap_free_page p s8) (\<lambda>s9. Inr (True, s9))))))
       else bindR (swap_free_page p s2) (\<lambda>s3. Inr (True, s3))))"
      using s1(1) ref ref1 p1(3) by (simp add: launder_one_def)
    show ?thesis
    proof (cases "mem_map s off = 0")
      case zero: True
      let ?s2 = "s1\<lparr>mem_map := (mem_map s1)(off := SWAP_UNUSED)\<rparr>"
      have tf: "try_free_swap_entry (entry_of off) s1 = Inr (True, ?s2)" using so [of s1] zero by (simp add: try_free_swap_entry_def r)
      have "cache_inv {p} {off} ?s2"
        using s1(2) by (auto simp: cache_inv_def slots_but_def lists_but_def swap_hash_ok_def held_def cached_def)
      from launder_free [OF this, of off] obtain s' where s': "swap_free_page p ?s2 = Inr s'" "cache_ok s'" "same_memory ?s2 s'"
        "mem_map s' = mem_map ?s2" "\<not> cached s' off" "data_except p ?s2 s'" "p \<in> bfree (bud s')" "inactive_list s' = inactive_list s1"
        using p1 ref ref1 by (auto simp: page_ref_def SWAP_UNUSED_def)
      have e: "launder_one wr p s = Inr (True, s')" using tf s'(1) by (simp add: l)
      have "data_except p s s'" using s'(6) by (simp add: data_except_def r)
      then show ?thesis
        by (intro exI [of _ True] exI [of _ s']) (use e s' ref zero in \<open>simp add: r s1(4) same_memory_def\<close>)
    next
      case nz: False
      have tf: "try_free_swap_entry (entry_of off) s1 = Inr (False, s1)" using so [of s1] nz by (simp add: try_free_swap_entry_def r)
      show ?thesis
      proof (cases "PageDirty s p")
        case clean: False
        from launder_free [OF s1(2), of off] obtain s' where s': "swap_free_page p s1 = Inr s'" "cache_ok s'" "same_memory s1 s'"
          "mem_map s' = mem_map s1" "\<not> cached s' off" "data_except p s1 s'" "p \<in> bfree (bud s')" "inactive_list s' = inactive_list s1"
          using p1 ref ref1 nz by (auto simp: r)
        have e: "launder_one wr p s = Inr (True, s')" using tf s'(1) clean by (simp add: l r)
        have "data_except p s s'" using s'(6) by (simp add: data_except_def r)
        then show ?thesis
          by (intro exI [of _ True] exI [of _ s']) (use e s' ref nz clean in \<open>simp add: r s1(4) same_memory_def\<close>)
      next
        case dirty: True
        let ?b = "upd_pg p (page_clear PG_dirty) s1"
        let ?d = "\<lambda>t. t\<lparr>disk := (disk t)(off := frame t p)\<rparr>"
        let ?s7 = "if wr (entry_of off) = 0 then ?d ?b else upd_pg p (page_set PG_dirty) ?b"
        have inv7: "cache_inv {p} {} ?s7" using s1(2) by (simp add: cache_inv_other cache_inv_harmless)
        have same: "t\<lparr>mem_map := mem_map t\<rparr> = t" for t :: mem_st by simp
        have ref7: "page_ref p ?s7 = 0" using ref ref1 by (simp add: page_ref_def)
        have sp7: "PageSwap ?s7 p" "swap_slot ?s7 off" "pg_index (pg ?s7 p) = entry_of off" "mem_map ?s7 = mem_map s"
          using p1 by (simp_all add: r)
        have dup: "swap_duplicate (entry_of off) ?b = Inr (?b\<lparr>mem_map := (mem_map s)(off := mem_map s off + 1)\<rparr>)"
          using so [of ?b] few by (simp add: swap_duplicate_def r)
        have flag: "upd_pg q f (t\<lparr>mem_map := x\<rparr>) = (upd_pg q f t)\<lparr>mem_map := x\<rparr>" for q f t x by (simp add: upd_pg_def)
        have restore: "t\<lparr>mem_map := mem_map s\<rparr> = t" if "mem_map t = mem_map s" for t :: mem_st using that same [of t] by simp
        have step: "launder_one wr p s =
          (if PageDirty ?s7 p then bindR (swap_inactive_list_add p ?s7) (\<lambda>s8. Inr (False, s8))
           else bindR (try_free_swap_entry (entry_of off) ?s7) (\<lambda>(_, s8). bindR (swap_free_page p s8) (\<lambda>s9. Inr (True, s9))))"
        proof (cases "wr (entry_of off) = 0")
          case True
          have "page_ref p (?d ?b) = 0" using ref7 True by simp
          then show ?thesis using tf dirty dup so [of "?b\<lparr>mem_map := (mem_map s)(off := mem_map s off + 1)\<rparr>"]
              so [of "?d (?b\<lparr>mem_map := (mem_map s)(off := mem_map s off + 1)\<rparr>)"] True
            by (simp add: restore l r swapfs_write_def page_ref_def)
        next
          case False
          let ?u = "upd_pg p (page_set PG_dirty) ?b"
          have "page_ref p ?u = 0" using ref7 False by simp
          then show ?thesis using tf dirty dup so [of "?b\<lparr>mem_map := (mem_map s)(off := mem_map s off + 1)\<rparr>"]
              so [of "?u\<lparr>mem_map := (mem_map s)(off := mem_map s off + 1)\<rparr>"] False
            by (simp add: restore l r swapfs_write_def page_ref_def flag)
        qed
        have data7: "data_except p s ?s7" by (simp add: data_except_def r)
        show ?thesis
        proof (cases "wr (entry_of off) = 0")
          case True
          have "try_free_swap_entry (entry_of off) ?s7 = Inr (False, ?s7)" using so [of ?s7] nz sp7(4) by (simp add: try_free_swap_entry_def r)
          moreover have "\<not> PageDirty ?s7 p" using True by simp
          moreover obtain s' where s': "swap_free_page p ?s7 = Inr s'" "cache_ok s'" "same_memory ?s7 s'"
            "mem_map s' = mem_map ?s7" "\<not> cached s' off" "data_except p ?s7 s'" "p \<in> bfree (bud s')" "inactive_list s' = inactive_list s1"
            using launder_free [OF inv7 _ sp7(1) ref7 sp7(2,3)] nz sp7(4) by auto
          ultimately have e: "launder_one wr p s = Inr (True, s')" using step by simp
          have "data_except p s s'" using s'(6) data7 same_page_data_trans by (meson data_except_def)
          then show ?thesis
            by (intro exI [of _ True] exI [of _ s']) (use e s' ref nz dirty sp7(4) True in \<open>simp add: r s1(4) same_memory_def\<close>)
        next
          case False
          then have "PageDirty ?s7 p" by simp
          moreover obtain s' where s': "swap_inactive_list_add p ?s7 = Inr s'" "cache_inv {} {} s'" 
            "relisted (upd_pg p (page_clear PG_active) ?s7) s'" "inactive_list s' = inactive_list ?s7 @ [p]" using inactive_add_inv [OF inv7 sp7(1)] by auto
          ultimately have e: "launder_one wr p s = Inr (False, s')" using step by simp
          note r2 = relistedD [OF s'(3)]
          have "data_except p s s'" by (simp add: data_except_def r r2)
          then show ?thesis
            by (intro exI [of _ False] exI [of _ s']) (use e s'(2,4) p1(1) False dirty in \<open>simp add: r r2 s1(4)\<close>)
        qed
      qed
    qed
  qed
qed

section \<open>What the entries hold\<close>

text \<open>The contents an entry stands for: those of its page if it has one, otherwise those on the disk.\<close>

definition swap_contents :: "mem_st \<Rightarrow> nat \<Rightarrow> nat \<Rightarrow> 32 word" where
  "swap_contents s off = (case swap_hash_find (entry_of off) s of Some p \<Rightarrow> frame s p | None \<Rightarrow> disk s off)"

text \<open>A cached page nothing maps any more is marked dirty unless the disk has its contents.\<close>

definition clean_on_disk :: "mem_st \<Rightarrow> bool" where
  "clean_on_disk s \<longleftrightarrow> (\<forall>p off. PageSwap s p \<longrightarrow> swap_slot s off \<longrightarrow> pg_index (pg s p) = entry_of off \<longrightarrow>
     page_ref p s = 0 \<longrightarrow> \<not> PageDirty s p \<longrightarrow> disk s off = frame s p)"

definition counts_small :: "mem_st \<Rightarrow> bool" where
  "counts_small s \<longleftrightarrow> (\<forall>off. swap_slot s off \<longrightarrow> mem_map s off \<noteq> SWAP_UNUSED \<longrightarrow> mem_map s off < MAX_SWAP_REF)"

lemma contents_cached:
  assumes "swap_hash_ok s" "PageSwap s p" "pg_index (pg s p) = entry_of off"
  shows "swap_contents s off = frame s p"
  using swap_hash_find_spec [OF assms(1), of "entry_of off" p] assms(2,3) by (simp add: swap_contents_def)

lemma contents_disk:
  assumes "swap_hash_ok s" "\<not> cached s off"
  shows "swap_contents s off = disk s off"
  using swap_hash_find_spec [OF assms(1), of "entry_of off"] assms(2)
  by (auto simp: swap_contents_def cached_def split: option.split)

lemma cached_count:
  assumes "cache_ok s" "PageSwap s p" "swap_slot s off" "pg_index (pg s p) = entry_of off"
  shows "mem_map s off \<noteq> SWAP_UNUSED"
  using cache_invD(4) [OF assms(1)] assms(2-4) unfolding slots_but_def cached_def by blast

text \<open>The contents of an entry when nothing about its page and its place on the disk changes.\<close>

lemma contents_same:
  assumes "swap_hash_ok s" "swap_hash_ok s'" "disk s' off = disk s off" "frame s' = frame s"
    "\<And>q. PageSwap s' q \<and> pg_index (pg s' q) = entry_of off \<longleftrightarrow> PageSwap s q \<and> pg_index (pg s q) = entry_of off"
  shows "swap_contents s' off = swap_contents s off"
proof (cases "cached s off")
  case True
  then obtain q where "PageSwap s q \<and> pg_index (pg s q) = entry_of off" unfolding cached_def by blast
  then show ?thesis using contents_cached [OF assms(1)] contents_cached [OF assms(2)] assms(4,5) by metis
next
  case False
  then have "\<not> cached s' off" unfolding cached_def using assms(5) by blast
  then show ?thesis using contents_disk [OF assms(1) False] contents_disk [OF assms(2)] assms(3) by simp
qed

definition keeps_contents :: "mem_st \<Rightarrow> mem_st \<Rightarrow> bool" where
  "keeps_contents s s' \<longleftrightarrow> max_swap_offset s' = max_swap_offset s \<and>
     (\<forall>off. swap_slot s off \<longrightarrow> mem_map s off \<noteq> 0 \<longrightarrow> mem_map s off \<noteq> SWAP_UNUSED \<longrightarrow>
       mem_map s' off = mem_map s off \<and> swap_contents s' off = swap_contents s off)"

lemma keeps_contents_refl [simp]: "keeps_contents s s"
  by (simp add: keeps_contents_def)

lemma keeps_contents_trans: "keeps_contents s s' \<Longrightarrow> keeps_contents s' s'' \<Longrightarrow> keeps_contents s s''"
  by (simp add: keeps_contents_def)

lemma launder_keeps:
  assumes inv: "cache_ok s" and p: "PageSwap s p" "\<not> PageActive s p" and few: "counts_small s"
  shows "\<exists>freed s'. launder_one wr p s = Inr (freed, s') \<and> cache_ok s' \<and> counts_small s' \<and>
    (clean_on_disk s \<longrightarrow> clean_on_disk s' \<and> keeps_contents s s') \<and>
    frame s' = frame s \<and> data_except p s s' \<and> (freed \<longrightarrow> p \<in> bfree (bud s') \<and> page_ref p s = 0) \<and> (\<not> freed \<longrightarrow> PageSwap s' p) \<and>
    (\<exists>tl. inactive_list s' = remove1 p (inactive_list s) @ tl)"
proof -
  obtain off where o: "swap_slot s off" "pg_index (pg s p) = entry_of off" using cache_entry [OF inv p(1)] by metis
  have "mem_map s off < MAX_SWAP_REF" using few o(1) cached_count [OF inv p(1) o] by (simp add: counts_small_def)
  from launder_inv [OF inv p o this, of wr] obtain freed s' where
    s': "launder_one wr p s = Inr (freed, s')" "cache_ok s'" "frame s' = frame s" "data_except p s s'"
    "\<forall>o'. o' \<noteq> off \<longrightarrow> disk s' o' = disk s o' \<and> mem_map s' o' = mem_map s o'"
    and mx: "max_swap_offset s' = max_swap_offset s"
    and f: "freed \<longrightarrow> page_ref p s = 0 \<and> p \<in> bfree (bud s') \<and> \<not> cached s' off \<and>
      mem_map s' off = (if mem_map s off = 0 then SWAP_UNUSED else mem_map s off) \<and>
      (mem_map s off \<noteq> 0 \<longrightarrow> (if PageDirty s p then disk s' off = frame s p else disk s' = disk s))"
    and nf: "\<not> freed \<longrightarrow> PageSwap s' p \<and> mem_map s' = mem_map s \<and> disk s' = disk s \<and> pg_index (pg s' p) = pg_index (pg s p) \<and>
       pg_ref (pg s' p) = pg_ref (pg s p) \<and> PageDirty s' p = PageDirty s p"
    and tl: "\<exists>tl. inactive_list s' = remove1 p (inactive_list s) @ tl" by blast
  note H = cache_invD(2) [OF inv] and H' = cache_invD(2) [OF s'(2)]
  have D: "PageSwap s' q = PageSwap s q" "pg_index (pg s' q) = pg_index (pg s q)" "page_ref q s' = page_ref q s" "PageDirty s' q = PageDirty s q"
    if "q \<noteq> p" for q
    using same_page_dataD [of "pg s q" "pg s' q"] s'(4) that by (auto simp: data_except_def page_ref_def)
  have np: "\<not> PageSwap s' p" if freed using that f cache_inv_free [OF s'(2)] by blast
  have other: "PageSwap s' q \<and> pg_index (pg s' q) = entry_of o' \<longleftrightarrow> PageSwap s q \<and> pg_index (pg s q) = entry_of o'"
    if "o' \<noteq> off" "swap_slot s o'" for q o'
  proof -
    have "entry_of o' \<noteq> entry_of off" using that o(1) cache_invD(5) [OF inv] entry_of_inj [of o' off] by simp
    then show ?thesis by (cases "q = p"; cases freed) (use D o(2) p(1) nf np in auto)
  qed
  have keep: "mem_map s' o' = mem_map s o' \<and> swap_contents s' o' = swap_contents s o'"
    if "swap_slot s o'" "mem_map s o' \<noteq> 0" "clean_on_disk s" for o'
  proof (cases "o' = off")
    case False
    then show ?thesis using contents_same [OF H H' _ s'(3) other [OF False that(1)]] s'(5) by simp
  next
    case True
    note cc = contents_cached [OF H p(1) o(2)]
    show ?thesis
    proof (cases freed)
      case fr: True
      have "disk s' off = frame s p"
      proof (cases "PageDirty s p")
        case False
        then have "disk s off = frame s p" using that(3) p(1) o f fr by (simp add: clean_on_disk_def)
        then show ?thesis using f fr that(2) True False by simp
      qed (use f fr that(2) True in simp)
      then show ?thesis using contents_disk [OF H'] f fr that(2) True cc by simp
    next
      case False
      then show ?thesis using contents_cached [OF H', of p off] nf o(2) cc s'(3) True by simp
    qed
  qed
  have "clean_on_disk s'" if clean: "clean_on_disk s"
    unfolding clean_on_disk_def
  proof (intro allI impI)
    fix q o' assume q: "PageSwap s' q" "swap_slot s' o'" "pg_index (pg s' q) = entry_of o'" "page_ref q s' = 0" "\<not> PageDirty s' q"
    show "disk s' o' = frame s' q"
    proof (cases "q = p")
      case True
      then have "\<not> freed" using np q(1) by blast
      then show ?thesis using nf q clean mx s'(3) p(1) True by (simp add: clean_on_disk_def page_ref_def)
    next
      case False
      then have "disk s o' = frame s q" "PageSwap s q" "pg_index (pg s q) = entry_of o'" 
        using q clean mx D [OF False] by (simp_all add: clean_on_disk_def)
      moreover have "o' \<noteq> off"
      proof
        assume "o' = off"
        then have "q = p" using H calculation(2,3) p(1) o(2) unfolding swap_hash_ok_def by metis
        with False show False ..
      qed
      ultimately show ?thesis using s'(3,5) by simp
    qed
  qed
  moreover have "counts_small s'"
    unfolding counts_small_def
  proof (intro allI impI)
    fix o' assume u: "swap_slot s' o'" "mem_map s' o' \<noteq> SWAP_UNUSED"
    have "mem_map s' o' = mem_map s o'" 
      using s'(5) f nf u(2) by (cases "o' = off"; cases freed) (auto split: if_splits)
    then show "mem_map s' o' < MAX_SWAP_REF" using u mx few by (simp add: counts_small_def)
  qed
  moreover have "keeps_contents s s'" if "clean_on_disk s" using keep that mx by (simp add: keeps_contents_def)
  ultimately show ?thesis using s' f nf tl by blast
qed

lemma launder_loop_spec:
  assumes "cache_ok s" "counts_small s" "inactive_list s = vs @ ws"
  shows "\<exists>s'. launder_loop wr (length vs) (first_of (vs @ ws)) cnt s = Inr (cnt + length (filter (\<lambda>p. \<not> PageSwap s' p) vs), s') \<and>
    cache_ok s' \<and> counts_small s' \<and> (clean_on_disk s \<longrightarrow> clean_on_disk s' \<and> keeps_contents s s') \<and> frame s' = frame s \<and>
    (\<forall>p \<in> set vs. \<not> PageSwap s' p \<longrightarrow> page_ref p s = 0) \<and> (\<forall>q. q \<notin> set vs \<longrightarrow> same_page_data (pg s q) (pg s' q))"
  using assms
proof (induction vs arbitrary: s ws cnt)
  case (Cons p vs)
  note L = cache_invD(3) [OF Cons.prems(1), unfolded lists_but_def]
  have p: "PageSwap s p" "\<not> PageActive s p" using L Cons.prems(3) by auto
  have d: "p \<notin> set vs" "p \<notin> set (vs @ ws)" using L Cons.prems(3) by auto
  obtain freed s1 where s1: "launder_one wr p s = Inr (freed, s1)" "cache_ok s1" "counts_small s1" "clean_on_disk s \<longrightarrow> clean_on_disk s1 \<and> keeps_contents s s1"
    "frame s1 = frame s" "data_except p s s1" "freed \<longrightarrow> p \<in> bfree (bud s1) \<and> page_ref p s = 0" "\<not> freed \<longrightarrow> PageSwap s1 p"
    "\<exists>tl. inactive_list s1 = remove1 p (inactive_list s) @ tl"
    using launder_keeps [OF Cons.prems(1) p Cons.prems(2), of wr] by blast
  then obtain tl where "inactive_list s1 = vs @ (ws @ tl)" using Cons.prems(3) by auto
  from Cons.IH [OF s1(2,3) this, of "if freed then cnt + 1 else cnt"] obtain s' where
    s': "launder_loop wr (length vs) (first_of (vs @ ws @ tl)) (if freed then cnt + 1 else cnt) s1 =
      Inr ((if freed then cnt + 1 else cnt) + length (filter (\<lambda>p. \<not> PageSwap s' p) vs), s')"
    "cache_ok s'" "counts_small s'" "clean_on_disk s1 \<longrightarrow> clean_on_disk s' \<and> keeps_contents s1 s'" "frame s' = frame s1"
    "\<forall>p \<in> set vs. \<not> PageSwap s' p \<longrightarrow> page_ref p s1 = 0" "\<forall>q. q \<notin> set vs \<longrightarrow> same_page_data (pg s1 q) (pg s' q)" by blast
  have nx: "next_in (inactive_list s) p = first_of (vs @ ws)" using next_in_append [of p "[]" "vs @ ws"] Cons.prems(3) by simp
  have fo: "launder_loop wr (length vs) (first_of (vs @ ws)) c s1 = launder_loop wr (length vs) (first_of (vs @ ws @ tl)) c s1" for c
    by (cases vs) (simp_all add: first_of_def)
  have "launder_loop wr (length (p # vs)) (first_of ((p # vs) @ ws)) cnt s =
      launder_loop wr (length vs) (first_of (vs @ ws)) (if freed then cnt + 1 else cnt) s1"
    using p nx s1(1) by (simp add: first_of_def)
  moreover have "PageSwap s' p \<longleftrightarrow> \<not> freed"
    using same_page_dataD(3) [of "pg s1 p" "pg s' p"] s'(7) d(1) s1(7,8) cache_inv_free [OF s1(2), of p] by blast
  moreover have rq: "page_ref q s1 = page_ref q s" if "q \<noteq> p" for q
    using same_page_dataD(1) [of "pg s q" "pg s1 q"] s1(6) that by (simp add: data_except_def page_ref_def)
  moreover have "\<forall>q \<in> set vs. \<not> PageSwap s' q \<longrightarrow> page_ref q s = 0" using s'(6) rq d(1) by metis
  moreover have "same_page_data (pg s q) (pg s' q)" if "q \<notin> set (p # vs)" for q
    using same_page_data_trans [of "pg s q" "pg s1 q" "pg s' q"] s1(6) s'(7) that by (simp add: data_except_def)
  ultimately show ?case
    using s'(1-5) s1(5,7) s1(4) s'(4) keeps_contents_trans [of s s1 s'] unfolding fo by (intro exI [of _ s']) auto
qed (auto simp: first_of_def)

lemma page_launder_spec:
  assumes "cache_ok s" "counts_small s"
  shows "\<exists>s'. page_launder wr s = Inr (length (filter (\<lambda>p. \<not> PageSwap s' p) (inactive_list s)), s') \<and>
    cache_ok s' \<and> counts_small s' \<and> (clean_on_disk s \<longrightarrow> clean_on_disk s' \<and> keeps_contents s s') \<and> frame s' = frame s \<and>
    (\<forall>p. PageSwap s p \<and> \<not> PageSwap s' p \<longrightarrow> p \<in> set (inactive_list s) \<and> page_ref p s = 0)"
proof -
  note L = cache_invD(3) [OF assms(1), unfolded lists_but_def]
  from launder_loop_spec [OF assms, of "inactive_list s" "[]" wr 0] obtain s' where
    s': "launder_loop wr (length (inactive_list s)) (first_of (inactive_list s)) 0 s =
      Inr (length (filter (\<lambda>p. \<not> PageSwap s' p) (inactive_list s)), s')"
    "cache_ok s'" "counts_small s'" "clean_on_disk s \<longrightarrow> clean_on_disk s' \<and> keeps_contents s s'" "frame s' = frame s"
    "\<forall>p \<in> set (inactive_list s). \<not> PageSwap s' p \<longrightarrow> page_ref p s = 0"
    "\<forall>q. q \<notin> set (inactive_list s) \<longrightarrow> same_page_data (pg s q) (pg s' q)" by auto
  have "p \<in> set (inactive_list s)" if "PageSwap s p" "\<not> PageSwap s' p" for p
    using same_page_dataD(3) [of "pg s p" "pg s' p"] s'(7) that by blast
  then show ?thesis using s' L by (auto simp: page_launder_def)
qed

text \<open>Looking an entry up, or reading it in: the page that comes back has the contents of the entry.\<close>

lemma swap_in_inv [kinv]:
  assumes inv: "cache_ok s" and o: "swap_slot s off" "mem_map s off \<noteq> SWAP_UNUSED"
  shows "\<exists>r page s'. swap_in_page rd (\<lambda>t. t) (entry_of off) s = Inr (r, page, s') \<and> cache_ok s' \<and> mem_map s' = mem_map s \<and> disk s' = disk s \<and>
    max_swap_offset s' = max_swap_offset s \<and>
    (case page of
       Some p \<Rightarrow> r = 0 \<and> PageSwap s' p \<and> pg_index (pg s' p) = entry_of off \<and> frame s' p = swap_contents s off \<and> 
         (s' = s \<or> p \<in> bfree (bud s)) \<and> (\<forall>f. f \<noteq> p \<longrightarrow> frame s' f = frame s f) \<and> (clean_on_disk s \<longrightarrow> clean_on_disk s')
     | None \<Rightarrow> (r = - E_NO_MEM \<or> r = - E_SWAP_FAULT) \<and> frame s' = frame s \<and> \<not> cached s off)"
proof -
  note so = slot_entry [OF inv o(1)]
  note H = cache_invD(2) [OF inv]
  show ?thesis
  proof (cases "swap_hash_find (entry_of off) s")
    case (Some p)
    then have p: "PageSwap s p" "pg_index (pg s p) = entry_of off" using swap_hash_find_spec [OF H] by blast+
    have "swap_in_page rd (\<lambda>t. t) (entry_of off) s = Inr (0, Some p, s)" using so Some by (simp add: swap_in_page_def)
    then show ?thesis using inv p contents_cached [OF H p] by (intro exI [of _ 0] exI [of _ "Some p"] exI [of _ s]) simp
  next
    case None
    then have nc: "\<not> cached s off" using swap_hash_find_spec [OF H] unfolding cached_def by (metis option.distinct(1))
    note cd = contents_disk [OF H nc]
    from cache_inv_alloc [OF inv] consider (n) "alloc_page s = Inr (None, s)"
      | (q) q s1 where "alloc_page s = Inr (Some q, s1)" "cache_ok s1" "q \<in> bfree (bud s)" "held s1 q" "\<not> PageSwap s1 q"
        "\<exists>b. s1 = s\<lparr>bud := b\<rparr>" by blast
    then show ?thesis
    proof cases
      case n
      have "swap_in_page rd (\<lambda>t. t) (entry_of off) s = Inr (- E_NO_MEM, None, s)" using so None n by (simp add: swap_in_page_def)
      then show ?thesis using inv nc by (intro exI [of _ "- E_NO_MEM"] exI [of _ None] exI [of _ s]) simp
    next
      case (q q s1)
      obtain b where b: "s1 = s\<lparr>bud := b\<rparr>" using q(6) by blast
      note d1 = same_page_dataD [OF alloc_page_data [OF q(1)]]
      have nc1: "\<not> cached s1 off" using nc d1 unfolding cached_def by simp
      have f1: "swap_hash_find (entry_of off) s1 = None"
        using swap_hash_find_spec [OF cache_invD(2) [OF q(2)]] nc1 unfolding cached_def by (metis not_None_eq)
      have so1: "swap_offset (entry_of off) s1 = Inr off" using so by (simp add: b swap_offset_def)
      show ?thesis
      proof (cases "rd (entry_of off) = 0")
        case False
        obtain s' where s': "free_page q s1 = Inr s'" "cache_ok s'" "\<exists>b. s' = s1\<lparr>bud := b\<rparr>"
          using cache_inv_free_page [OF q(2,5,4)] by blast
        have "swap_in_page rd (\<lambda>t. t) (entry_of off) s = Inr (- E_SWAP_FAULT, None, s')"
          using so None q(1) f1 so1 False s'(1) by (simp add: swap_in_page_def swapfs_read_def)
        then show ?thesis using s'(2,3) b nc
          by (intro exI [of _ "- E_SWAP_FAULT"] exI [of _ None] exI [of _ s']) auto
      next
        case True
        let ?s2 = "s1\<lparr>frame := (frame s1)(q := disk s1 off)\<rparr>"
        have inv2: "cache_ok ?s2" by (rule cache_inv_other [OF q(2)])
        have "\<not> cached ?s2 off" "\<not> PageSwap ?s2 q" "held ?s2 q" "mem_map ?s2 off \<noteq> SWAP_UNUSED" "swap_slot ?s2 off"
          using nc1 q(4,5) o b by (simp_all add: cached_def held_def)
        from link_list_inv [OF inv2 this(2,3,5,1,4)] obtain s' where
          s': "swap_active_list_add q (swap_page_link q (entry_of off) ?s2) = Inr s'" "cache_ok s'" "same_memory ?s2 s'"
          "PageSwap s' q" "pg_index (pg s' q) = entry_of off" "mem_map s' = mem_map ?s2"
          "\<forall>r. pg_ref (pg s' r) = pg_ref (pg ?s2 r) \<and> PageDirty s' r = PageDirty ?s2 r \<and> (r \<noteq> q \<longrightarrow> pg s' r = pg ?s2 r)" by auto
        have nz: "entry_of off \<noteq> 0" using swap_offset_entry(2) [of off s] o(1) cache_invD(5) [OF inv] by simp
        have "swap_in_page rd (\<lambda>t. t) (entry_of off) s = Inr (0, Some q, s')"
          using so None q(1,5) f1 so1 True s'(1) nz by (simp add: swap_in_page_def swapfs_read_def swap_page_add_def)
        moreover have "clean_on_disk s'" if clean: "clean_on_disk s"
          unfolding clean_on_disk_def
        proof (intro allI impI)
          fix r o' assume r: "PageSwap s' r" "swap_slot s' o'" "pg_index (pg s' r) = entry_of o'" "page_ref r s' = 0" "\<not> PageDirty s' r"
          note M = s'(3) [unfolded same_memory_def]
          show "disk s' o' = frame s' r"
          proof (cases "r = q")
            case True
            have "off = o'" using r(2,3) s'(5) True entry_of_inj [of off o'] o(1) cache_invD(5) [OF inv] M b by simp
            then show ?thesis using M True b by simp
          next
            case False
            then have "pg s' r = pg s1 r" using s'(7) by simp
            then have "PageSwap s r" "pg_index (pg s r) = entry_of o'" "page_ref r s = 0" "\<not> PageDirty s r"
              using r d1 [of r] by (simp_all add: page_ref_def)
            then show ?thesis using clean r(2) M False b by (simp add: clean_on_disk_def)
          qed
        qed
        ultimately show ?thesis using s'(2-6) q(3) b cd
          by (intro exI [of _ 0] exI [of _ "Some q"] exI [of _ s']) (simp add: same_memory_def)
      qed
    qed
  qed
qed

lemma refill_loop_inv:
  assumes "cache_ok s" "active_list s = us @ vs"
  shows "\<exists>s'. refill_loop (length vs) (first_of vs) s = Inr s' \<and> cache_ok s' \<and> mem_map s' = mem_map s"
  using assms
proof (induction vs arbitrary: s us)
  case (Cons p vs)
  note act = Cons.prems(2)
  have lok: "swap_lists_ok s" using cache_invD(3) [OF Cons.prems(1)] by (simp add: lists_but_ok)
  have p: "PageSwap s p" "PageActive s p" "p \<notin> set us" using lok act by (auto simp: swap_lists_ok_def)
  have nx: "next_in (active_list s) p = first_of vs" unfolding act by (rule next_in_append) (rule p(3))
  have e: "refill_loop (length (p # vs)) (first_of (p # vs)) s =
      bindR (if page_ref p s = 0 then bindR (swap_list_del p s) (swap_inactive_list_add p) else Inr s)
        (refill_loop (length vs) (first_of vs))"
    using p nx by (simp add: first_of_def)
  show ?case
  proof (cases "page_ref p s = 0")
    case True
    obtain s1 where s1: "swap_list_del p s = Inr s1" "cache_inv {p} {} s1" "relisted s s1"
      using list_del_inv [OF Cons.prems(1) p(1)] by auto
    note r1 = relistedD [OF s1(3)]
    have sw1: "PageSwap s1 p" using p(1) by (simp add: r1)
    obtain s2 where s2: "swap_inactive_list_add p s1 = Inr s2" "cache_inv ({p} - {p}) {} s2" "relisted (upd_pg p (page_clear PG_active) s1) s2"
      using inactive_add_inv [OF s1(2) sw1] by auto
    note r2 = relistedD [OF s2(3)]
    from demote_one [OF lok act] s1(1) s2(1) have "active_list s2 = us @ vs" by auto
    with Cons.IH [of s2 us] s2(2) show ?thesis unfolding e using True s1(1) s2(1) by (auto simp: r1 r2)
  next
    case False
    have "active_list s = (us @ [p]) @ vs" using act by simp
    from Cons.IH [OF Cons.prems(1) this] show ?thesis unfolding e using False by simp
  qed
qed (simp add: first_of_def)

lemma refill_inv [kinv]:
  assumes "cache_ok s"
  shows "\<exists>s'. refill_inactive_scan s = Inr s' \<and> cache_ok s' \<and> mem_map s' = mem_map s"
proof -
  have "nr_active s = length (active_list s)" using cache_invD(3) [OF assms] by (simp add: lists_but_def)
  then show ?thesis using refill_loop_inv [OF assms, of "[]"] by (simp add: refill_inactive_scan_def)
qed

section \<open>Reachable states\<close>

text \<open>What the kernel does to the memory state: the operations of the swap cache under the conditions of
  their callers, pages taken and given back, references counted, frames written.\<close>

inductive swap_step :: "mem_st \<Rightarrow> mem_st \<Rightarrow> bool" where
  add: "\<not> PageSwap s p \<Longrightarrow> held s p \<Longrightarrow> swap_page_add p 0 s = Inr (True, s1) \<Longrightarrow> swap_active_list_add p s1 = Inr s' \<Longrightarrow> swap_step s s'"
| full: "\<not> PageSwap s p \<Longrightarrow> held s p \<Longrightarrow> swap_page_add p 0 s = Inr (False, s') \<Longrightarrow> swap_step s s'"
| duplicate: "swap_duplicate e s = Inr s' \<Longrightarrow> swap_step s s'"
| remove: "swap_slot s off \<Longrightarrow> mem_map s off \<noteq> SWAP_UNUSED \<Longrightarrow> swap_remove_entry (entry_of off) s = Inr s' \<Longrightarrow> swap_step s s'"
| swap_in: "swap_slot s off \<Longrightarrow> mem_map s off \<noteq> SWAP_UNUSED \<Longrightarrow> swap_in_page rd (\<lambda>t. t) (entry_of off) s = Inr (r, page, s') \<Longrightarrow> swap_step s s'"
| launder: "counts_small s \<Longrightarrow> page_launder wr s = Inr (n, s') \<Longrightarrow> swap_step s s'"
| refill: "refill_inactive_scan s = Inr s' \<Longrightarrow> swap_step s s'"
| alloc: "alloc_page s = Inr (page, s') \<Longrightarrow> swap_step s s'"
| give_back: "\<not> PageSwap s p \<Longrightarrow> held s p \<Longrightarrow> free_page p s = Inr s' \<Longrightarrow> swap_step s s'"
| ref_inc: "swap_step s (snd (page_ref_inc p s))"
| ref_dec: "swap_step s (snd (page_ref_dec p s))"
| dirty: "swap_step s (upd_pg p (page_set PG_dirty) s)"
| store: "swap_step s (s\<lparr>frame := f\<rparr>)"

inductive swap_steps :: "mem_st \<Rightarrow> mem_st \<Rightarrow> bool" where
  start: "swap_steps s s"
| step: "swap_steps s t \<Longrightarrow> swap_step t u \<Longrightarrow> swap_steps s u"

lemma swap_duplicate_pre: "swap_duplicate e s = Inr s' \<Longrightarrow> \<exists>off. swap_offset e s = Inr off \<and> mem_map s off < MAX_SWAP_REF"
  by (auto simp: swap_duplicate_def res_simps)

lemma swap_remove_pre: "swap_remove_entry (entry_of off) s = Inr s' \<Longrightarrow> swap_offset (entry_of off) s = Inr off \<Longrightarrow> 0 < mem_map s off"
  by (auto simp: swap_remove_entry_def res_simps)

lemma swap_step_inv:
  assumes "swap_step s s'" "cache_ok s"
  shows "cache_ok s'"
  using assms
proof (cases rule: swap_step.cases)
  case (add p s1)
  from page_add_new [OF assms(2) add(1,2)] add(3,4) show ?thesis by auto
next
  case (full p)
  from page_add_new [OF assms(2) full(1,2)] full(3) show ?thesis by auto
next
  case (duplicate e)
  then obtain off where "swap_offset e s = Inr off" "mem_map s off < MAX_SWAP_REF" using swap_duplicate_pre by blast
  from duplicate_inv [OF assms(2) this] duplicate show ?thesis by auto
next
  case (remove off)
  have "0 < mem_map s off" by (rule swap_remove_pre [OF remove(3) slot_entry [OF assms(2) remove(1)]])
  from remove_entry_inv [OF assms(2) remove(1) this remove(2)] remove(3) show ?thesis by auto
next
  case (swap_in off rd r page)
  from swap_in_inv [OF assms(2) swap_in(1,2), of rd] swap_in(3) show ?thesis by auto
next
  case (launder wr n)
  from page_launder_spec [OF assms(2) launder(1), of wr] launder(2) show ?thesis by auto
next
  case refill
  from refill_inv [OF assms(2)] refill show ?thesis by auto
next
  case (alloc page)
  from cache_inv_alloc [OF assms(2)] alloc assms(2) show ?thesis by auto
next
  case (give_back p)
  from cache_inv_free_page [OF assms(2) give_back(1,2)] give_back(3) show ?thesis by auto
qed (use assms(2) in \<open>simp_all add: cache_inv_refs cache_inv_harmless cache_inv_other\<close>)

text \<open>What \<open>swap_init\<close> starts from: no page has an entry yet.\<close>

definition boot_memory :: "mem_st \<Rightarrow> bool" where
  "boot_memory s \<longleftrightarrow> buddy_inv (bud s) \<and> (\<forall>p. \<not> PageSwap s p) \<and> next_off s = 1"

lemma swap_init_inv:
  assumes "boot_memory s" "swap_init n s = Inr s0"
  shows "cache_ok s0"
  using assms
  by (auto simp: boot_memory_def swap_init_def cache_inv_def swap_hash_ok_def lists_but_def slots_but_def cached_def held_def
      SWAP_UNUSED_def split: if_splits)

section \<open>Properties\<close>

text \<open>C21: whatever sequence of swapping, taking and giving back pages, counting references and writing frames
  follows \<open>swap_init\<close>, the pages with \<open>PG_swap\<close> are those on the hash lists, each under its own entry and
  on the list its \<open>PG_active\<close> names, with the lengths recorded; each is a page in use, its entry lies
  on the device and is not marked unused, and an entry without references has its page in memory.\<close>

theorem swap_cache_consistent:
  assumes "boot_memory s" "swap_init n s = Inr s0" "swap_steps s0 s'"
  shows "swap_hash_ok s' \<and> swap_lists_ok s' \<and> buddy_inv (bud s') \<and>
    (\<forall>p. PageSwap s' p \<longrightarrow> p \<notin> bfree (bud s') \<and> (\<exists>off. swap_slot s' off \<and> pg_index (pg s' p) = entry_of off \<and> mem_map s' off \<noteq> SWAP_UNUSED)) \<and>
    (\<forall>off. swap_slot s' off \<and> mem_map s' off = 0 \<longrightarrow> swap_hash_find (entry_of off) s' \<noteq> None)"
proof -
  have ok: "cache_ok s'" using assms(3) swap_init_inv [OF assms(1,2)]
    by (induction rule: swap_steps.induct) (simp_all add: swap_step_inv)
  note I = cache_invD [OF ok]
  have "\<exists>off. swap_slot s' off \<and> pg_index (pg s' p) = entry_of off \<and> mem_map s' off \<noteq> SWAP_UNUSED" if "PageSwap s' p" for p
    using I(9) [OF that] cached_count [OF ok that] by blast
  moreover have "swap_hash_find (entry_of off) s' \<noteq> None" if "swap_slot s' off" "mem_map s' off = 0" for off
  proof -
    have "cached s' off" using I(4) that by (simp add: slots_but_def)
    then show ?thesis using swap_hash_find_spec [OF I(2)] by (auto simp: cached_def)
  qed
  ultimately show ?thesis using I(1,2,3) cache_inv_free [OF ok] lists_but_ok by blast
qed

definition fresh_memory :: mem_st where
  "fresh_memory = \<lparr>bud = small_zone, frame = (\<lambda>f _. of_nat f), mem_map = (\<lambda>_. SWAP_UNUSED), max_swap_offset = 0, active_list = [],
     nr_active = 0, inactive_list = [], nr_inactive = 0, swap_hash = (\<lambda>_. []), next_off = 1, disk = (\<lambda>_ _. 0), cr3_frame = 0, tlb = {}\<rparr>"

lemma small_zone_flags: "\<not> page_test PG_swap (pages small_zone p)" "\<not> page_test PG_reserved (pages small_zone p)"
  by (simp_all add: small_zone_def) (simp_all add: PG_swap_def PG_property_def)

lemma first_slot:
  assumes "next_off s = 1" "mem_map s 1 = SWAP_UNUSED" "max_swap_offset s = 1024" "\<not> PageSwap s p"
  shows "swap_page_add p 0 s \<noteq> Inr (False, t)"
proof -
  have "scan_entries 1 1 0 s = Some (2, 1, 0)" using assms(2,3) by (subst scan_entries.simps) simp
  then have "try_alloc_swap_entry s = Inr (entry_of 1, s\<lparr>next_off := 2\<rparr>)" by (simp add: try_alloc_swap_entry_def assms(1) [simplified])
  moreover have "entry_of 1 \<noteq> 0" using swap_offset_entry(2) [of 1 s] assms(3) by (simp add: MAX_SWAP_OFFSET_LIMIT_def)
  ultimately show ?thesis using assms(4) by (auto simp: swap_page_add_def res_simps)
qed

lemma fresh_memory_start:
  "boot_memory fresh_memory" "swap_init 1024 fresh_memory = Inr (fresh_memory\<lparr>max_swap_offset := 1024\<rparr>)"
  "held (fresh_memory\<lparr>max_swap_offset := 1024\<rparr>) 3" "\<not> PageSwap (fresh_memory\<lparr>max_swap_offset := 1024\<rparr>) 3"
proof -
  show "boot_memory fresh_memory"
    using small_zone_spec(1) small_zone_flags(1) by (simp add: boot_memory_def fresh_memory_def)
  show "swap_init 1024 fresh_memory = Inr (fresh_memory\<lparr>max_swap_offset := 1024\<rparr>)"
    by (simp add: swap_init_def fresh_memory_def MAX_SWAP_OFFSET_LIMIT_def cong: if_cong)
  show "held (fresh_memory\<lparr>max_swap_offset := 1024\<rparr>) 3"
    using small_zone_flags(2) by (simp add: held_iff fresh_memory_def small_zone_spec(2)) (simp add: small_zone_def)
  show "\<not> PageSwap (fresh_memory\<lparr>max_swap_offset := 1024\<rparr>) 3" using small_zone_flags(1) by (simp add: fresh_memory_def)
qed

theorem swap_cache_consistent_witness:
  "\<exists>s0 s'. swap_init 1024 fresh_memory = Inr s0 \<and> swap_steps s0 s' \<and> PageSwap s' 3 \<and> swap_lists_ok s'"
proof -
  let ?s0 = "fresh_memory\<lparr>max_swap_offset := 1024\<rparr>"
  note F = fresh_memory_start
  have "swap_page_add 3 0 ?s0 \<noteq> Inr (False, t)" for t
    by (rule first_slot [OF _ _ _ F(4)]) (simp_all add: fresh_memory_def)
  with page_add_new [OF swap_init_inv [OF F(1,2)] F(4,3)] obtain s1 s' where s': "swap_page_add 3 0 ?s0 = Inr (True, s1)"
    "swap_active_list_add 3 s1 = Inr s'" "PageSwap s' 3" by blast
  have "swap_steps ?s0 s'" using swap_steps.step [OF swap_steps.start swap_step.add [OF F(4,3) s'(1,2)]] .
  then show ?thesis using swap_cache_consistent [OF F(1,2)] F(2) s'(3) by blast
qed

text \<open>C22: \<open>page_launder\<close>, whatever the device answers, always returns, frees only inactive pages that nothing
  maps, returns how many, and loses nothing: every entry with references keeps their number and what
  it stands for, whether its page was written out, kept because the write failed, or freed because
  the disk had its contents already.\<close>

theorem launder_loses_nothing:
  assumes "cache_ok s" "counts_small s" "clean_on_disk s"
  shows "\<exists>n s'. page_launder wr s = Inr (n, s') \<and> cache_ok s' \<and> clean_on_disk s' \<and> keeps_contents s s' \<and>
    n = length (filter (\<lambda>p. \<not> PageSwap s' p) (inactive_list s)) \<and>
    (\<forall>p. PageSwap s p \<and> \<not> PageSwap s' p \<longrightarrow> p \<in> set (inactive_list s) \<and> page_ref p s = 0)"
  using page_launder_spec [OF assms(1,2), of wr] assms(3) by blast

text \<open>C23: contents go to the disk and come back: after \<open>page_launder\<close>, swapping in an entry with references
  gives, if memory and the device allow, a page with the contents the entry stood for before.\<close>

theorem swap_roundtrip:
  assumes "cache_ok s" "counts_small s" "clean_on_disk s"
    and "swap_slot s off" "mem_map s off \<noteq> 0" "mem_map s off \<noteq> SWAP_UNUSED"
  shows "\<exists>n s1 r page s2. page_launder wr s = Inr (n, s1) \<and> swap_in_page rd (\<lambda>t. t) (entry_of off) s1 = Inr (r, page, s2) \<and>
    cache_ok s2 \<and> (case page of Some p \<Rightarrow> r = 0 \<and> frame s2 p = swap_contents s off | None \<Rightarrow> r = - E_NO_MEM \<or> r = - E_SWAP_FAULT)"
proof -
  obtain n s1 where s1: "page_launder wr s = Inr (n, s1)" "cache_ok s1" "clean_on_disk s1" "keeps_contents s s1"
    using page_launder_spec [OF assms(1,2), of wr] assms(3) by blast
  then have o: "swap_slot s1 off" "mem_map s1 off \<noteq> SWAP_UNUSED" "swap_contents s1 off = swap_contents s off"
    using assms(4-6) by (simp_all add: keeps_contents_def)
  from swap_in_inv [OF s1(2) o(1,2), of rd] s1(1) o(3) show ?thesis by (fastforce split: option.splits)
qed

text \<open>A dirty inactive page whose entry has one reference.\<close>

definition one_inactive :: mem_st where
  "one_inactive = fresh_memory\<lparr>bud := upd_page 3 (\<lambda>g. page_set PG_dirty (page_set PG_swap g)\<lparr>pg_index := entry_of 1\<rparr>) small_zone,
     max_swap_offset := 1024, mem_map := (\<lambda>off. if off = 1 then 1 else SWAP_UNUSED), inactive_list := [3], nr_inactive := 1,
     swap_hash := (\<lambda>h. if h = entry_hashfn (entry_of 1) then [3] else [])\<rparr>"

lemma one_inactive_ok: "cache_ok one_inactive" "counts_small one_inactive" "clean_on_disk one_inactive" "mem_map one_inactive 1 = 1"
  "max_swap_offset one_inactive = 1024" "swap_contents one_inactive 1 = (\<lambda>_. 3)"
proof -
  let ?h = "\<lambda>g. page_set PG_dirty (page_set PG_swap g)\<lparr>pg_index := entry_of 1\<rparr>"
  have t: "page_test nr (g\<lparr>pg_index := i\<rparr>) = page_test nr g" for nr g i by (simp add: page_test_def)
  have n: "PG_dirty \<noteq> PG_property" "PG_dirty \<noteq> PG_reserved" "PG_swap \<noteq> PG_property" "PG_swap \<noteq> PG_reserved" "PG_dirty \<noteq> PG_active"
    by (simp_all add: PG_dirty_def PG_property_def PG_reserved_def PG_swap_def PG_active_def)
  have b: "bud one_inactive = upd_page 3 ?h small_zone" by (simp add: one_inactive_def)
  have q: "buddy_inv (bud one_inactive)" "same_zones small_zone (bud one_inactive)"
    unfolding b by (rule upd_page_quiet [OF small_zone_spec(1)]; use n in \<open>simp add: t\<close>)+
  have sw: "PageSwap one_inactive p \<longleftrightarrow> p = 3" "PageDirty one_inactive 3" "\<not> PageActive one_inactive 3" 
    "pg_index (pg one_inactive 3) = entry_of 1" for p
    using small_zone_flags(1) n unfolding b
    by (auto simp: t) (simp add: small_zone_def PG_active_def PG_property_def PG_swap_def PG_dirty_def)
  have c: "cached one_inactive off \<longleftrightarrow> entry_of off = entry_of 1" for off unfolding cached_def sw using sw(4) by auto
  have e: "entry_of off = entry_of 1 \<longleftrightarrow> off = 1" if "off < 1024" for off
    using entry_of_inj [of off 1] that by (simp add: MAX_SWAP_OFFSET_LIMIT_def)
  have m: "mem_map one_inactive off = (if off = 1 then 1 else SWAP_UNUSED)" "max_swap_offset one_inactive = 1024"
    "active_list one_inactive = []" "inactive_list one_inactive = [3]" "nr_active one_inactive = 0" "nr_inactive one_inactive = 1"
    "swap_hash one_inactive h = (if h = entry_hashfn (entry_of 1) then [3] else [])" "next_off one_inactive = 1" for off h
    by (simp_all add: one_inactive_def fresh_memory_def)
  have h: "held one_inactive 3" unfolding held_iff b upd_page_bfree small_zone_spec(2)
    using small_zone_flags(2) n by (simp add: t) (simp add: small_zone_def)
  have hash: "swap_hash_ok one_inactive" unfolding swap_hash_ok_def sw using m(7) sw(4) by auto
  have unu: "SWAP_UNUSED \<noteq> 0" "SWAP_UNUSED \<noteq> 1" by (simp_all add: SWAP_UNUSED_def)
  have "lists_but {} one_inactive" unfolding lists_but_def sw m using sw(3) by auto
  moreover have "slots_but {} one_inactive" unfolding slots_but_def m c using e unu by auto
  moreover have "\<exists>off. (0 < off \<and> off < 1024) \<and> pg_index (pg one_inactive 3) = entry_of off" using sw(4) by (intro exI [of _ 1]) simp
  ultimately show "cache_ok one_inactive"
    using q(1) hash h unfolding cache_inv_def sw m by (simp add: MAX_SWAP_OFFSET_LIMIT_def sw(4) [simplified])
  show "counts_small one_inactive" unfolding counts_small_def m using unu by (auto simp: MAX_SWAP_REF_def)
  show "clean_on_disk one_inactive" unfolding clean_on_disk_def sw using sw(2) by auto
  show "mem_map one_inactive 1 = 1" "max_swap_offset one_inactive = 1024" using m by simp_all
  have "PageSwap one_inactive 3" by (simp only: sw)
  from contents_cached [OF hash this sw(4)] show "swap_contents one_inactive 1 = (\<lambda>_. 3)"
    by (simp add: one_inactive_def fresh_memory_def)
qed

theorem launder_loses_nothing_witness:
  "\<exists>n s'. page_launder (\<lambda>_. 0) one_inactive = Inr (n, s') \<and> swap_contents s' 1 = (\<lambda>_. 3) \<and> mem_map s' 1 = 1"
  using launder_loses_nothing [OF one_inactive_ok(1-3), of "\<lambda>_. 0"] one_inactive_ok(4-6) by (auto simp: keeps_contents_def SWAP_UNUSED_def)

theorem swap_roundtrip_witness:
  "\<exists>n s1 r page s2. page_launder (\<lambda>_. 0) one_inactive = Inr (n, s1) \<and>
     swap_in_page (\<lambda>_. 0) (\<lambda>t. t) (entry_of 1) s1 = Inr (r, page, s2) \<and> (case page of Some p \<Rightarrow> frame s2 p = (\<lambda>_. 3) | None \<Rightarrow> r \<noteq> 0)"
proof -
  have "swap_slot one_inactive 1" "mem_map one_inactive 1 \<noteq> 0" "mem_map one_inactive 1 \<noteq> SWAP_UNUSED"
    using one_inactive_ok(4,5) by (simp_all add: SWAP_UNUSED_def)
  from swap_roundtrip [OF one_inactive_ok(1-3) this, of "\<lambda>_. 0" "\<lambda>_. 0"] show ?thesis
    unfolding one_inactive_ok(6) by (fastforce split: option.splits simp: E_NO_MEM_def E_SWAP_FAULT_def)
qed

end
