(* ===== verification/Swap_Out.thy ===== *)
theory Swap_Out
  imports Vmm_Props Swap_Cache
begin

text \<open>
  The daemon that makes room, the second half of \<open>kern/mm/swap.c\<close>: \<open>swap_out_vma\<close> and \<open>swap_out_mm\<close>
  take pages of an address space out of its page table into the swap cache, and one round of
  \<open>kswapd_main\<close> goes over the address spaces, writes pages out and frees them.  The daemon's own
  variables are the fields of \<open>kswapd_st\<close>; waking the waiting processes and sleeping, which follow a
  round that meets the demand, are what the result \<open>True\<close> stands for.
\<close>

section \<open>Operations\<close>

text \<open>A shared page whose last mapping goes: the object refers to the entry as well from now on.\<close>

definition swap_out_shared :: "vma_struct \<Rightarrow> 32 word \<Rightarrow> nat \<Rightarrow> 32 word \<Rightarrow> vm_st \<Rightarrow> vm_st res" where
  "swap_out_shared a addr page entry s =
     (if vm_flags a AND VM_SHARE \<noteq> 0 \<and> page_ref page (mem s) = 1 then
        let shmem_addr = addr - vm_start a + vm_shmem_off a
        in bindR (deref (vm_shmem a)) (\<lambda>h.
           bindR (shmem_get_entry h shmem_addr False s) (\<lambda>(sh_ptep, s1).
             case sh_ptep of
               None \<Rightarrow> Inl (Assertion ''sh_ptep != NULL && *sh_ptep != 0'')
             | Some e \<Rightarrow>
                 bindR (assertR (rd_entry e (mem s1) \<noteq> 0) ''sh_ptep != NULL && *sh_ptep != 0'') (\<lambda>_.
                   if rd_entry e (mem s1) AND PTE_P \<noteq> 0
                   then bindR (shmem_insert_entry h shmem_addr entry s1) (\<lambda>(_, s2). Inr s2) else Inr s1)))
      else Inr s)"

text \<open>The entry of a page in the cache takes the place of its mapping.\<close>

definition swap_out_entry :: "nat \<Rightarrow> 32 word \<Rightarrow> nat \<times> nat \<Rightarrow> nat \<Rightarrow> mem_st \<Rightarrow> (32 word \<times> mem_st) res" where
  "swap_out_entry pgdir addr ptep page s =
     (let entry = pg_index (pg s page)
      in bindR (swap_duplicate entry s) (\<lambda>s1.
           Inr (entry, tlb_invalidate pgdir addr (wr_entry ptep entry (snd (page_ref_dec page s1))))))"

text \<open>A present page that is not reserved: one that was accessed gets a second chance, one without an entry
  needs one.  \<open>None\<close> is the jump to the next address.\<close>

definition swap_out_cached :: "nat \<Rightarrow> 32 word \<Rightarrow> nat \<times> nat \<Rightarrow> nat \<Rightarrow> mem_st \<Rightarrow> (32 word option \<times> mem_st) res" where
  "swap_out_cached pgdir addr ptep page s =
     (if rd_entry ptep s AND PTE_A \<noteq> 0 then
        Inr (None, tlb_invalidate pgdir addr (wr_entry ptep (rd_entry ptep s AND NOT PTE_A) s))
      else if \<not> PageSwap s page then
        bindR (swap_page_add page 0 s) (\<lambda>(ok, s1).
          if \<not> ok then Inr (None, s1)
          else bindR (swap_active_list_add page s1) (\<lambda>s2.
               bindR (swap_out_entry pgdir addr ptep page s2) (\<lambda>(e, s3). Inr (Some e, s3))))
      else
        bindR (swap_out_entry pgdir addr ptep page (if rd_entry ptep s AND PTE_D \<noteq> 0 then upd_pg page (page_set PG_dirty) s else s))
          (\<lambda>(e, s1). Inr (Some e, s1)))"

definition swap_out_page :: "nat \<Rightarrow> vma_struct \<Rightarrow> 32 word \<Rightarrow> nat \<times> nat \<Rightarrow> vm_st \<Rightarrow> (bool \<times> vm_st) res" where
  "swap_out_page m a addr ptep s =
     bindR (pte2page (rd_entry ptep (mem s)) (mem s)) (\<lambda>page.
     bindR (assertR (\<not> PageReserved (bud (mem s)) page) ''!PageReserved(page)'') (\<lambda>_.
     bindR (on_mem_val (swap_out_cached (mm_pgdir (mms s m)) addr ptep page) s) (\<lambda>(entry, s1).
       case entry of
         None \<Rightarrow> Inr (False, s1)
       | Some e \<Rightarrow>
           bindR (swap_out_shared a addr page e (upd_mm m (\<lambda>d. d\<lparr>swap_address := addr + PGSIZE\<rparr>) s1)) (\<lambda>s2. Inr (True, s2)))))"

partial_function (option) swap_out_loop :: "nat \<Rightarrow> nat \<Rightarrow> 32 word \<Rightarrow> 32 word \<Rightarrow> 32 word \<Rightarrow> 32 word \<Rightarrow> vm_st \<Rightarrow> (32 word \<times> vm_st) res option" where
  "swap_out_loop m v addr stop require free_count s =
     (if addr < stop \<and> require \<noteq> 0 then
        (case get_pte (mm_pgdir (mms s m)) addr False (mem s) of
           Inl e \<Rightarrow> Some (Inl e)
         | Inr (None, t) \<Rightarrow> swap_out_loop m v (ROUNDDOWN (addr + PTSIZE) PTSIZE) stop require free_count (s\<lparr>mem := t\<rparr>)
         | Inr (Some ptep, t) \<Rightarrow>
             let s1 = s\<lparr>mem := t\<rparr>
             in (case (if rd_entry ptep t AND PTE_P \<noteq> 0 then swap_out_page m (vmas s v) addr ptep s1 else Inr (False, s1)) of
                   Inl e \<Rightarrow> Some (Inl e)
                 | Inr (out, s2) \<Rightarrow>
                     swap_out_loop m v (addr + PGSIZE) stop (if out then require - 1 else require)
                       (if out then free_count + 1 else free_count) s2))
      else Some (Inr (free_count, s)))"

definition swap_out_vma :: "nat \<Rightarrow> nat \<Rightarrow> 32 word \<Rightarrow> 32 word \<Rightarrow> vm_st \<Rightarrow> (32 word \<times> vm_st) res" where
  "swap_out_vma m v addr require s =
     (if require = 0 \<or> \<not> (addr \<ge> vm_start (vmas s v) \<and> addr < vm_end (vmas s v)) then Inr (0, s)
      else spinR (swap_out_loop m v (ROUNDDOWN addr PGSIZE) (ROUNDUP (vm_end (vmas s v)) PGSIZE) require 0 s))"

text \<open>The areas in turn from the one the last round stopped in, each once and the first again.  The
  argument is the number of areas still to visit; after the last area of the list comes the first.\<close>

fun swap_out_areas :: "nat \<Rightarrow> nat \<Rightarrow> nat \<Rightarrow> 32 word \<Rightarrow> 32 word \<Rightarrow> 32 word \<Rightarrow> vm_st \<Rightarrow> (32 word \<times> vm_st) res" where
  "swap_out_areas 0 m v addr require free_count s = Inr (free_count, s)"
| "swap_out_areas (Suc i) m v addr require free_count s =
     bindR (swap_out_vma m v addr require s) (\<lambda>(ret, s1).
       if require - ret = 0 then Inr (free_count + ret, s1)
       else bindR (deref (case next_in (mmap_list (mms s1 m)) v of Some u \<Rightarrow> Some u | None \<Rightarrow> first_of (mmap_list (mms s1 m)))) (\<lambda>u.
            swap_out_areas i m u (vm_start (vmas s1 u)) (require - ret) (free_count + ret) s1))"

definition swap_out_mm :: "nat \<Rightarrow> 32 word \<Rightarrow> vm_st \<Rightarrow> (32 word \<times> vm_st) res" where
  "swap_out_mm m require s =
     (if require = 0 \<or> map_count (mms s m) = 0 then Inr (0, s)
      else bindR (assertR (mmap_list (mms s m) \<noteq> []) ''!list_empty(&(mm->mmap_list))'') (\<lambda>_.
           let addr0 = swap_address (mms s m)
           in bindR (find_vma (Some m) addr0 s) (\<lambda>(vma, s1).
              let (first, addr, s2) = (case vma of
                    Some v \<Rightarrow> (Some v, addr0, s1)
                  | None \<Rightarrow> (first_of (mmap_list (mms s1 m)), 0, upd_mm m (\<lambda>d. d\<lparr>swap_address := 0\<rparr>) s1))
              in bindR (deref first) (\<lambda>v.
                 bindR (assertR (addr \<le> vm_end (vmas s2 v)) ''vma != NULL && addr <= vma->vm_end'') (\<lambda>_.
                   swap_out_areas (Suc (nat (map_count (mms s2 m)))) m v (max addr (vm_start (vmas s2 v))) require 0 s2)))))"

section \<open>The daemon\<close>

record kswapd_st =
  kvm :: vm_st
  pressure :: int
  guard :: int
  proc_mm_list :: "nat list"

text \<open>The inner loop: the first address space of the list goes to its end and gives up at most 32 pages.\<close>

fun kswapd_rounds :: "nat \<Rightarrow> int \<Rightarrow> kswapd_st \<Rightarrow> kswapd_st res" where
  "kswapd_rounds 0 needs k = Inr k"
| "kswapd_rounds (Suc rounds) needs k =
     (if needs > 0 then
        (case proc_mm_list k of
           [] \<Rightarrow> Inl (Assertion ''!list_empty(list)'')
         | m # ms \<Rightarrow>
             bindR (swap_out_mm m (word_of_int (if needs < 32 then needs else 32)) (kvm k)) (\<lambda>(ret, s1).
               kswapd_rounds rounds (needs - sint ret) (k\<lparr>kvm := s1, proc_mm_list := ms @ [m]\<rparr>)))
      else Inr k)"

text \<open>One turn of the endless loop; \<open>True\<close> is the turn that meets the demand, wakes the waiting processes and
  sleeps.  The warning after a thousand fruitless turns only prints.\<close>

definition kswapd_turn :: "(32 word \<Rightarrow> int) \<Rightarrow> kswapd_st \<Rightarrow> (bool \<times> kswapd_st) res" where
  "kswapd_turn wr k =
     bindR (if pressure k > 0 then
              bindR (chk32 (pressure k * 32)) (\<lambda>needs.
              bindR (assertR (proc_mm_list k \<noteq> []) ''!list_empty(list)'') (\<lambda>_. kswapd_rounds 16 needs k))
            else Inr k) (\<lambda>k1.
     bindR (page_launder wr (mem (kvm k1))) (\<lambda>(n, t).
     bindR (chk32 (pressure k1 - int n)) (\<lambda>p.
     bindR (refill_inactive_scan t) (\<lambda>t1.
       let k2 = k1\<lparr>kvm := (kvm k1)\<lparr>mem := t1\<rparr>, pressure := p\<rparr>
       in if p > 0 then Inr (False, k2\<lparr>guard := (if guard k2 + 1 \<ge> 1000 then 0 else guard k2 + 1)\<rparr>)
          else Inr (True, k2\<lparr>pressure := 0, guard := 0\<rparr>)))))"

section \<open>One page\<close>

lemma cache_inv_entry [kinv]:
  assumes "cache_inv X Y s"
  shows "cache_inv X Y (wr_entry e v s)" "cache_inv X Y (tlb_invalidate d la s)"
  using assms by (simp_all add: wr_entry_def tlb_invalidate_def cache_inv_other)

lemma entry_fields [simp]:
  "mem_map (wr_entry e v s) = mem_map s" "mem_map (tlb_invalidate d la s) = mem_map s" "bud (wr_entry e v s) = bud s"
  "bud (tlb_invalidate d la s) = bud s" "max_swap_offset (wr_entry e v s) = max_swap_offset s"
  "max_swap_offset (tlb_invalidate d la s) = max_swap_offset s"
  by (simp_all add: wr_entry_def tlb_invalidate_def)

lemma lookup_upd [simp]: "pt_lookup (upd_pg p f s) d x = pt_lookup s d x"
  by (rule lookup_cong) simp

text \<open>A reference moves from the page table to the entry.\<close>

definition moved_out :: "mem_st \<Rightarrow> nat \<Rightarrow> 32 word \<Rightarrow> nat \<Rightarrow> nat \<Rightarrow> mem_st \<Rightarrow> bool" where
  "moved_out s d la p off s' \<longleftrightarrow> cache_ok s' \<and> swap_slot s' off \<and> PageSwap s' p \<and> pg_index (pg s' p) = entry_of off \<and>
     (\<forall>x. pt_lookup s' d x = (if PPN x = PPN la then entry_of off else pt_lookup s d x)) \<and>
     pg_ref (pg s' p) = pg_ref (pg s p) - 1 \<and> frame s' p = frame s p"

lemma swap_out_entry_spec:
  assumes inv: "cache_ok s" and pt: "pt_shape s d" "entry_at s d la e" "fst e \<noteq> p"
    and p: "PageSwap s p" "swap_slot s off" "pg_index (pg s p) = entry_of off" "mem_map s off < MAX_SWAP_REF"
  shows "\<exists>s'. swap_out_entry d la e p s = Inr (entry_of off, s') \<and> moved_out s d la p off s' \<and> mem_map s' = (mem_map s)(off := mem_map s off + 1) \<and>
    PageDirty s' p = PageDirty s p"
proof -
  from duplicate_inv [OF inv slot_entry [OF inv p(2)] p(4)] obtain s1 where
    s1: "swap_duplicate (entry_of off) s = Inr s1" "cache_ok s1" "s1 = s\<lparr>mem_map := (mem_map s)(off := mem_map s off + 1)\<rparr>" by auto
  let ?t = "snd (page_ref_dec p s1)"
  let ?s = "tlb_invalidate d la (wr_entry e (entry_of off) ?t)"
  have fr: "frame ?t = frame s" by (simp add: s1(3))
  have lk: "pt_lookup ?s d x = (if PPN x = PPN la then entry_of off else pt_lookup s d x)" for x
    using wr_entry_lookup [of ?t d la e "entry_of off" x] pt(1,2) lookup_cong [of ?s "wr_entry e (entry_of off) ?t"] lookup_cong [OF fr]
    by (simp add: shape_cong [OF fr] entry_cong [OF fr])
  have flags: "PageSwap ?t q = PageSwap s q" "pg_index (pg ?t q) = pg_index (pg s q)" "PageDirty ?t q = PageDirty s q" for q
    by (simp_all add: page_ref_dec_def split_def s1(3), simp_all add: page_test_def)
  have "cache_ok ?s" by (intro cache_inv_entry cache_inv_refs s1(2))
  moreover have "frame ?s p = frame s p" using pt(3) by (simp add: wr_entry_def s1(3))
  moreover have "pg_ref (pg ?s p) = pg_ref (pg s p) - 1" by (simp add: page_ref_simps s1(3))
  moreover have "swap_out_entry d la e p s = Inr (entry_of off, ?s)" using s1(1) p(3) by (simp add: swap_out_entry_def)
  moreover have "mem_map ?s = (mem_map s)(off := mem_map s off + 1)" "max_swap_offset ?s = max_swap_offset s"
    by (simp_all add: page_ref_dec_def split_def s1(3))
  ultimately show ?thesis using p lk by (intro exI [of _ ?s]) (simp add: moved_out_def flags)
qed

lemma swap_out_cached_spec:
  assumes inv: "cache_ok s" and few: "counts_small s" and pt: "pt_shape s d" "entry_at s d la e" "fst e \<noteq> p" and p: "held s p"
    and acc: "rd_entry e s AND PTE_A = 0"
  shows "(\<exists>s'. swap_out_cached d la e p s = Inr (None, s') \<and> cache_ok s' \<and> frame s' = frame s \<and> \<not> PageSwap s p) \<or>
    (\<exists>off s'. swap_out_cached d la e p s = Inr (Some (entry_of off), s') \<and> moved_out s d la p off s' \<and>
      mem_map s' off = (if PageSwap s p then mem_map s off + 1 else 1) \<and>
      (\<not> PageSwap s p \<or> rd_entry e s AND PTE_D \<noteq> 0 \<or> PageDirty s p \<longrightarrow> PageDirty s' p))"
proof (cases "PageSwap s p")
  case False
  from page_add_new [OF inv False p] show ?thesis
  proof (elim disjE exE conjE)
    fix s' assume "swap_page_add p 0 s = Inr (False, s')" "cache_ok s'" "same_memory s s'"
    then show ?thesis using acc False by (simp add: swap_out_cached_def same_memory_def)
  next
    fix s1 s2 off assume a: "swap_page_add p 0 s = Inr (True, s1)" "swap_active_list_add p s1 = Inr s2" "cache_ok s2" "same_memory s s2"
      "PageSwap s2 p" "PageDirty s2 p" "0 < off" "off < max_swap_offset s2" "pg_index (pg s2 p) = entry_of off" "mem_map s2 off = 0"
      "pg_ref (pg s2 p) = pg_ref (pg s p)"
    have fr: "frame s2 = frame s" using a(4) by (simp add: same_memory_def)
    have "pt_shape s2 d" "entry_at s2 d la e" using pt by (simp_all add: shape_cong [OF fr] entry_cong [OF fr])
    moreover have "mem_map s2 off < MAX_SWAP_REF" using a(10) by (simp add: MAX_SWAP_REF_def)
    ultimately obtain s' where s': "swap_out_entry d la e p s2 = Inr (entry_of off, s')" "moved_out s2 d la p off s'"
      "mem_map s' = (mem_map s2)(off := mem_map s2 off + 1)" "PageDirty s' p = PageDirty s2 p"
      using swap_out_entry_spec [OF a(3) _ _ pt(3) a(5) conjI [OF a(7,8)] a(9)] by blast
    have "swap_out_cached d la e p s = Inr (Some (entry_of off), s')"
      using a(1,2) s'(1) acc False by (simp add: swap_out_cached_def)
    moreover have "moved_out s d la p off s'" using s'(2) a(11) by (simp add: moved_out_def fr lookup_cong [OF fr])
    ultimately show ?thesis using s'(3,4) a(6,10) False by auto
  qed
next
  case True
  obtain off where o: "swap_slot s off" "pg_index (pg s p) = entry_of off" using cache_entry [OF inv True] by metis
  have m: "mem_map s off < MAX_SWAP_REF" using few o(1) cached_count [OF inv True o] by (simp add: counts_small_def)
  let ?t = "if rd_entry e s AND PTE_D \<noteq> 0 then upd_pg p (page_set PG_dirty) s else s"
  have fr: "frame ?t = frame s" by simp
  have "cache_ok ?t" using inv by (simp add: cache_inv_harmless)
  moreover have "pt_shape ?t d" "entry_at ?t d la e" using pt by (simp_all add: shape_cong [OF fr] entry_cong [OF fr])
  moreover have "PageSwap ?t p" "swap_slot ?t off" "pg_index (pg ?t p) = entry_of off" "mem_map ?t off < MAX_SWAP_REF"
    using True o m by simp_all
  ultimately obtain s' where s': "swap_out_entry d la e p ?t = Inr (entry_of off, s')" "moved_out ?t d la p off s'"
    "mem_map s' = (mem_map ?t)(off := mem_map ?t off + 1)" "PageDirty s' p = PageDirty ?t p"
    using swap_out_entry_spec [OF _ _ _ pt(3)] by blast
  have "swap_out_cached d la e p s = Inr (Some (entry_of off), s')"
    using s'(1) acc True by (simp add: swap_out_cached_def)
  moreover have "moved_out s d la p off s'" using s'(2) by (simp add: moved_out_def fr lookup_cong [OF fr] split: if_splits)
  ultimately show ?thesis using s'(3,4) True by (intro disjI2 exI [of _ off] exI [of _ s']) auto
qed

section \<open>An area, an address space\<close>

text \<open>How often a loop has counted: at most as often as it was asked to.\<close>

definition within :: "32 word \<Rightarrow> 32 word \<Rightarrow> 32 word \<Rightarrow> bool" where
  "within n cnt req \<longleftrightarrow> unat n \<le> unat cnt + unat req"

lemma unat_dec: "w \<noteq> 0 \<Longrightarrow> unat (w - 1) = unat w - (1 :: nat)" for w :: "32 word"
  by (simp add: unat_minus_one)

lemma unat_inc_small: "unat c + 1 < 2 ^ 32 \<Longrightarrow> unat (c + 1) = unat c + (1 :: nat)" for c :: "32 word"
  by (simp add: unat_word_ariths(1))

lemma within_step:
  fixes cnt req :: "32 word"
  assumes "req \<noteq> 0" "unat cnt + unat req < 2 ^ 32"
  shows "unat (cnt + 1) + unat (req - 1) = unat cnt + unat req"
proof -
  have "0 < unat req" using assms(1) by (simp add: unat_gt_0)
  then show ?thesis using unat_inc_small [of cnt] unat_dec [OF assms(1)] assms(2) by linarith
qed

text \<open>One turn of the loop over an area: it ends, or goes on at a higher address, with the same sum of what was
  counted and what is still wanted.\<close>

lemma swap_out_loop_step:
  assumes a: "a mod PGSIZE = 0" "a < b" "b \<le> USERTOP" and req: "req \<noteq> 0" "unat cnt + unat req < 2 ^ 32"
  shows "(\<exists>f. swap_out_loop m v a b req cnt s = Some (Inl f)) \<or>
    (\<exists>nx req' cnt' t. swap_out_loop m v a b req cnt s = swap_out_loop m v nx b req' cnt' t \<and> nx mod PGSIZE = 0 \<and> PPN a < PPN nx \<and>
      unat cnt' + unat req' = unat cnt + unat req)"
proof -
  have au: "a < USERTOP" using a(2,3) by simp
  note unf = swap_out_loop.simps [of m v a b req cnt s]
  show ?thesis
  proof (cases "get_pte (mm_pgdir (mms s m)) a False (mem s)")
    case (Inl f)
    then show ?thesis unfolding unf using a(2) req(1) by simp
  next
    case (Inr rt)
    obtain r t where rt: "rt = (r, t)" by (cases rt)
    show ?thesis
    proof (cases r)
      case None
      let ?n = "ROUNDDOWN (a + PTSIZE) PTSIZE"
      have "PPN a < PPN ?n" unfolding next_table(2) [OF au] by (rule below_next_table)
      moreover have "swap_out_loop m v a b req cnt s = swap_out_loop m v ?n b req cnt (s\<lparr>mem := t\<rparr>)"
        unfolding unf using a(2) req(1) Inr rt None by simp
      ultimately show ?thesis using next_table(3) [OF au]
        by (intro disjI2 exI [of _ ?n] exI [of _ req] exI [of _ cnt] exI [of _ "s\<lparr>mem := t\<rparr>"]) simp
    next
      case (Some e)
      note n = next_page [OF a(1) au]
      let ?r = "if rd_entry e t AND PTE_P \<noteq> 0 then swap_out_page m (vmas s v) a e (s\<lparr>mem := t\<rparr>) else Inr (False, s\<lparr>mem := t\<rparr>)"
      show ?thesis
      proof (cases ?r)
        case (Inl f)
        then show ?thesis unfolding unf using a(2) req(1) Inr rt Some by simp
      next
        case r: (Inr ou)
        obtain out u where ou: "ou = (out, u)" by (cases ou)
        have e: "swap_out_loop m v a b req cnt s = swap_out_loop m v (a + PGSIZE) b (if out then req - 1 else req) (if out then cnt + 1 else cnt) u"
          unfolding unf using a(2) req(1) Inr rt Some r ou by simp
        have "unat (if out then cnt + 1 else cnt) + unat (if out then req - 1 else req) = unat cnt + unat req"
          using within_step [OF req] by simp
        moreover have "PPN a < PPN (a + PGSIZE)" by (simp add: n(1))
        ultimately show ?thesis using e n(2)
          by (intro disjI2 exI [of _ "a + PGSIZE"] exI [of _ "if out then req - 1 else req"] exI [of _ "if out then cnt + 1 else cnt"]
              exI [of _ u] conjI)
      qed
    qed
  qed
qed

lemma swap_out_loop_ends:
  assumes "a mod PGSIZE = 0" "b mod PGSIZE = 0" "b \<le> USERTOP" "unat cnt + unat req < 2 ^ 32" "k = PPN b - PPN a"
  shows "\<exists>r. swap_out_loop m v a b req cnt s = Some r \<and> (\<forall>n s'. r = Inr (n, s') \<longrightarrow> within n cnt req)"
  using assms
proof (induction k arbitrary: a req cnt s rule: less_induct)
  case (less k)
  show ?case
  proof (cases "a < b \<and> req \<noteq> 0")
    case False
    then show ?thesis by (subst swap_out_loop.simps) (auto simp: within_def)
  next
    case True
    then have ab: "PPN a < PPN b" using page_numbers(3) [OF less.prems(2)] by blast
    from swap_out_loop_step [OF less.prems(1) conjunct1 [OF True] less.prems(3) conjunct2 [OF True] less.prems(4), of m v s] show ?thesis
    proof (elim disjE exE conjE)
      fix nx req' cnt' t
      assume t: "swap_out_loop m v a b req cnt s = swap_out_loop m v nx b req' cnt' t" "nx mod PGSIZE = 0" "PPN a < PPN nx"
        "unat cnt' + unat req' = unat cnt + unat req"
      have "PPN b - PPN nx < k" using t(3) ab less.prems(5) by simp
      moreover have "unat cnt' + unat req' < 2 ^ 32" using t(4) less.prems(4) by simp
      ultimately show ?thesis using less.IH [OF _ t(2) less.prems(2,3) _ refl, of cnt' req' t] t(1,4) by (simp add: within_def)
    qed simp
  qed
qed

section \<open>Properties\<close>


text \<open>Frame 3 is mapped and written at 0x1000.\<close>

definition mapped_memory :: mem_st where
  "mapped_memory = fresh_memory\<lparr>max_swap_offset := 1024,
     frame := (\<lambda>f i. if f = 0 \<and> i = 0 then 0x2007 else if f = 2 \<and> i = 1 then 0x3047 else 0)\<rparr>"




end
