(* ===== verification/Mem_Calls.thy ===== *)
theory Mem_Calls
  imports Vmm_Props Cstring
begin

text \<open>
  The system calls on the address space of a process in \<open>kern/process/proc.c\<close>: \<open>do_brk\<close>, \<open>do_mmap\<close>,
  \<open>do_munmap\<close> and \<open>do_shmem\<close>.  \<open>mm\<close> is the address space of the current process, \<open>um\<close> the memory as the
  kernel addresses it, and \<open>loc\<close> the place of the local variable on the kernel stack that the
  argument is copied to.  Accesses to the memory are to checked addresses; that they may take a page
  fault first is not part of the model.
\<close>

section \<open>Words in memory\<close>

definition load32 :: "Cstring.mem \<Rightarrow> 32 word \<Rightarrow> 32 word" where
  "load32 um a = (let p = unat a in ucast (um p) OR push_bit 8 (ucast (um (p + 1))) OR
     push_bit 16 (ucast (um (p + 2))) OR push_bit 24 (ucast (um (p + 3))))"

definition store32 :: "32 word \<Rightarrow> 32 word \<Rightarrow> Cstring.mem \<Rightarrow> Cstring.mem" where
  "store32 a w um = (let p = unat a in um(p := ucast w, p + 1 := ucast (drop_bit 8 w),
     p + 2 := ucast (drop_bit 16 w), p + 3 := ucast (drop_bit 24 w)))"

lemma load_store [simp]: "load32 (store32 a w um) a = w"
proof (rule bit_word_eqI)
  fix n assume "n < LENGTH(32)"
  then consider "n < 8" | "8 \<le> n" "n < 16" | "16 \<le> n" "n < 24" | "24 \<le> n" "n < 32" by (simp add: not_less [symmetric]) linarith
  then show "bit (load32 (store32 a w um) a) n = bit w n"
    by cases (auto simp: load32_def store32_def bit_simps)
qed

lemma load_copied:
  assumes "unat src + 4 \<le> unat dst \<or> unat dst + 4 \<le> unat src"
  shows "load32 (memcpy (unat dst) (unat src) 4 um) dst = load32 um src"
proof -
  have "memcpy (unat dst) (unat src) 4 um (unat dst + i) = um (unat src + i)" if "i < 4" for i
    unfolding memcpy_def using assms that by (intro copy_up_inside) auto
  from this [of 0] this [of 1] this [of 2] this [of 3] show ?thesis by (simp add: load32_def)
qed

section \<open>The system calls\<close>

definition set_brk :: "nat \<Rightarrow> 32 word \<Rightarrow> vm_st \<Rightarrow> vm_st" where
  "set_brk m b s = upd_mm m (\<lambda>d. d\<lparr>brk := b\<rparr>) s"

text \<open>The part of \<open>do_brk\<close> up to \<open>out_unlock\<close>: the break moves, or it stays for any failure.\<close>

definition move_brk :: "nat \<Rightarrow> 32 word \<Rightarrow> vm_st \<Rightarrow> vm_st res" where
  "move_brk m b s =
     (if b < brk_start (mms s m) then Inr s
      else let newbrk = ROUNDUP b PGSIZE; oldbrk = brk (mms s m)
           in bindR (assertR (oldbrk mod PGSIZE = 0) ''oldbrk % PGSIZE == 0'') (\<lambda>_.
              if newbrk = oldbrk then Inr s
              else if newbrk < oldbrk then
                bindR (mm_unmap (Some m) newbrk (oldbrk - newbrk) s) (\<lambda>(ret, s1).
                  if ret \<noteq> 0 then Inr s1 else Inr (set_brk m newbrk s1))
              else
                bindR (find_vma_intersection (Some m) oldbrk (newbrk + PGSIZE) s) (\<lambda>(vma, s1).
                  if vma \<noteq> None then Inr s1
                  else bindR (mm_brk m oldbrk (newbrk - oldbrk) s1) (\<lambda>(ret, s2).
                    if ret \<noteq> 0 then Inr s2 else Inr (set_brk m newbrk s2)))))"

definition do_brk :: "(vm_st \<Rightarrow> vm_st) \<Rightarrow> int option \<Rightarrow> nat option \<Rightarrow> 32 word \<Rightarrow> 32 word \<Rightarrow> Cstring.mem \<Rightarrow> vm_st \<Rightarrow> (int \<times> Cstring.mem \<times> vm_st) res" where
  "do_brk sch cur mm loc brk_store um s =
     (case mm of
        None \<Rightarrow> Inl (Panic ''kernel thread call sys_brk!!.'')
      | Some m \<Rightarrow>
          if brk_store = 0 then Inr (- E_INVAL, um, s)
          else bindR (lock_mm sch cur mm s) (\<lambda>s1.
               bindR (copy_from_user mm loc brk_store 4 True um s1) (\<lambda>(ok, um1, s2).
                 if \<not> ok then bindR (unlock_mm mm s2) (\<lambda>s3. Inr (- E_INVAL, um1, s3))
                 else bindR (move_brk m (load32 um1 loc) s2) (\<lambda>s3.
                      let um2 = store32 brk_store (brk (mms s3 m)) um1
                      in bindR (unlock_mm mm s3) (\<lambda>s4. Inr (0, um2, s4))))))"

definition MMAP_WRITE :: "32 word" where "MMAP_WRITE = 0x100"
definition MMAP_STACK :: "32 word" where "MMAP_STACK = 0x200"

definition mmap_vm_flags :: "32 word \<Rightarrow> 32 word" where
  "mmap_vm_flags mmap_flags =
     (let f1 = VM_READ; f2 = (if mmap_flags AND MMAP_WRITE \<noteq> 0 then f1 OR VM_WRITE else f1)
      in if mmap_flags AND MMAP_STACK \<noteq> 0 then f2 OR VM_STACK else f2)"

text \<open>The frame \<open>do_mmap\<close> and \<open>do_shmem\<close> share: the argument is read under the lock, rounded to pages, and a range
  is chosen when none is given; \<open>body\<close> maps the range.\<close>

definition with_range :: "(vm_st \<Rightarrow> vm_st) \<Rightarrow> int option \<Rightarrow> nat option \<Rightarrow> 32 word \<Rightarrow> 32 word \<Rightarrow> 32 word \<Rightarrow> Cstring.mem \<Rightarrow>
    (nat \<Rightarrow> 32 word \<Rightarrow> 32 word \<Rightarrow> vm_st \<Rightarrow> (int \<times> vm_st) res) \<Rightarrow> vm_st \<Rightarrow> (int \<times> Cstring.mem \<times> vm_st) res" where
  "with_range sch cur mm loc addr_store len0 um body s =
     (case mm of
        None \<Rightarrow> Inl (Panic ''kernel thread call mmap!!.'')
      | Some m \<Rightarrow>
          if addr_store = 0 \<or> len0 = 0 then Inr (- E_INVAL, um, s)
          else bindR (lock_mm sch cur mm s) (\<lambda>s1.
               bindR (copy_from_user mm loc addr_store 4 True um s1) (\<lambda>(ok, um1, s2).
               bindR (if \<not> ok then Inr (- E_INVAL, um1, s2)
                      else let addr0 = load32 um1 loc; start = ROUNDDOWN addr0 PGSIZE;
                               stop = ROUNDUP (addr0 + len0) PGSIZE; len = stop - start;
                               addr = (if start = 0 then get_unmapped_area m len s2 else start)
                           in if addr = 0 then Inr (- E_NO_MEM, um1, s2)
                              else bindR (body m addr len s2) (\<lambda>(ret, s3).
                                Inr (ret, if ret = 0 then store32 addr_store addr um1 else um1, s3))) (\<lambda>(ret, um2, s3).
               bindR (unlock_mm mm s3) (\<lambda>s4. Inr (ret, um2, s4))))))"

definition do_mmap :: "(vm_st \<Rightarrow> vm_st) \<Rightarrow> int option \<Rightarrow> nat option \<Rightarrow> 32 word \<Rightarrow> 32 word \<Rightarrow> 32 word \<Rightarrow> 32 word \<Rightarrow> Cstring.mem \<Rightarrow> vm_st \<Rightarrow> (int \<times> Cstring.mem \<times> vm_st) res" where
  "do_mmap sch cur mm loc addr_store len mmap_flags um s =
     with_range sch cur mm loc addr_store len um
       (\<lambda>m addr len s. bindR (mm_map (Some m) addr len (mmap_vm_flags mmap_flags) s) (\<lambda>(ret, _, s1). Inr (ret, s1))) s"

definition do_munmap :: "(vm_st \<Rightarrow> vm_st) \<Rightarrow> int option \<Rightarrow> nat option \<Rightarrow> 32 word \<Rightarrow> 32 word \<Rightarrow> vm_st \<Rightarrow> (int \<times> vm_st) res" where
  "do_munmap sch cur mm addr len s =
     (case mm of
        None \<Rightarrow> Inl (Panic ''kernel thread call munmap!!.'')
      | Some m \<Rightarrow>
          if len = 0 then Inr (- E_INVAL, s)
          else bindR (lock_mm sch cur mm s) (\<lambda>s1.
               bindR (mm_unmap mm addr len s1) (\<lambda>(ret, s2).
               bindR (unlock_mm mm s2) (\<lambda>s3. Inr (ret, s3)))))"

definition shmem_map :: "32 word \<Rightarrow> nat \<Rightarrow> 32 word \<Rightarrow> 32 word \<Rightarrow> vm_st \<Rightarrow> (int \<times> vm_st) res" where
  "shmem_map flags m addr len s =
     (case shmem_create len s of
        (None, s1) \<Rightarrow> Inr (- E_NO_MEM, s1)
      | (Some h, s1) \<Rightarrow>
          bindR (mm_map_shmem (Some m) addr flags (Some h) s1) (\<lambda>(ret, _, s2).
            if ret \<noteq> 0 then
              bindR (assertR (atomic_read (sh_ref (shmems s2 h)) = 0) ''shmem_ref(shmem) == 0'') (\<lambda>_.
              bindR (shmem_destroy h s2) (\<lambda>s3. Inr (ret, s3)))
            else Inr (0, s2)))"

definition do_shmem :: "(vm_st \<Rightarrow> vm_st) \<Rightarrow> int option \<Rightarrow> nat option \<Rightarrow> 32 word \<Rightarrow> 32 word \<Rightarrow> 32 word \<Rightarrow> 32 word \<Rightarrow> Cstring.mem \<Rightarrow> vm_st \<Rightarrow> (int \<times> Cstring.mem \<times> vm_st) res" where
  "do_shmem sch cur mm loc addr_store len mmap_flags um s =
     with_range sch cur mm loc addr_store len um (shmem_map (mmap_vm_flags mmap_flags)) s"

section \<open>What the operations on areas leave alone\<close>

text \<open>The directory, the counters, the lock and the break of every address space.\<close>

definition fixed_of :: "mm_struct \<Rightarrow> nat \<times> 32 word \<times> 32 word \<times> 32 word \<times> int \<times> 32 word \<times> 32 word" where
  "fixed_of d = (mm_pgdir d, swap_address d, mm_count d, mm_lock d, locked_by d, brk_start d, brk d)"

definition same_spaces :: "vm_st \<Rightarrow> vm_st \<Rightarrow> bool" where
  "same_spaces s s' = (\<forall>k. fixed_of (mms s' k) = fixed_of (mms s k))"

named_theorems same

lemma same_refl [same]: "same_spaces s s"
  by (simp add: same_spaces_def)

lemma same_mms: "mms s' = mms s \<Longrightarrow> same_spaces s s'"
  by (simp add: same_spaces_def)

lemma same_trans: "same_spaces s t \<Longrightarrow> same_spaces t u \<Longrightarrow> same_spaces s u"
  by (simp add: same_spaces_def)

lemma same_fields:
  assumes "same_spaces s s'"
  shows "mm_pgdir (mms s' k) = mm_pgdir (mms s k)" "mm_lock (mms s' k) = mm_lock (mms s k)" "brk (mms s' k) = brk (mms s k)"
    "brk_start (mms s' k) = brk_start (mms s k)" "mm_count (mms s' k) = mm_count (mms s k)"
  using assms by (auto simp: same_spaces_def fixed_of_def)

lemma same_upd_mm [same]: "(\<And>d. fixed_of (f d) = fixed_of d) \<Longrightarrow> same_spaces s (upd_mm m f s)"
  by (simp add: same_spaces_def upd_mm_def)

lemma same_upd_vma [same]: "same_spaces s (upd_vma v f s)" "same_spaces s (upd_shmem h g s)" "same_spaces s (kfree p s)"
  by (simp_all add: same_mms upd_vma_def upd_shmem_def kfree_def)

lemma same_on_mem [same]: "on_mem f s = Inr s' \<Longrightarrow> same_spaces s s'" "on_mem_val g s = Inr (v, s') \<Longrightarrow> same_spaces s s'"
  by (auto simp: on_mem_def on_mem_val_def same_mms bindR_eq_Inr)

lemma same_vma_create [same]: "vma_create a b fl s = (v, s') \<Longrightarrow> same_spaces s s'"
  by (auto simp: vma_create_def kmalloc_def same_mms upd_vma_def split: list.splits option.splits)

lemma same_find_vma [same]: "find_vma mm x s = Inr (v, s') \<Longrightarrow> same_spaces s s'"
  by (auto simp: find_vma_def bindR_eq_Inr fixed_of_def intro!: same_refl same_upd_mm split: option.splits)

lemma same_vma_resize [same]: "vma_resize v a b s = Inr s' \<Longrightarrow> same_spaces s s'"
  by (auto simp: vma_resize_def bindR_eq_Inr intro!: same_upd_vma)

lemma same_insert_rb [same]: "insert_vma_rb t v s = Inr s' \<Longrightarrow> same_spaces s s'"
  by (auto simp: insert_vma_rb_def bindR_eq_Inr same_mms)

lemma same_insert_vmas_rb [same]: "insert_vmas_rb t vs s = Inr s' \<Longrightarrow> same_spaces s s'"
  by (induction vs arbitrary: s) (auto simp: bindR_eq_Inr intro: same same_trans)

lemma same_build_tree [same]: "build_vma_tree m s = Inr s' \<Longrightarrow> same_spaces s s'"
proof -
  assume b: "build_vma_tree m s = Inr s'"
  obtain tree pool st where c: "rb_tree_create (kpool s) (rbs s) = (tree, pool, st)" by (cases "rb_tree_create (kpool s) (rbs s)") auto
  let ?s1 = "s\<lparr>kpool := pool, rbs := st\<rparr>"
  have "same_spaces s ?s1" by (simp add: same_mms)
  moreover have "same_spaces ?s1 s'"
  proof (cases tree)
    case None
    then show ?thesis using b c by (simp add: build_vma_tree_def same_refl)
  next
    case (Some t)
    then have "insert_vmas_rb t (mmap_list (mms ?s1 m)) (upd_mm m (\<lambda>d. d\<lparr>mmap_tree := Some t\<rparr>) ?s1) = Inr s'"
      using b c by (simp add: build_vma_tree_def)
    from same_trans [OF same_upd_mm same_insert_vmas_rb [OF this]] show ?thesis by (simp add: fixed_of_def)
  qed
  ultimately show ?thesis by (rule same_trans)
qed

lemma same_insert_vma [same]: "insert_vma_struct m v s = Inr s' \<Longrightarrow> same_spaces s s'"
proof -
  assume ins: "insert_vma_struct m v s = Inr s'"
  obtain prev s1 where p: "(case mmap_tree (mms s m) of
      Some t \<Rightarrow> bindR (insert_vma_rb t v s) (\<lambda>s1. bindR (vma_prev_rb t v s1) (\<lambda>prev. Inr (prev, s1)))
    | None \<Rightarrow> Inr (find_prev_vma (vmas s) (vm_start (vmas s v)) (mmap_list (mms s m)) None, s)) = Inr (prev, s1)"
    using ins by (auto simp: insert_vma_struct_def bindR_eq_Inr)
  then have 1: "same_spaces s s1" by (auto simp: bindR_eq_Inr intro: same split: option.splits)
  obtain count where c: "chk32 (map_count (mms s1 m) + 1) = Inr count"
    using ins p by (auto simp: insert_vma_struct_def bindR_eq_Inr)
  let ?s3 = "upd_mm m (\<lambda>d. d\<lparr>mmap_list := insert_after prev v (mmap_list d), map_count := count\<rparr>) (upd_vma v (\<lambda>a. a\<lparr>vm_mm := m\<rparr>) s1)"
  have 3: "same_spaces s1 ?s3" by (rule same_trans [OF same_upd_vma(1) same_upd_mm]) (simp add: fixed_of_def)
  have "build_vma_tree m ?s3 = Inr s' \<or> s' = ?s3"
    using ins p c by (auto simp: insert_vma_struct_def bindR_eq_Inr split: if_splits)
  then have "same_spaces ?s3 s'" using same_build_tree [of m ?s3 s'] same_refl by blast
  with 1 3 show ?thesis by (blast intro: same_trans)
qed

lemma same_remove_vma [same]: "remove_vma_struct m v s = Inr s' \<Longrightarrow> same_spaces s s'"
  by (auto simp: remove_vma_struct_def bindR_eq_Inr fixed_of_def intro!: same_trans [OF same_mms same_upd_mm] split: option.splits)

lemma shmns_destroy_mms: "shmns_destroy l s = Inr s' \<Longrightarrow> mms s' = mms s"
  by (induction l arbitrary: s) (auto simp: shmn_destroy_def bindR_eq_Inr on_mem_def kfree_def)

lemma same_vma_destroy [same]: "vma_destroy v s = Inr s' \<Longrightarrow> same_spaces s s'"
  by (rule same_mms)
    (auto simp: vma_destroy_def bindR_eq_Inr shmem_ref_dec_def shmem_destroy_def kfree_def upd_shmem_def split_def
      split: if_splits dest!: shmns_destroy_mms)

lemma same_unmap_collect [same]: "unmap_collect m stop vs free s = Inr (l, s') \<Longrightarrow> same_spaces s s'"
  by (induction vs arbitrary: free s) (auto simp: bindR_eq_Inr intro: same same_trans split: if_splits)

lemma same_unmap_one [same]: "unmap_one m a b v s = Inr s' \<Longrightarrow> same_spaces s s'"
  unfolding unmap_one_def Let_def
  by (auto simp: bindR_eq_Inr split: if_splits
      intro: same_trans [OF same_vma_resize same_trans [OF same_insert_vma same_on_mem(1)]] same_trans [OF same_vma_destroy same_on_mem(1)])

lemma same_unmap_each [same]: "unmap_each m a b vs s = Inr s' \<Longrightarrow> same_spaces s s'"
  by (induction vs arbitrary: s) (auto simp: bindR_eq_Inr intro: same same_trans)

lemma same_unmap_rest [same]:
  assumes "bindR (unmap_collect m b l [] s) (\<lambda>(free, s2). bindR (unmap_each m a b free s2) (\<lambda>s3. Inr (0, s3))) = Inr (ret, s')"
  shows "same_spaces s s'"
  using assms by (auto simp: bindR_eq_Inr intro: same_trans [OF same_unmap_collect same_unmap_each])

lemma same_unmap_middle [same]:
  assumes "bindR (vma_resize v b e s) (\<lambda>s3. bindR (insert_vma_struct m nv s3) (\<lambda>s4.
    bindR (on_mem (unmap_range (mm_pgdir (mms s4 m)) a b) s4) (\<lambda>s5. Inr (0, s5)))) = Inr (ret, s')"
  shows "same_spaces s s'"
  using assms by (auto simp: bindR_eq_Inr intro: same_trans [OF same_vma_resize same_trans [OF same_insert_vma same_on_mem(1)]])

lemma same_mm_unmap [same]:
  assumes "mm_unmap mm addr len s = Inr (ret, s')"
  shows "same_spaces s s'"
proof -
  let ?a = "ROUNDDOWN addr PGSIZE" and ?b = "ROUNDUP (addr + len) PGSIZE"
  consider "s' = s" | m vma s1 where "mm = Some m" "USER_ACCESS ?a ?b" "find_vma (Some m) ?a s = Inr (vma, s1)"
    using assms by (cases "USER_ACCESS ?a ?b") (auto simp: mm_unmap_def bindR_eq_Inr deref_Inr)
  then show ?thesis
  proof cases
    case 2
    have s1: "same_spaces s s1" by (rule same_find_vma [OF 2(3)])
    consider "s' = s1" | v s2 nv where "vma_create (vm_start (vmas s1 v)) ?a (vm_flags (vmas s1 v)) s1 = (None, s2)" "s' = s2"
      | v s2 nv where "vma_create (vm_start (vmas s1 v)) ?a (vm_flags (vmas s1 v)) s1 = (Some nv, s2)"
        "bindR (vma_resize v ?b (vm_end (vmas s1 v)) s2) (\<lambda>s3. bindR (insert_vma_struct m nv s3) (\<lambda>s4.
          bindR (on_mem (unmap_range (mm_pgdir (mms s4 m)) ?a ?b) s4) (\<lambda>s5. Inr (0, s5)))) = Inr (ret, s')"
      | l where "bindR (unmap_collect m ?b l [] s1) (\<lambda>(free, s2). bindR (unmap_each m ?a ?b free s2) (\<lambda>s3. Inr (0, s3))) = Inr (ret, s')"
      using assms 2 by (simp add: mm_unmap_def split: option.splits prod.splits if_splits)
    then have "same_spaces s1 s'"
      by cases (auto intro: same_refl same_vma_create same_trans [OF same_vma_create same_unmap_middle] same_unmap_rest)
    with s1 show ?thesis by (rule same_trans)
  qed (simp add: same_refl)
qed

section \<open>Moving the break\<close>

lemma page_aligned_round:
  assumes "x mod PGSIZE = 0"
  shows "ROUNDDOWN x PGSIZE = x" "ROUNDUP x PGSIZE = x"
proof -
  have "unat (x mod PGSIZE) = 0" by (simp only: assms unat_0)
  then have m: "unat x mod 4096 = 0" by (simp add: PGSIZE_def unat_mod_distrib)
  then have "unat x div 4096 * 4096 = unat x" by (simp only: dvd_div_mult_self mod_0_imp_dvd)
  then have "unat (ROUNDDOWN x PGSIZE) = unat x" by (simp only: unat_ROUNDDOWN_page)
  then show "ROUNDDOWN x PGSIZE = x" by (simp add: word_unat_eq_iff)
  obtain k where k: "unat x = 4096 * k" using mod_0_imp_dvd [OF m] by (rule dvdE)
  have "unat x < 4294967296" by (rule unat_bounds)
  then have "k < 1048576" by (simp add: k)
  then have "unat x + 4095 < 4294967296" using k by linarith
  then have "unat (x + PGSIZE - 1) = unat x + 4095" by (simp add: PGSIZE_def unat_word_ariths)
  then have "unat (ROUNDDOWN (x + PGSIZE - 1) PGSIZE) = (unat x + 4095) div 4096 * 4096" by (simp only: unat_ROUNDDOWN_page)
  also have "\<dots> = unat x" by (simp add: k)
  finally show "ROUNDUP x PGSIZE = x" by (simp add: ROUNDUP_def word_unat_eq_iff)
qed

lemma mm_unmap_free:
  assumes "mm_ok s m" "range_free s m a b" "USER_ACCESS a b" "a mod PGSIZE = 0" "b mod PGSIZE = 0"
  shows "mm_unmap (Some m) a (b - a) s = Inr (0, cache_vma m (find_vma_list (vmas s) a (mmap_list (mms s m))) s)"
proof -
  have ab: "a < b" using assms(3) by (simp add: USER_ACCESS_def)
  have r: "ROUNDDOWN a PGSIZE = a" "ROUNDUP b PGSIZE = b" using page_aligned_round assms(4,5) by simp_all
  show ?thesis
    using range_free_find [OF assms(1) ab] find_vma_spec [OF assms(1), of a] assms(2,3)
    by (auto simp: mm_unmap_def r deref_def split: option.splits)
qed

text \<open>An area that ends where a free range begins takes the range in.\<close>

definition grow_vma :: "nat \<Rightarrow> 32 word \<Rightarrow> vm_st \<Rightarrow> vm_st" where
  "grow_vma v b s = upd_vma v (\<lambda>x. x\<lparr>vm_end := b\<rparr>) s"

lemma grow_vma_simps [simp]:
  "mms (grow_vma v b s) = mms s" "mem (grow_vma v b s) = mem s" "kpool (grow_vma v b s) = kpool s"
  "vm_start (vmas (grow_vma v b s) u) = vm_start (vmas s u)" "vm_flags (vmas (grow_vma v b s) u) = vm_flags (vmas s u)"
  "vm_mm (vmas (grow_vma v b s) u) = vm_mm (vmas s u)" "use_of (vmas (grow_vma v b s) u) x = use_of (vmas s u) x"
  "vm_end (vmas (grow_vma v b s) u) = (if u = v then b else vm_end (vmas s u))"
  by (simp_all add: grow_vma_def upd_vma_def use_of_def)

lemma grow_vma_ok:
  assumes ok: "mm_ok s m" and v: "v \<in> set (mmap_list (mms s m))" "vm_end (vmas s v) = a"
    and b: "USER_ACCESS a b" "b mod PGSIZE = 0" and free: "range_free s m a b"
    and fl: "vm_flags (vmas s v) AND VM_SHARE = 0"
  shows "mm_ok (grow_vma v b s) m"
    "space (grow_vma v b s) m x = (if a \<le> x \<and> x < b then Some (vm_flags (vmas s v), None) else space s m x)"
proof -
  let ?l = "mmap_list (mms s m)" and ?s = "grow_vma v b s"
  have ab: "a < b" "b \<le> USERTOP" using b by (simp_all add: USER_ACCESS_def)
  note areas = mm_okD(1) [OF ok]
  obtain us ws where l: "?l = us @ v # ws" using v(1) by (auto simp: in_set_conv_decomp)
  have d: "distinct ?l" by (rule areas_ok_distinct [OF areas])
  have above: "b \<le> vm_start (vmas s w)" if w: "w \<in> set ws" for w
  proof (rule ccontr)
    assume "\<not> ?thesis"
    moreover have "a \<le> vm_start (vmas s w)" using areas w v(2) unfolding l areas_ok_append by auto
    moreover have "vm_start (vmas s w) < vm_end (vmas s w)" by (rule areas_ok_mem [OF areas]) (simp add: l w)
    then have "space s m (vm_start (vmas s w)) \<noteq> None" unfolding space_None using l w by (auto simp: covers_def)
    ultimately show False using free by (auto simp: range_free_def not_le)
  qed
  have lt: "vm_start (vmas s v) < a" using areas_ok_mem [OF areas v(1)] v(2) by simp
  have nv: "v \<notin> set us" "v \<notin> set ws" using d l by auto
  have "areas_ok (vmas ?s) us = areas_ok (vmas s) us" by (rule areas_ok_cong) (use nv in auto)
  moreover have "areas_ok (vmas ?s) ws = areas_ok (vmas s) ws" by (rule areas_ok_cong) (use nv in auto)
  ultimately have ar': "areas_ok (vmas ?s) ?l"
    using areas above lt ab(1) nv unfolding l areas_ok_append by (auto intro: less_trans)
  have "user_area (vmas ?s u)" if "u \<in> set ?l" for u
    using mm_okD(7) [OF ok that] ab b(2) by (auto simp: user_area_def)
  then show "mm_ok ?s m" using ok ar' by (auto simp: mm_ok_def)
  show "space ?s m x = (if a \<le> x \<and> x < b then Some (vm_flags (vmas s v), None) else space s m x)"
  proof (cases "a \<le> x \<and> x < b")
    case True
    then have "covers (vmas ?s v) x" using lt by (auto simp: covers_def)
    then have "space ?s m x = Some (use_of (vmas ?s v) x)" using ar' v(1) by (intro space_Some) simp_all
    then show ?thesis using True fl by (simp add: use_of_def)
  next
    case False
    have "covers (vmas ?s u) x = covers (vmas s u) x" for u
      using False v(2) ab by (auto simp: covers_def not_le not_less)
    moreover have "use_of (vmas ?s u) = use_of (vmas s u)" for u by (rule ext) simp
    ultimately have "space ?s m x = space s m x" by (simp add: space_def)
    with False show ?thesis by (simp only: if_False)
  qed
qed

abbreviation heap_use :: addr_use where
  "heap_use \<equiv> (VM_READ OR VM_WRITE, None)"

lemma heap_flags: "(VM_READ OR VM_WRITE) AND VM_SHARE = 0"
  by (simp add: VM_READ_def VM_WRITE_def VM_SHARE_def)

definition gains :: "vm_st \<Rightarrow> nat \<Rightarrow> 32 word \<Rightarrow> 32 word \<Rightarrow> addr_use \<Rightarrow> vm_st \<Rightarrow> bool" where
  "gains s m a b u s' = (\<forall>x. space s' m x = (if a \<le> x \<and> x < b then Some u else space s m x))"

lemma mm_brk_spec:
  assumes ok: "mm_ok s m" and free: "range_free s m a b" and ua: "USER_ACCESS a b" and al: "a mod PGSIZE = 0" "b mod PGSIZE = 0"
    and few: "length (mmap_list (mms s m)) < 31"
  shows "\<exists>ret s'. mm_brk m a (b - a) s = Inr (ret, s') \<and> mm_ok s' m \<and> mem s' = mem s \<and> same_spaces s s' \<and>
    length (mmap_list (mms s' m)) \<le> Suc (length (mmap_list (mms s m))) \<and> (ret = 0 \<and> gains s m a b heap_use s' \<or> ret = - E_NO_MEM \<and> kpool s = [] \<and> space s' m = space s m)"
proof -
  let ?l = "mmap_list (mms s m)"
  let ?s1 = "cache_vma m (find_vma_list (vmas s) a ?l) s"
  let ?f = "find_vma_list (vmas s) (a - 1) ?l"
  let ?s2 = "cache_vma m ?f ?s1"
  let ?create = "case vma_create a b (VM_READ OR VM_WRITE) ?s2 of (None, s3) \<Rightarrow> Inr (- E_NO_MEM, s3)
    | (Some nv, s3) \<Rightarrow> bindR (insert_vma_struct m nv s3) (\<lambda>s4. Inr (0, s4))"
  have k1: "mm_ok ?s1 m" by (rule cache_vma_ok [OF ok find_vma_list_mem])
  have k2: "mm_ok ?s2 m" by (rule cache_vma_ok [OF k1]) (simp add: find_vma_list_mem)
  have r: "ROUNDDOWN a PGSIZE = a" "ROUNDUP b PGSIZE = b" using page_aligned_round al by simp_all
  have fr2: "range_free ?s2 m a b" "length (mmap_list (mms ?s2 m)) < 31" using free few by (simp_all add: range_free_def)
  have sm: "same_spaces s ?s2"
    by (rule same_trans [of _ ?s1]) (auto simp: cache_vma_def fixed_of_def intro: same_refl same_upd_mm split: option.split)
  have e: "mm_brk m a (b - a) s = (case ?f of None \<Rightarrow> ?create
    | Some v \<Rightarrow> if vm_end (vmas s v) = a \<and> vm_flags (vmas s v) = VM_READ OR VM_WRITE then Inr (0, grow_vma v b ?s2) else ?create)"
    using find_vma_spec [OF k1, of "a - 1"] mm_unmap_free [OF ok free ua al] ua
    by (cases ?f) (simp_all add: mm_brk_def r grow_vma_def)
  show ?thesis
  proof (cases "\<exists>v. ?f = Some v \<and> vm_end (vmas s v) = a \<and> vm_flags (vmas s v) = VM_READ OR VM_WRITE")
    case True
    then obtain v where v: "?f = Some v" "vm_end (vmas s v) = a" "vm_flags (vmas s v) = VM_READ OR VM_WRITE" by blast
    then have vl: "v \<in> set (mmap_list (mms ?s2 m))" by (simp add: find_vma_list_mem)
    have fl: "vm_flags (vmas ?s2 v) AND VM_SHARE = 0" using v(3) heap_flags by simp
    have ve: "vm_end (vmas ?s2 v) = a" using v(2) by simp
    note g = grow_vma_ok [OF k2 vl ve ua al(2) fr2(1) fl]
    have "gains s m a b heap_use (grow_vma v b ?s2)" unfolding gains_def using g(2) v(3) by simp
    moreover have "same_spaces s (grow_vma v b ?s2)" by (rule same_trans [OF sm same_mms]) simp
    moreover have "mmap_list (mms (grow_vma v b ?s2) m) = mmap_list (mms s m)" by simp
    ultimately show ?thesis using e v g(1) by simp
  next
    case False
    then have e': "mm_brk m a (b - a) s = ?create" using e by (auto split: option.split)
    show ?thesis
    proof (cases "kpool s")
      case Nil
      then show ?thesis using e' k2 sm by (simp add: vma_create_eq)
    next
      case (Cons nv ps)
      then have p: "kpool ?s2 = nv # ps" by simp
      obtain s' where s': "insert_vma_struct m nv (new_vma a b (VM_READ OR VM_WRITE) nv ps ?s2) = Inr s'" "mm_ok s' m" "mem s' = mem ?s2"
        "length (mmap_list (mms s' m)) = Suc (length (mmap_list (mms ?s2 m)))"
        "\<And>x. space s' m x = (if a \<le> x \<and> x < b then Some (VM_READ OR VM_WRITE, if (VM_READ OR VM_WRITE) AND VM_SHARE \<noteq> 0 then Some (None, x - a) else None) else space ?s2 m x)"
        by (rule insert_new_vma [OF k2 p ua al fr2, of "VM_READ OR VM_WRITE"]) (rule that; assumption)
      have "same_spaces s s'" by (rule same_trans [OF sm same_trans [OF same_mms same_insert_vma [OF s'(1)]]]) simp
      moreover have "gains s m a b heap_use s'" using s'(5) heap_flags by (simp add: gains_def)
      ultimately show ?thesis using e' p s' by (simp add: vma_create_eq)
    qed
  qed
qed

text \<open>Looking areas up changes nothing but which area is remembered.\<close>

definition only_cached :: "vm_st \<Rightarrow> vm_st \<Rightarrow> bool" where
  "only_cached s s' = (same_spaces s s' \<and> vmas s' = vmas s \<and> mem s' = mem s \<and> kpool s' = kpool s \<and> shmems s' = shmems s \<and>
     (\<forall>k. mmap_list (mms s' k) = mmap_list (mms s k)))"

lemma only_cached_refl: "only_cached s s"
  by (simp add: only_cached_def same_refl)

lemma only_cached_trans: "only_cached s t \<Longrightarrow> only_cached t u \<Longrightarrow> only_cached s u"
  using same_trans by (auto simp: only_cached_def)

lemma find_vma_only_cached: "find_vma mm x s = Inr (v, s') \<Longrightarrow> only_cached s s'"
  using same_find_vma [of mm x s v s']
  by (auto simp: only_cached_def find_vma_def bindR_eq_Inr upd_mm_def split: option.splits)

lemma user_check_only_cached:
  assumes "user_check_loop m start stop write s = Some (Inr (ok, s'))"
  shows "only_cached s s'"
proof -
  have "r = Inr (ok, s') \<longrightarrow> only_cached s s'" if "user_check_loop m start stop write s = Some r" for r
  proof (rule user_check_loop.raw_induct [of "\<lambda>m start stop write s r. r = Inr (ok, s') \<longrightarrow> only_cached s s'", OF _ that])
    fix f :: "nat \<Rightarrow> 32 word \<Rightarrow> 32 word \<Rightarrow> bool \<Rightarrow> vm_st \<Rightarrow> (bool \<times> vm_st) res option" and m start stop "write" s r
    assume 1: "\<And>m a b w s r. f m a b w s = Some r \<Longrightarrow> r = Inr (ok, s') \<longrightarrow> only_cached s s'"
      "(if start < stop
        then case find_vma (Some m) start s of Inl e \<Rightarrow> Some (Inl e)
          | Inr (vma, s1) \<Rightarrow>
             (case vma of
                None \<Rightarrow> Some (Inr (False, s1))
              | Some v \<Rightarrow>
                  if start < vm_start (vmas s1 v) then Some (Inr (False, s1))
                  else if vm_flags (vmas s1 v) AND (if write then VM_WRITE else VM_READ) = 0 then Some (Inr (False, s1))
                  else if write \<and> vm_flags (vmas s1 v) AND VM_STACK \<noteq> 0 \<and> start < vm_start (vmas s1 v) + PGSIZE
                    then Some (Inr (False, s1))
                  else f m (vm_end (vmas s1 v)) stop write s1)
        else Some (Inr (True, s))) = Some r"
    show "r = Inr (ok, s') \<longrightarrow> only_cached s s'"
    proof
      assume r: "r = Inr (ok, s')"
      show "only_cached s s'"
      proof (cases "start < stop")
        case True
        then obtain vma s1 where f: "find_vma (Some m) start s = Inr (vma, s1)"
          using 1(2) r by (auto split: sum.splits prod.splits)
        then have "s' = s1 \<or> (\<exists>a. f m a stop write s1 = Some (Inr (ok, s')))"
          using 1(2) r True by (auto split: option.splits if_splits)
        then have "only_cached s1 s'" using 1(1) only_cached_refl by blast
        with find_vma_only_cached [OF f] show ?thesis by (rule only_cached_trans)
      qed (use 1(2) r in \<open>simp add: only_cached_refl\<close>)
    qed
  qed
  with assms show ?thesis by blast
qed

lemma copy_word_from_user:
  assumes ok: "mm_ok s m" and ua: "USER_ACCESS p (p + 4)" and far: "unat p + 4 \<le> unat loc"
  obtains ok s' where "copy_from_user (Some m) loc p 4 True um s = Inr (ok, if ok then memcpy (unat loc) (unat p) 4 um else um, s')"
    "mm_ok s' m" "space s' m = space s m" "only_cached s s'" "ok \<Longrightarrow> load32 (memcpy (unat loc) (unat p) 4 um) loc = load32 um p"
    "\<forall>x. p \<le> x \<and> x < p + 4 \<longrightarrow> permits s m True x \<and> \<not> stack_at s m x \<Longrightarrow> ok"
proof -
  obtain ok s' where "user_check_loop m p (p + 4) True s = Some (Inr (ok, s'))" "mm_ok s' m" "space s' m = space s m"
    "(\<forall>x. p \<le> x \<and> x < p + 4 \<longrightarrow> permits s m True x \<and> \<not> (True \<and> stack_at s m x)) \<longrightarrow> ok"
    using user_check_spec [OF assms(1), of p "p + 4" True] by blast
  with ua far show thesis
    by (intro that [of ok s']) (auto simp: copy_from_user_def user_mem_check_def spinR_def load_copied user_check_only_cached)
qed

lemma set_brk_simps [simp]:
  "brk (mms (set_brk m b s) k) = (if k = m then b else brk (mms s k))" "brk_start (mms (set_brk m b s) k) = brk_start (mms s k)"
  "mem (set_brk m b s) = mem s" "vmas (set_brk m b s) = vmas s" "kpool (set_brk m b s) = kpool s" "space (set_brk m b s) = space s"
  "mm_ok (set_brk m b s) k = mm_ok s k" "vm_ok (set_brk m b s) k = vm_ok s k" "mm_pgdir (mms (set_brk m b s) k) = mm_pgdir (mms s k)"
  "mm_lock (mms (set_brk m b s) k) = mm_lock (mms s k)" "mmap_list (mms (set_brk m b s) k) = mmap_list (mms s k)"
  by (simp_all add: set_brk_def upd_mm_def space_def mm_ok_def vm_ok_def fun_eq_iff)

text \<open>The heap of a process lies between the start of the break and the break.\<close>

definition heap_ok :: "vm_st \<Rightarrow> nat \<Rightarrow> bool" where
  "heap_ok s m = (USERBASE \<le> brk_start (mms s m) \<and> brk_start (mms s m) \<le> brk (mms s m) \<and> brk (mms s m) \<le> USERTOP \<and>
     brk (mms s m) mod PGSIZE = 0 \<and> (\<forall>x. brk_start (mms s m) \<le> x \<and> x < brk (mms s m) \<longrightarrow> space s m x = Some heap_use))"

definition brk_moved :: "vm_st \<Rightarrow> nat \<Rightarrow> 32 word \<Rightarrow> vm_st \<Rightarrow> bool" where
  "brk_moved s m b s' = (let old = brk (mms s m); new = brk (mms s' m)
     in vm_ok s' m \<and> heap_ok s' m \<and> (new = old \<or> new = b) \<and> mm_lock (mms s' m) = mm_lock (mms s m) \<and>
        brk_start (mms s' m) = brk_start (mms s m) \<and>
        (\<forall>x. space s' m x = (if old \<le> x \<and> x < new then Some heap_use else if new \<le> x \<and> x < old then None else space s m x)))"

text \<open>A request that can be met: the new break is in user space, a page beyond it is free, and there is memory for
  an area.\<close>

definition brk_possible :: "vm_st \<Rightarrow> nat \<Rightarrow> 32 word \<Rightarrow> bool" where
  "brk_possible s m r = (let b = ROUNDUP r PGSIZE; old = brk (mms s m)
     in brk_start (mms s m) \<le> r \<and> r \<le> b \<and> b \<le> USERTOP \<and> kpool s \<noteq> [] \<and> (old < b \<longrightarrow> range_free s m old (b + PGSIZE)))"

lemma brk_stays:
  assumes "vm_ok s' m" "heap_ok s m" "same_spaces s s'" "space s' m = space s m"
  shows "brk_moved s m b s'"
  using assms same_fields [OF assms(3)] by (auto simp: brk_moved_def heap_ok_def)

lemma ROUNDUP_wraps:
  fixes r :: "32 word"
  shows "r \<le> ROUNDUP r PGSIZE \<or> ROUNDUP r PGSIZE = 0"
proof (cases "unat r + 4095 < 4294967296")
  case True
  then have "unat (r + PGSIZE - 1) = unat r + 4095" by (simp add: PGSIZE_def unat_word_ariths)
  then have "unat (ROUNDUP r PGSIZE) = (unat r + 4095) div 4096 * 4096" by (simp add: ROUNDUP_def unat_ROUNDDOWN_page)
  moreover have "unat r \<le> (unat r + 4095) div 4096 * 4096" using div_mult_mod_eq [of "unat r + 4095" 4096] mod_less_divisor [of 4096 "unat r + 4095"] by linarith
  ultimately show ?thesis by (simp add: word_le_nat_alt)
next
  case False
  have "unat r < 4294967296" by (rule unat_bounds)
  with False have "unat (r + PGSIZE - 1) = unat r + 4095 - 4294967296"
    by (simp add: PGSIZE_def unat_word_ariths le_mod_geq)
  then have "unat (ROUNDUP r PGSIZE) = (unat r + 4095 - 4294967296) div 4096 * 4096" by (simp add: ROUNDUP_def unat_ROUNDDOWN_page)
  also have "\<dots> = 0" using \<open>unat r < 4294967296\<close> by simp
  finally show ?thesis by (simp add: unat_eq_0)
qed

lemma shrink_brk:
  assumes ok: "vm_ok s m" "heap_ok s m" and few: "length (mmap_list (mms s m)) < 31"
    and b: "b mod PGSIZE = 0" "brk_start (mms s m) \<le> b" "b < brk (mms s m)"
  defines "r \<equiv> bindR (mm_unmap (Some m) b (brk (mms s m) - b) s) (\<lambda>(ret, s1). if ret \<noteq> 0 then Inr s1 else Inr (set_brk m b s1))"
  shows "(\<exists>e. r = Inl e \<and> bad_entry (pgdir_of s m) e) \<or>
    (\<exists>s'. r = Inr s' \<and> brk_moved s m b s' \<and> (kpool s \<noteq> [] \<longrightarrow> brk (mms s' m) = b))"
proof -
  let ?old = "brk (mms s m)"
  have h: "?old mod PGSIZE = 0" "USERBASE \<le> b" "?old \<le> USERTOP" "\<And>x. brk_start (mms s m) \<le> x \<Longrightarrow> x < ?old \<Longrightarrow> space s m x = Some heap_use"
    using ok(2) b by (auto simp: heap_ok_def)
  have rd: "ROUNDDOWN b PGSIZE = b" "ROUNDUP (b + (?old - b)) PGSIZE = ?old" using page_aligned_round b(1) h(1) by simp_all
  have ua: "USER_ACCESS b ?old" using h b by (simp add: USER_ACCESS_def)
  have un: "unshared s m b ?old" using h(4) b(2) by (auto simp: unshared_def dest: order_trans)
  from mm_unmap_spec [OF ok(1) few, of b "?old - b"] un ua
  consider e where "mm_unmap (Some m) b (?old - b) s = Inl e" "bad_entry (pgdir_of s m) e"
    | s1 where "mm_unmap (Some m) b (?old - b) s = Inr (0, s1)" "range_cleared s m b ?old s1"
    | s1 where "mm_unmap (Some m) b (?old - b) s = Inr (- E_NO_MEM, s1)" "kpool s = []" "vm_ok s1 m" "space s1 = space s"
    unfolding rd by auto
  then show ?thesis
  proof cases
    case 1
    then show ?thesis by (simp add: r_def)
  next
    case 2
    have sm: "brk_start (mms s1 m) = brk_start (mms s m)" "mm_lock (mms s1 m) = mm_lock (mms s m)"
      using same_fields [OF same_mm_unmap [OF 2(1)]] by simp_all
    have sp: "space s1 m x = (if b \<le> x \<and> x < ?old then None else space s m x)" for x using 2(2) by (simp add: range_cleared_def)
    have "vm_ok s1 m" using 2(2) by (simp add: range_cleared_def)
    moreover have "heap_ok (set_brk m b s1) m"
      using h b ok(2) sp by (auto simp: heap_ok_def sm dest: less_trans)
    ultimately have "brk_moved s m b (set_brk m b s1)" using sp b(3) by (auto simp: brk_moved_def sm)
    then show ?thesis using 2(1) by (simp add: r_def)
  next
    case 3
    have "brk_moved s m b s1" by (rule brk_stays [OF 3(3) ok(2) same_mm_unmap [OF 3(1)]]) (simp add: 3(4))
    then show ?thesis using 3 by (simp add: r_def E_NO_MEM_def)
  qed
qed

lemma grow_brk:
  assumes ok: "vm_ok s m" "heap_ok s m" and few: "length (mmap_list (mms s m)) < 31"
    and b: "b mod PGSIZE = 0" "brk (mms s m) < b"
  defines "r \<equiv> bindR (find_vma_intersection (Some m) (brk (mms s m)) (b + PGSIZE) s) (\<lambda>(vma, s1).
    if vma \<noteq> None then Inr s1
    else bindR (mm_brk m (brk (mms s m)) (b - brk (mms s m)) s1) (\<lambda>(ret, s2). if ret \<noteq> 0 then Inr s2 else Inr (set_brk m b s2)))"
  shows "\<exists>s'. r = Inr s' \<and> brk_moved s m b s' \<and> length (mmap_list (mms s' m)) \<le> Suc (length (mmap_list (mms s m))) \<and>
    (b \<le> USERTOP \<and> kpool s \<noteq> [] \<and> range_free s m (brk (mms s m)) (b + PGSIZE) \<longrightarrow> brk (mms s' m) = b)"
proof -
  let ?old = "brk (mms s m)" and ?f = "find_vma_list (vmas s) (brk (mms s m)) (mmap_list (mms s m))"
  let ?s1 = "cache_vma m ?f s"
  have mm: "mm_ok s m" using ok(1) by (simp add: vm_ok_def)
  have h: "?old mod PGSIZE = 0" "USERBASE \<le> ?old" "brk_start (mms s m) \<le> ?old"
    "\<And>x. brk_start (mms s m) \<le> x \<Longrightarrow> x < ?old \<Longrightarrow> space s m x = Some heap_use"
    using ok(2) by (auto simp: heap_ok_def)
  have k1: "vm_ok ?s1 m" by (rule vm_ok_cache(1) [OF ok(1)]) (rule find_vma_list_mem)
  have c: "find_vma (Some m) ?old s = Inr (?f, ?s1)" by (rule find_vma_spec [OF mm])
  note s1 = find_vma_only_cached [OF c]
  have sm1: "same_spaces s ?s1" using s1 by (simp add: only_cached_def)
  have stay: "brk_moved s m b ?s1" by (rule brk_stays [OF k1 ok(2) sm1]) simp
  have i: "find_vma_intersection (Some m) ?old (b + PGSIZE) s =
      Inr (case ?f of None \<Rightarrow> None | Some v \<Rightarrow> if b + PGSIZE \<le> vm_start (vmas s v) then None else Some v, ?s1)"
    using c by (simp add: find_vma_intersection_def split: option.split)
  have br: "brk (mms ?s1 m) = ?old" using same_fields [OF sm1] by simp
  show ?thesis
  proof (cases "b \<le> USERTOP")
    case False
    then have "\<not> USER_ACCESS ?old b" by (simp add: USER_ACCESS_def)
    then have "mm_brk m ?old (b - ?old) ?s1 = Inr (- E_INVAL, ?s1)"
      using page_aligned_round [OF b(1)] page_aligned_round [OF h(1)] by (simp add: mm_brk_def)
    then have "r = Inr ?s1" using i by (simp add: r_def E_INVAL_def)
    with stay False show ?thesis by (intro exI [of _ ?s1]) simp
  next
    case top: True
    then have "unat (b + PGSIZE) = unat b + 4096" by (simp add: USERTOP_def PGSIZE_def word_le_nat_alt unat_word_ariths)
    then have lt: "?old < b + PGSIZE" "b \<le> b + PGSIZE" using b(2) by (simp_all add: word_less_nat_alt word_le_nat_alt)
    have ua: "USER_ACCESS ?old b" using top h b(2) by (simp add: USER_ACCESS_def)
    note ff = range_free_find [OF mm lt(1)]
    show ?thesis
    proof (cases "range_free s m ?old (b + PGSIZE)")
      case False
      then have "r = Inr ?s1" using i ff by (auto simp: r_def split: option.splits)
      with stay False show ?thesis by (intro exI [of _ ?s1]) simp
    next
      case True
      then have fr: "range_free ?s1 m ?old b" using lt(2) by (auto simp: range_free_def dest: less_le_trans)
      have mm1: "mm_ok ?s1 m" using k1 by (simp add: vm_ok_def)
      obtain ret s2 where s2: "mm_brk m ?old (b - ?old) ?s1 = Inr (ret, s2)" "mm_ok s2 m" "mem s2 = mem ?s1" "same_spaces ?s1 s2"
        "length (mmap_list (mms s2 m)) \<le> Suc (length (mmap_list (mms ?s1 m)))" "ret = 0 \<and> gains ?s1 m ?old b heap_use s2 \<or> ret = - E_NO_MEM \<and> kpool ?s1 = [] \<and> space s2 m = space ?s1 m"
        using mm_brk_spec [OF mm1 fr ua h(1) b(1)] few by auto
      have r: "r = (if ret \<noteq> 0 then Inr s2 else Inr (set_brk m b s2))" using i ff True s2(1) by (auto simp: r_def split: option.splits)
      have sm: "same_spaces s s2" by (rule same_trans [OF sm1 s2(4)])
      note eq = same_fields [OF sm]
      have vm: "vm_ok s2 m" using k1 s2(2,3) same_fields(1) [OF s2(4)] by (simp add: vm_ok_def)
      show ?thesis
      proof (cases "ret = 0")
        case True
        then have sp: "space s2 m x = (if ?old \<le> x \<and> x < b then Some heap_use else space s m x)" for x
          using s2(6) by (simp add: gains_def E_NO_MEM_def)
        have "heap_ok (set_brk m b s2) m"
          using h b top ok(2) sp eq by (auto simp: heap_ok_def dest: le_less_trans)
        then have "brk_moved s m b (set_brk m b s2)" using vm sp b(2) eq by (auto simp: brk_moved_def)
        then show ?thesis using r True s2(5) by simp
      next
        case False
        then have "brk_moved s m b s2" using s2(6) by (intro brk_stays [OF vm ok(2) sm]) simp
        then show ?thesis using r False s2(5,6) by simp
      qed
    qed
  qed
qed

lemma move_brk_spec:
  assumes ok: "vm_ok s m" "heap_ok s m" and few: "length (mmap_list (mms s m)) < 31"
  shows "(\<exists>e. move_brk m r s = Inl e \<and> bad_entry (pgdir_of s m) e \<and> brk_start (mms s m) \<le> r \<and> ROUNDUP r PGSIZE < brk (mms s m)) \<or>
    (\<exists>s'. move_brk m r s = Inr s' \<and> brk_moved s m (ROUNDUP r PGSIZE) s' \<and>
      (r < brk_start (mms s m) \<or> brk (mms s m) < ROUNDUP r PGSIZE \<longrightarrow> length (mmap_list (mms s' m)) \<le> Suc (length (mmap_list (mms s m)))) \<and>
      (r < brk_start (mms s m) \<longrightarrow> brk (mms s' m) = brk (mms s m)) \<and>
      (brk_possible s m r \<longrightarrow> brk (mms s' m) = ROUNDUP r PGSIZE))"
proof -
  let ?b = "ROUNDUP r PGSIZE" and ?old = "brk (mms s m)"
  have al: "?old mod PGSIZE = 0" "?b mod PGSIZE = 0" using ok(2) by (simp_all add: heap_ok_def ROUND_page)
  have stay: "brk_moved s m ?b s" by (rule brk_stays [OF ok same_refl refl])
  consider "r < brk_start (mms s m)" | "brk_start (mms s m) \<le> r" "?b = ?old" | "brk_start (mms s m) \<le> r" "?b < ?old" | "brk_start (mms s m) \<le> r" "?old < ?b"
    by (meson linorder_neqE not_less)
  then show ?thesis
  proof cases
    case 1
    then show ?thesis using stay by (auto simp: move_brk_def brk_possible_def)
  next
    case 2
    then show ?thesis using stay al by (auto simp: move_brk_def)
  next
    case 3
    show ?thesis
    proof (cases "r \<le> ?b")
      case True
      then have bs: "brk_start (mms s m) \<le> ?b" using 3(1) by simp
      from shrink_brk [OF ok few al(2) bs 3(2)] show ?thesis
        using 3 al by (auto simp: move_brk_def brk_possible_def not_less)
    next
      case False
      then have z: "?b = 0" using ROUNDUP_wraps [of r] by simp
      have "mm_unmap (Some m) ?b (?old - ?b) s = Inr (- E_INVAL, s)"
        using page_aligned_round [OF al(1)] page_aligned_round [OF al(2)] by (simp add: mm_unmap_def z USER_ACCESS_def USERBASE_def)
      then show ?thesis using 3 al False stay by (auto simp: move_brk_def brk_possible_def E_INVAL_def not_less)
    qed
  next
    case 4
    from grow_brk [OF ok few al(2) 4(2)] show ?thesis
      using 4 al by (auto simp: move_brk_def brk_possible_def not_less)
  qed
qed

section \<open>The calls under the lock\<close>

lemma lock_free_mm: "mm_lock (mms s m) = 0 \<Longrightarrow> lock_mm sch cur (Some m) s = Inr (locked_state cur m s)"
  by (subst lock_mm_def, subst lock_loop.simps) (simp add: free_lock locked_state_def)

lemma locked_state_more [simp]:
  "brk (mms (locked_state cur m s) k) = brk (mms s k)" "brk_start (mms (locked_state cur m s) k) = brk_start (mms s k)"
  "vm_ok (locked_state cur m s) k = vm_ok s k" "heap_ok (locked_state cur m s) k = heap_ok s k"
  "brk_possible (locked_state cur m s) k r = brk_possible s k r" "range_free (locked_state cur m s) k = range_free s k"
  "permits (locked_state cur m s) k = permits s k" "stack_at (locked_state cur m s) k = stack_at s k"
proof -
  show b: "brk (mms (locked_state cur m s) k) = brk (mms s k)" "brk_start (mms (locked_state cur m s) k) = brk_start (mms s k)" for k
    by (simp_all add: locked_state_def note_locker_def upd_mm_def split: option.split)
  show "vm_ok (locked_state cur m s) k = vm_ok s k" by (simp add: vm_ok_def)
  show r: "range_free (locked_state cur m s) k = range_free s k" by (simp add: range_free_def fun_eq_iff)
  show "heap_ok (locked_state cur m s) k = heap_ok s k" "brk_possible (locked_state cur m s) k r = brk_possible s k r"
    by (simp_all add: heap_ok_def brk_possible_def b r)
  show "permits (locked_state cur m s) k = permits s k" "stack_at (locked_state cur m s) k = stack_at s k"
    by (simp_all add: permits_def stack_at_def fun_eq_iff)
qed

lemma released_more [simp]:
  "brk (mms (released m s) k) = brk (mms s k)" "brk_start (mms (released m s) k) = brk_start (mms s k)"
  "vm_ok (released m s) k = vm_ok s k" "heap_ok (released m s) k = heap_ok s k"
  by (simp_all add: released_def upd_mm_def vm_ok_def heap_ok_def mm_ok_def space_def fun_eq_iff)


text \<open>What a state is allowed to differ in after the argument of a call has been read under the lock.\<close>

lemma after_copy:
  assumes ok: "vm_ok s m" and free: "mm_lock (mms s m) = 0" and p: "USER_ACCESS p (p + 4)" "unat p + 4 \<le> unat loc"
    and acc: "\<forall>x. p \<le> x \<and> x < p + 4 \<longrightarrow> permits s m True x \<and> \<not> stack_at s m x"
  obtains s2 um1 where "copy_from_user (Some m) loc p 4 True um (locked_state cur m s) = Inr (True, um1, s2)" "load32 um1 loc = load32 um p"
    "vm_ok s2 m" "heap_ok s2 m = heap_ok s m" "space s2 m = space s m" "mmap_list (mms s2 m) = mmap_list (mms s m)" "vmas s2 = vmas s"
    "mm_lock (mms s2 m) = 1" "brk (mms s2 m) = brk (mms s m)" "brk_start (mms s2 m) = brk_start (mms s m)" "kpool s2 = kpool s"
    "pgdir_of s2 m = pgdir_of s m" "mem s2 = mem s" "mapped_at s2 m = mapped_at s m"
proof -
  let ?s = "locked_state cur m s"
  have mm: "mm_ok ?s m" using ok by (simp add: vm_ok_def)
  obtain ok' s2 where c: "copy_from_user (Some m) loc p 4 True um ?s = Inr (ok', if ok' then memcpy (unat loc) (unat p) 4 um else um, s2)"
    "mm_ok s2 m" "space s2 m = space ?s m" "only_cached ?s s2" "ok' \<Longrightarrow> load32 (memcpy (unat loc) (unat p) 4 um) loc = load32 um p"
    "\<forall>x. p \<le> x \<and> x < p + 4 \<longrightarrow> permits ?s m True x \<and> \<not> stack_at ?s m x \<Longrightarrow> ok'"
    by (rule copy_word_from_user [OF mm p, of um]) (rule that; assumption)
  have ok': ok' using c(6) acc by simp
  have sm: "same_spaces ?s s2" and oc: "mem s2 = mem s" "kpool s2 = kpool s" "mmap_list (mms s2 m) = mmap_list (mms s m)" "vmas s2 = vmas s"
    using c(4) by (simp_all add: only_cached_def)
  note eq = same_fields [OF sm]
  have vm: "vm_ok s2 m" using c(2) ok oc eq by (simp add: vm_ok_def)
  have hp: "heap_ok s2 m = heap_ok s m" using c(3) eq by (simp add: heap_ok_def)
  have mp: "mapped_at s2 m = mapped_at s m" using oc eq by (simp add: mapped_at_def fun_eq_iff)
  show thesis by (rule that [of _ s2, OF _ _ vm hp _ _ _ _ _ _ _ _ _ mp]) (use c ok' oc eq in \<open>simp_all\<close>)
qed

section \<open>The break\<close>

lemma do_brk_spec:
  fixes um :: "nat \<Rightarrow> byte" and loc p :: "32 word"
  assumes "vm_ok s m" "heap_ok s m" "length (mmap_list (mms s m)) < 31" "mm_lock (mms s m) = 0"
    and "USER_ACCESS p (p + 4)" "unat p + 4 \<le> unat loc" "\<forall>x. p \<le> x \<and> x < p + 4 \<longrightarrow> permits s m True x \<and> \<not> stack_at s m x"
  defines "r \<equiv> load32 um p"
  shows "(\<exists>e. do_brk sch cur (Some m) loc p um s = Inl e \<and> bad_entry (pgdir_of s m) e \<and> brk_start (mms s m) \<le> r \<and> ROUNDUP r PGSIZE < brk (mms s m)) \<or>
    (\<exists>um' s'. do_brk sch cur (Some m) loc p um s = Inr (0, um', s') \<and> load32 um' p = brk (mms s' m) \<and>
       brk_moved s m (ROUNDUP r PGSIZE) s' \<and> mm_lock (mms s' m) = 0 \<and>
       (r < brk_start (mms s m) \<or> brk (mms s m) < ROUNDUP r PGSIZE \<longrightarrow> length (mmap_list (mms s' m)) \<le> Suc (length (mmap_list (mms s m)))) \<and>
       (r < brk_start (mms s m) \<longrightarrow> brk (mms s' m) = brk (mms s m)) \<and>
       (brk_possible s m r \<longrightarrow> brk (mms s' m) = ROUNDUP r PGSIZE))"
proof -
  obtain s2 um1 where c: "copy_from_user (Some m) loc p 4 True um (locked_state cur m s) = Inr (True, um1, s2)" "load32 um1 loc = r"
    "vm_ok s2 m" "heap_ok s2 m" "space s2 m = space s m" "mmap_list (mms s2 m) = mmap_list (mms s m)"
    "mm_lock (mms s2 m) = 1" "brk (mms s2 m) = brk (mms s m)" "brk_start (mms s2 m) = brk_start (mms s m)" "kpool s2 = kpool s"
    "pgdir_of s2 m = pgdir_of s m"
    using after_copy [OF assms(1,4-7), of um cur] assms(2) r_def by metis
  have p: "p \<noteq> 0" using assms(5) by (auto simp: USER_ACCESS_def USERBASE_def)
  have e: "do_brk sch cur (Some m) loc p um s = bindR (move_brk m r s2) (\<lambda>s3.
      bindR (unlock_mm (Some m) s3) (\<lambda>s4. Inr (0, store32 p (brk (mms s3 m)) um1, s4)))"
    using p c(1,2) by (simp add: do_brk_def lock_free_mm [OF assms(4)])
  have poss: "brk_possible s2 m r = brk_possible s m r" using c by (simp add: brk_possible_def range_free_def)
  have few: "length (mmap_list (mms s2 m)) < 31" using c(6) assms(3) by simp
  from move_brk_spec [OF c(3,4) few, of r] show ?thesis
  proof (elim disjE exE conjE)
    fix s3 assume s3: "move_brk m r s2 = Inr s3" "brk_moved s2 m (ROUNDUP r PGSIZE) s3"
      "r < brk_start (mms s2 m) \<or> brk (mms s2 m) < ROUNDUP r PGSIZE \<longrightarrow> length (mmap_list (mms s3 m)) \<le> Suc (length (mmap_list (mms s2 m)))"
      "r < brk_start (mms s2 m) \<longrightarrow> brk (mms s3 m) = brk (mms s2 m)" "brk_possible s2 m r \<longrightarrow> brk (mms s3 m) = ROUNDUP r PGSIZE"
    have "mm_lock (mms s3 m) = 1" using s3(2) c(7) by (simp add: brk_moved_def)
    then have "do_brk sch cur (Some m) loc p um s = Inr (0, store32 p (brk (mms s3 m)) um1, released m s3)"
      using e s3(1) by (simp add: unlock_released)
    moreover have "brk_moved s m (ROUNDUP r PGSIZE) (released m s3)"
      using s3(2) c assms(4) by (simp add: brk_moved_def)
    moreover have "mm_lock (mms (released m s3) m) = 0" "mmap_list (mms (released m s3) m) = mmap_list (mms s3 m)" by (simp_all add: released_def upd_mm_def)
    ultimately show ?thesis using s3(3-5) poss c(6,8,9) by simp
  qed (use e c(8,9,11) in simp)
qed


text \<open>The small address space with a heap of one page that ends with its area.\<close>

definition heap_space :: vm_st where
  "heap_space = upd_mm 7 (\<lambda>d. d\<lparr>brk_start := 0x401000, brk := 0x402000\<rparr>) small_space"

lemma heap_space_simps [simp]:
  "mem heap_space = empty_dir" "kpool heap_space = [20, 21, 22]" "mmap_list (mms heap_space 7) = [10]" "mm_lock (mms heap_space 7) = 0"
  "brk (mms heap_space 7) = 0x402000" "brk_start (mms heap_space 7) = 0x401000" "pgdir_of heap_space 7 = 0"
  "space heap_space 7 x = (if 0x400000 \<le> x \<and> x < 0x402000 then Some (3, None) else None)"
proof -
  have "space heap_space 7 x = space small_space 7 x" by (simp add: heap_space_def upd_mm_def space_def)
  then show "space heap_space 7 x = (if 0x400000 \<le> x \<and> x < 0x402000 then Some (3, None) else None)" by (simp add: small_space_at)
qed (simp_all add: heap_space_def upd_mm_def)

lemma heap_space_ok: "vm_ok heap_space 7" "heap_ok heap_space 7"
proof -
  have "vm_ok small_space 7" by (rule small_space_ok)
  then show "vm_ok heap_space 7" by (simp add: heap_space_def upd_mm_def vm_ok_def mm_ok_def)
  have "0x400000 \<le> x" if "0x401000 \<le> x" for x :: "32 word" by (rule order_trans [OF _ that]) simp
  then show "heap_ok heap_space 7" by (simp add: heap_ok_def USERBASE_def USERTOP_def PGSIZE_def VM_READ_def VM_WRITE_def)
qed


section \<open>Mapping calls\<close>

lemma page_diff: "a mod PGSIZE = 0 \<Longrightarrow> b mod PGSIZE = 0 \<Longrightarrow> (a - b) mod PGSIZE = 0"
proof -
  have e: "x mod PGSIZE = 0 \<longleftrightarrow> 4096 dvd unat x" for x :: "32 word"
    by (simp add: unat_eq_0 [symmetric] unat_mod_distrib PGSIZE_def mod_eq_0_iff_dvd)
  have "unat (a - b) = (if b \<le> a then unat a - unat b else unat a + 4294967296 - unat b)" by (simp add: unat_sub_if_size word_size word_le_nat_alt)
  then show "a mod PGSIZE = 0 \<Longrightarrow> b mod PGSIZE = 0 \<Longrightarrow> (a - b) mod PGSIZE = 0" by (simp add: e)
qed

lemma find_gap_aligned:
  assumes "\<forall>v\<in>set vs. vm_start (f v) mod PGSIZE = 0" "len mod PGSIZE = 0" "start mod PGSIZE = 0"
  shows "find_gap f len vs start mod PGSIZE = 0"
  using assms by (induction vs arbitrary: start) (simp_all add: page_diff)

lemma get_unmapped_area_aligned:
  assumes "mm_ok s m" "len mod PGSIZE = 0"
  shows "get_unmapped_area m len s mod PGSIZE = 0"
proof -
  have "USERTOP mod PGSIZE = 0" by (simp add: USERTOP_def PGSIZE_def)
  then have "(USERTOP - len) mod PGSIZE = 0" using assms(2) by (rule page_diff)
  then show ?thesis
    using assms(2) mm_okD(7) [OF assms(1)] find_gap_aligned [of "rev (mmap_list (mms s m))" "vmas s" len "USERTOP - len"]
    by (simp add: get_unmapped_area_def user_area_def)
qed

text \<open>The range a call is for.\<close>

definition wanted_len :: "32 word \<Rightarrow> 32 word \<Rightarrow> 32 word" where
  "wanted_len a0 len0 = ROUNDUP (a0 + len0) PGSIZE - ROUNDDOWN a0 PGSIZE"

definition wanted_addr :: "vm_st \<Rightarrow> nat \<Rightarrow> 32 word \<Rightarrow> 32 word \<Rightarrow> 32 word" where
  "wanted_addr s m a0 len0 =
     (if ROUNDDOWN a0 PGSIZE = 0 then get_unmapped_area m (wanted_len a0 len0) s else ROUNDDOWN a0 PGSIZE)"

lemma wanted_aligned:
  assumes "mm_ok s m"
  shows "wanted_len a0 len0 mod PGSIZE = 0" "wanted_addr s m a0 len0 mod PGSIZE = 0"
proof -
  show l: "wanted_len a0 len0 mod PGSIZE = 0" unfolding wanted_len_def by (rule page_diff; rule ROUND_page)
  show "wanted_addr s m a0 len0 mod PGSIZE = 0"
    using get_unmapped_area_aligned [OF assms l] by (simp add: wanted_addr_def ROUND_page)
qed

text \<open>The state after the argument has been read: as before, but locked.\<close>

definition after_read :: "vm_st \<Rightarrow> nat \<Rightarrow> vm_st \<Rightarrow> bool" where
  "after_read s m s2 = (vm_ok s2 m \<and> heap_ok s2 m = heap_ok s m \<and> space s2 m = space s m \<and> mmap_list (mms s2 m) = mmap_list (mms s m) \<and>
     kpool s2 = kpool s \<and> mem s2 = mem s \<and> mm_lock (mms s2 m) = 1)"

text \<open>What holds after \<open>with_range\<close>, from what its body does.\<close>

lemma with_range_spec:
  fixes um :: "nat \<Rightarrow> byte" and loc p :: "32 word"
  assumes ok: "vm_ok s m" "mm_lock (mms s m) = 0" "USER_ACCESS p (p + 4)" "unat p + 4 \<le> unat loc"
    "\<forall>x. p \<le> x \<and> x < p + 4 \<longrightarrow> permits s m True x \<and> \<not> stack_at s m x" and len: "len0 \<noteq> 0"
    and addr: "addr = wanted_addr s m (load32 um p) len0" "len = wanted_len (load32 um p) len0"
    and body: "\<forall>s2. after_read s m s2 \<longrightarrow> addr \<noteq> 0 \<longrightarrow>
      (\<exists>ret s3. body m addr len s2 = Inr (ret, s3) \<and> same_spaces s2 s3 \<and> P ret (released m s3))"
      "\<forall>s2. after_read s m s2 \<longrightarrow> addr = 0 \<longrightarrow> P (- E_NO_MEM) (released m s2)"
  shows "\<exists>ret um' s'. with_range sch cur (Some m) loc p len0 um body s = Inr (ret, um', s') \<and> P ret s' \<and> (ret = 0 \<longrightarrow> load32 um' p = addr)"
proof -
  let ?a0 = "load32 um p"
  obtain s2 um1 where c: "copy_from_user (Some m) loc p 4 True um (locked_state cur m s) = Inr (True, um1, s2)" "load32 um1 loc = ?a0"
    and r: "vm_ok s2 m" "heap_ok s2 m = heap_ok s m" "space s2 m = space s m" "mmap_list (mms s2 m) = mmap_list (mms s m)" "vmas s2 = vmas s"
    "mm_lock (mms s2 m) = 1" "kpool s2 = kpool s" "mem s2 = mem s"
    using after_copy [OF ok, of um cur] by metis
  have ar: "after_read s m s2" using r by (simp add: after_read_def)
  have p: "p \<noteq> 0" using ok(3) by (auto simp: USER_ACCESS_def USERBASE_def)
  have ad: "(if ROUNDDOWN ?a0 PGSIZE = 0 then get_unmapped_area m (ROUNDUP (?a0 + len0) PGSIZE - ROUNDDOWN ?a0 PGSIZE) s2 else ROUNDDOWN ?a0 PGSIZE) = addr"
    using r by (simp add: addr wanted_addr_def wanted_len_def get_unmapped_area_def)
  have e: "with_range sch cur (Some m) loc p len0 um body s =
      bindR (if addr = 0 then Inr (- E_NO_MEM, um1, s2)
             else bindR (body m addr len s2) (\<lambda>(ret, s3). Inr (ret, if ret = 0 then store32 p addr um1 else um1, s3))) (\<lambda>(ret, um2, s3).
        bindR (unlock_mm (Some m) s3) (\<lambda>s4. Inr (ret, um2, s4)))"
    unfolding ad [symmetric] using p len c by (simp add: with_range_def lock_free_mm [OF ok(2)] addr(2) wanted_len_def cong: if_cong)
  show ?thesis
  proof (cases "addr = 0")
    case True
    then show ?thesis using e ar body(2) r(6) by (simp add: unlock_released E_NO_MEM_def)
  next
    case False
    obtain ret s3 where b: "body m addr len s2 = Inr (ret, s3)" "same_spaces s2 s3" "P ret (released m s3)" using body(1) ar False by blast
    have "mm_lock (mms s3 m) = 1" using r(6) same_fields(2) [OF b(2)] by simp
    then have "with_range sch cur (Some m) loc p len0 um body s = Inr (ret, if ret = 0 then store32 p addr um1 else um1, released m s3)"
      using e b(1) False by (simp add: unlock_released)
    then show ?thesis using b(3) by (cases "ret = 0") simp_all
  qed
qed

lemma same_mm_map [same]: "mm_map mm addr len fl s = Inr (ret, v, s') \<Longrightarrow> same_spaces s s'"
proof -
  assume r: "mm_map mm addr len fl s = Inr (ret, v, s')"
  let ?a = "ROUNDDOWN addr PGSIZE" and ?b = "ROUNDUP (addr + len) PGSIZE"
  consider "s' = s" | m vma s1 where "mm = Some m" "find_vma (Some m) ?a s = Inr (vma, s1)" "USER_ACCESS ?a ?b"
    using r by (cases "USER_ACCESS ?a ?b") (auto simp: mm_map_def bindR_eq_Inr deref_Inr)
  then show ?thesis
  proof cases
    case 2
    consider "s' = s1" | s2 where "vma_create ?a ?b (fl AND NOT VM_SHARE) s1 = (None, s2)" "s' = s2"
      | nv s2 where "vma_create ?a ?b (fl AND NOT VM_SHARE) s1 = (Some nv, s2)" "insert_vma_struct m nv s2 = Inr s'"
      using r 2 by (auto simp: mm_map_def bindR_eq_Inr split: if_splits option.splits prod.splits)
    then have "same_spaces s1 s'"
      by cases (auto intro: same_refl same_vma_create same_trans [OF same_vma_create same_insert_vma])
    with same_find_vma [OF 2(2)] show ?thesis by (rule same_trans)
  qed (simp add: same_refl)
qed

lemma wanted_bounds:
  assumes "mm_ok s m" "addr = wanted_addr s m a0 len0" "len = wanted_len a0 len0"
  shows "ROUNDDOWN addr PGSIZE = addr" "ROUNDUP (addr + len) PGSIZE = addr + len"
proof -
  note al = wanted_aligned [OF assms(1), of a0 len0]
  show "ROUNDDOWN addr PGSIZE = addr" using page_aligned_round(1) [OF al(2)] assms(2) by simp
  have "(addr + len) mod PGSIZE = 0"
    using page_diff [OF al(2) page_diff [OF _ al(1)], of 0] assms(2,3) by (simp add: PGSIZE_def)
  then show "ROUNDUP (addr + len) PGSIZE = addr + len" by (rule page_aligned_round)
qed

lemma heap_ok_gains:
  assumes "heap_ok s m" "range_free s m a b" "gains s m a b u s'" "same_spaces s s'"
  shows "heap_ok s' m"
proof -
  have "space s' m x = space s m x" if "space s m x \<noteq> None" for x using assms(2,3) that by (auto simp: gains_def range_free_def)
  then show ?thesis using assms(1) same_fields [OF assms(4)] by (simp add: heap_ok_def)
qed

text \<open>The range is given a use if it lies in user space, is free and there is memory for an area; else nothing
  changes.\<close>

definition range_mapped :: "vm_st \<Rightarrow> nat \<Rightarrow> 32 word \<Rightarrow> 32 word \<Rightarrow> addr_use \<Rightarrow> int \<Rightarrow> vm_st \<Rightarrow> bool" where
  "range_mapped s m a b u ret s' = (vm_ok s' m \<and> heap_ok s' m \<and> mem s' = mem s \<and>
     (if USER_ACCESS a b \<and> range_free s m a b \<and> kpool s \<noteq> [] then ret = 0 \<and> gains s m a b u s'
      else ret \<noteq> 0 \<and> space s' m = space s m))"

lemma mmap_flags_private: "mmap_vm_flags fl AND NOT VM_SHARE = mmap_vm_flags fl"
  by (simp add: mmap_vm_flags_def VM_READ_def VM_WRITE_def VM_STACK_def VM_SHARE_def)

lemma mm_map_range:
  assumes "vm_ok s m" "heap_ok s m" "length (mmap_list (mms s m)) < 31"
    and rd: "ROUNDDOWN addr PGSIZE = addr" "ROUNDUP (addr + len) PGSIZE = addr + len"
  shows "\<exists>ret v s'. mm_map (Some m) addr len (mmap_vm_flags fl) s = Inr (ret, v, s') \<and> same_spaces s s' \<and>
    range_mapped s m addr (addr + len) (mmap_vm_flags fl, None) ret s' \<and> shmems s' = shmems s \<and>
    (ret = 0 \<longrightarrow> (\<exists>u. v = Some u \<and> u \<in> set (mmap_list (mms s' m)) \<and> vm_start (vmas s' u) = addr \<and> vm_end (vmas s' u) = addr + len)) \<and>
    (ret \<noteq> 0 \<longrightarrow> kpool s' = kpool s \<and> mmap_list (mms s' m) = mmap_list (mms s m))" (is "\<exists>ret v s'. ?R ret v s'")
proof -
  let ?c = "USER_ACCESS addr (addr + len) \<and> range_free s m addr (addr + len) \<and> kpool s \<noteq> []"
  have mm: "mm_ok s m" using assms(1) by (simp add: vm_ok_def)
  from mm_map_spec [OF mm assms(3), of addr len "mmap_vm_flags fl"] show ?thesis unfolding rd mmap_flags_private
  proof (elim exE conjE)
    fix ret v s' assume r: "mm_map (Some m) addr len (mmap_vm_flags fl) s = Inr (ret, v, s')" "mm_ok s' m" "mem s' = mem s"
      and sh: "shmems s' = shmems s" and c: "if ?c then ret = 0 \<and> (\<exists>u. v = Some u \<and> u \<in> set (mmap_list (mms s' m)) \<and> vm_start (vmas s' u) = addr \<and> vm_end (vmas s' u) = addr + len) \<and>
         (\<forall>x. space s' m x = (if addr \<le> x \<and> x < addr + len then Some (mmap_vm_flags fl, None) else space s m x))
       else ret = (if USER_ACCESS addr (addr + len) \<and> range_free s m addr (addr + len) then - E_NO_MEM else - E_INVAL) \<and> space s' m = space s m \<and> kpool s' = kpool s \<and>
         mmap_list (mms s' m) = mmap_list (mms s m)"
    have sm: "same_spaces s s'" by (rule same_mm_map [OF r(1)])
    have vm: "vm_ok s' m" using r(2,3) assms(1) same_fields [OF sm] by (simp add: vm_ok_def)
    have "?R ret v s'"
    proof (cases ?c)
      case True
      then have g: "ret = 0" "gains s m addr (addr + len) (mmap_vm_flags fl, None) s'"
        "\<exists>u. v = Some u \<and> u \<in> set (mmap_list (mms s' m)) \<and> vm_start (vmas s' u) = addr \<and> vm_end (vmas s' u) = addr + len"
        using c by (simp_all only: if_True simp_thms gains_def)
      have "heap_ok s' m" by (rule heap_ok_gains [OF assms(2) _ g(2) sm]) (use True in blast)
      then show ?thesis using g True vm r sh sm by (simp only: range_mapped_def if_True simp_thms)
    next
      case False
      then have g: "space s' m = space s m" "kpool s' = kpool s" "mmap_list (mms s' m) = mmap_list (mms s m)" "ret \<noteq> 0"
        using c by (simp_all only: if_False simp_thms) (simp add: E_NO_MEM_def E_INVAL_def)
      then have "heap_ok s' m" using assms(2) same_fields [OF sm] by (simp add: heap_ok_def)
      then show ?thesis using g False vm r sh sm by (simp only: range_mapped_def if_False simp_thms)
    qed
    then show "\<exists>ret v s'. ?R ret v s'" by (intro exI)
  qed
qed

lemma range_mapped_cong:
  assumes "space s2 m = space s m" "kpool s2 = kpool s" "mem s2 = mem s"
  shows "range_mapped s2 m a b u ret s' = range_mapped s m a b u ret s'"
proof -
  have "range_free s2 m = range_free s m" using assms(1) by (simp add: range_free_def fun_eq_iff)
  then show ?thesis by (simp only: range_mapped_def gains_def assms)
qed

lemma range_mapped_released [simp]: "range_mapped s m a b u ret (released m s') = range_mapped s m a b u ret s'"
  by (simp add: range_mapped_def gains_def)



section \<open>Shared memory\<close>

definition share_vma :: "nat \<Rightarrow> nat \<Rightarrow> vm_st \<Rightarrow> vm_st" where
  "share_vma v h s = upd_vma v (\<lambda>a. a\<lparr>vm_shmem := Some h, vm_shmem_off := 0, vm_flags := vm_flags a OR VM_SHARE\<rparr>) s"

lemma share_vma_ok:
  assumes ok: "mm_ok s m" and v: "v \<in> set (mmap_list (mms s m))" "vm_start (vmas s v) = a" "vm_end (vmas s v) = b" "vm_flags (vmas s v) = fl"
  shows "mm_ok (share_vma v h s) m"
    "space (share_vma v h s) m x = (if a \<le> x \<and> x < b then Some (fl OR VM_SHARE, Some (Some h, x - a)) else space s m x)"
proof -
  let ?s = "share_vma v h s" and ?l = "mmap_list (mms s m)"
  have same: "mms ?s = mms s" "kpool ?s = kpool s" "vm_start (vmas ?s u) = vm_start (vmas s u)" "vm_end (vmas ?s u) = vm_end (vmas s u)"
    "vm_mm (vmas ?s u) = vm_mm (vmas s u)" "u \<noteq> v \<Longrightarrow> vmas ?s u = vmas s u" for u
    by (simp_all add: share_vma_def upd_vma_def)
  have ar: "areas_ok (vmas ?s) ?l" using mm_okD(1) [OF ok] areas_ok_cong [of ?l "vmas ?s" "vmas s"] same by simp
  then show "mm_ok ?s m" using ok same by (simp add: mm_ok_def user_area_def)
  have cv: "covers (vmas ?s u) y = covers (vmas s u) y" for u y by (simp add: covers_def same)
  show "space ?s m x = (if a \<le> x \<and> x < b then Some (fl OR VM_SHARE, Some (Some h, x - a)) else space s m x)"
  proof (cases "covers (vmas s v) x")
    case True
    then have "space ?s m x = Some (use_of (vmas ?s v) x)" using ar v(1) cv by (intro space_Some) (simp_all add: same)
    moreover have "(fl OR VM_SHARE) AND VM_SHARE \<noteq> 0" by (simp add: VM_SHARE_def bit_eq_iff bit_simps) (rule exI [of _ 4], simp)
    then have "use_of (vmas ?s v) x = (fl OR VM_SHARE, Some (Some h, x - a))"
      using v by (simp add: use_of_def share_vma_def upd_vma_def)
    ultimately show ?thesis using True v by (simp add: covers_def)
  next
    case False
    have "find (\<lambda>u. covers (vmas ?s u) x) ?l = find (\<lambda>u. covers (vmas s u) x) ?l" by (simp add: cv)
    moreover have "use_of (vmas ?s u) x = use_of (vmas s u) x" if "find (\<lambda>u. covers (vmas s u) x) ?l = Some u" for u
      using that False same(6) [of u] by (cases "u = v") (auto simp: find_Some_iff)
    ultimately have "space ?s m x = space s m x" by (cases "find (\<lambda>u. covers (vmas s u) x) ?l") (simp_all add: space_def same)
    moreover have "\<not> (a \<le> x \<and> x < b)" using False v by (simp add: covers_def)
    ultimately show ?thesis by (simp only: if_False)
  qed
qed

definition shared_mapped :: "vm_st \<Rightarrow> nat \<Rightarrow> 32 word \<Rightarrow> 32 word \<Rightarrow> 32 word \<Rightarrow> int \<Rightarrow> vm_st \<Rightarrow> bool" where
  "shared_mapped s m a b fl ret s' = (vm_ok s' m \<and> heap_ok s' m \<and> mem s' = mem s \<and>
     (if USER_ACCESS a b \<and> range_free s m a b \<and> 2 \<le> length (kpool s)
      then ret = 0 \<and> (\<exists>h. h \<in> set (kpool s) \<and> sh_len (shmems s' h) = b - a \<and> sh_ref (shmems s' h) = 1 \<and>
        (\<forall>x. space s' m x = (if a \<le> x \<and> x < b then Some (fl OR VM_SHARE, Some (Some h, x - a)) else space s m x)))
      else ret \<noteq> 0 \<and> space s' m = space s m))"

lemma shmem_counts: "shmem_ref_inc h (upd_shmem h (\<lambda>_. x) s) = (sint (sh_ref x + 1), upd_shmem h (\<lambda>_. x\<lparr>sh_ref := sh_ref x + 1\<rparr>) s)"
  "shmem_ref_dec h s = (sint (sh_ref (shmems s h) - 1), upd_shmem h (\<lambda>x. x\<lparr>sh_ref := sh_ref x - 1\<rparr>) s)"
  by (simp_all add: shmem_ref_inc_def shmem_ref_dec_def atomic_add_return_def atomic_sub_return_def upd_shmem_def fun_eq_iff)

text \<open>Creating and mapping a shared object: the first address of the pool becomes the object.\<close>

lemma shmem_map_spec:
  assumes ok: "vm_ok s m" "heap_ok s m" and few: "length (mmap_list (mms s m)) < 31" and al: "addr mod PGSIZE = 0"
    and rd: "ROUNDDOWN addr PGSIZE = addr" "ROUNDUP (addr + len) PGSIZE = addr + len"
  shows "\<exists>ret s'. shmem_map (mmap_vm_flags fl) m addr len s = Inr (ret, s') \<and> same_spaces s s' \<and>
    shared_mapped s m addr (addr + len) (mmap_vm_flags fl) ret s'"
proof (cases "kpool s")
  case Nil
  then show ?thesis using ok by (simp add: shmem_map_def shmem_create_def kmalloc_def shared_mapped_def same_refl E_NO_MEM_def)
next
  case (Cons h ps)
  let ?b = "addr + len" and ?fl = "mmap_vm_flags fl"
  let ?obj = "\<lparr>shmn_list = [], shmn_cache = None, sh_len = len, sh_ref = 1, sh_lock = lock_init\<rparr>"
  let ?s1 = "upd_shmem h (\<lambda>_. ?obj) (s\<lparr>kpool := ps\<rparr>)"
  have st: "mms ?s1 = mms s" "vmas ?s1 = vmas s" "mem ?s1 = mem s" "kpool ?s1 = ps" "shmems ?s1 h = ?obj"
    by (simp_all add: upd_shmem_def)
  have sp: "space ?s1 m = space s m" by (rule space_cong) (simp_all add: st)
  have ok1: "vm_ok ?s1 m" "heap_ok ?s1 m" "length (mmap_list (mms ?s1 m)) < 31"
    using ok few Cons sp by (auto simp: vm_ok_def mm_ok_def heap_ok_def st)
  have fr: "range_free ?s1 m = range_free s m" by (simp add: range_free_def sp fun_eq_iff)
  have h: "h \<notin> set ps" "h \<notin> set (mmap_list (mms s m))" using ok(1) Cons by (auto simp: vm_ok_def mm_ok_def)
  have sm1: "same_spaces s ?s1" by (rule same_mms) (simp add: st)
  obtain ret v s2 where r: "mm_map (Some m) addr len ?fl ?s1 = Inr (ret, v, s2)" "same_spaces ?s1 s2"
    "range_mapped ?s1 m addr ?b (?fl, None) ret s2" "shmems s2 = shmems ?s1"
    "ret = 0 \<longrightarrow> (\<exists>u. v = Some u \<and> u \<in> set (mmap_list (mms s2 m)) \<and> vm_start (vmas s2 u) = addr \<and> vm_end (vmas s2 u) = ?b)"
    "ret \<noteq> 0 \<longrightarrow> kpool s2 = kpool ?s1 \<and> mmap_list (mms s2 m) = mmap_list (mms ?s1 m)"
    using mm_map_range [OF ok1 rd, of fl] by blast
  have mp: "mm_map_shmem (Some m) addr ?fl (Some h) (upd_shmem h (\<lambda>_. ?obj\<lparr>sh_ref := 0\<rparr>) (s\<lparr>kpool := ps\<rparr>)) =
      (if ret \<noteq> 0 then Inr (ret, None, snd (shmem_ref_dec h s2)) else bindR (deref v) (\<lambda>u. Inr (0, Some u, share_vma u h s2)))"
    using al r(1) by (simp add: mm_map_shmem_def shmem_counts st share_vma_def)
  have cr: "shmem_create len s = (Some h, upd_shmem h (\<lambda>_. ?obj\<lparr>sh_ref := 0\<rparr>) (s\<lparr>kpool := ps\<rparr>))"
    by (simp add: shmem_create_def kmalloc_def Cons atomic_set_def)
  note rm = r(3) [unfolded range_mapped_def st sp fr]
  have len: "ps \<noteq> [] \<longleftrightarrow> 2 \<le> length (kpool s)" using Cons by (cases ps) simp_all
  show ?thesis
  proof (cases "ret = 0")
    case True
    then obtain u where u: "v = Some u" "u \<in> set (mmap_list (mms s2 m))" "vm_start (vmas s2 u) = addr" "vm_end (vmas s2 u) = ?b" using r(5) by blast
    have c: "USER_ACCESS addr ?b" "range_free s m addr ?b" "2 \<le> length (kpool s)" and g: "gains ?s1 m addr ?b (?fl, None) s2"
      using rm True len st by (auto split: if_splits)
    let ?s3 = "share_vma u h s2"
    have mm2: "mm_ok s2 m" using rm by (simp add: vm_ok_def)
    have "addr < ?b" using c(1) by (simp add: USER_ACCESS_def)
    then have "space s2 m addr = Some (?fl, None)" using g by (simp add: gains_def)
    moreover have "covers (vmas s2 u) addr" using u \<open>addr < ?b\<close> by (simp add: covers_def)
    ultimately have fl: "vm_flags (vmas s2 u) = ?fl" using space_Some [OF mm_okD(1) [OF mm2] u(2)] by (simp add: use_of_def)
    have s3: "space ?s3 m x = (if addr \<le> x \<and> x < ?b then Some (?fl OR VM_SHARE, Some (Some h, x - addr)) else space s m x)" for x
      using share_vma_ok(2) [OF mm2 u(2-4) fl, of h x] g by (simp add: gains_def sp)
    have sm3: "same_spaces s ?s3" by (rule same_trans [OF sm1 same_trans [OF r(2)]]) (simp add: share_vma_def same_upd_vma)
    have "vm_ok ?s3 m" using share_vma_ok(1) [OF mm2 u(2-4) fl, of h] rm by (auto simp: vm_ok_def share_vma_def upd_vma_def)
    moreover have "space ?s3 m x = space s m x" if "space s m x \<noteq> None" for x using s3 c(2) that by (auto simp: range_free_def)
    then have "heap_ok ?s3 m" using ok(2) same_fields [OF sm3] by (simp add: heap_ok_def)
    moreover have "shmems ?s3 h = ?obj" "mem ?s3 = mem s" using r(4) st rm by (simp_all add: share_vma_def upd_vma_def)
    ultimately have "shared_mapped s m addr ?b ?fl 0 ?s3" using c s3 Cons by (auto simp: shared_mapped_def)
    moreover have "shmem_map ?fl m addr len s = Inr (0, ?s3)" using cr mp True u(1) by (simp add: shmem_map_def)
    ultimately show ?thesis using sm3 by blast
  next
    case False
    let ?s3 = "snd (shmem_ref_dec h s2)"
    let ?s4 = "kfree h ?s3"
    have kp: "kpool s2 = ps" "mmap_list (mms s2 m) = mmap_list (mms s m)" using r(6) False st by simp_all
    have z: "shmems ?s3 h = ?obj\<lparr>sh_ref := 0\<rparr>" using r(4) st by (simp add: shmem_counts upd_shmem_def)
    have ds: "shmem_destroy h ?s3 = Inr ?s4" using z by (simp add: shmem_destroy_def upd_shmem_def) (simp add: shmem_counts upd_shmem_def)
    have res: "shmem_map ?fl m addr len s = Inr (ret, ?s4)"
      using cr mp False z ds by (simp add: shmem_map_def atomic_read_def)
    have sm4: "same_spaces s ?s4"
      by (rule same_trans [OF sm1 same_trans [OF r(2) same_mms]]) (simp add: shmem_counts upd_shmem_def kfree_def)
    have c: "\<not> (USER_ACCESS addr ?b \<and> range_free s m addr ?b \<and> 2 \<le> length (kpool s))" and s2: "space s2 m = space s m" "vm_ok s2 m" "heap_ok s2 m" "mem s2 = mem s"
      using rm False len st by (auto split: if_splits)
    have "mm_ok ?s3 m" "space ?s3 m = space s2 m" using s2(2) by (simp_all add: shmem_counts upd_shmem_def vm_ok_def mm_ok_def space_def fun_eq_iff)
    moreover have "h \<notin> set (mmap_list (mms ?s3 m))" "h \<notin> set (kpool ?s3)" using h kp by (simp_all add: shmem_counts upd_shmem_def)
    ultimately have "mm_ok ?s4 m" "space ?s4 m = space s m" using kfree_ok [of ?s3 m h] s2(1) by simp_all
    then have "vm_ok ?s4 m" "heap_ok ?s4 m" "mem ?s4 = mem s"
      using s2 ok(2) same_fields [OF sm4] by (simp_all add: vm_ok_def heap_ok_def shmem_counts upd_shmem_def kfree_def)
    then have "shared_mapped s m addr ?b ?fl ret ?s4" using c False \<open>space ?s4 m = space s m\<close> by (simp add: shared_mapped_def)
    with res sm4 show ?thesis by blast
  qed
qed

lemma shared_mapped_cong:
  assumes "space s2 m = space s m" "kpool s2 = kpool s" "mem s2 = mem s"
  shows "shared_mapped s2 m a b u ret s' = shared_mapped s m a b u ret s'"
proof -
  have "range_free s2 m = range_free s m" using assms(1) by (simp add: range_free_def fun_eq_iff)
  then show ?thesis by (simp only: shared_mapped_def assms)
qed

lemma shared_mapped_released [simp]: "shared_mapped s m a b u ret (released m s') = shared_mapped s m a b u ret s'"
  by (simp add: shared_mapped_def) (simp add: released_def upd_mm_def)

text \<open>\<open>do_shmem\<close> on a valid pointer always returns.  It gives the range it chooses, if that is free and there is
  memory for the object and the area, to a fresh object of the size of the range with the one
  reference of the area; otherwise nothing changes.\<close>

theorem do_shmem_shares:
  fixes um :: "nat \<Rightarrow> byte" and loc p :: "32 word"
  assumes "vm_ok s m" "heap_ok s m" "length (mmap_list (mms s m)) < 31" "mm_lock (mms s m) = 0"
    and "USER_ACCESS p (p + 4)" "unat p + 4 \<le> unat loc" "\<forall>x. p \<le> x \<and> x < p + 4 \<longrightarrow> permits s m True x \<and> \<not> stack_at s m x" "len0 \<noteq> 0"
  defines "len \<equiv> wanted_len (load32 um p) len0" and "addr \<equiv> wanted_addr s m (load32 um p) len0"
  shows "\<exists>ret um' s'. do_shmem sch cur (Some m) loc p len0 fl um s = Inr (ret, um', s') \<and>
    shared_mapped s m addr (addr + len) (mmap_vm_flags fl) ret s' \<and> (ret = 0 \<longrightarrow> load32 um' p = addr)"
proof -
  have mm: "mm_ok s m" using assms(1) by (simp add: vm_ok_def)
  note rd = wanted_bounds [OF mm, of addr "load32 um p" len0 len, OF meta_eq_to_obj_eq [OF addr_def] meta_eq_to_obj_eq [OF len_def]]
  have al: "addr mod PGSIZE = 0" unfolding addr_def by (rule wanted_aligned(2) [OF mm])
  let ?P = "shared_mapped s m addr (addr + len) (mmap_vm_flags fl)"
  have "\<exists>ret s3. shmem_map (mmap_vm_flags fl) m addr len s2 = Inr (ret, s3) \<and> same_spaces s2 s3 \<and> ?P ret (released m s3)" if s2: "after_read s m s2" for s2
  proof -
    note r = s2 [unfolded after_read_def]
    have "vm_ok s2 m" "heap_ok s2 m" "length (mmap_list (mms s2 m)) < 31" using r assms(2,3) by simp_all
    from shmem_map_spec [OF this al rd, of fl] show ?thesis using shared_mapped_cong [of s2 m s] r by simp
  qed
  moreover have "?P (- E_NO_MEM) (released m s2)" if "after_read s m s2" "addr = 0" for s2
    using that assms(2) by (simp add: after_read_def shared_mapped_def USER_ACCESS_def USERBASE_def E_NO_MEM_def)
  ultimately show ?thesis unfolding do_shmem_def
    by (intro with_range_spec [OF assms(1,4-8) meta_eq_to_obj_eq [OF addr_def] meta_eq_to_obj_eq [OF len_def]]) blast+
qed

end
