(* ===== verification/Umalloc.thy ===== *)
theory Umalloc
  imports Mem_Calls
begin

text \<open>
  The allocator of the user library, \<open>user/libs/malloc.c\<close>: a ring of free blocks in the order of
  their addresses, each with a header of 64 bytes.  The headers are a store from addresses; a size
  counts headers.  The static header \<open>base\<close> and the two system calls are parameters: the calls take the
  word they are given a pointer to and return what it holds afterwards.  \<open>kern\<close> is the state of the kernel.
\<close>

section \<open>State\<close>

record header =
  h_ptr :: "32 word"
  h_size :: "32 word"
  h_type :: bool

record 'k heap_st =
  hdr :: "32 word \<Rightarrow> header"
  freep :: "32 word"
  brk_var :: "32 word"
  mem_lock :: "32 word"
  fork_lock :: "32 word"
  kern :: 'k

definition HSIZE :: "32 word" where "HSIZE = 0x40"

abbreviation nxt :: "(32 word \<Rightarrow> header) \<Rightarrow> 32 word \<Rightarrow> 32 word" where
  "nxt h p \<equiv> h_ptr (h p)"

section \<open>Freeing\<close>

partial_function (option) free_scan :: "(32 word \<Rightarrow> header) \<Rightarrow> 32 word \<Rightarrow> 32 word \<Rightarrow> 32 word option" where
  "free_scan h bp p =
     (if bp > p \<and> bp < nxt h p then Some p
      else if p \<ge> nxt h p \<and> (bp > p \<or> bp < nxt h p) then Some p
      else free_scan h bp (nxt h p))"

definition join_after :: "32 word \<Rightarrow> 32 word \<Rightarrow> (32 word \<Rightarrow> header) \<Rightarrow> 32 word \<Rightarrow> header" where
  "join_after bp p h =
     (let n = nxt h p
      in if h_type (h bp) = h_type (h n) \<and> bp + h_size (h bp) * HSIZE = n
         then h(bp := (h bp)\<lparr>h_size := h_size (h bp) + h_size (h n), h_ptr := nxt h n\<rparr>)
         else h(bp := (h bp)\<lparr>h_ptr := n\<rparr>))"

definition join_before :: "32 word \<Rightarrow> 32 word \<Rightarrow> (32 word \<Rightarrow> header) \<Rightarrow> 32 word \<Rightarrow> header" where
  "join_before bp p h =
     (if h_type (h p) = h_type (h bp) \<and> p + h_size (h p) * HSIZE = bp
      then h(p := (h p)\<lparr>h_size := h_size (h p) + h_size (h bp), h_ptr := nxt h bp\<rparr>)
      else h(p := (h p)\<lparr>h_ptr := bp\<rparr>))"

definition free_locked :: "32 word \<Rightarrow> 'k heap_st \<Rightarrow> 'k heap_st res" where
  "free_locked ap s =
     (let bp = ap - HSIZE
      in bindR (spinR (map_option Inr (free_scan (hdr s) bp (freep s)))) (\<lambda>p.
         Inr (s\<lparr>hdr := join_before bp p (join_after bp p (hdr s)), freep := p\<rparr>)))"

section \<open>More memory from the kernel\<close>

type_synonym 'k brk_call = "32 word \<Rightarrow> 'k \<Rightarrow> (int \<times> 32 word \<times> 'k) res"
type_synonym 'k shmem_call = "32 word \<Rightarrow> 32 word \<Rightarrow> 32 word \<Rightarrow> 'k \<Rightarrow> (int \<times> 32 word \<times> 'k) res"

definition new_block :: "32 word \<Rightarrow> 32 word \<Rightarrow> bool \<Rightarrow> 'k heap_st \<Rightarrow> 'k heap_st" where
  "new_block p units type s = s\<lparr>hdr := (hdr s)(p := (hdr s p)\<lparr>h_size := units, h_type := type\<rparr>)\<rparr>"

text \<open>The first call asks for the break by passing a null one.\<close>

definition first_brk :: "'k brk_call \<Rightarrow> 'k heap_st \<Rightarrow> (bool \<times> 'k heap_st) res" where
  "first_brk sys_brk s =
     (if brk_var s = 0 then
        bindR (sys_brk (brk_var s) (kern s)) (\<lambda>(ret, b, k). Inr (\<not> (ret \<noteq> 0 \<or> b = 0), s\<lparr>brk_var := b, kern := k\<rparr>))
      else Inr (True, s))"

definition morecore_brk_locked :: "'k brk_call \<Rightarrow> 32 word \<Rightarrow> 'k heap_st \<Rightarrow> (bool \<times> 'k heap_st) res" where
  "morecore_brk_locked sys_brk nu s =
     bindR (first_brk sys_brk s) (\<lambda>(ok, s1).
       if \<not> ok then Inr (False, s1)
       else let b = brk_var s1
            in bindR (sys_brk (b + nu * HSIZE) (kern s1)) (\<lambda>(ret, newbrk, k).
                 let s2 = s1\<lparr>kern := k\<rparr>
                 in if ret \<noteq> 0 \<or> newbrk \<le> b then Inr (False, s2)
                    else bindR (free_locked (b + HSIZE) (new_block b ((newbrk - b) div HSIZE) False s2)) (\<lambda>s3.
                      Inr (True, s3\<lparr>brk_var := newbrk\<rparr>))))"

definition morecore_shmem_locked :: "'k shmem_call \<Rightarrow> 32 word \<Rightarrow> 'k heap_st \<Rightarrow> (bool \<times> 'k heap_st) res" where
  "morecore_shmem_locked sys_shmem nu s =
     (let sz = (nu * HSIZE + 0xfff) AND NOT 0xfff
      in bindR (sys_shmem 0 sz MMAP_WRITE (kern s)) (\<lambda>(ret, mem, k).
           let s1 = s\<lparr>kern := k\<rparr>
           in if ret \<noteq> 0 \<or> mem = 0 then Inr (False, s1)
              else bindR (free_locked (mem + HSIZE) (new_block mem (sz div HSIZE) True s1)) (\<lambda>s2. Inr (True, s2))))"

section \<open>Allocation\<close>

text \<open>Taking the first \<open>nunits\<close> units of the free block \<open>p\<close>, whose predecessor is \<open>prevp\<close>.\<close>

definition take_units :: "32 word \<Rightarrow> bool \<Rightarrow> 32 word \<Rightarrow> 32 word \<Rightarrow> 'k heap_st \<Rightarrow> 32 word \<times> 'k heap_st" where
  "take_units nunits type prevp p s =
     (let h = hdr s;
          h' = (if h_size (h p) = nunits then h(prevp := (h prevp)\<lparr>h_ptr := nxt h p\<rparr>)
                else let np = p + nunits * HSIZE;
                         h1 = h(prevp := (h prevp)\<lparr>h_ptr := np\<rparr>);
                         h2 = h1(np := \<lparr>h_ptr = nxt h1 p, h_size = h_size (h1 p) - nunits, h_type = type\<rparr>)
                     in h2(p := (h2 p)\<lparr>h_size := nunits\<rparr>))
      in (p + HSIZE, s\<lparr>hdr := h', freep := prevp\<rparr>))"

partial_function (option) malloc_loop ::
    "(32 word \<Rightarrow> 'k heap_st \<Rightarrow> (bool \<times> 'k heap_st) res) \<Rightarrow> 32 word \<Rightarrow> bool \<Rightarrow> 32 word \<Rightarrow> 32 word \<Rightarrow> 'k heap_st \<Rightarrow>
     (32 word \<times> 'k heap_st) res option" where
  "malloc_loop morecore nunits type prevp p s =
     (if h_type (hdr s p) = type \<and> h_size (hdr s p) \<ge> nunits then Some (Inr (take_units nunits type prevp p s))
      else if p = freep s then
        (case morecore nunits s of
           Inl e \<Rightarrow> Some (Inl e)
         | Inr (ok, s1) \<Rightarrow> if \<not> ok then Some (Inr (0, s1)) else malloc_loop morecore nunits type p (nxt (hdr s1) p) s1)
      else malloc_loop morecore nunits type p (nxt (hdr s) p) s)"

declare free_scan.simps [code] malloc_loop.simps [code]

definition units_for :: "32 word \<Rightarrow> 32 word" where
  "units_for sz = (sz + HSIZE - 1) div HSIZE + 1"

definition first_ring :: "32 word \<Rightarrow> 'k heap_st \<Rightarrow> 'k heap_st" where
  "first_ring base s =
     (if freep s = 0 then s\<lparr>hdr := (hdr s)(base := (hdr s base)\<lparr>h_ptr := base, h_size := 0\<rparr>), freep := base\<rparr> else s)"

definition malloc_locked :: "'k brk_call \<Rightarrow> 'k shmem_call \<Rightarrow> 32 word \<Rightarrow> 32 word \<Rightarrow> bool \<Rightarrow> 'k heap_st \<Rightarrow> (32 word \<times> 'k heap_st) res" where
  "malloc_locked sys_brk sys_shmem base sz type s =
     (let s1 = first_ring base s; prevp = freep s1;
          morecore = (if \<not> type then morecore_brk_locked sys_brk else morecore_shmem_locked sys_shmem)
      in spinR (malloc_loop morecore (units_for sz) type prevp (nxt (hdr s1) prevp) s1))"

section \<open>The locks\<close>

text \<open>\<open>lock\<close> of \<open>user/libs/lock.h\<close> yields until the lock is free; with no other thread in the model a lock that is
  held stays held.  Its \<open>unlock\<close> does not check.\<close>

definition user_lock :: "32 word \<Rightarrow> 32 word res" where
  "user_lock l = (let (l', old) = test_and_set_bit 0 l in if old then Inl Spin else Inr l')"

definition user_unlock :: "32 word \<Rightarrow> 32 word" where
  "user_unlock l = fst (test_and_clear_bit 0 l)"

definition lock_malloc :: "'k heap_st \<Rightarrow> 'k heap_st res" where
  "lock_malloc s = bindR (user_lock (fork_lock s)) (\<lambda>f. bindR (user_lock (mem_lock s)) (\<lambda>l. Inr (s\<lparr>fork_lock := f, mem_lock := l\<rparr>)))"

definition unlock_malloc :: "'k heap_st \<Rightarrow> 'k heap_st" where
  "unlock_malloc s = s\<lparr>mem_lock := user_unlock (mem_lock s), fork_lock := user_unlock (fork_lock s)\<rparr>"

definition malloc :: "'k brk_call \<Rightarrow> 'k shmem_call \<Rightarrow> 32 word \<Rightarrow> 32 word \<Rightarrow> 'k heap_st \<Rightarrow> (32 word \<times> 'k heap_st) res" where
  "malloc sys_brk sys_shmem base sz s =
     bindR (lock_malloc s) (\<lambda>s1. bindR (malloc_locked sys_brk sys_shmem base sz False s1) (\<lambda>(ret, s2). Inr (ret, unlock_malloc s2)))"

definition shmem_malloc :: "'k brk_call \<Rightarrow> 'k shmem_call \<Rightarrow> 32 word \<Rightarrow> 32 word \<Rightarrow> 'k heap_st \<Rightarrow> (32 word \<times> 'k heap_st) res" where
  "shmem_malloc sys_brk sys_shmem base sz s =
     bindR (lock_malloc s) (\<lambda>s1. bindR (malloc_locked sys_brk sys_shmem base sz True s1) (\<lambda>(ret, s2). Inr (ret, unlock_malloc s2)))"

definition free :: "32 word \<Rightarrow> 'k heap_st \<Rightarrow> 'k heap_st res" where
  "free ap s = bindR (lock_malloc s) (\<lambda>s1. bindR (free_locked ap s1) (\<lambda>s2. Inr (unlock_malloc s2)))"

section \<open>Paths and blocks\<close>

fun path :: "(32 word \<Rightarrow> header) \<Rightarrow> 32 word \<Rightarrow> 32 word list \<Rightarrow> 32 word \<Rightarrow> bool" where
  "path h p [] q = (nxt h p = q)"
| "path h p (x # xs) q = (nxt h p = x \<and> path h x xs q)"

lemma path_append [simp]: "path h p (xs @ y # ys) q \<longleftrightarrow> path h p xs y \<and> path h y ys q"
  by (induction xs arbitrary: p) auto

lemma path_cong: "(\<And>a. a \<in> set (p # xs) \<Longrightarrow> nxt h' a = nxt h a) \<Longrightarrow> path h' p xs q = path h p xs q"
  by (induction xs arbitrary: p) auto

lemma path_upd [simp]: "u \<notin> set (p # xs) \<Longrightarrow> path (h(u := v)) p xs q = path h p xs q"
  by (rule path_cong) auto

lemma path_last: "path h p xs q \<Longrightarrow> nxt h (last (p # xs)) = q"
  by (induction xs arbitrary: p) auto

text \<open>A ring can be entered anywhere.\<close>

lemma ring_from:
  assumes "path h b xs b" "q \<in> set (b # xs)" "distinct (b # xs)"
  obtains ws where "path h q ws q" "set (q # ws) = set (b # xs)" "distinct (q # ws)"
proof (cases "q = b")
  case False
  then obtain us vs where "xs = us @ q # vs" using assms(2) by (auto dest: split_list)
  then show thesis using assms by (intro that [of "vs @ b # us"]) auto
qed (use assms that in auto)

abbreviation units :: "(32 word \<Rightarrow> header) \<Rightarrow> 32 word \<Rightarrow> nat" where
  "units h p \<equiv> unat (h_size (h p))"

definition lim :: "(32 word \<Rightarrow> header) \<Rightarrow> 32 word \<Rightarrow> nat" where
  "lim h p = unat p + 64 * units h p"

definition extent :: "(32 word \<Rightarrow> header) \<Rightarrow> 32 word \<Rightarrow> nat set" where
  "extent h p = {unat p..<lim h p}"

text \<open>Blocks in ascending order, none empty, from \<open>lo\<close> up, within the address space.\<close>

fun asc :: "(32 word \<Rightarrow> header) \<Rightarrow> nat \<Rightarrow> 32 word list \<Rightarrow> bool" where
  "asc h lo [] = True"
| "asc h lo (b # bs) = (lo \<le> unat b \<and> 0 < units h b \<and> lim h b \<le> 4294967296 \<and> asc h (lim h b) bs)"

lemma asc_append: "asc h lo (xs @ y # ys) \<longleftrightarrow> asc h lo xs \<and> (\<forall>x\<in>set xs. lim h x \<le> unat y) \<and> asc h lo [y] \<and> asc h (lim h y) ys"
proof (induction xs arbitrary: lo)
  case (Cons x xs)
  have "unat x \<le> lim h x" by (simp add: lim_def)
  with Cons show ?case by auto
qed simp

lemma asc_mem: "asc h lo bs \<Longrightarrow> b \<in> set bs \<Longrightarrow> lo \<le> unat b \<and> 0 < units h b \<and> lim h b \<le> 4294967296"
proof (induction bs arbitrary: lo)
  case (Cons a bs)
  have "unat a \<le> lim h a" by (simp add: lim_def)
  with Cons show ?case by fastforce
qed simp

lemma asc_mono: "asc h lo bs \<Longrightarrow> lo' \<le> lo \<Longrightarrow> asc h lo' bs"
  by (cases bs) auto

lemma asc_cong: "(\<And>b. b \<in> set bs \<Longrightarrow> h_size (h' b) = h_size (h b)) \<Longrightarrow> asc h' lo bs = asc h lo bs"
  by (induction bs arbitrary: lo) (auto simp: lim_def)

lemma asc_upd [simp]: "u \<notin> set bs \<Longrightarrow> asc (h(u := v)) lo bs = asc h lo bs"
  by (rule asc_cong) auto

lemma asc_distinct: "asc h lo bs \<Longrightarrow> distinct bs"
proof (induction bs arbitrary: lo)
  case (Cons b bs)
  have "unat b < lim h b" using Cons.prems by (simp add: lim_def)
  then have "b \<notin> set bs" using asc_mem [of h "lim h b" bs b] Cons.prems by auto
  with Cons show ?case by auto
qed simp

text \<open>Pointer arithmetic on a block does not wrap.\<close>

lemma unat_step:
  assumes "unat p + 64 * unat n < 4294967296"
  shows "unat (p + n * HSIZE) = unat p + 64 * unat n"
proof -
  have "unat (n * HSIZE) = 64 * unat n" using assms by (simp add: HSIZE_def unat_word_ariths mult.commute)
  then show ?thesis using assms by (simp add: unat_word_ariths)
qed

lemma block_end:
  assumes "lim h p \<le> 4294967296" "n \<noteq> 0"
  shows "p + h_size (h p) * HSIZE = n \<longleftrightarrow> lim h p = unat n"
proof (cases "lim h p = 4294967296")
  case True
  have "unat (p + h_size (h p) * HSIZE) = (unat p + 64 * units h p) mod 4294967296"
    by (simp add: HSIZE_def unat_word_ariths mod_simps mult.commute)
  also have "\<dots> = 0" using True by (simp add: lim_def)
  finally have "p + h_size (h p) * HSIZE = 0" by (simp add: unat_eq_0)
  moreover have "unat n < 4294967296" by (rule unat_bounds)
  ultimately show ?thesis using assms(2) True by auto
next
  case False
  then have "unat p + 64 * units h p < 4294967296" using assms(1) by (simp add: lim_def)
  from unat_step [OF this] show ?thesis by (auto simp: lim_def word_unat_eq_iff)
qed

section \<open>Finding the place of a freed block\<close>

definition stops :: "(32 word \<Rightarrow> header) \<Rightarrow> 32 word \<Rightarrow> 32 word \<Rightarrow> bool" where
  "stops h bp p = (bp > p \<and> bp < nxt h p \<or> p \<ge> nxt h p \<and> (bp > p \<or> bp < nxt h p))"

lemma free_scan_step: "free_scan h bp p = (if stops h bp p then Some p else free_scan h bp (nxt h p))"
  by (subst free_scan.simps) (auto simp: stops_def)

lemma free_scan_path: "path h x ys z \<Longrightarrow> \<forall>a\<in>set (x # ys). \<not> stops h bp a \<Longrightarrow> free_scan h bp x = free_scan h bp z"
  by (induction ys arbitrary: x) (simp_all add: free_scan_step [of h bp x for x])

lemma asc_sorted: "asc h lo bs \<Longrightarrow> sorted_wrt (<) bs"
proof (induction bs arbitrary: lo)
  case (Cons b bs)
  have "unat b < lim h b" using Cons.prems by (simp add: lim_def)
  then have "b < w" if "w \<in> set bs" for w using that asc_mem [of h "lim h b" bs w] Cons.prems by (auto simp: word_less_nat_alt)
  with Cons show ?case by auto
qed simp

lemma free_scan_finds:
  assumes ring: "path h base (us @ vs) base" and asc: "asc h (unat base + 64) (us @ bp # vs)" and f: "f \<in> set (base # us @ vs)"
  shows "free_scan h bp f = Some (last (base # us))"
proof -
  let ?p = "last (base # us)" and ?n = "if vs = [] then base else hd vs"
  have "base < u" if "u \<in> set (us @ bp # vs)" for u
    using asc_mem [OF asc that] by (simp add: word_less_nat_alt)
  then have up: "sorted_wrt (<) (base # us @ bp # vs)" using asc_sorted [OF asc] by simp
  have us: "path h base us ?n" and vs: "vs \<noteq> [] \<Longrightarrow> path h (hd vs) (tl vs) base" using ring by (cases vs; auto)+
  have p: "nxt h ?p = ?n" by (rule path_last [OF us])
  have "?p \<in> set (base # us)" by simp
  then have "base \<le> ?p" "?p < bp" "\<forall>v\<in>set vs. bp < v" using up by (auto simp: sorted_wrt_append less_imp_le)
  then have sp: "stops h bp ?p" using p by (cases vs) (auto simp: stops_def)
  have low: "free_scan h bp a = Some ?p" if as: "base # us = as @ a # ys" for as a ys
    using as
  proof (induction ys arbitrary: as a)
    case Nil
    then have "a = ?p" by simp
    then show ?case using sp by (simp add: free_scan_step)
  next
    case (Cons y ys)
    have "nxt h a = y" using us Cons.prems by (cases as) auto
    moreover have "a < y" "y < bp" using up Cons.prems by (cases as; auto simp: sorted_wrt_append)+
    ultimately have "free_scan h bp a = free_scan h bp y" by (subst free_scan_step) (auto simp: stops_def)
    then show ?case using Cons.IH [of "as @ [a]" y] Cons.prems by simp
  qed
  have high: "free_scan h bp a = free_scan h bp base" if "vs = as @ a # ys" for as a ys
    using that
  proof (induction ys arbitrary: as a)
    case Nil
    then have "path h base ((us @ as) @ a # []) base" using ring by simp
    then have "nxt h a = base" unfolding path_append by simp
    moreover have "bp < a" "base < bp" using up Nil by (auto simp: sorted_wrt_append)
    ultimately show ?case by (subst free_scan_step) (auto simp: stops_def)
  next
    case (Cons y ys)
    have "path h base ((us @ as) @ a # y # ys) base" using ring Cons.prems by simp
    then have "nxt h a = y" unfolding path_append by simp
    moreover have "a < y" "bp < a" using up Cons.prems by (auto simp: sorted_wrt_append)
    ultimately have "free_scan h bp a = free_scan h bp y" by (subst free_scan_step) (auto simp: stops_def)
    then show ?case using Cons.IH [of "as @ [a]" y] Cons.prems by simp
  qed
  show ?thesis
  proof (cases "f \<in> set (base # us)")
    case True
    then obtain as ys where "base # us = as @ f # ys" by (auto dest: split_list simp del: set_simps)
    then show ?thesis by (rule low)
  next
    case False
    then have "f \<in> set vs" using f by simp
    then obtain as ys where "vs = as @ f # ys" by (auto dest: split_list)
    then have "free_scan h bp f = free_scan h bp base" by (rule high)
    also have "\<dots> = Some ?p" using low [of "[]" base us] by simp
    finally show ?thesis .
  qed
qed

section \<open>Putting a block into the ring\<close>

definition fset_of :: "(32 word \<Rightarrow> header) \<Rightarrow> bool \<Rightarrow> 32 word list \<Rightarrow> nat set" where
  "fset_of h t bs = (\<Union>b\<in>{b \<in> set bs. h_type (h b) = t}. extent h b)"

lemma fset_of_simps [simp]: "fset_of h t [] = {}" "fset_of h t (b # bs) = (if h_type (h b) = t then extent h b else {}) \<union> fset_of h t bs"
  "fset_of h t (xs @ ys) = fset_of h t xs \<union> fset_of h t ys"
  by (auto simp: fset_of_def)

lemma fset_of_cong: "(\<And>b. b \<in> set bs \<Longrightarrow> h_size (h' b) = h_size (h b) \<and> h_type (h' b) = h_type (h b)) \<Longrightarrow> fset_of h' t bs = fset_of h t bs"
  by (force simp: fset_of_def extent_def lim_def)

lemma fset_of_upd [simp]: "u \<notin> set bs \<Longrightarrow> fset_of (h(u := v)) t bs = fset_of h t bs"
  by (rule fset_of_cong) auto

definition free_ring :: "(32 word \<Rightarrow> header) \<Rightarrow> 32 word \<Rightarrow> 32 word list \<Rightarrow> bool" where
  "free_ring h base bs = (path h base bs base \<and> asc h (unat base + 64) bs \<and> base \<noteq> 0 \<and> h_size (h base) = 0 \<and> \<not> h_type (h base))"

lemma merged_size:
  assumes "lim h a = unat b" "lim h b \<le> 4294967296" "0 < units h a"
  shows "unat (h_size (h a) + h_size (h b)) = units h a + units h b"
proof -
  have "64 * units h a \<le> unat b" "unat b + 64 * units h b \<le> 4294967296" using assms by (simp_all add: lim_def)
  then have "units h a + units h b < 4294967296" by linarith
  then show ?thesis by (simp add: unat_word_ariths)
qed

lemma extent_merge:
  assumes "lim h a = unat b" "0 < units h a"
  shows "extent h a \<union> extent h b = {unat a..<lim h b}"
  using assms by (auto simp: extent_def lim_def)

lemma join_after_spec:
  assumes ring: "free_ring h base (us @ vs)" and asc: "asc h (unat base + 64) (us @ bp # vs)"
  defines "p \<equiv> last (base # us)"
  defines "h1 \<equiv> join_after bp p h"
  obtains vs' where "path h1 base us (if vs = [] then base else hd vs)" "path h1 bp vs' base" "asc h1 (unat base + 64) (us @ bp # vs')"
    "\<And>t. fset_of h1 t (us @ bp # vs') = fset_of h t (us @ bp # vs)" "\<And>a. a \<noteq> bp \<Longrightarrow> h1 a = h a" "\<And>a. h_type (h1 a) = h_type (h a)"
    "units h bp \<le> units h1 bp"
    "vs' = vs \<and> h_size (h1 bp) = h_size (h bp) \<or> vs = hd vs # vs' \<and> h_type (h bp) = h_type (h (hd vs)) \<and> lim h bp = unat (hd vs)"
proof -
  let ?n = "if vs = [] then base else hd vs"
  have r: "path h base (us @ vs) base" "base \<noteq> 0" using ring by (simp_all add: free_ring_def)
  have us: "path h base us ?n" using r by (cases vs) auto
  have p: "nxt h p = ?n" unfolding p_def by (rule path_last [OF us])
  have dis: "distinct (us @ bp # vs)" by (rule asc_distinct [OF asc])
  have nb2: "base < v" if "v \<in> set (us @ bp # vs)" for v using asc_mem [OF asc that] by (simp add: word_less_nat_alt)
  have nb: "bp \<noteq> base" "\<And>v. v \<in> set (us @ bp # vs) \<Longrightarrow> base < v" using nb2 [of bp] nb2 by auto
  have lb: "lim h bp \<le> 4294967296" "0 < units h bp" using asc by (auto simp: asc_append)
  have n0: "?n \<noteq> 0" using r(2) nb2 [of "hd vs"] by (cases vs) auto
  have us1: "path h1 base us ?n" if "\<And>a. a \<noteq> bp \<Longrightarrow> h1 a = h a"
    using us dis nb(1) that path_cong [of base us h1 h] by fastforce
  show thesis
  proof (cases "h_type (h bp) = h_type (h ?n) \<and> bp + h_size (h bp) * HSIZE = ?n")
    case False
    then have h1: "h1 = h(bp := (h bp)\<lparr>h_ptr := ?n\<rparr>)" by (auto simp: h1_def join_after_def p)
    have "path h1 bp vs base"
      using r(1) dis h1 by (cases vs) auto
    moreover have "asc h1 (unat base + 64) (us @ bp # vs)" using asc asc_cong [of "us @ bp # vs" h1 h] h1 by auto
    moreover have "fset_of h1 t (us @ bp # vs) = fset_of h t (us @ bp # vs)" for t by (rule fset_of_cong) (auto simp: h1)
    ultimately show thesis using us1 h1 by (intro that [of vs]) auto
  next
    case True
    have lim: "lim h bp = unat ?n" using True block_end [OF lb(1) n0] by simp
    have "vs \<noteq> []"
    proof
      assume "vs = []"
      then have "lim h bp = unat base" using lim by simp
      moreover have "unat base < unat bp" using nb(2) [of bp] by (simp add: word_less_nat_alt)
      ultimately show False by (simp add: lim_def)
    qed
    then obtain n ws where vs: "vs = n # ws" by (cases vs) auto
    have h1: "h1 = h(bp := (h bp)\<lparr>h_size := h_size (h bp) + h_size (h n), h_ptr := nxt h n\<rparr>)"
      using True by (simp add: h1_def join_after_def p vs)
    have ln: "lim h n \<le> 4294967296" "lim h bp = unat n" "h_type (h bp) = h_type (h n)" "0 < units h n"
      using asc lim True vs by (auto simp: asc_append)
    have sz: "units h1 bp = units h bp + units h n" using merged_size [OF ln(2,1) lb(2)] by (simp add: h1)
    then have l1: "lim h1 bp = lim h n" using ln(2) by (simp add: lim_def)
    have "path h1 bp ws base" using r(1) dis h1 vs by (cases ws) auto
    moreover have "asc h1 (unat base + 64) (us @ bp # ws)"
    proof -
      have "asc h1 lo us = asc h lo us" "asc h1 lo ws = asc h lo ws" "\<forall>x\<in>set us. lim h1 x = lim h x" for lo
        using dis vs by (auto simp: h1 lim_def)
      then show ?thesis using asc l1 sz ln vs by (auto simp: asc_append)
    qed
    moreover have "fset_of h1 t (us @ bp # ws) = fset_of h t (us @ bp # vs)" for t
    proof -
      have "fset_of h1 t us = fset_of h t us" "fset_of h1 t ws = fset_of h t ws" using dis vs by (simp_all add: h1)
      moreover have "extent h1 bp = extent h bp \<union> extent h n" unfolding extent_merge [OF ln(2) lb(2)] by (simp add: extent_def l1)
      ultimately show ?thesis using ln(3) by (auto simp: vs h1)
    qed
    ultimately show thesis using us1 h1 vs ln sz by (intro that [of ws]) auto
  qed
qed

lemma free_insert:
  assumes ring: "free_ring h base (us @ vs)" and asc: "asc h (unat base + 64) (us @ bp # vs)"
  defines "p \<equiv> last (base # us)"
  defines "h2 \<equiv> join_before bp p (join_after bp p h)"
  obtains bs' where "free_ring h2 base bs'" "\<And>t. fset_of h2 t bs' = fset_of h t (us @ bp # vs)" "p \<in> set (base # bs')"
    "\<And>a. a \<noteq> bp \<Longrightarrow> a \<noteq> p \<Longrightarrow> h2 a = h a" "\<And>a. h_type (h2 a) = h_type (h a)" "set bs' \<subseteq> set (us @ bp # vs)"
    "nxt h2 p = bp \<and> bp \<in> set bs' \<and> units h bp \<le> units h2 bp \<or>
     p \<in> set bs' \<and> units h bp \<le> units h2 p \<and> h_type (h p) = h_type (h bp)"
    "vs = [] \<or> h_type (h bp) \<noteq> h_type (h (hd vs)) \<or> lim h bp \<noteq> unat (hd vs) \<longrightarrow>
      set (us @ vs) \<subseteq> set bs' \<and> (\<forall>b\<in>set (us @ vs). units h b \<le> units h2 b) \<and> (\<forall>b. b \<noteq> bp \<longrightarrow> b \<noteq> p \<longrightarrow> nxt h2 b = nxt h b) \<and>
      (nxt h2 p = bp \<or> nxt h2 p = nxt h p)"
proof -
  let ?h1 = "join_after bp p h" and ?n = "if vs = [] then base else hd vs"
  obtain vs' where j: "path ?h1 base us ?n" "path ?h1 bp vs' base" "asc ?h1 (unat base + 64) (us @ bp # vs')"
    "\<And>t. fset_of ?h1 t (us @ bp # vs') = fset_of h t (us @ bp # vs)" "\<And>a. a \<noteq> bp \<Longrightarrow> ?h1 a = h a" "\<And>a. h_type (?h1 a) = h_type (h a)"
    "units h bp \<le> units ?h1 bp"
    "vs' = vs \<and> h_size (?h1 bp) = h_size (h bp) \<or> vs = hd vs # vs' \<and> h_type (h bp) = h_type (h (hd vs)) \<and> lim h bp = unat (hd vs)"
    by (rule join_after_spec [OF ring asc, folded p_def]) (rule that; assumption)
  have b: "base \<noteq> 0" "h_size (h base) = 0" "\<not> h_type (h base)" and pn: "nxt h p = ?n"
    using ring path_last [of h base us] unfolding p_def free_ring_def by (cases vs; auto)+
  have dis: "distinct (us @ bp # vs')" by (rule asc_distinct [OF j(3)])
  have above: "base < v" if "v \<in> set (us @ bp # vs')" for v using asc_mem [OF j(3) that] by (simp add: word_less_nat_alt)
  have nb: "bp \<noteq> base" "base \<notin> set us" "base \<notin> set vs'" using above [of bp] above [of base] by auto
  have vs': "set vs' \<subseteq> set vs" using j(8) by (metis list.set_intros(2) subsetI subset_refl)
  have p_us: "us \<noteq> [] \<Longrightarrow> us = butlast us @ [p]" by (simp add: p_def)
  have pb: "p \<noteq> bp" using dis nb(1) by (auto simp: p_def)
  show thesis
  proof (cases "h_type (?h1 p) = h_type (?h1 bp) \<and> p + h_size (?h1 p) * HSIZE = bp")
    case True
    have "us \<noteq> []"
    proof
      assume "us = []"
      then have "p = base" by (simp add: p_def)
      then show False using True b(2) j(5) [of base] nb(1) by simp
    qed
    then obtain us0 where us: "us = us0 @ [p]" using p_us by blast
    have h2: "h2 = ?h1(p := (?h1 p)\<lparr>h_size := h_size (?h1 p) + h_size (?h1 bp), h_ptr := nxt ?h1 bp\<rparr>)"
      using True by (simp add: h2_def join_before_def)
    have lp: "lim ?h1 p \<le> 4294967296" "0 < units ?h1 p" "lim ?h1 bp \<le> 4294967296" using j(3) us by (auto simp: asc_append)
    have "bp \<noteq> 0" using above [of bp] by auto
    then have lim: "lim ?h1 p = unat bp" using True block_end [OF lp(1)] by simp
    have sz: "units h2 p = units ?h1 p + units ?h1 bp" using merged_size [OF lim lp(3) lp(2)] by (simp add: h2)
    have l2: "lim h2 p = lim ?h1 bp" using sz lim by (simp add: lim_def)
    have "path h2 base (us0 @ p # vs') base"
      using j(1,2) dis nb us pb by (cases vs') (auto simp: h2)
    moreover have "asc h2 (unat base + 64) (us0 @ p # vs')"
    proof -
      have "asc h2 lo us0 = asc ?h1 lo us0" "asc h2 lo vs' = asc ?h1 lo vs'" "\<forall>x\<in>set us0. lim h2 x = lim ?h1 x" for lo
        using dis us by (auto simp: h2 lim_def)
      then show ?thesis using j(3) l2 sz lp us by (auto simp: asc_append)
    qed
    ultimately have "free_ring h2 base (us0 @ p # vs')" using b j(5,6) nb us pb dis by (auto simp: free_ring_def h2)
    moreover have "fset_of h2 t (us0 @ p # vs') = fset_of h t (us @ bp # vs)" for t
    proof -
      have "fset_of h2 t us0 = fset_of ?h1 t us0" "fset_of h2 t vs' = fset_of ?h1 t vs'" using dis us by (simp_all add: h2)
      moreover have "extent h2 p = extent ?h1 p \<union> extent ?h1 bp" unfolding extent_merge [OF lim lp(2)] by (simp add: extent_def l2)
      moreover have "h_type (h2 p) = h_type (?h1 p)" by (simp add: h2)
      ultimately show ?thesis using j(4) [of t] True us by (auto simp: fset_of_simps)
    qed
    moreover have "set (us @ vs) \<subseteq> set (us0 @ p # vs') \<and> (\<forall>b\<in>set (us @ vs). units h b \<le> units h2 b) \<and>
      (\<forall>b. b \<noteq> bp \<longrightarrow> b \<noteq> p \<longrightarrow> nxt h2 b = nxt h b) \<and> (nxt h2 p = bp \<or> nxt h2 p = nxt h p)"
      if "vs = [] \<or> h_type (h bp) \<noteq> h_type (h (hd vs)) \<or> lim h bp \<noteq> unat (hd vs)"
    proof -
      have e: "vs' = vs" using j(8) that by auto
      have "nxt ?h1 bp = nxt h p" using j(2) e pn by (cases vs) auto
      then have pn2: "nxt h2 p = nxt h p" by (simp add: h2)
      have mono: "units h x \<le> units h2 x" if "x \<noteq> bp" for x
        using that j(5) [OF that] sz pb by (cases "x = p") (auto simp: h2)
      have "set (us @ vs) \<subseteq> set (us0 @ p # vs')" using e us by auto
      moreover have "b \<noteq> bp" if "b \<in> set (us @ vs)" for b using that dis e by auto
      with mono have "\<forall>b\<in>set (us @ vs). units h b \<le> units h2 b" by blast
      moreover have "\<forall>b. b \<noteq> bp \<longrightarrow> b \<noteq> p \<longrightarrow> nxt h2 b = nxt h b" using j(5) by (simp add: h2)
      ultimately show ?thesis using pn2 by blast
    qed
    ultimately show thesis
      using us vs' j(5-7) sz pb True by (intro that [of "us0 @ p # vs'"]) (auto simp: h2)
  next
    case False
    then have h2: "h2 = ?h1(p := (?h1 p)\<lparr>h_ptr := bp\<rparr>)" by (auto simp: h2_def join_before_def)
    have "path h2 base us bp"
    proof (cases "us = []")
      case True
      then show ?thesis by (simp add: h2 p_def)
    next
      case False
      then obtain us0 where us: "us = us0 @ [p]" using p_us by blast
      then show ?thesis using j(1) dis nb by (auto simp: h2)
    qed
    moreover have "p \<notin> set (bp # vs')" using last_in_set [of "base # us"] dis nb pb unfolding p_def [symmetric] by auto
    then have "path h2 bp vs' base" using j(2) by (simp add: h2)
    moreover have szs: "h_size (h2 a) = h_size (?h1 a)" "h_type (h2 a) = h_type (?h1 a)" for a by (simp_all add: h2)
    then have "asc h2 (unat base + 64) (us @ bp # vs')" using j(3) asc_cong [of "us @ bp # vs'" h2 ?h1] by simp
    ultimately have "free_ring h2 base (us @ bp # vs')" using b j(5,6) nb szs by (simp add: free_ring_def)
    moreover have "fset_of h2 t (us @ bp # vs') = fset_of h t (us @ bp # vs)" for t
      using j(4) [of t] fset_of_cong [of "us @ bp # vs'" h2 ?h1 t] szs by simp
    moreover have "set (us @ vs) \<subseteq> set (us @ bp # vs') \<and> (\<forall>b\<in>set (us @ vs). units h b \<le> units h2 b) \<and>
      (\<forall>b. b \<noteq> bp \<longrightarrow> b \<noteq> p \<longrightarrow> nxt h2 b = nxt h b) \<and> (nxt h2 p = bp \<or> nxt h2 p = nxt h p)"
      if "vs = [] \<or> h_type (h bp) \<noteq> h_type (h (hd vs)) \<or> lim h bp \<noteq> unat (hd vs)"
    proof -
      have e: "vs' = vs" using j(8) that by auto
      have "units h x \<le> units h2 x" if "x \<noteq> bp" for x using that j(5) [OF that] szs(1) [of x] by simp
      moreover have "b \<noteq> bp" if "b \<in> set (us @ vs)" for b using that dis e by auto
      ultimately have "\<forall>b\<in>set (us @ vs). units h b \<le> units h2 b" by blast
      moreover have "set (us @ vs) \<subseteq> set (us @ bp # vs')" using e by auto
      moreover have "\<forall>b. b \<noteq> bp \<longrightarrow> b \<noteq> p \<longrightarrow> nxt h2 b = nxt h b" using j(5) by (simp add: h2)
      moreover have "nxt h2 p = bp" by (simp add: h2)
      ultimately show ?thesis by blast
    qed
    moreover have "p \<in> set (base # us)" by (simp add: p_def)
    ultimately show thesis
      using vs' j(5-7) szs pb by (intro that [of "us @ bp # vs'"]) (auto simp: h2)
  qed
qed

end
