(* ===== verification/Umalloc_Heap.thy ===== *)
theory Umalloc_Heap
  imports Umalloc
begin

text \<open>
  The allocator of the user library in front of the break of the kernel: the free blocks and the blocks in
  use never overlap, and \<open>malloc\<close> and \<open>free\<close> keep that.  What the allocator asks of \<open>sys_brk\<close> is the
  locale \<open>brk_source\<close>, which \<open>do_brk\<close> of \<open>Mem_Calls\<close> satisfies.
\<close>

section \<open>The heap\<close>

text \<open>The free blocks \<open>bs\<close> and the blocks in use \<open>U\<close> are disjoint, lie above the static header and below \<open>B\<close>, and
  come from \<open>sys_brk\<close>.\<close>

definition blocks_ok :: "(32 word \<Rightarrow> header) \<Rightarrow> 32 word \<Rightarrow> 32 word list \<Rightarrow> 32 word set \<Rightarrow> nat \<Rightarrow> bool" where
  "blocks_ok h base bs U B =
     (free_ring h base bs \<and> (\<forall>b\<in>set bs \<union> U. \<not> h_type (h b) \<and> lim h b \<le> B) \<and>
      (\<forall>b\<in>U. unat base + 64 \<le> unat b \<and> 0 < units h b \<and> extent h b \<inter> fset_of h False bs = {}) \<and>
      (\<forall>b\<in>U. \<forall>c\<in>U. b \<noteq> c \<longrightarrow> extent h b \<inter> extent h c = {}))"

lemma extents_apart:
  assumes "extent h b \<inter> extent h c = {}" "0 < units h b" "0 < units h c"
  shows "lim h b \<le> unat c \<or> lim h c \<le> unat b"
proof (rule ccontr)
  assume "\<not> ?thesis"
  then have "max (unat b) (unat c) \<in> extent h b \<inter> extent h c" using assms(2,3) by (auto simp: extent_def lim_def)
  then show False using assms(1) by blast
qed

lemma asc_split:
  assumes "asc h lo bs" "lo \<le> unat b" "0 < units h b" "lim h b \<le> 4294967296" "\<forall>c\<in>set bs. extent h b \<inter> extent h c = {}"
  shows "\<exists>us vs. bs = us @ vs \<and> asc h lo (us @ b # vs)"
  using assms(1,2,5)
proof (induction bs arbitrary: lo)
  case Nil
  then show ?case using assms(3,4) by (intro exI [of _ "[]"]) simp
next
  case (Cons c bs)
  have "lim h b \<le> unat c \<or> lim h c \<le> unat b" using Cons.prems assms(3) by (intro extents_apart) auto
  then show ?case
  proof
    assume "lim h b \<le> unat c"
    then show ?thesis using Cons.prems assms(3,4) by (intro exI [of _ "[]"] exI [of _ "c # bs"]) auto
  next
    assume c: "lim h c \<le> unat b"
    then obtain us vs where "bs = us @ vs" "asc h (lim h c) (us @ b # vs)" using Cons.IH [of "lim h c"] Cons.prems by auto
    then show ?thesis using Cons.prems by (intro exI [of _ "c # us"] exI [of _ vs]) auto
  qed
qed

lemma extent_cong: "h_size (h' b) = h_size (h b) \<Longrightarrow> extent h' b = extent h b"
  by (simp add: extent_def lim_def)

lemma extent_mem: "0 < units h b \<Longrightarrow> unat b \<in> extent h b"
  by (simp add: extent_def lim_def)

lemma fset_of_all: "\<forall>b\<in>set bs. \<not> h_type (h b) \<Longrightarrow> fset_of h False bs = (\<Union>b\<in>set bs. extent h b)"
  by (auto simp: fset_of_def)

lemma fset_below:
  assumes "\<forall>c\<in>set bs. lim h c \<le> B" "x \<in> fset_of h t bs"
  shows "x < B"
proof -
  obtain c where "c \<in> set bs" "x < lim h c" using assms(2) by (auto simp: fset_of_def extent_def)
  then show ?thesis using assms(1) by (auto intro: less_le_trans)
qed

lemma blocks_apart:
  assumes "blocks_ok h base bs U B" "b \<in> U"
  shows "b \<notin> set (base # bs)" "\<forall>c\<in>set bs. extent h b \<inter> extent h c = {}"
proof -
  have "fset_of h False bs = (\<Union>b\<in>set bs. extent h b)" using assms(1) by (intro fset_of_all) (simp add: blocks_ok_def)
  moreover have "extent h b \<inter> fset_of h False bs = {}" using assms by (simp add: blocks_ok_def)
  ultimately show a: "\<forall>c\<in>set bs. extent h b \<inter> extent h c = {}" by blast
  have "0 < units h b" "unat base + 64 \<le> unat b" using assms by (auto simp: blocks_ok_def)
  then show "b \<notin> set (base # bs)" using a extent_mem [of h b] by auto
qed

text \<open>Blocks in use that a step on the ring does not touch.\<close>

lemma blocks_ok_change:
  assumes ok: "blocks_ok h base bs U B" and ring: "free_ring h' base bs'" and "U' \<subseteq> U" "B \<le> B'"
    and same: "\<forall>b\<in>U'. h' b = h b" and bs': "\<forall>b\<in>set bs'. \<not> h_type (h' b) \<and> lim h' b \<le> B'"
    and free: "fset_of h' False bs' \<inter> (\<Union>b\<in>U'. extent h b) = {}"
  shows "blocks_ok h' base bs' U' B'"
proof -
  have e: "extent h' b = extent h b \<and> lim h' b = lim h b" if "b \<in> U'" for b using same that by (simp add: extent_def lim_def)
  have "b \<in> U" if "b \<in> U'" for b using assms(3) that by blast
  moreover have "lim h b \<le> B'" if "b \<in> U'" for b
  proof -
    have "b \<in> U" using assms(3) that by blast
    then have "lim h b \<le> B" using ok by (simp add: blocks_ok_def)
    then show ?thesis using assms(4) by (rule order_trans)
  qed
  ultimately show ?thesis using ok ring same bs' free e unfolding blocks_ok_def by auto
qed

lemma blocks_ok_free:
  assumes ok: "blocks_ok h base bs U B" "B \<le> 4294967296" and b: "b \<in> U"
    and f: "f \<in> set (base # bs)"
  shows "\<exists>p bs'. free_scan h b f = Some p \<and> blocks_ok (join_before b p (join_after b p h)) base bs' (U - {b}) B \<and>
    p \<in> set (base # bs') \<and> fset_of (join_before b p (join_after b p h)) False bs' = fset_of h False bs \<union> extent h b \<and>
    (\<forall>a\<in>U - {b}. join_before b p (join_after b p h) a = h a)"
proof -
  have ring: "free_ring h base bs" and lb: "unat base + 64 \<le> unat b" "0 < units h b" "\<not> h_type (h b)" "lim h b \<le> B"
    using ok(1) b by (auto simp: blocks_ok_def)
  have "\<exists>us vs. bs = us @ vs \<and> asc h (unat base + 64) (us @ b # vs)"
    using ring lb ok(2) blocks_apart(2) [OF ok(1) b] by (intro asc_split) (auto simp: free_ring_def)
  then obtain us vs where bs: "bs = us @ vs" and asc: "asc h (unat base + 64) (us @ b # vs)" by blast
  let ?p = "last (base # us)" let ?h = "join_before b ?p (join_after b ?p h)"
  have scan: "free_scan h b f = Some ?p" using free_scan_finds [OF _ asc] ring f by (simp add: free_ring_def bs)
  obtain bs' where j: "free_ring ?h base bs'" "\<And>t. fset_of ?h t bs' = fset_of h t (us @ b # vs)" "?p \<in> set (base # bs')"
    "\<And>a. a \<noteq> b \<Longrightarrow> a \<noteq> ?p \<Longrightarrow> ?h a = h a" "\<And>a. h_type (?h a) = h_type (h a)" "set bs' \<subseteq> set (us @ b # vs)"
    by (rule free_insert [OF ring [unfolded bs] asc]) (rule that; assumption)
  have F: "fset_of ?h False bs' = fset_of h False bs \<union> extent h b" using j(2) [of False] lb(3) by (auto simp: bs)
  have "?p \<in> set (base # bs)" using last_in_set [of "base # us"] by (auto simp: bs)
  then have same: "\<forall>a\<in>U - {b}. ?h a = h a" using j(4) blocks_apart(1) [OF ok(1)] by blast
  have nt: "\<forall>c\<in>set bs'. \<not> h_type (?h c)" using j(5,6) ok(1) lb(3) by (auto simp: blocks_ok_def bs)
  have "lim ?h c \<le> B" if "c \<in> set bs'" for c
  proof -
    have c: "0 < units ?h c" using j(1) asc_mem that by (auto simp: free_ring_def)
    have "lim ?h c - 1 \<in> extent ?h c" using c by (auto simp: extent_def lim_def)
    then have "lim ?h c - 1 \<in> fset_of h False bs \<union> extent h b" using F fset_of_all [OF nt] that by blast
    moreover have "x < B" if "x \<in> fset_of h False bs \<union> extent h b" for x
      using that ok(1) lb(4) by (auto simp: fset_of_def extent_def blocks_ok_def dest: less_le_trans)
    ultimately have "lim ?h c - 1 < B" by blast
    then show ?thesis by simp
  qed
  moreover have "fset_of ?h False bs' \<inter> (\<Union>a\<in>U - {b}. extent h a) = {}"
    using ok(1) b unfolding F blocks_ok_def by blast
  ultimately have "blocks_ok ?h base bs' (U - {b}) B"
    using nt same by (intro blocks_ok_change [OF ok(1) j(1)]) auto
  with scan F same j(3) show ?thesis by blast
qed

lemma asc_snoc: "asc h lo bs \<Longrightarrow> \<forall>c\<in>set bs. lim h c \<le> unat b \<Longrightarrow> lo \<le> unat b \<Longrightarrow> 0 < units h b \<Longrightarrow> lim h b \<le> 4294967296 \<Longrightarrow> asc h lo (bs @ [b])"
  by (simp add: asc_append)

lemma blocks_ok_grow:
  assumes ok: "blocks_ok h0 base bs U B" and b: "unat b = B" "0 < unat n" "B + 64 * unat n \<le> B'" "B' \<le> 4294967296" "unat base + 64 \<le> B"
    and f: "f \<in> set (base # bs)"
  defines "h \<equiv> h0(b := (h0 b)\<lparr>h_size := n, h_type := False\<rparr>)" and "p \<equiv> last (base # bs)"
  defines "h2 \<equiv> join_before b p (join_after b p h)"
  shows "\<exists>bs'. free_scan h b f = Some p \<and> blocks_ok h2 base bs' U B' \<and> p \<in> set (base # bs') \<and>
    fset_of h2 False bs' = fset_of h0 False bs \<union> {B..<B + 64 * unat n} \<and> (\<forall>a\<in>U. h2 a = h0 a) \<and>
    (nxt h2 p = b \<and> b \<in> set bs' \<and> unat n \<le> units h2 b \<or> p \<in> set bs' \<and> unat n \<le> units h2 p) \<and>
    set bs \<subseteq> set bs' \<and> (\<forall>c\<in>set bs. units h0 c \<le> units h2 c) \<and> (\<forall>a. a \<noteq> b \<longrightarrow> a \<noteq> p \<longrightarrow> nxt h2 a = nxt h0 a)"
proof -
  have r0: "free_ring h0 base bs" "\<forall>c\<in>set bs \<union> U. \<not> h_type (h0 c) \<and> lim h0 c \<le> B" and U: "\<forall>c\<in>U. unat base + 64 \<le> unat c \<and> 0 < units h0 c"
    using ok by (auto simp: blocks_ok_def)
  have pos: "0 < units h0 c" if "c \<in> set bs" for c using r0(1) asc_mem that by (auto simp: free_ring_def)
  have nb: "b \<noteq> base" "b \<notin> set bs" "b \<notin> U"
  proof -
    have "b \<notin> set bs \<union> U"
    proof
      assume m: "b \<in> set bs \<union> U"
      then have "lim h0 b \<le> unat b" using r0(2) b(1) by blast
      moreover have "0 < units h0 b" using m pos U by blast
      ultimately show False by (simp add: lim_def)
    qed
    then show "b \<noteq> base" "b \<notin> set bs" "b \<notin> U" using b(1,5) by auto
  qed
  have same: "h a = h0 a" if "a \<noteq> b" for a using that by (simp add: h_def)
  have lb: "lim h b = B + 64 * unat n" "\<not> h_type (h b)" "units h b = unat n" using b(1) by (simp_all add: h_def lim_def)
  have ring: "free_ring h base (bs @ [])" using r0(1) nb by (simp add: free_ring_def h_def)
  have "\<forall>c\<in>set bs. lim h c \<le> unat b" using r0(2) nb(2) b(1) by (auto simp: lim_def h_def)
  then have asc: "asc h (unat base + 64) (bs @ b # [])" using ring b lb by (intro asc_snoc) (auto simp: free_ring_def)
  have scan: "free_scan h b f = Some p" using free_scan_finds [OF _ asc] ring f by (simp add: free_ring_def p_def)
  obtain bs' where j: "free_ring h2 base bs'" "\<And>t. fset_of h2 t bs' = fset_of h t (bs @ [b])" "p \<in> set (base # bs')"
    "\<And>a. a \<noteq> b \<Longrightarrow> a \<noteq> p \<Longrightarrow> h2 a = h a" "\<And>a. h_type (h2 a) = h_type (h a)" "set bs' \<subseteq> set (bs @ [b])"
    "nxt h2 p = b \<and> b \<in> set bs' \<and> units h b \<le> units h2 b \<or> p \<in> set bs' \<and> units h b \<le> units h2 p \<and> h_type (h p) = h_type (h b)"
    "([] :: 32 word list) = [] \<or> h_type (h b) \<noteq> h_type (h (hd [])) \<or> lim h b \<noteq> unat (hd ([] :: 32 word list)) \<longrightarrow>
      set (bs @ []) \<subseteq> set bs' \<and> (\<forall>c\<in>set (bs @ []). units h c \<le> units h2 c) \<and> (\<forall>c. c \<noteq> b \<longrightarrow> c \<noteq> p \<longrightarrow> nxt h2 c = nxt h c) \<and>
      (nxt h2 p = b \<or> nxt h2 p = nxt h p)"
    by (rule free_insert [OF ring asc, folded p_def, folded h2_def]) (rule that; assumption)
  have F: "fset_of h2 False bs' = fset_of h0 False bs \<union> {B..<B + 64 * unat n}"
    using j(2) [of False] lb nb(2) b(1) by (simp add: h_def extent_def)
  have "p \<in> set (base # bs)" unfolding p_def by simp
  then have sU: "\<forall>a\<in>U. h2 a = h0 a" using j(4) same blocks_apart(1) [OF ok] nb(3) by metis
  have "\<not> h_type (h c)" if "c \<in> set (bs @ [b])" for c using that r0(2) lb(2) same by (cases "c = b") auto
  then have nt: "\<forall>c\<in>set bs'. \<not> h_type (h2 c)" using j(6) by (auto simp: j(5))
  have "lim h2 c \<le> B'" if "c \<in> set bs'" for c
  proof -
    have c: "0 < units h2 c" using j(1) asc_mem that by (auto simp: free_ring_def)
    have "lim h2 c - 1 \<in> extent h2 c" using c by (auto simp: extent_def lim_def)
    then have "lim h2 c - 1 \<in> fset_of h0 False bs \<union> {B..<B + 64 * unat n}" using F fset_of_all [OF nt] that by blast
    moreover have "x < B'" if "x \<in> fset_of h0 False bs \<union> {B..<B + 64 * unat n}" for x
      using that fset_below [of bs h0 B x False] r0(2) b(2,3) by auto
    ultimately have "lim h2 c - 1 < B'" by blast
    then show ?thesis by simp
  qed
  moreover have "{B..<B + 64 * unat n} \<inter> extent h0 a = {}" if "a \<in> U" for a
  proof -
    have "lim h0 a \<le> B" using r0(2) that by simp
    then show ?thesis by (auto simp: extent_def)
  qed
  then have "fset_of h2 False bs' \<inter> (\<Union>a\<in>U. extent h0 a) = {}"
    using ok unfolding F blocks_ok_def by blast
  ultimately have "blocks_ok h2 base bs' U B'"
    using nt sU b(3) by (intro blocks_ok_change [OF ok j(1)]) auto
  moreover have "set bs \<subseteq> set bs'" and mono: "\<forall>c\<in>set bs. units h c \<le> units h2 c" and nx: "\<forall>a. a \<noteq> b \<longrightarrow> a \<noteq> p \<longrightarrow> nxt h2 a = nxt h a"
    using j(8) by simp_all
  moreover have "units h0 c \<le> units h2 c" if "c \<in> set bs" for c
  proof -
    have "c \<noteq> b" using that nb(2) by blast
    from same [OF this] have "h c = h0 c" .
    moreover have "units h c \<le> units h2 c" using mono that by blast
    ultimately show ?thesis by simp
  qed
  then have "\<forall>c\<in>set bs. units h0 c \<le> units h2 c" by blast
  moreover have "nxt h a = nxt h0 a" for a by (simp add: h_def)
  then have "\<forall>a. a \<noteq> b \<longrightarrow> a \<noteq> p \<longrightarrow> nxt h2 a = nxt h0 a" using nx by simp
  moreover have "nxt h2 p = b \<and> b \<in> set bs' \<and> unat n \<le> units h2 b \<or> p \<in> set bs' \<and> unat n \<le> units h2 p" using j(7) lb(3) by auto
  ultimately show ?thesis using scan F sU j(3) by (intro exI [of _ bs'] conjI) assumption+
qed

lemma blocks_ok_insert:
  assumes "blocks_ok h base bs U B" "\<not> h_type (h x)" "lim h x \<le> B" "unat base + 64 \<le> unat x" "0 < units h x"
    "extent h x \<inter> fset_of h False bs = {}" "\<forall>c\<in>U. extent h x \<inter> extent h c = {}"
  shows "blocks_ok h base bs (insert x U) B"
proof -
  have "\<forall>c\<in>U. extent h c \<inter> extent h x = {}" using assms(7) by blast
  with assms show ?thesis by (simp add: blocks_ok_def)
qed

text \<open>The predecessor in the ring is unique.\<close>

lemma ring_pred:
  assumes "path h base (us @ x # vs) base" "distinct (base # us @ x # vs)" "y \<in> set (base # us @ x # vs)" "nxt h y = x"
  shows "y = last (base # us)"
proof -
  obtain c d where cd: "base # us @ x # vs = c @ y # d" using assms(3) by (auto dest: split_list simp del: set_simps)
  have "path h y d base"
  proof (cases c)
    case (Cons a c')
    then have "us @ x # vs = c' @ y # d" using cd by simp
    with assms(1) show ?thesis by (simp del: path_append add: path_append [of h base c' y d base])
  qed (use assms(1) cd in auto)
  then have "nxt h y = hd (d @ [base])" by (cases d) auto
  then have "hd (d @ [base]) = x" using assms(4) by simp
  then obtain d' where d: "d = x # d'" using assms(2) by (cases d) auto
  have "(base # us) @ x # vs = (c @ [y]) @ x # d'" using cd d by simp
  moreover have "distinct (c @ y # x # d')" using assms(2) unfolding cd d .
  then have "x \<notin> set (c @ [y])" "x \<notin> set d'" by auto
  moreover have "x \<notin> set (base # us)" "x \<notin> set vs" using assms(2) by auto
  ultimately have "base # us = c @ [y]" by (subst (asm) append_Cons_eq_iff) auto
  then show ?thesis by simp
qed

lemma free_ring_mem:
  assumes "free_ring h base bs" "b \<in> set bs"
  shows "unat base + 64 \<le> unat b" "0 < units h b" "lim h b \<le> 4294967296" "b \<noteq> base"
  using asc_mem [of h "unat base + 64" bs b] assms by (auto simp: free_ring_def)

lemma free_ring_distinct: "free_ring h base bs \<Longrightarrow> distinct (base # bs)"
  using asc_distinct [of h "unat base + 64" bs] free_ring_mem(4) [of h base bs base] by (auto simp: free_ring_def)

lemma ring_apart:
  assumes "free_ring h base (us @ x # vs)"
  shows "\<forall>c\<in>set (us @ vs). extent h x \<inter> extent h c = {}"
proof -
  have asc: "asc h (unat base + 64) (us @ x # vs)" using assms by (simp add: free_ring_def)
  have "lim h c \<le> unat x" if "c \<in> set us" for c using asc that by (auto simp: asc_append)
  moreover have "lim h x \<le> unat c" if "c \<in> set vs" for c using asc asc_mem [of h "lim h x" vs c] that by (auto simp: asc_append)
  ultimately show ?thesis by (fastforce simp: extent_def)
qed

text \<open>Taking a whole block out of the ring.\<close>

lemma take_whole:
  assumes ring: "free_ring h base (us @ x # vs)" and x: "\<not> h_type (h x)"
  defines "y \<equiv> last (base # us)"
  defines "h' \<equiv> h(y := (h y)\<lparr>h_ptr := nxt h x\<rparr>)"
  shows "free_ring h' base (us @ vs)" "fset_of h' False (us @ vs) \<union> extent h' x = fset_of h False (us @ x # vs)" "extent h' x = extent h x"
    "\<forall>a. h_size (h' a) = h_size (h a) \<and> h_type (h' a) = h_type (h a)"
proof -
  show same: "\<forall>a. h_size (h' a) = h_size (h a) \<and> h_type (h' a) = h_type (h a)" by (simp add: h'_def)
  then show e: "extent h' x = extent h x" by (intro extent_cong) simp
  have "fset_of h' False (us @ vs) = fset_of h False (us @ vs)" by (rule fset_of_cong) (use same in blast)
  with e x show "fset_of h' False (us @ vs) \<union> extent h' x = fset_of h False (us @ x # vs)" by auto
  have dis: "distinct (base # us @ x # vs)" by (rule free_ring_distinct [OF ring])
  have p: "path h base us x" "path h x vs base" and asc: "asc h (unat base + 64) (us @ x # vs)" using ring by (simp_all add: free_ring_def)
  have q: "path h' base us (nxt h x)"
  proof (cases us rule: rev_cases)
    case (snoc us0 z)
    then have "z \<notin> set (base # us0)" using dis by auto
    then show ?thesis using p snoc by (simp add: h'_def y_def)
  qed (simp add: h'_def y_def)
  have "path h' base (us @ vs) base"
  proof (cases vs)
    case Nil
    then show ?thesis using q p by simp
  next
    case (Cons v ws)
    moreover have "path h' v ws base"
    proof -
      have "y \<in> set (base # us)" by (simp add: y_def)
      then have "y \<notin> set (v # ws)" using dis Cons by auto
      then show ?thesis using p Cons by (simp add: h'_def)
    qed
    ultimately show ?thesis using q p by simp
  qed
  moreover have "asc h' (unat base + 64) (us @ vs)"
  proof -
    have "asc h (lim h x) vs" "lim h x \<ge> unat x" using asc by (auto simp: asc_append lim_def)
    then have "asc h (unat base + 64) (us @ vs)" using asc
    proof (cases vs)
      case (Cons v ws)
      have "unat base + 64 \<le> unat x" using free_ring_mem(1) [OF ring, of x] by simp
      moreover have "lim h u \<le> unat x" if "u \<in> set us" for u using asc that by (auto simp: asc_append)
      ultimately show ?thesis using asc Cons \<open>lim h x \<ge> unat x\<close> by (fastforce simp: asc_append)
    qed (simp add: asc_append)
    then show ?thesis using asc_cong [of "us @ vs" h' h] same by simp
  qed
  ultimately show "free_ring h' base (us @ vs)" using ring same by (simp add: free_ring_def)
qed

text \<open>Cutting a block in two.\<close>

lemma cut_block:
  assumes ring: "free_ring h base (us @ x # vs)" and n: "n < h_size (h x)" "n \<noteq> 0" and x: "\<not> h_type (h x)"
  defines "y \<equiv> last (base # us)" and "np \<equiv> x + n * HSIZE"
  defines "h1 \<equiv> h(y := (h y)\<lparr>h_ptr := np\<rparr>)"
  defines "h2 \<equiv> h1(np := \<lparr>h_ptr = nxt h1 x, h_size = h_size (h1 x) - n, h_type = False\<rparr>)"
  defines "h' \<equiv> h2(x := (h2 x)\<lparr>h_size := n\<rparr>)"
  shows "free_ring h' base (us @ np # vs)" "fset_of h' False (us @ np # vs) \<union> extent h' x = fset_of h False (us @ x # vs)"
    "unat np \<in> extent h x" "extent h' x \<inter> fset_of h' False (us @ np # vs) = {}" "h_size (h' x) = n" "h_type (h' x) = h_type (h x)"
    "\<forall>a. a \<noteq> np \<longrightarrow> a \<noteq> x \<longrightarrow> a \<noteq> y \<longrightarrow> h' a = h a" "np \<notin> set (base # us @ x # vs)" "lim h' np = lim h x" "lim h' x = unat np" "\<not> h_type (h' np)"
proof -
  note lx = free_ring_mem [OF ring, of x, simplified]
  have nn: "unat n < units h x" "0 < unat n" using n by (simp_all add: word_less_nat_alt unat_gt_0)
  then have un: "unat np = unat x + 64 * unat n" unfolding np_def using lx(3) by (intro unat_step) (simp add: lim_def)
  show inx: "unat np \<in> extent h x" using un nn by (simp add: extent_def lim_def)
  have "np \<noteq> c" if "c \<in> set (us @ vs)" for c
    using ring_apart [OF ring] that inx extent_mem [of h c] free_ring_mem(2) [OF ring, of c] by auto
  then show np: "np \<notin> set (base # us @ x # vs)" using un lx(1) nn by auto
  have dis: "distinct (base # us @ x # vs)" by (rule free_ring_distinct [OF ring])
  have y: "y \<in> set (base # us)" by (simp add: y_def)
  then have xy: "x \<noteq> y" "np \<noteq> y" "np \<noteq> x" "y \<notin> set vs" using dis np by auto
  show at: "\<forall>a. a \<noteq> np \<longrightarrow> a \<noteq> x \<longrightarrow> a \<noteq> y \<longrightarrow> h' a = h a" by (simp add: h'_def h2_def h1_def)
  have hx: "h' x = (h x)\<lparr>h_size := n\<rparr>" and hy: "h' y = (h y)\<lparr>h_ptr := np\<rparr>"
    and hnp: "h' np = \<lparr>h_ptr = nxt h x, h_size = h_size (h x) - n, h_type = False\<rparr>"
    using xy by (simp_all add: h'_def h2_def h1_def)
  show "h_size (h' x) = n" "h_type (h' x) = h_type (h x)" "\<not> h_type (h' np)" by (simp_all add: hx hnp)
  have "units h' np = units h x - unat n" using n(1) by (simp add: hnp unat_sub less_imp_le)
  then show ln: "lim h' np = lim h x" using un nn by (simp add: lim_def algebra_simps)
  show lx': "lim h' x = unat np" using un by (simp add: lim_def hx)
  have rest: "h_size (h' c) = h_size (h c) \<and> h_type (h' c) = h_type (h c)" if "c \<in> set (us @ vs)" for c
  proof -
    have "c \<noteq> np" "c \<noteq> x" using that np dis by auto
    then show ?thesis using at hy by (cases "c = y") auto
  qed
  have p: "path h base us x" "path h x vs base" and asc: "asc h (unat base + 64) (us @ x # vs)" using ring by (simp_all add: free_ring_def)
  have "path h' base us np"
  proof (cases us rule: rev_cases)
    case (snoc us0 z)
    then have "y \<notin> set (base # us0)" "x \<notin> set (base # us0)" "np \<notin> set (base # us0)" "z = y" using dis np by (auto simp: y_def)
    then have "path h' base us0 z" "nxt h' z = np" using p snoc hy by (auto simp: h'_def h2_def h1_def)
    then show ?thesis using snoc by simp
  qed (use hy in \<open>simp add: y_def\<close>)
  moreover have "path h' np vs base"
  proof (cases vs)
    case (Cons v ws)
    then have "path h' v ws base = path h v ws base" using at np dis xy by (intro path_cong) auto
    then show ?thesis using p(2) Cons hnp by simp
  qed (use p(2) hnp in simp)
  moreover have "asc h' (unat base + 64) (us @ np # vs)"
  proof -
    have "asc h' l us = asc h l us" "asc h' l vs = asc h l vs" for l using rest by (auto intro!: asc_cong)
    moreover have "lim h' c = lim h c" if "c \<in> set us" for c using rest that by (simp add: lim_def)
    moreover have "0 < units h' np" using ln un nn by (auto simp: lim_def)
    ultimately show ?thesis using asc ln un by (fastforce simp: asc_append)
  qed
  moreover have "h' base = (if us = [] then (h base)\<lparr>h_ptr := np\<rparr> else h base)" using at np dis hy by (auto simp: y_def)
  ultimately show "free_ring h' base (us @ np # vs)" using ring by (simp add: free_ring_def)
  have "fset_of h' t us = fset_of h t us" "fset_of h' t vs = fset_of h t vs" for t using rest by (auto intro!: fset_of_cong)
  moreover have "extent h x = extent h' x \<union> extent h' np" using inx by (auto simp: extent_def ln lx')
  ultimately show "fset_of h' False (us @ np # vs) \<union> extent h' x = fset_of h False (us @ x # vs)" using x by (auto simp: hnp)
  have "extent h' x \<subseteq> extent h x" using inx by (auto simp: extent_def lx')
  moreover have "extent h' c = extent h c" if "c \<in> set (us @ vs)" for c using rest [OF that] by (intro extent_cong) simp
  moreover have "extent h' x \<inter> extent h' np = {}" by (auto simp: extent_def lx')
  ultimately have "extent h' x \<inter> extent h' c = {}" if "c \<in> set (us @ np # vs)" for c
    using that ring_apart [OF ring] by fastforce
  then show "extent h' x \<inter> fset_of h' False (us @ np # vs) = {}" by (auto simp: fset_of_def)
qed

lemma lim_le: "blocks_ok h base bs U B \<Longrightarrow> c \<in> set bs \<Longrightarrow> lim h c \<le> B"
  by (simp add: blocks_ok_def)

lemma blocks_ok_take:
  assumes ok: "blocks_ok (hdr s) base bs U B" and x: "x \<in> set bs" and y: "y \<in> set (base # bs)" "nxt (hdr s) y = x"
    and n: "n \<le> h_size (hdr s x)" "n \<noteq> 0"
  defines "s' \<equiv> snd (take_units n False y x s)"
  shows "\<exists>bs'. blocks_ok (hdr s') base bs' (insert x U) B \<and> y \<in> set (base # bs') \<and> x \<notin> U \<and> h_size (hdr s' x) = n \<and>
    fset_of (hdr s') False bs' \<union> extent (hdr s') x = fset_of (hdr s) False bs \<and> (\<forall>a\<in>U. hdr s' a = hdr s a)"
proof -
  let ?h = "hdr s" and ?h' = "hdr s'"
  have ring: "free_ring ?h base bs" and tx: "\<not> h_type (?h x)" using ok x by (auto simp: blocks_ok_def)
  obtain us vs where bs: "bs = us @ x # vs" using x by (auto dest: split_list)
  note ring' = ring [unfolded bs]
  have dis: "distinct (base # us @ x # vs)" by (rule free_ring_distinct [OF ring'])
  have yl: "y = last (base # us)" using ring' dis y by (intro ring_pred) (auto simp: bs free_ring_def)
  have xU: "x \<notin> U" using blocks_apart(1) [OF ok] x by auto
  have yU: "y \<notin> U" using blocks_apart(1) [OF ok] y(1) by blast
  have lx: "unat base + 64 \<le> unat x" "lim ?h x \<le> B" using free_ring_mem(1) [OF ring x] lim_le [OF ok x] by simp_all
  have xa: "\<forall>c\<in>U. extent ?h x \<inter> extent ?h c = {}" using blocks_apart(2) [OF ok] x by blast
  show ?thesis
  proof (cases "h_size (?h x) = n")
    case True
    then have h': "?h' = ?h(y := (?h y)\<lparr>h_ptr := nxt ?h x\<rparr>)" by (simp add: s'_def take_units_def)
    note t = take_whole [OF ring' tx, folded yl, folded h']
    have same: "\<forall>a\<in>U. ?h' a = ?h a" using yU by (auto simp: h')
    have F: "fset_of ?h' False (us @ vs) \<union> extent ?h' x = fset_of ?h False bs" using t(2) bs by simp
    have "extent ?h x \<inter> fset_of ?h' False (us @ vs) = {}"
    proof -
      have "fset_of ?h' False (us @ vs) = fset_of ?h False (us @ vs)" by (rule fset_of_cong) (use t(4) in blast)
      then show ?thesis using ring_apart [OF ring'] by (auto simp: fset_of_def)
    qed
    moreover have "fset_of ?h' False (us @ vs) \<inter> (\<Union>a\<in>U. extent ?h a) = {}" using ok F unfolding blocks_ok_def by blast
    then have "blocks_ok ?h' base (us @ vs) U B"
      using ok t(4) same by (intro blocks_ok_change [OF ok t(1)]) (auto simp: blocks_ok_def bs lim_def)
    ultimately have "blocks_ok ?h' base (us @ vs) (insert x U) B"
      using t(3,4) tx lx xa same free_ring_mem(2) [OF ring x] by (intro blocks_ok_insert) (auto simp: lim_def extent_def)
    moreover have "y \<in> set (base # us @ vs)" using last_in_set [of "base # us"] unfolding yl by auto
    ultimately show ?thesis using xU True t(4) F same by (intro exI [of _ "us @ vs"]) simp
  next
    case False
    then have lt: "n < h_size (?h x)" using n by simp
    let ?np = "x + n * HSIZE"
    note c = cut_block [OF ring' lt n(2) tx, folded yl]
    have h': "?h' = (let h1 = ?h(y := (?h y)\<lparr>h_ptr := ?np\<rparr>);
        h2 = h1(?np := \<lparr>h_ptr = nxt h1 x, h_size = h_size (h1 x) - n, h_type = False\<rparr>) in h2(x := (h2 x)\<lparr>h_size := n\<rparr>))"
      using False by (simp add: s'_def take_units_def)
    note c = c [folded h' [unfolded Let_def]]
    have F: "fset_of ?h' False (us @ ?np # vs) \<union> extent ?h' x = fset_of ?h False bs" using c(2) bs by simp
    have npU: "?np \<notin> U"
    proof
      assume u: "?np \<in> U"
      then have "unat ?np \<in> extent ?h ?np" using ok by (intro extent_mem) (simp add: blocks_ok_def)
      then show False using xa u c(3) by blast
    qed
    then have same: "\<forall>a\<in>U. ?h' a = ?h a" using c(7) xU yU by metis
    have "extent ?h' x \<subseteq> extent ?h x" using c(3,10) by (auto simp: extent_def)
    then have xa': "\<forall>a\<in>U. extent ?h' x \<inter> extent ?h' a = {}" using xa same by (auto simp: extent_def lim_def)
    have bs': "\<not> h_type (?h' a) \<and> lim ?h' a \<le> B" if "a \<in> set (us @ ?np # vs)" for a
    proof (cases "a = ?np")
      case False
      then have a: "a \<in> set bs" "a \<noteq> x" using that dis bs by auto
      then have "\<not> h_type (?h a)" "lim ?h a \<le> B" using ok by (auto simp: blocks_ok_def)
      then show ?thesis using c(7) a False by (cases "a = y") (auto simp: h' lim_def)
    qed (use c(9,11) lx in simp)
    have "fset_of ?h' False (us @ ?np # vs) \<inter> (\<Union>a\<in>U. extent ?h a) = {}" using ok F unfolding blocks_ok_def by blast
    then have "blocks_ok ?h' base (us @ ?np # vs) U B"
      using bs' same by (intro blocks_ok_change [OF ok c(1)]) auto
    then have "blocks_ok ?h' base (us @ ?np # vs) (insert x U) B"
      using c tx lx xa' n(2) by (intro blocks_ok_insert) (auto simp: extent_def unat_gt_0)
    moreover have "y \<in> set (base # us @ ?np # vs)" using last_in_set [of "base # us"] unfolding yl by auto
    ultimately show ?thesis using xU c(5) F same by (intro exI [of _ "us @ ?np # vs"]) simp
  qed
qed

section \<open>The search\<close>

definition fits :: "(32 word \<Rightarrow> header) \<Rightarrow> 32 word \<Rightarrow> bool \<Rightarrow> 32 word \<Rightarrow> bool" where
  "fits h n t x \<longleftrightarrow> h_type (h x) = t \<and> n \<le> h_size (h x)"

text \<open>The loop takes the first block that fits on the way to \<open>freep\<close>; if there is none it asks for more memory there.\<close>

lemma malloc_loop_scan:
  assumes "path (hdr s) q ys (freep s)" "freep s \<notin> set ys"
  shows "(\<exists>as x zs. ys @ [freep s] = as @ x # zs \<and> fits (hdr s) n t x \<and> nxt (hdr s) (last (q # as)) = x \<and>
        malloc_loop mc n t q (nxt (hdr s) q) s = Some (Inr (take_units n t (last (q # as)) x s))) \<or>
    (\<forall>x\<in>set (ys @ [freep s]). \<not> fits (hdr s) n t x) \<and>
      malloc_loop mc n t q (nxt (hdr s) q) s =
        (case mc n s of
           Inl e \<Rightarrow> Some (Inl e)
         | Inr (ok, s1) \<Rightarrow> if \<not> ok then Some (Inr (0, s1)) else malloc_loop mc n t (freep s) (nxt (hdr s1) (freep s)) s1)"
  using assms
proof (induction ys arbitrary: q)
  case Nil
  then have e: "nxt (hdr s) q = freep s" by simp
  show ?case
  proof (cases "fits (hdr s) n t (freep s)")
    case True
    then show ?thesis unfolding e by (intro disjI1 exI [of _ "[]"]) (subst malloc_loop.simps, simp add: fits_def e)
  next
    case False
    then have "malloc_loop mc n t q (freep s) s =
        (case mc n s of
           Inl e \<Rightarrow> Some (Inl e)
         | Inr (ok, s1) \<Rightarrow> if \<not> ok then Some (Inr (0, s1)) else malloc_loop mc n t (freep s) (nxt (hdr s1) (freep s)) s1)"
      by (subst malloc_loop.simps) (simp only: fits_def simp_thms if_False if_True)
    then show ?thesis using False unfolding e by simp
  qed
next
  case (Cons y ys)
  then have e: "nxt (hdr s) q = y" "y \<noteq> freep s" by auto
  show ?case
  proof (cases "fits (hdr s) n t y")
    case True
    then show ?thesis unfolding e by (intro disjI1 exI [of _ "[]"]) (subst malloc_loop.simps, simp add: fits_def e)
  next
    case False
    then have step: "malloc_loop mc n t q y s = malloc_loop mc n t y (nxt (hdr s) y) s"
      using e(2) by (subst malloc_loop.simps) (auto simp: fits_def)
    from Cons.IH [of y] Cons.prems have "path (hdr s) y ys (freep s)" "freep s \<notin> set ys" by auto
    from Cons.IH [OF this] show ?thesis
    proof (elim disjE exE conjE)
      fix as x zs
      assume "ys @ [freep s] = as @ x # zs" "fits (hdr s) n t x" "nxt (hdr s) (last (y # as)) = x"
        "malloc_loop mc n t y (nxt (hdr s) y) s = Some (Inr (take_units n t (last (y # as)) x s))"
      then show ?thesis unfolding e step by (intro disjI1 exI [of _ "y # as"]) simp
    next
      assume "\<forall>x\<in>set (ys @ [freep s]). \<not> fits (hdr s) n t x"
        "malloc_loop mc n t y (nxt (hdr s) y) s =
          (case mc n s of
             Inl e \<Rightarrow> Some (Inl e)
           | Inr (ok, s1) \<Rightarrow> if \<not> ok then Some (Inr (0, s1)) else malloc_loop mc n t (freep s) (nxt (hdr s1) (freep s)) s1)"
      then show ?thesis using False unfolding e step by (intro disjI2) simp
    qed
  qed
qed

section \<open>Memory from the break\<close>

lemma blocks_ok_mono: "blocks_ok h base bs U B \<Longrightarrow> B \<le> B' \<Longrightarrow> blocks_ok h base bs U B'"
  unfolding blocks_ok_def by (auto intro: order_trans)

text \<open>The heap in front of a kernel \<open>k\<close> whose break is \<open>cur k\<close> and that can take \<open>n\<close> more calls.\<close>

definition heap_inv :: "('k \<Rightarrow> 32 word) \<Rightarrow> (nat \<Rightarrow> 'k \<Rightarrow> bool) \<Rightarrow> 32 word \<Rightarrow> 32 word list \<Rightarrow> 32 word set \<Rightarrow> nat \<Rightarrow> 'k heap_st \<Rightarrow> bool" where
  "heap_inv cur ready base bs U n s =
     (blocks_ok (hdr s) base bs U (unat (brk_var s)) \<and> freep s \<in> set (base # bs) \<and> (brk_var s = 0 \<or> brk_var s = cur (kern s)) \<and>
      ready n (kern s) \<and> unat base + 64 \<le> unat (cur (kern s)))"

definition alloc_result :: "('k \<Rightarrow> 32 word) \<Rightarrow> (nat \<Rightarrow> 'k \<Rightarrow> bool) \<Rightarrow> 32 word \<Rightarrow> 32 word list \<Rightarrow> 32 word set \<Rightarrow> nat \<Rightarrow> 32 word \<Rightarrow> 'k heap_st \<Rightarrow>
    32 word \<Rightarrow> 'k heap_st \<Rightarrow> bool" where
  "alloc_result cur ready base bs U n nu s ret s' \<longleftrightarrow>
     (\<exists>bs'. heap_inv cur ready base bs' (if ret = 0 then U else insert (ret - HSIZE) U) n s' \<and>
        (ret \<noteq> 0 \<longrightarrow> ret - HSIZE \<notin> U \<and> h_size (hdr s' (ret - HSIZE)) = nu) \<and>
        fset_of (hdr s') False bs' \<union> (if ret = 0 then {} else extent (hdr s') (ret - HSIZE)) =
          fset_of (hdr s) False bs \<union> {unat (cur (kern s))..<unat (cur (kern s'))} \<and>
        cur (kern s) \<le> cur (kern s') \<and> (\<forall>a\<in>U. hdr s' a = hdr s a) \<and> mem_lock s' = mem_lock s \<and> fork_lock s' = fork_lock s)"

text \<open>What the allocator relies on: a null request tells the break, a higher one moves it at least that far or not at all.\<close>

locale brk_source =
  fixes sys_brk :: "'k brk_call" and cur :: "'k \<Rightarrow> 32 word" and ready :: "nat \<Rightarrow> 'k \<Rightarrow> bool"
  assumes query: "ready (Suc n) k \<Longrightarrow> \<exists>k'. sys_brk 0 k = Inr (0, cur k, k') \<and> ready n k' \<and> cur k' = cur k"
    and grow: "ready (Suc n) k \<Longrightarrow> cur k < w \<Longrightarrow> w \<le> 0xF0001000 \<Longrightarrow>
      \<exists>ret b k'. sys_brk w k = Inr (ret, b, k') \<and> ready n k' \<and> (ret = 0 \<and> b = cur k' \<and> w \<le> b \<or> cur k' = cur k \<and> (ret = 0 \<longrightarrow> b = cur k))"
    and placed: "ready n k \<Longrightarrow> cur k \<noteq> 0 \<and> 64 dvd unat (cur k) \<and> unat (cur k) \<le> 0xB0000000"
    and fewer: "ready (Suc n) k \<Longrightarrow> ready n k"
begin

lemma first_brk_ok:
  assumes "heap_inv cur ready base bs U (Suc n) s"
  shows "\<exists>s1. first_brk sys_brk s = Inr (True, s1) \<and> heap_inv cur ready base bs U n s1 \<and> brk_var s1 = cur (kern s1) \<and>
    hdr s1 = hdr s \<and> freep s1 = freep s \<and> cur (kern s1) = cur (kern s) \<and> mem_lock s1 = mem_lock s \<and> fork_lock s1 = fork_lock s"
proof (cases "brk_var s = 0")
  case True
  have rd: "ready (Suc n) (kern s)" using assms by (simp add: heap_inv_def)
  from query [OF this] obtain k where k: "sys_brk 0 (kern s) = Inr (0, cur (kern s), k)" "ready n k" "cur k = cur (kern s)" by blast
  have "cur (kern s) \<noteq> 0" using placed [OF rd] by simp
  moreover have "blocks_ok (hdr s) base bs U (unat (cur (kern s)))"
    using assms True by (simp add: heap_inv_def blocks_ok_mono [of "hdr s" base bs U 0])
  ultimately show ?thesis using k assms True by (auto simp: first_brk_def heap_inv_def)
next
  case False
  then have "first_brk sys_brk s = Inr (True, s)" by (simp add: first_brk_def)
  moreover have "ready n (kern s)" using assms fewer by (simp add: heap_inv_def)
  moreover have "brk_var s = cur (kern s)" using assms False by (simp add: heap_inv_def)
  ultimately show ?thesis using assms unfolding heap_inv_def by (intro exI [of _ s]) simp
qed

lemma morecore_ok:
  assumes inv: "heap_inv cur ready base bs U (Suc (Suc n)) s" and nu: "0 < unat nu" "unat nu \<le> 0x1000001"
  shows "(\<exists>s1. morecore_brk_locked sys_brk nu s = Inr (False, s1) \<and> alloc_result cur ready base bs U n nu s 0 s1) \<or>
    (\<exists>s1 bs1 b. morecore_brk_locked sys_brk nu s = Inr (True, s1) \<and> heap_inv cur ready base bs1 U n s1 \<and> freep s1 = last (base # bs) \<and>
       fset_of (hdr s1) False bs1 = fset_of (hdr s) False bs \<union> {unat (cur (kern s))..<unat (cur (kern s1))} \<and>
       cur (kern s) \<le> cur (kern s1) \<and> (\<forall>a\<in>U. hdr s1 a = hdr s a) \<and>
       (\<not> (freep s1 \<in> set bs1 \<and> unat nu \<le> units (hdr s1) (freep s1)) \<longrightarrow>
          nxt (hdr s1) (freep s1) = b \<and> b \<in> set bs1 \<and> unat nu \<le> units (hdr s1) b) \<and>
       set bs \<subseteq> set bs1 \<and> b \<notin> set (base # bs) \<and> (\<forall>c\<in>set bs. units (hdr s) c \<le> units (hdr s1) c) \<and>
       (\<forall>a. a \<noteq> b \<longrightarrow> a \<noteq> freep s1 \<longrightarrow> nxt (hdr s1) a = nxt (hdr s) a) \<and> mem_lock s1 = mem_lock s \<and> fork_lock s1 = fork_lock s)"
proof -
  obtain s1 where s1: "first_brk sys_brk s = Inr (True, s1)" "heap_inv cur ready base bs U (Suc n) s1" "brk_var s1 = cur (kern s1)"
    "hdr s1 = hdr s" "freep s1 = freep s" "cur (kern s1) = cur (kern s)" "mem_lock s1 = mem_lock s" "fork_lock s1 = fork_lock s"
    using first_brk_ok [OF inv] by blast
  let ?b = "brk_var s1" and ?w = "brk_var s1 + nu * HSIZE"
  have rd: "ready (Suc n) (kern s1)" and ok: "blocks_ok (hdr s) base bs U (unat ?b)" and lo: "unat base + 64 \<le> unat ?b"
    and f: "freep s \<in> set (base # bs)" using s1 by (auto simp: heap_inv_def)
  have b: "64 dvd unat ?b" "unat ?b \<le> 0xB0000000" using placed [OF rd] s1(3) by simp_all
  have w: "unat ?w = unat ?b + 64 * unat nu" using b(2) nu(2) by (intro unat_step) simp
  then have "cur (kern s1) < ?w" "?w \<le> 0xF0001000" using nu b(2) s1(3) by (simp_all add: word_less_nat_alt word_le_nat_alt)
  from grow [OF rd this] obtain ret nb k where k: "sys_brk ?w (kern s1) = Inr (ret, nb, k)" "ready n k"
    "ret = 0 \<and> nb = cur k \<and> ?w \<le> nb \<or> cur k = cur (kern s1) \<and> (ret = 0 \<longrightarrow> nb = cur (kern s1))" by blast
  let ?s2 = "s1\<lparr>kern := k\<rparr>"
  show ?thesis
  proof (cases "ret = 0 \<and> nb = cur k \<and> ?w \<le> nb")
    case False
    then have c: "cur k = ?b" "ret \<noteq> 0 \<or> nb \<le> ?b" using k(3) s1(3) by auto
    have "morecore_brk_locked sys_brk nu s = Inr (False, ?s2)" using s1(1) k(1) c(2) by (simp add: morecore_brk_locked_def)
    moreover have "alloc_result cur ready base bs U n nu s 0 ?s2"
      using s1 k(2) c(1) ok lo f unfolding alloc_result_def heap_inv_def by (intro exI [of _ bs]) simp
    ultimately show ?thesis by blast
  next
    case True
    have nb: "64 dvd unat nb" "unat nb \<le> 0xB0000000" using placed [OF k(2)] True by simp_all
    have le: "unat ?b + 64 * unat nu \<le> unat nb"
    proof -
      have "unat ?w \<le> unat nb" using True word_le_nat_alt by blast
      then show ?thesis unfolding w .
    qed
    define m where "m = (nb - ?b) div HSIZE"
    have "unat (nb - ?b) = unat nb - unat ?b" using le by (intro unat_sub) (simp add: word_le_nat_alt)
    then have m: "64 * unat m = unat nb - unat ?b" using b(1) nb(1) by (simp add: m_def HSIZE_def unat_div)
    have m': "unat nu \<le> unat m" "unat ?b + 64 * unat m = unat nb" using m le by linarith+
    have big: "\<not> nb \<le> ?b" using le nu by (simp add: word_le_nat_alt)
    let ?p = "last (base # bs)"
    let ?h = "(hdr s)(?b := (hdr s ?b)\<lparr>h_size := m, h_type := False\<rparr>)"
    let ?h2 = "join_before ?b ?p (join_after ?b ?p ?h)"
    have g: "\<exists>bs'. free_scan ?h ?b (freep s) = Some ?p \<and> blocks_ok ?h2 base bs' U (unat nb) \<and> ?p \<in> set (base # bs') \<and>
      fset_of ?h2 False bs' = fset_of (hdr s) False bs \<union> {unat ?b..<unat ?b + 64 * unat m} \<and> (\<forall>a\<in>U. ?h2 a = hdr s a) \<and>
      (nxt ?h2 ?p = ?b \<and> ?b \<in> set bs' \<and> unat m \<le> units ?h2 ?b \<or> ?p \<in> set bs' \<and> unat m \<le> units ?h2 ?p) \<and>
      set bs \<subseteq> set bs' \<and> (\<forall>c\<in>set bs. units (hdr s) c \<le> units ?h2 c) \<and> (\<forall>a. a \<noteq> ?b \<longrightarrow> a \<noteq> ?p \<longrightarrow> nxt ?h2 a = nxt (hdr s) a)"
      using m' nu nb(2) lo by (intro blocks_ok_grow [OF ok refl _ _ _ _ f]) simp_all
    then obtain bs' where G: "free_scan ?h ?b (freep s) = Some ?p" "blocks_ok ?h2 base bs' U (unat nb)" "?p \<in> set (base # bs')"
      "fset_of ?h2 False bs' = fset_of (hdr s) False bs \<union> {unat ?b..<unat nb}" "\<forall>a\<in>U. ?h2 a = hdr s a"
      "nxt ?h2 ?p = ?b \<and> ?b \<in> set bs' \<and> unat m \<le> units ?h2 ?b \<or> ?p \<in> set bs' \<and> unat m \<le> units ?h2 ?p"
      "set bs \<subseteq> set bs'" "\<forall>c\<in>set bs. units (hdr s) c \<le> units ?h2 c" "\<forall>a. a \<noteq> ?b \<longrightarrow> a \<noteq> ?p \<longrightarrow> nxt ?h2 a = nxt (hdr s) a"
      unfolding m'(2) by blast
    let ?s' = "?s2\<lparr>hdr := ?h2, freep := ?p, brk_var := nb\<rparr>"
    have "free_locked (?b + HSIZE) (new_block ?b m False ?s2) = Inr (?s2\<lparr>hdr := ?h2, freep := ?p\<rparr>)"
      using G(1) s1(4,5) by (simp add: free_locked_def new_block_def spinR_def)
    then have "morecore_brk_locked sys_brk nu s = Inr (True, ?s')"
      using s1(1) k(1) True big by (simp add: morecore_brk_locked_def m_def)
    moreover have "heap_inv cur ready base bs' U n ?s'" using G(2,3) k(2) True lo le by (simp add: heap_inv_def)
    moreover have "?b \<notin> set (base # bs)"
    proof -
      have "?b \<noteq> c" if "c \<in> set bs" for c
      proof -
        have "0 < units (hdr s) c" using free_ring_mem(2) that ok by (auto simp: blocks_ok_def)
        moreover have "unat c + 64 * units (hdr s) c \<le> unat ?b" using lim_le [OF ok that] by (simp only: lim_def)
        ultimately show ?thesis by auto
      qed
      then show ?thesis using lo by auto
    qed
    moreover have "cur (kern s) \<le> nb" "cur (kern s) = ?b" using le s1(3,6) by (simp_all add: word_le_nat_alt)
    moreover have "\<not> (?p \<in> set bs' \<and> unat nu \<le> units ?h2 ?p) \<longrightarrow> nxt ?h2 ?p = ?b \<and> ?b \<in> set bs' \<and> unat nu \<le> units ?h2 ?b"
      using G(6) m'(1) order_trans by blast
    moreover have "kern ?s' = k" "cur k = nb" "hdr ?s' = ?h2" "freep ?s' = ?p" "mem_lock ?s' = mem_lock s" "fork_lock ?s' = fork_lock s"
      using True s1(7,8) by simp_all
    ultimately show ?thesis using G(4,5,7-9)
      by - (rule disjI2, intro exI [of _ ?s'] exI [of _ bs'] exI [of _ ?b] conjI, simp_all only: not_False_eq_True simp_thms)
  qed
qed

end

text \<open>The nodes on the way from one node of the ring to another.\<close>

lemma ring_way:
  assumes "free_ring h base bs" "q \<in> set (base # bs)" "f \<in> set (base # bs)"
  shows "\<exists>ys. path h q ys f \<and> f \<notin> set ys \<and> set (q # ys @ [f]) \<subseteq> set (base # bs)"
proof -
  have "path h base bs base" using assms(1) by (simp add: free_ring_def)
  from ring_from [OF this assms(2) free_ring_distinct [OF assms(1)]] obtain ws
    where ws: "path h q ws q" "set (q # ws) = set (base # bs)" "distinct (q # ws)" by blast
  show ?thesis
  proof (cases "f = q")
    case True
    have "set (q # ws @ [f]) = set (q # ws)" using True by simp
    then show ?thesis using ws True assms(2) by (intro exI [of _ ws]) auto
  next
    case False
    then have "f \<in> set ws" using ws(2) assms(3) by (metis set_ConsD)
    then obtain ys zs where sp: "ws = ys @ f # zs" by (auto dest: split_list)
    then have "set (q # ys @ [f]) \<subseteq> set (q # ws)" by auto
    then show ?thesis using ws sp by (intro exI [of _ ys]) auto
  qed
qed

context brk_source
begin

lemma fewer_inv: "heap_inv cur ready base bs U (Suc n) s \<Longrightarrow> heap_inv cur ready base bs U n s"
  using fewer by (simp add: heap_inv_def)

lemma fewer_result: "alloc_result cur ready base bs U (Suc n) nu s ret s' \<Longrightarrow> alloc_result cur ready base bs U n nu s ret s'"
  unfolding alloc_result_def by (elim exE conjE) (intro exI conjI, rule fewer_inv, assumption+)

lemma take_result:
  assumes inv: "heap_inv cur ready base bs U n s" and x: "x \<in> set bs" and y: "y \<in> set (base # bs)" "nxt (hdr s) y = x"
    and nu: "nu \<le> h_size (hdr s x)" "nu \<noteq> 0"
  shows "\<exists>ret s'. take_units nu False y x s = (ret, s') \<and> alloc_result cur ready base bs U n nu s ret s'"
proof -
  let ?s = "snd (take_units nu False y x s)"
  have ok: "blocks_ok (hdr s) base bs U (unat (brk_var s))" using inv by (simp add: heap_inv_def)
  from blocks_ok_take [OF ok x y nu] obtain bs' where t: "blocks_ok (hdr ?s) base bs' (insert x U) (unat (brk_var s))" "y \<in> set (base # bs')"
    "x \<notin> U" "h_size (hdr ?s x) = nu" "fset_of (hdr ?s) False bs' \<union> extent (hdr ?s) x = fset_of (hdr s) False bs" "\<forall>a\<in>U. hdr ?s a = hdr s a"
    by blast
  have tk: "take_units nu False y x s = (x + HSIZE, ?s)" and rest: "brk_var ?s = brk_var s" "freep ?s = y" "kern ?s = kern s"
    "mem_lock ?s = mem_lock s" "fork_lock ?s = fork_lock s"
    by (simp_all add: take_units_def)
  have rd: "ready n (kern s)" using inv by (simp add: heap_inv_def)
  have "brk_var s = 0 \<or> unat (brk_var s) \<le> 0xB0000000" using placed [OF rd] inv by (auto simp: heap_inv_def)
  moreover have "0 < unat nu" using nu(2) by (simp add: unat_gt_0)
  moreover have "lim (hdr ?s) x \<le> unat (brk_var s)" using t(1) by (simp add: blocks_ok_def)
  ultimately have "unat x + 64 \<le> 0xB0000000" using t(4) by (auto simp: lim_def)
  then have "unat (x + HSIZE) = unat x + 64" by (simp add: HSIZE_def unat_word_ariths)
  then have "x + HSIZE \<noteq> 0" by auto
  then have "alloc_result cur ready base bs U n nu s (x + HSIZE) ?s"
    using t inv unfolding alloc_result_def by (intro exI [of _ bs']) (simp add: heap_inv_def rest)
  with tk show ?thesis by blast
qed

lemma fits_in_ring:
  assumes inv: "heap_inv cur ready base bs U n s" and "x \<in> set (base # bs)" "fits (hdr s) nu False x" "nu \<noteq> 0"
  shows "x \<in> set bs"
proof -
  have "h_size (hdr s base) = 0" using inv by (simp add: heap_inv_def blocks_ok_def free_ring_def)
  then show ?thesis using assms(2-4) by (auto simp: fits_def)
qed

lemma in_ring_fits:
  assumes inv: "heap_inv cur ready base bs U n s" and "x \<in> set bs" "unat nu \<le> units (hdr s) x"
  shows "fits (hdr s) nu False x"
  using assms by (simp add: heap_inv_def blocks_ok_def fits_def word_le_nat_alt)

text \<open>What a second request for memory adds to the first.\<close>

lemma alloc_result_after:
  assumes "alloc_result cur ready base bs1 U n nu s1 ret s'" "cur (kern s) \<le> cur (kern s1)" "\<forall>a\<in>U. hdr s1 a = hdr s a"
    "fset_of (hdr s1) False bs1 = fset_of (hdr s) False bs \<union> {unat (cur (kern s))..<unat (cur (kern s1))}"
    "mem_lock s1 = mem_lock s" "fork_lock s1 = fork_lock s"
  shows "alloc_result cur ready base bs U n nu s ret s'"
proof -
  obtain bs' where r: "heap_inv cur ready base bs' (if ret = 0 then U else insert (ret - HSIZE) U) n s'"
    "ret \<noteq> 0 \<longrightarrow> ret - HSIZE \<notin> U \<and> h_size (hdr s' (ret - HSIZE)) = nu"
    "fset_of (hdr s') False bs' \<union> (if ret = 0 then {} else extent (hdr s') (ret - HSIZE)) =
       fset_of (hdr s1) False bs1 \<union> {unat (cur (kern s1))..<unat (cur (kern s'))}"
    "cur (kern s1) \<le> cur (kern s')" "\<forall>a\<in>U. hdr s' a = hdr s1 a" "mem_lock s' = mem_lock s1" "fork_lock s' = fork_lock s1"
    using assms(1) unfolding alloc_result_def by blast
  have le: "unat (cur (kern s)) \<le> unat (cur (kern s1))" "unat (cur (kern s1)) \<le> unat (cur (kern s'))"
    using assms(2) r(4) by (simp_all add: word_le_nat_alt)
  then have "{unat (cur (kern s))..<unat (cur (kern s1))} \<union> {unat (cur (kern s1))..<unat (cur (kern s'))} =
    {unat (cur (kern s))..<unat (cur (kern s'))}" by (rule ivl_disj_un)
  then have "fset_of (hdr s') False bs' \<union> (if ret = 0 then {} else extent (hdr s') (ret - HSIZE)) =
    fset_of (hdr s) False bs \<union> {unat (cur (kern s))..<unat (cur (kern s'))}" using r(3) assms(4) by (simp add: Un_assoc)
  moreover have "cur (kern s) \<le> cur (kern s')" using assms(2) r(4) by (rule order_trans)
  ultimately show ?thesis using r(1,2,5-7) assms(3,5,6) unfolding alloc_result_def by (intro exI [of _ bs'] conjI) simp_all
qed

lemma malloc_loop_ok:
  assumes inv: "heap_inv cur ready base bs U (Suc (Suc (Suc (Suc n)))) s" and nu: "0 < unat nu" "unat nu \<le> 0x1000001"
  shows "\<exists>ret s'. malloc_loop (morecore_brk_locked sys_brk) nu False (freep s) (nxt (hdr s) (freep s)) s = Some (Inr (ret, s')) \<and>
    alloc_result cur ready base bs U n nu s ret s'"
proof -
  let ?mc = "morecore_brk_locked sys_brk" let ?f = "freep s"
  have nu0: "nu \<noteq> 0" using nu(1) by auto
  have inv0: "heap_inv cur ready base bs U n s" by (rule fewer_inv [OF fewer_inv [OF fewer_inv [OF fewer_inv [OF inv]]]])
  have hit: "\<exists>ret s'. take_units nu False (last (q # as)) x t = (ret, s') \<and> alloc_result cur ready base cs U n nu t ret s'"
    if "heap_inv cur ready base cs U n t" "set (q # ys @ [f]) \<subseteq> set (base # cs)" "ys @ [f] = as @ x # zs" "fits (hdr t) nu False x"
      "nxt (hdr t) (last (q # as)) = x" for cs t q ys f as x zs
  proof -
    have "last (q # as) \<in> set (q # as)" by (rule last_in_set) simp
    then have "last (q # as) \<in> set (q # ys @ [f])" "x \<in> set (q # ys @ [f])" using that(3) by auto
    then have m: "last (q # as) \<in> set (base # cs)" "x \<in> set (base # cs)" using that(2) by blast+
    have "x \<in> set cs" by (rule fits_in_ring [OF that(1) m(2) that(4) nu0])
    then show ?thesis using that(4) nu0 by (intro take_result [OF that(1) _ m(1) that(5)]) (auto simp: fits_def)
  qed
  have ring: "free_ring (hdr s) base bs" and f: "?f \<in> set (base # bs)" using inv by (auto simp: heap_inv_def blocks_ok_def)
  from ring_way [OF ring f f] obtain ys where ys: "path (hdr s) ?f ys ?f" "?f \<notin> set ys" "set (?f # ys @ [?f]) \<subseteq> set (base # bs)" by blast
  from malloc_loop_scan [OF ys(1,2), of nu False ?mc] show ?thesis
  proof (elim disjE exE conjE)
    fix as x zs assume "ys @ [?f] = as @ x # zs" "fits (hdr s) nu False x" "nxt (hdr s) (last (?f # as)) = x"
      "malloc_loop ?mc nu False ?f (nxt (hdr s) ?f) s = Some (Inr (take_units nu False (last (?f # as)) x s))"
    with hit [OF inv0 ys(3)] show ?thesis by metis
  next
    assume e: "malloc_loop ?mc nu False ?f (nxt (hdr s) ?f) s = (case ?mc nu s of Inl e \<Rightarrow> Some (Inl e)
      | Inr (ok, s1) \<Rightarrow> if \<not> ok then Some (Inr (0, s1)) else malloc_loop ?mc nu False ?f (nxt (hdr s1) ?f) s1)"
    from morecore_ok [OF inv nu] show ?thesis
    proof (elim disjE exE conjE)
      fix s1 assume "?mc nu s = Inr (False, s1)" "alloc_result cur ready base bs U (Suc (Suc n)) nu s 0 s1"
      moreover from this(2) have "alloc_result cur ready base bs U n nu s 0 s1" by (rule fewer_result [OF fewer_result])
      ultimately show ?thesis using e by simp
    next
      fix s1 bs1 b
      assume m1: "?mc nu s = Inr (True, s1)" and i1: "heap_inv cur ready base bs1 U (Suc (Suc n)) s1" and f1: "freep s1 = last (base # bs)"
        and grew: "fset_of (hdr s1) False bs1 = fset_of (hdr s) False bs \<union> {unat (cur (kern s))..<unat (cur (kern s1))}"
          "cur (kern s) \<le> cur (kern s1)" "\<forall>a\<in>U. hdr s1 a = hdr s a" "mem_lock s1 = mem_lock s" "fork_lock s1 = fork_lock s"
        and new: "\<not> (freep s1 \<in> set bs1 \<and> unat nu \<le> units (hdr s1) (freep s1)) \<longrightarrow>
          nxt (hdr s1) (freep s1) = b \<and> b \<in> set bs1 \<and> unat nu \<le> units (hdr s1) b"
        and sub: "set bs \<subseteq> set bs1"
      let ?p = "freep s1"
      have i1': "heap_inv cur ready base bs1 U n s1" by (rule fewer_inv [OF fewer_inv [OF i1]])
      have ring1: "free_ring (hdr s1) base bs1" and p1: "?p \<in> set (base # bs1)" using i1 by (auto simp: heap_inv_def blocks_ok_def)
      have f1: "?f \<in> set (base # bs1)" using f sub by auto
      have e1: "malloc_loop ?mc nu False ?f (nxt (hdr s) ?f) s = malloc_loop ?mc nu False ?f (nxt (hdr s1) ?f) s1" using e m1 by simp
      have after: ?thesis if "\<exists>ret s'. malloc_loop ?mc nu False ?f (nxt (hdr s1) ?f) s1 = Some (Inr (ret, s')) \<and> alloc_result cur ready base bs1 U n nu s1 ret s'"
        using that grew unfolding e1 by (blast intro: alloc_result_after)
      from ring_way [OF ring1 f1 p1] obtain ys where ys: "path (hdr s1) ?f ys ?p" "?p \<notin> set ys" "set (?f # ys @ [?p]) \<subseteq> set (base # bs1)" by blast
      from malloc_loop_scan [OF ys(1,2), of nu False ?mc] show ?thesis
      proof (elim disjE exE conjE)
        fix as x zs assume "ys @ [?p] = as @ x # zs" "fits (hdr s1) nu False x" "nxt (hdr s1) (last (?f # as)) = x"
          "malloc_loop ?mc nu False ?f (nxt (hdr s1) ?f) s1 = Some (Inr (take_units nu False (last (?f # as)) x s1))"
        with hit [OF i1' ys(3)] show ?thesis by (intro after) metis
      next
        assume miss: "\<forall>x\<in>set (ys @ [?p]). \<not> fits (hdr s1) nu False x"
          and e2: "malloc_loop ?mc nu False ?f (nxt (hdr s1) ?f) s1 = (case ?mc nu s1 of Inl e \<Rightarrow> Some (Inl e)
            | Inr (ok, s2) \<Rightarrow> if \<not> ok then Some (Inr (0, s2)) else malloc_loop ?mc nu False ?p (nxt (hdr s2) ?p) s2)"
        have b: "nxt (hdr s1) ?p = b" "b \<in> set bs1" "unat nu \<le> units (hdr s1) b"
          using new miss in_ring_fits [OF i1, of ?p nu] by auto
        from morecore_ok [OF i1 nu] show ?thesis
        proof (elim disjE exE conjE)
          fix s2 assume "?mc nu s1 = Inr (False, s2)" "alloc_result cur ready base bs1 U n nu s1 0 s2"
          then show ?thesis using e2 by (intro after) simp
        next
          fix s2 bs2 b2
          assume m2: "?mc nu s1 = Inr (True, s2)" and i2: "heap_inv cur ready base bs2 U n s2" and p2: "freep s2 = last (base # bs1)"
            and grew2: "fset_of (hdr s2) False bs2 = fset_of (hdr s1) False bs1 \<union> {unat (cur (kern s1))..<unat (cur (kern s2))}"
              "cur (kern s1) \<le> cur (kern s2)" "\<forall>a\<in>U. hdr s2 a = hdr s1 a" "mem_lock s2 = mem_lock s1" "fork_lock s2 = fork_lock s1"
            and sub2: "set bs1 \<subseteq> set bs2" "b2 \<notin> set (base # bs1)" "\<forall>c\<in>set bs1. units (hdr s1) c \<le> units (hdr s2) c"
              "\<forall>a. a \<noteq> b2 \<longrightarrow> a \<noteq> freep s2 \<longrightarrow> nxt (hdr s2) a = nxt (hdr s1) a"
          have "nxt (hdr s1) (freep s2) = base" unfolding p2 using ring1 by (intro path_last) (simp add: free_ring_def)
          moreover have "b \<noteq> base" by (rule free_ring_mem(4) [OF ring1 b(2)])
          ultimately have "?p \<noteq> freep s2" using b(1) by auto
          then have nb: "nxt (hdr s2) ?p = b" using sub2(2,4) p1 b(1) by auto
          have b2: "b \<in> set bs2" and "unat nu \<le> units (hdr s2) b" using b sub2(1,3) by (auto intro: order_trans)
          then have fb: "fits (hdr s2) nu False b" by (intro in_ring_fits [OF i2])
          have sz: "nu \<le> h_size (hdr s2 b)" using fb by (simp add: fits_def)
          have "?p \<in> set (base # bs2)" using p1 sub2(1) by auto
          from take_result [OF i2 b2 this nb sz nu0] obtain ret s'
            where t: "take_units nu False ?p b s2 = (ret, s')" "alloc_result cur ready base bs2 U n nu s2 ret s'" by blast
          have "malloc_loop ?mc nu False ?p b s2 = Some (Inr (ret, s'))"
            using fb t(1) by (subst malloc_loop.simps) (simp add: fits_def)
          then have "malloc_loop ?mc nu False ?f (nxt (hdr s1) ?f) s1 = Some (Inr (ret, s'))" using e2 m2 nb by simp
          then show ?thesis using alloc_result_after [OF t(2) grew2(2,3,1,4,5)] by (intro after) blast
        qed
      qed
    qed
  qed
qed

end

section \<open>The calls\<close>

lemma alloc_header:
  assumes "heap_inv cur ready base bs U n s" "b \<in> U"
  shows "unat b + 64 \<le> unat (brk_var s)"
proof -
  have "lim (hdr s) b \<le> unat (brk_var s)" "0 < units (hdr s) b" using assms by (auto simp: heap_inv_def blocks_ok_def)
  then show ?thesis by (simp add: lim_def)
qed

lemma units_for_ok:
  assumes "sz \<le> 0x40000000"
  shows "0 < unat (units_for sz)" "unat (units_for sz) \<le> 0x1000001" "unat sz + 64 \<le> 64 * unat (units_for sz)"
proof -
  have le: "unat sz \<le> 0x40000000" using assms by (simp add: word_le_nat_alt)
  have "unat (sz + HSIZE - 1) = unat sz + 63"
  proof -
    have e: "sz + HSIZE - 1 = sz + 0x3F" by (simp add: HSIZE_def)
    have "unat (sz + 0x3F) = unat sz + 63" using le by (simp add: unat_word_ariths)
    then show ?thesis unfolding e .
  qed
  then have "unat (units_for sz) = (unat sz + 63) div 64 + 1" using le by (simp add: units_for_def unat_word_ariths unat_div HSIZE_def)
  then show "0 < unat (units_for sz)" "unat (units_for sz) \<le> 0x1000001" "unat sz + 64 \<le> 64 * unat (units_for sz)"
    using le by simp_all
qed

lemma alloc_extent:
  assumes "alloc_result cur ready base bs U n (units_for sz) s ret s'" "ret \<noteq> 0" "sz \<le> 0x40000000"
  shows "{unat ret..<unat ret + unat sz} \<subseteq> extent (hdr s') (ret - HSIZE)"
proof -
  let ?b = "ret - HSIZE"
  obtain bs' where inv: "heap_inv cur ready base bs' (insert ?b U) n s'" and sz: "h_size (hdr s' ?b) = units_for sz"
    using assms(1,2) by (auto simp: alloc_result_def)
  have le: "unat ?b + 64 \<le> unat (brk_var s')" using alloc_header [OF inv] by simp
  have "unat (brk_var s') < 4294967296" by (rule unat_bounds)
  then have lt: "unat ?b + 64 < 4294967296" using le by simp
  have step: "unat x + 64 < 4294967296 \<Longrightarrow> unat (x + HSIZE) = unat x + 64" for x by (simp add: HSIZE_def unat_word_ariths)
  have "?b + HSIZE = ret" by simp
  with step [OF lt] have "unat ret = unat ?b + 64" by (simp only:)
  then show ?thesis using units_for_ok(3) [OF assms(3)] by (auto simp: extent_def lim_def sz)
qed

lemma user_locks [simp]:
  "\<not> bit l 0 \<Longrightarrow> user_lock l = Inr (set_bit 0 l)" "\<not> bit l 0 \<Longrightarrow> user_unlock (set_bit 0 l) = l"
proof -
  assume "\<not> bit l 0"
  then have "unset_bit 0 (set_bit 0 l) = l" by (intro bit_word_eqI) (metis bit_set_bit_iff bit_unset_bit_iff)
  with \<open>\<not> bit l 0\<close> show "user_lock l = Inr (set_bit 0 l)" "user_unlock (set_bit 0 l) = l"
    by (simp_all add: user_lock_def user_unlock_def test_and_set_bit_def test_and_clear_bit_def)
qed

lemma unlock_malloc_simps [simp]:
  "hdr (unlock_malloc s) = hdr s" "kern (unlock_malloc s) = kern s" "freep (unlock_malloc s) = freep s" "brk_var (unlock_malloc s) = brk_var s"
  "mem_lock (unlock_malloc s) = user_unlock (mem_lock s)" "fork_lock (unlock_malloc s) = user_unlock (fork_lock s)"
  "heap_inv cur ready base bs U n (unlock_malloc s) = heap_inv cur ready base bs U n s"
  by (simp_all add: unlock_malloc_def heap_inv_def)

context brk_source
begin

lemma malloc_ok:
  assumes inv: "heap_inv cur ready base bs U (Suc (Suc (Suc (Suc n)))) (first_ring base s)" and sz: "sz \<le> 0x40000000"
    and free: "\<not> bit (fork_lock s) 0" "\<not> bit (mem_lock s) 0"
  shows "\<exists>ret s'. malloc sys_brk sys_shmem base sz s = Inr (ret, s') \<and>
    alloc_result cur ready base bs U n (units_for sz) (first_ring base s) ret s'"
proof -
  let ?l = "\<lambda>s. s\<lparr>fork_lock := set_bit 0 (fork_lock s), mem_lock := set_bit 0 (mem_lock s)\<rparr>"
  let ?s1 = "first_ring base (?l s)"
  have s1: "?s1 = ?l (first_ring base s)" by (simp add: first_ring_def)
  have "heap_inv cur ready base bs U (Suc (Suc (Suc (Suc n)))) ?s1" using inv by (simp add: s1 heap_inv_def)
  from malloc_loop_ok [OF this units_for_ok(1,2) [OF sz]] obtain ret s'
    where m: "malloc_loop (morecore_brk_locked sys_brk) (units_for sz) False (freep ?s1) (nxt (hdr ?s1) (freep ?s1)) ?s1 = Some (Inr (ret, s'))"
      "alloc_result cur ready base bs U n (units_for sz) ?s1 ret s'" by blast
  have "malloc sys_brk sys_shmem base sz s = Inr (ret, unlock_malloc s')"
    using free m(1) by (simp add: malloc_def lock_malloc_def malloc_locked_def spinR_def)
  moreover have "alloc_result cur ready base bs U n (units_for sz) (first_ring base s) ret (unlock_malloc s')"
  proof -
    let ?s = "first_ring base s"
    have l: "mem_lock ?s = mem_lock s" "fork_lock ?s = fork_lock s" by (simp_all add: first_ring_def)
    from m(2) have "alloc_result cur ready base bs U n (units_for sz) (?l ?s) ret s'" unfolding s1 .
    then show ?thesis using free l unfolding alloc_result_def
      by (elim exE conjE) (intro exI conjI, simp_all only: unlock_malloc_simps, simp_all)
  qed
  ultimately show ?thesis by blast
qed

end

lemma free_ok:
  assumes inv: "heap_inv cur ready base bs U n s" and b: "b \<in> U"
    and free: "\<not> bit (fork_lock s) 0" "\<not> bit (mem_lock s) 0"
  shows "\<exists>bs' s'. free (b + HSIZE) s = Inr s' \<and> heap_inv cur ready base bs' (U - {b}) n s' \<and>
    fset_of (hdr s') False bs' = fset_of (hdr s) False bs \<union> extent (hdr s) b \<and> (\<forall>a\<in>U - {b}. hdr s' a = hdr s a) \<and>
    kern s' = kern s \<and> brk_var s' = brk_var s \<and> mem_lock s' = mem_lock s \<and> fork_lock s' = fork_lock s"
proof -
  have ok: "blocks_ok (hdr s) base bs U (unat (brk_var s))" and f: "freep s \<in> set (base # bs)" using inv by (simp_all add: heap_inv_def)
  have "unat (brk_var s) < 4294967296" by (rule unat_bounds)
  then have small: "unat (brk_var s) \<le> 4294967296" by simp
  from blocks_ok_free [OF ok small b f] obtain p bs' where "free_scan (hdr s) b (freep s) = Some p"
    "blocks_ok (join_before b p (join_after b p (hdr s))) base bs' (U - {b}) (unat (brk_var s))" "p \<in> set (base # bs')"
    "fset_of (join_before b p (join_after b p (hdr s))) False bs' = fset_of (hdr s) False bs \<union> extent (hdr s) b"
    "\<forall>a\<in>U - {b}. join_before b p (join_after b p (hdr s)) a = hdr s a" by blast
  then show ?thesis using inv free
    by (intro exI [of _ bs']) (simp add: free_def lock_malloc_def free_locked_def spinR_def unlock_malloc_def heap_inv_def)
qed

section \<open>The heap of a process\<close>

text \<open>The call as the library makes it: the word at \<open>p\<close>, in the memory of the process, is the argument and the
  result.\<close>

definition kernel_brk :: "(vm_st \<Rightarrow> vm_st) \<Rightarrow> int option \<Rightarrow> nat \<Rightarrow> 32 word \<Rightarrow> 32 word \<Rightarrow> ((nat \<Rightarrow> byte) \<times> vm_st) brk_call" where
  "kernel_brk sch c m loc p w k =
     bindR (do_brk sch c (Some m) loc p (store32 p w (fst k)) (snd k)) (\<lambda>(ret, um, s). Inr (ret, load32 um p, (um, s)))"

definition kernel_break :: "nat \<Rightarrow> (nat \<Rightarrow> byte) \<times> vm_st \<Rightarrow> 32 word" where
  "kernel_break m k = brk (mms (snd k) m)"

definition kernel_ready :: "nat \<Rightarrow> 32 word \<Rightarrow> 32 word \<Rightarrow> nat \<Rightarrow> (nat \<Rightarrow> byte) \<times> vm_st \<Rightarrow> bool" where
  "kernel_ready m loc p n k = (let s = snd k in
     vm_ok s m \<and> heap_ok s m \<and> length (mmap_list (mms s m)) + n \<le> 31 \<and> mm_lock (mms s m) = 0 \<and>
     USER_ACCESS p (p + 4) \<and> unat p + 4 \<le> unat loc \<and> (\<forall>x. p \<le> x \<and> x < p + 4 \<longrightarrow> permits s m True x \<and> \<not> stack_at s m x))"

lemma ROUNDUP_above:
  assumes "w \<le> 0xF0001000"
  shows "w \<le> ROUNDUP w PGSIZE"
proof -
  have le: "unat w \<le> 0xF0001000" using assms by (simp add: word_le_nat_alt)
  have e: "w + PGSIZE - 1 = w + 0xFFF" by (simp add: PGSIZE_def)
  have "unat (w + 0xFFF) = unat w + 4095" using le by (simp add: unat_word_ariths)
  then have "unat (w + PGSIZE - 1) = unat w + 4095" unfolding e .
  then have "unat (ROUNDUP w PGSIZE) = (unat w + 4095) div 4096 * 4096" by (simp add: ROUNDUP_def unat_ROUNDDOWN_page)
  moreover have "unat w \<le> (unat w + 4095) div 4096 * 4096"
    using div_mult_mod_eq [of "unat w + 4095" 4096] mod_less_divisor [of 4096 "unat w + 4095"] by linarith
  ultimately show ?thesis by (simp add: word_le_nat_alt)
qed

lemma kernel_brk_ok:
  assumes rd: "kernel_ready m loc p (Suc n) k" and w: "w < brk_start (mms (snd k) m) \<or> kernel_break m k < w \<and> w \<le> 0xF0001000"
  shows "\<exists>k'. kernel_brk sch c m loc p w k = Inr (0, kernel_break m k', k') \<and> kernel_ready m loc p n k' \<and>
    (kernel_break m k' = kernel_break m k \<or> kernel_break m k < w \<and> w \<le> kernel_break m k')"
proof -
  let ?s = "snd k" and ?um = "store32 p w (fst k)"
  have r: "vm_ok ?s m" "heap_ok ?s m" "length (mmap_list (mms ?s m)) < 31" "mm_lock (mms ?s m) = 0"
    "USER_ACCESS p (p + 4)" "unat p + 4 \<le> unat loc" "\<forall>x. p \<le> x \<and> x < p + 4 \<longrightarrow> permits ?s m True x \<and> \<not> stack_at ?s m x"
    using rd by (simp_all add: kernel_ready_def)
  have up: "brk (mms ?s m) < ROUNDUP w PGSIZE" if "\<not> w < brk_start (mms ?s m)"
    using that w ROUNDUP_above [of w] by (auto simp: kernel_break_def)
  from do_brk_spec [OF r, of sch c ?um] obtain um' s' where d: "do_brk sch c (Some m) loc p ?um ?s = Inr (0, um', s')" "load32 um' p = brk (mms s' m)"
    "brk_moved ?s m (ROUNDUP w PGSIZE) s'" "mm_lock (mms s' m) = 0" "length (mmap_list (mms s' m)) \<le> Suc (length (mmap_list (mms ?s m)))"
    "w < brk_start (mms ?s m) \<Longrightarrow> brk (mms s' m) = brk (mms ?s m)"
    using up by (auto simp: not_less dest: less_asym)
  have "permits s' m True x \<and> \<not> stack_at s' m x" if x: "p \<le> x" "x < p + 4" for x
  proof -
    have old: "permits ?s m True x \<and> \<not> stack_at ?s m x" using r(7) x by blast
    have "brk (mms ?s m) \<le> brk (mms s' m)" using d(3,6) up by (cases "w < brk_start (mms ?s m)") (auto simp: brk_moved_def intro: less_imp_le)
    then have "space s' m x = (if brk (mms ?s m) \<le> x \<and> x < brk (mms s' m) then Some heap_use else space ?s m x)"
      using d(3) by (auto simp: brk_moved_def)
    then show ?thesis using old by (auto simp: permits_def stack_at_def VM_WRITE_def VM_READ_def VM_STACK_def)
  qed
  then have "kernel_ready m loc p n (um', s')"
    using d(3-5) rd r(5,6) by (auto simp: kernel_ready_def brk_moved_def)
  moreover have "kernel_brk sch c m loc p w k = Inr (0, kernel_break m (um', s'), (um', s'))"
    using d(1,2) by (simp add: kernel_brk_def kernel_break_def)
  moreover have "brk (mms s' m) = brk (mms ?s m) \<or> brk (mms ?s m) < w \<and> w \<le> brk (mms s' m)"
    using d(3,6) w ROUNDUP_above [of w] by (auto simp: brk_moved_def kernel_break_def)
  ultimately show ?thesis by (intro exI [of _ "(um', s')"]) (simp add: kernel_break_def)
qed

interpretation kb: brk_source "kernel_brk sch c m loc p" "kernel_break m" "kernel_ready m loc p"
proof
  fix n k
  show "\<exists>k'. kernel_brk sch c m loc p 0 k = Inr (0, kernel_break m k, k') \<and> kernel_ready m loc p n k' \<and> kernel_break m k' = kernel_break m k"
    if "kernel_ready m loc p (Suc n) k"
  proof -
    have "USERBASE \<le> brk_start (mms (snd k) m)" using that by (simp add: kernel_ready_def heap_ok_def)
    then have "0 < brk_start (mms (snd k) m)" by (rule less_le_trans [rotated]) (simp add: USERBASE_def)
    from kernel_brk_ok [OF that disjI1 [OF this]] show ?thesis by fastforce
  qed
  show "\<exists>ret b k'. kernel_brk sch c m loc p w k = Inr (ret, b, k') \<and> kernel_ready m loc p n k' \<and>
      (ret = 0 \<and> b = kernel_break m k' \<and> w \<le> b \<or> kernel_break m k' = kernel_break m k \<and> (ret = 0 \<longrightarrow> b = kernel_break m k))"
    if "kernel_ready m loc p (Suc n) k" "kernel_break m k < w" "w \<le> 0xF0001000" for w
    using kernel_brk_ok [OF that(1) disjI2 [OF conjI [OF that(2,3)]], of sch c] by auto
  show "kernel_break m k \<noteq> 0 \<and> 64 dvd unat (kernel_break m k) \<and> unat (kernel_break m k) \<le> 0xB0000000" if "kernel_ready m loc p n k"
  proof -
    have h: "USERBASE \<le> kernel_break m k" "kernel_break m k \<le> USERTOP" "kernel_break m k mod PGSIZE = 0"
      using that by (auto simp: kernel_ready_def heap_ok_def kernel_break_def)
    from h(3) have "unat (kernel_break m k) mod 4096 = 0" by (simp add: PGSIZE_def word_unat_eq_iff unat_mod_distrib)
    then have "4096 dvd unat (kernel_break m k)" by (simp add: dvd_eq_mod_eq_0)
    then have "64 dvd unat (kernel_break m k)" by (rule dvd_trans [rotated]) simp
    then show ?thesis using h(1,2) by (auto simp: USERBASE_def USERTOP_def word_le_nat_alt)
  qed
  show "kernel_ready m loc p n k" if "kernel_ready m loc p (Suc n) k" using that by (simp add: kernel_ready_def)
qed



text \<open>A process that has not asked for memory yet, with a break of \<open>0x402000\<close> and its static header at \<open>0x400200\<close>.\<close>

definition fresh_heap :: "'k \<Rightarrow> 'k heap_st" where
  "fresh_heap k = \<lparr>hdr = (\<lambda>_. \<lparr>h_ptr = 0, h_size = 0, h_type = False\<rparr>), freep = 0, brk_var = 0, mem_lock = 0, fork_lock = 0, kern = k\<rparr>"

lemma fresh_heap_inv:
  assumes "ready n k" "base \<noteq> 0" "unat base + 64 \<le> unat (cur k)"
  shows "heap_inv cur ready base [] {} n (first_ring base (fresh_heap k))"
  using assms by (simp add: heap_inv_def blocks_ok_def free_ring_def first_ring_def fresh_heap_def)

lemma heap_space_ready: "n \<le> 30 \<Longrightarrow> kernel_ready 7 0xC0100000 0x400100 n (um, heap_space)"
proof -
  have "permits heap_space 7 True x \<and> \<not> stack_at heap_space 7 x" if "0x400100 \<le> x" "x < 0x400104" for x
  proof -
    have "0x400000 \<le> x" "x < 0x402000" using order_trans [of "0x400000" "0x400100" x] order_less_trans [of x "0x400104" "0x402000"] that by simp_all
    then show ?thesis by (simp add: permits_def stack_at_def VM_WRITE_def VM_STACK_def)
  qed
  then show ?thesis if "n \<le> 30" using heap_space_ok that by (simp add: kernel_ready_def USER_ACCESS_def USERBASE_def USERTOP_def)
qed



section \<open>Shared blocks\<close>

definition shmem_regions :: "32 word list shmem_call" where
  "shmem_regions addr len flags ks = (case ks of [] \<Rightarrow> Inr (- E_NO_MEM, 0, []) | r # rs \<Rightarrow> Inr (0, r, rs))"

definition no_break :: "32 word list brk_call" where
  "no_break w ks = Inr (0, 0, ks)"


end
