(* ===== verification/Buddy_Frame.thy ===== *)
theory Buddy_Frame
  imports Buddy
begin

text \<open>
  What the page allocator leaves alone: the descriptors of the pages that are neither free nor being freed,
  and the runs that are held.  A client that keeps its own flags in the descriptors of its pages relies on it.
\<close>

definition only_pages :: "nat set \<Rightarrow> buddy_st \<Rightarrow> buddy_st \<Rightarrow> bool" where
  "only_pages A s s' \<longleftrightarrow> (\<forall>q. q \<notin> A \<longrightarrow> pages s' q = pages s q)"

lemma only_pages_trans: "only_pages A s s' \<Longrightarrow> only_pages B s' s'' \<Longrightarrow> A \<subseteq> C \<Longrightarrow> B \<subseteq> C \<Longrightarrow> only_pages C s s''"
  unfolding only_pages_def by (metis subsetD)

lemma only_pages_refl [simp]: "only_pages A s s"
  by (simp add: only_pages_def)

lemma only_pages_mono: "only_pages A s s' \<Longrightarrow> A \<subseteq> B \<Longrightarrow> only_pages B s s'"
  by (auto simp: only_pages_def)

lemma split_only: "only_pages (blk c p) s (split_block p order c s)"
proof (induction p order c s rule: split_block.induct)
  case (2 p order c s)
  show ?case
  proof (cases "Suc c > order")
    case True
    have "only_pages (blk (Suc c) p) s (add_block c (p + 2 ^ c) s)" by (simp add: only_pages_def blk_def)
    then show ?thesis using 2 [OF True] True by (auto intro: only_pages_trans simp: blk_halves(1))
  qed simp
qed simp

lemma alloc_only:
  assumes "buddy_inv s" "alloc_from order cur s = (Some p, s')"
  shows "only_pages (bfree s) s s'"
  using assms
proof (induction order cur s rule: alloc_from.induct)
  case (1 order cur s)
  note unf = alloc_from.simps [of order cur s]
  show ?case
  proof (cases "cur \<le> MAX_ORDER")
    case False
    then show ?thesis using "1.prems" by (subst (asm) unf) simp
  next
    case cur: True
    show ?thesis
    proof (cases "free_list s cur")
      case Nil
      have "alloc_from order (cur + 1) s = (Some p, s')" using "1.prems"(2) cur Nil by (subst (asm) unf) simp
      then show ?thesis using "1.IH" [OF cur Nil "1.prems"(1)] by simp
    next
      case (Cons r ps)
      then have r: "r \<in> set (free_list s cur)" by simp
      have s': "s' = split_block r order cur (remove_block cur r s)"
        using "1.prems"(2) by (subst (asm) unf) (auto simp: cur Cons split_block_upd remove_block_def)
      have sub: "blk cur r \<subseteq> bfree s" using r unfolding bfree_def by blast
      have "only_pages (blk cur r) s (remove_block cur r s)" by (simp add: only_pages_def)
      from only_pages_trans [OF this split_only [of cur r _ order] sub sub] show ?thesis unfolding s' .
    qed
  qed
qed

lemma reset_only: "free_reset p n s = Inr s' \<Longrightarrow> only_pages {p..<p + n} s s'"
proof (induction p n s rule: free_reset.induct)
  case (2 p n s)
  let ?s = "upd_page p (\<lambda>g. set_page_ref 0 (g\<lparr>pg_flags := 0\<rparr>)) s"
  have "free_reset (p + 1) n ?s = Inr s'" and a: "assertR (\<not> PageReserved s p \<and> \<not> PageProperty s p) ''!PageReserved(p) && !PageProperty(p)'' = Inr ()"
    using "2.prems" by (auto simp: assertR_def split: if_splits)
  from "2.IH" [OF a this(1)] have "only_pages {p + 1..<p + 1 + n} ?s s'" .
  moreover have "only_pages {p} s ?s" by (simp add: only_pages_def)
  ultimately show ?case by (intro only_pages_trans [of "{p}" s ?s "{p + 1..<p + 1 + n}" s']) auto
qed simp

lemma merge_only:
  assumes "buddy_inv s" "merge z i k s = (i', k', s')"
  shows "only_pages (bfree s) s s'"
  using assms
proof (induction z i k s rule: merge.induct)
  case (1 z i k s)
  let ?buddy = "mem_base s z + (i XOR 2 ^ k)"
  note unf = merge.simps [of z i k s]
  show ?case
  proof (cases "k < MAX_ORDER \<and> page_is_buddy ?buddy k z s")
    case False
    have "merge z i k s = (i, k, s)" by (subst unf) (use False in \<open>auto simp: idx2page_def\<close>)
    then show ?thesis using "1.prems" by simp
  next
    case True
    then have bl: "?buddy \<in> set (free_list s k)"
      using buddy_invD(5) [OF "1.prems"(1), of ?buddy] by (auto simp: page_is_buddy_def)
    let ?s = "remove_block k ?buddy s" and ?i = "i AND (i XOR 2 ^ k)"
    have e: "merge z ?i (k + 1) ?s = (i', k', s')"
      using "1.prems"(2) by (subst (asm) unf) (use True in \<open>simp add: idx2page_def remove_block_def\<close>)
    have c: "k < MAX_ORDER" "\<not> \<not> page_is_buddy (idx2page z (i XOR 2 ^ k) s) k z s" using True by (simp_all add: idx2page_def)
    have m1: "only_pages (bfree ?s) ?s s'"
      using "1.IH" [OF c(1) refl refl c(2)] remove_block_inv [OF "1.prems"(1) bl] e by (simp only: idx2page_def remove_block_def)
    have m2: "only_pages {?buddy} s ?s" by (simp add: only_pages_def)
    have sub: "{?buddy} \<subseteq> bfree s" using head_free [OF bl] by simp
    have "bfree ?s \<subseteq> bfree s" unfolding remove_block_free [OF "1.prems"(1) bl] by (rule Diff_subset)
    then show ?thesis by (rule only_pages_trans [OF m2 m1 sub])
  qed
qed

lemma free_sub_only:
  assumes inv: "buddy_inv s" and g: "good_block s z k p" and d: "blk k p \<inter> bfree s = {}" and k: "k \<le> MAX_ORDER"
    and r: "buddy_free_pages_sub p k s = Inr s'"
  shows "only_pages (bfree s \<union> blk k p) s s'"
proof -
  have al: "page2idx p s AND (2 ^ k - 1) = 0" using r by (auto simp: buddy_free_pages_sub_def assertR_def split: if_splits)
  then obtain s1 where s1: "free_reset p (2 ^ k) s = Inr s1" using r by (auto simp: buddy_free_pages_sub_def bindR_eq_Inr)
  obtain i' k' s2 where m: "merge (pg_zone (pages s1 p)) (page2idx p s) k s1 = (i', k', s2)" by (rule prod_cases3)
  then have s': "s' = add_block k' (idx2page (pg_zone (pages s1 p)) i' s2) s2"
    using r s1 al by (simp add: buddy_free_pages_sub_def)
  have zp: "zone_pages s z (blk k p)" using g by (simp add: good_block_def)
  then have pz: "pg_zone (pages s p) = z" "mem_base s z \<le> p" by (auto simp: zone_pages_def)
  have "\<not> PageReserved s q \<and> \<not> PageProperty s q" if "q \<in> {p..<p + 2 ^ k}" for q
  proof -
    have q: "q \<in> blk k p" using that by (simp add: blk_def)
    then have "q \<notin> bfree s" using d by blast
    moreover have "q < npage s" "\<not> PageReserved s q" using q zp by (auto simp: zone_pages_def)
    ultimately show ?thesis using not_free_no_property [OF inv] by blast
  qed
  then have t: "free_list s1 = free_list s" "nr_free s1 = nr_free s" "same_zones s s1"
    "\<forall>q. PageProperty s1 q = PageProperty s q \<and> pg_property (pages s1 q) = pg_property (pages s q)"
    using free_reset_spec [of p "2 ^ k" s] s1 by auto
  have inv1: "buddy_inv s1" and fr1: "bfree s1 = bfree s" using buddy_inv_cong [OF inv t(1-3)] t(4) by blast+
  have same: "mem_base s1 = mem_base s" "pg_zone (pages s1 p) = z" using t(3) pz by (simp_all add: same_zones_def)
  let ?i = "p - mem_base s z"
  have pi: "page2idx p s = ?i" by (simp add: page2idx_def pz)
  have i: "mem_base s1 z + ?i = p" using same pz by simp
  have pre: "good_block s1 z k (mem_base s1 z + ?i)" "blk k (mem_base s1 z + ?i) \<inter> bfree s1 = {}"
    unfolding i using g d same_zones_block [OF t(3)] fr1 by simp_all
  from merge_spec [OF inv1 pre k] m have m': "bfree s2 \<union> blk k' (mem_base s1 z + i') = bfree s1 \<union> blk k p" "same_zones s1 s2"
    unfolding same(2) pi i by auto
  have mb: "mem_base s2 z = mem_base s1 z" using m'(2) by (simp add: same_zones_def)
  have "idx2page z i' s2 \<in> bfree s \<union> blk k p" using m'(1) blk_self [of "mem_base s1 z + i'" k'] fr1 unfolding idx2page_def mb by blast
  then have "only_pages (bfree s \<union> blk k p) s2 s'" unfolding s' same(2) by (auto simp: only_pages_def)
  moreover have "only_pages (bfree s \<union> blk k p) s1 s2" using merge_only [OF inv1 m] unfolding fr1 by (rule only_pages_mono) simp
  moreover have "only_pages (bfree s \<union> blk k p) s s1" using reset_only [OF s1] by (rule only_pages_mono) (auto simp: blk_def)
  ultimately show ?thesis by (blast intro: only_pages_trans)
qed

lemma free_down_only:
  assumes "buddy_inv s" "freeable s z p n" "2 ^ k dvd p - mem_base s z" "k \<le> MAX_ORDER" "free_down p n k s = Inr s'"
  shows "only_pages (bfree s \<union> {p..<p + n}) s s'"
  using assms
proof (induction p n k s rule: free_down.induct)
  case (1 p n k s)
  note unf = free_down.simps [of p n k s]
  consider "n = 0" | "n \<noteq> 0" "n < 2 ^ k" | "n \<noteq> 0" "2 ^ k \<le> n" by linarith
  then show ?case
  proof cases
    case 1
    then show ?thesis using "1.prems"(5) by (subst (asm) unf) simp
  next
    case 2
    have "2 ^ (k - 1) dvd p - mem_base s z" using "1.prems"(3) by (rule dvd_trans [rotated]) (simp add: le_imp_power_dvd)
    moreover have "free_down p n (k - 1) s = Inr s'" using "1.prems"(5) 2 by (subst (asm) unf) simp
    ultimately show ?thesis using "1.IH"(1) [OF 2] "1.prems" by simp
  next
    case 3
    note f = freeable_block [OF "1.prems"(2,3) 3(2)]
    obtain s1 where s1: "buddy_free_pages_sub p k s = Inr s1" "buddy_inv s1" "same_zones s s1" "bfree s1 = bfree s \<union> blk k p"
      using free_sub_spec [OF "1.prems"(1) f "1.prems"(4)] by blast
    have mb: "mem_base s1 z = mem_base s z" "mem_base s z \<le> p"
      using s1(3) "1.prems"(2) by (simp_all add: same_zones_def freeable_def)
    have "2 ^ k dvd (p - mem_base s z) + 2 ^ k" using "1.prems"(3) by simp
    then have dv: "2 ^ k dvd p + 2 ^ k - mem_base s1 z" using mb by simp
    have r: "free_down (p + 2 ^ k) (n - 2 ^ k) k s1 = Inr s'" using "1.prems"(5) 3 s1(1) by (subst (asm) unf) simp
    have "\<not> n < 2 ^ k" using 3 by simp
    from "1.IH"(2) [OF 3(1) this s1(1,2) freeable_rest [OF "1.prems"(2) 3(2) s1(3,4)] dv "1.prems"(4) r]
    have "only_pages (bfree s1 \<union> {p + 2 ^ k..<p + 2 ^ k + (n - 2 ^ k)}) s1 s'" .
    moreover have "bfree s1 \<union> {p + 2 ^ k..<p + 2 ^ k + (n - 2 ^ k)} = bfree s \<union> {p..<p + n}" unfolding s1(4) run_split [OF 3(2)] by blast
    ultimately have b: "only_pages (bfree s \<union> {p..<p + n}) s1 s'" by (simp only:)
    have "only_pages (bfree s \<union> {p..<p + n}) s s1"
      using free_sub_only [OF "1.prems"(1) f "1.prems"(4) s1(1)] by (rule only_pages_mono) (use 3(2) in \<open>auto simp: blk_def\<close>)
    then show ?thesis by (rule only_pages_trans [OF _ b order_refl order_refl])
  qed
qed

lemma free_up_only:
  assumes "buddy_inv s" "freeable s z p n" "2 ^ k dvd p - mem_base s z" "n < 2 ^ Suc MAX_ORDER" "free_up p n k s = Inr (p', n', k', s')"
  shows "only_pages (bfree s \<union> {p..<p + n}) s s'"
  using assms
proof (induction p n k s rule: free_up.induct)
  case (1 p n k s)
  note unf = free_up.simps [of p n k s]
  have mp: "mem_base s z \<le> p" using "1.prems"(2) by (simp add: freeable_def)
  show ?case
  proof (cases "2 ^ k \<le> n")
    case False
    then show ?thesis using "1.prems"(5) by (subst (asm) unf) simp
  next
    case True
    then have pos: "0 < n" by (metis gr0I not_le zero_less_numeral zero_less_power)
    have k: "k \<le> MAX_ORDER"
    proof (rule ccontr)
      assume "\<not> k \<le> MAX_ORDER"
      then have "(2::nat) ^ Suc MAX_ORDER \<le> 2 ^ k" by (intro power_increasing) simp_all
      with True "1.prems"(4) show False by simp
    qed
    have "zone_pages s z {p..<p + n}" using "1.prems"(2) by (simp add: freeable_def)
    then have pz: "pg_zone (pages s p) = z" using pos by (auto simp: zone_pages_def)
    have pi: "page2idx p s = p - mem_base s z" by (simp add: page2idx_def pz)
    note al = aligned_next [OF "1.prems"(3)]
    have a: "assertR (k \<le> MAX_ORDER) m = Inr ()" for m using k by simp
    show ?thesis
    proof (cases "page2idx p s AND 2 ^ k = 0")
      case c: True
      with al(1,2) pi have dv: "2 ^ (k + 1) dvd p - mem_base s z" by simp
      have "free_up p n (k + 1) s = Inr (p', n', k', s')" using "1.prems"(5) True a c by (subst (asm) unf) simp
      with "1.IH"(2) [OF True a _ "1.prems"(1,2) dv "1.prems"(4)] c show ?thesis by simp
    next
      case c: False
      note f = freeable_block [OF "1.prems"(2,3) True]
      obtain s1 where s1: "buddy_free_pages_sub p k s = Inr s1" "buddy_inv s1" "same_zones s s1" "bfree s1 = bfree s \<union> blk k p"
        using free_sub_spec [OF "1.prems"(1) f k] by blast
      have mb: "mem_base s1 z = mem_base s z" using s1(3) by (simp add: same_zones_def)
      have "2 ^ (k + 1) dvd (p - mem_base s z) + 2 ^ k" using al(1,3) c pi by simp
      then have dv: "2 ^ (k + 1) dvd p + 2 ^ k - mem_base s1 z" using mb mp by simp
      have lt: "n - 2 ^ k < 2 ^ Suc MAX_ORDER" using "1.prems"(4) by simp
      have r: "free_up (p + 2 ^ k) (n - 2 ^ k) (k + 1) s1 = Inr (p', n', k', s')" using "1.prems"(5) True a c s1(1) by (subst (asm) unf) simp
      from "1.IH"(1) [OF True a c s1(1) s1(2) freeable_rest [OF "1.prems"(2) True s1(3,4)] dv lt r]
      have "only_pages (bfree s1 \<union> {p + 2 ^ k..<p + 2 ^ k + (n - 2 ^ k)}) s1 s'" .
      moreover have "bfree s1 \<union> {p + 2 ^ k..<p + 2 ^ k + (n - 2 ^ k)} = bfree s \<union> {p..<p + n}" unfolding s1(4) run_split [OF True] by blast
      ultimately have b: "only_pages (bfree s \<union> {p..<p + n}) s1 s'" by (simp only:)
      have "only_pages (bfree s \<union> {p..<p + n}) s s1"
        using free_sub_only [OF "1.prems"(1) f k s1(1)] by (rule only_pages_mono) (use True in \<open>auto simp: blk_def\<close>)
      then show ?thesis by (rule only_pages_trans [OF _ b order_refl order_refl])
    qed
  qed
qed

text \<open>Freeing touches the pages that are free afterwards, allocation those that were free before.\<close>

lemma buddy_free_only:
  assumes inv: "buddy_inv s" and f: "freeable s z p n" and n: "0 < n" "n < 2 ^ Suc MAX_ORDER" and r: "buddy_free_pages p n s = Inr s'"
  shows "only_pages (bfree s \<union> {p..<p + n}) s s'"
proof (cases "n = 1")
  case True
  have b: "good_block s z 0 p" "blk 0 p \<inter> bfree s = {}" using freeable_block [OF f, of 0] True by simp_all
  have "buddy_free_pages_sub p 0 s = Inr s'" using r True by (simp add: buddy_free_pages_def)
  from free_sub_only [OF inv b _ this] show ?thesis using True by (simp add: blk_def)
next
  case False
  obtain p' n' k' t where u: "free_up p n 0 s = Inr (p', n', k', t)" "buddy_inv t" "same_zones s t" "freeable t z p' n'"
    "2 ^ k' dvd p' - mem_base t z" "k' \<le> Suc MAX_ORDER" "n' < 2 ^ k'" "p' + n' = p + n" "p \<le> p'"
    "bfree t = bfree s \<union> {p..<p'}" using free_up_spec [OF inv f _ n(2), of 0] by auto
  have d: "free_down p' n' k' t = Inr s'" using r False n u(1) by (simp add: buddy_free_pages_def)
  have "only_pages (bfree t \<union> {p'..<p' + n'}) t s'"
  proof (cases "k' \<le> MAX_ORDER")
    case True
    then show ?thesis by (rule free_down_only [OF u(2,4,5) _ d])
  next
    case False
    with u(6) have k': "k' = Suc MAX_ORDER" by simp
    have dv: "2 ^ MAX_ORDER dvd p' - mem_base t z" using u(5) unfolding k' by (auto elim: dvd_mult_right)
    have "n' = 0 \<and> s' = t \<or> free_down p' n' MAX_ORDER t = Inr s'"
      using d by (subst (asm) free_down.simps) (use u(7) in \<open>auto simp: k' split: if_splits\<close>)
    then show ?thesis using free_down_only [OF u(2,4) dv] by auto
  qed
  moreover have "bfree t \<union> {p'..<p' + n'} = bfree s \<union> {p..<p + n}" unfolding u(10) u(8) using u(8,9) by auto
  ultimately have b: "only_pages (bfree s \<union> {p..<p + n}) t s'" by (simp only:)
  have "only_pages (bfree s \<union> {p..<p + n}) s t" by (rule free_up_only [OF inv f _ n(2) u(1)]) simp
  then show ?thesis by (rule only_pages_trans [OF _ b order_refl order_refl])
qed

lemma buddy_alloc_only:
  assumes inv: "buddy_inv s" and k: "k \<le> MAX_ORDER" and r: "buddy_alloc_pages (2 ^ k) s = Inr (Some p, s')"
  shows "only_pages (bfree s) s s'"
proof -
  have "getorder_from j (2 ^ k) = Inr k" if "j \<le> k" for j
    using that k
  proof (induction "k - j" arbitrary: j)
    case 0
    then show ?case by (subst getorder_from.simps) simp
  next
    case (Suc d)
    then have "j < k" by simp
    then have "(2 :: nat) ^ j < 2 ^ k" by simp
    then show ?case using Suc.hyps(1) [of "j + 1"] Suc.hyps(2) \<open>j < k\<close> k by (subst getorder_from.simps) simp
  qed
  then have "getorder (2 ^ k) = Inr k" by (simp add: getorder_def)
  then have "alloc_from k k s = (Some p, s')"
    using r k by (auto simp: buddy_alloc_pages_def buddy_alloc_pages_sub_def split: option.splits prod.splits)
  then show ?thesis by (rule alloc_only [OF inv])
qed

text \<open>A run that is held stays held when another one is freed.\<close>

lemma buddy_free_keeps:
  assumes "buddy_inv s" "buddy_held s p n" "0 < n" "n \<le> 2 ^ MAX_ORDER" "buddy_free_pages p n s = Inr s'"
    and "buddy_held s q m" "{p..<p + n} \<inter> {q..<q + m} = {}"
  shows "buddy_held s' q m"
proof -
  have f: "freeable s (pg_zone (pages s p)) p n" using assms(2) by (simp add: buddy_held_def)
  have "n < 2 ^ Suc MAX_ORDER" by (rule le_less_trans [OF assms(4) exp_MAX]) simp
  from buddy_free_spec [OF assms(1) f assms(3) this] assms(5)
  have s': "same_zones s s'" "bfree s' = bfree s \<union> {p..<p + n}" by auto
  have "{q..<q + m} \<inter> bfree s' = {}" using assms(6,7) unfolding s'(2) buddy_held_def freeable_def by blast
  then show ?thesis using assms(6) s'(1) same_zones_pages [OF s'(1)] by (simp add: buddy_held_def freeable_def same_zones_def)
qed

text \<open>A flag of the client in a descriptor does not matter to the allocator.\<close>

lemma buddy_mark:
  assumes "nr \<noteq> PG_property" "nr \<noteq> PG_reserved" "nr < 32" "f = page_set nr \<or> f = page_clear nr"
  shows "buddy_inv s \<Longrightarrow> buddy_inv (upd_page p f s)" "bfree (upd_page p f s) = bfree s" "buddy_held (upd_page p f s) q m = buddy_held s q m"
proof -
  have same: "same_zones s (upd_page p f s)" and pr: "PageProperty (upd_page p f s) q = PageProperty s q \<and>
      pg_property (pages (upd_page p f s) q) = pg_property (pages s q)" for q
    using assms by (auto simp: same_zones_def)
  show fr: "bfree (upd_page p f s) = bfree s" by (simp add: bfree_def)
  show "buddy_inv (upd_page p f s)" if "buddy_inv s" by (rule buddy_inv_cong(1) [OF that _ _ same]) (use pr in simp_all)
  have "mem_base (upd_page p f s) = mem_base s" "pg_zone (pages (upd_page p f s) q) = pg_zone (pages s q)" using same by (simp_all add: same_zones_def)
  then show "buddy_held (upd_page p f s) q m = buddy_held s q m"
    unfolding buddy_held_def freeable_def fr same_zones_pages [OF same] by simp
qed

end
