(* ===== verification/Slab.thy ===== *)
theory Slab
  imports Buddy_Frame Mem_Layout
begin

text \<open>
  The slab allocator of \<open>kern/mm/slab.c\<close>: thirteen caches of objects of 32 bytes to 128 kilobytes,
  on runs of pages from the buddy system.  A cache is its index in \<open>slab_cache\<close>, a slab the address of its
  control block (\<open>slab_t\<close>), which lies in its own first page or is an object of a smaller cache; the
  array \<open>slab_bufctl\<close> behind it is a map.  The lists of slabs are HOL lists, newest first as \<open>list_add\<close>
  puts them.  While a page belongs to a slab the two pointers of its \<open>page_link\<close> name the cache and the slab.
  Interrupts are disabled around the lists, so that an operation is one step.
\<close>

section \<open>State\<close>

record slab_ctl =
  s_mem :: "32 word"
  s_inuse :: "32 word"
  s_offset :: "32 word"
  s_free :: "32 word"

record kmem_cache =
  slabs_full :: "32 word list"
  slabs_notfull :: "32 word list"
  objsize :: "32 word"
  objnum :: "32 word"
  objoffset :: "32 word"
  off_slab :: bool
  page_order :: nat
  slab_cachep :: nat

record slab_st =
  cache :: "nat \<Rightarrow> kmem_cache"
  ctl :: "32 word \<Rightarrow> slab_ctl"
  bufctl :: "32 word \<Rightarrow> nat \<Rightarrow> 32 word"
  page_cache :: "nat \<Rightarrow> nat"
  page_slab :: "nat \<Rightarrow> 32 word"
  phys :: buddy_st

definition BUFCTL_END :: "32 word" where "BUFCTL_END = 0xFFFFFFFF"
definition SLAB_LIMIT :: "32 word" where "SLAB_LIMIT = 0xFFFFFFFE"
definition SLAB_T_SIZE :: "32 word" where "SLAB_T_SIZE = 24"
definition KMALLOC_MAX_ORDER :: nat where "KMALLOC_MAX_ORDER = 10"
definition MIN_SIZE_ORDER :: nat where "MIN_SIZE_ORDER = 5"
definition MAX_SIZE_ORDER :: nat where "MAX_SIZE_ORDER = 17"
definition SLAB_CACHE_NUM :: nat where "SLAB_CACHE_NUM = MAX_SIZE_ORDER - MIN_SIZE_ORDER + 1"

definition upd_cache :: "nat \<Rightarrow> (kmem_cache \<Rightarrow> kmem_cache) \<Rightarrow> slab_st \<Rightarrow> slab_st" where
  "upd_cache i f s = s\<lparr>cache := (cache s)(i := f (cache s i))\<rparr>"

definition upd_ctl :: "32 word \<Rightarrow> (slab_ctl \<Rightarrow> slab_ctl) \<Rightarrow> slab_st \<Rightarrow> slab_st" where
  "upd_ctl p f s = s\<lparr>ctl := (ctl s)(p := f (ctl s p))\<rparr>"

section \<open>The sizes of the caches\<close>

definition slab_mgmt_size :: "32 word \<Rightarrow> 32 word \<Rightarrow> 32 word" where
  "slab_mgmt_size num align = ROUNDUP (SLAB_T_SIZE + num * 4) align"

partial_function (option) estimate_loop :: "32 word \<Rightarrow> 32 word \<Rightarrow> 32 word \<Rightarrow> 32 word \<Rightarrow> 32 word option" where
  "estimate_loop slab_size osz align n =
     (if slab_mgmt_size n align + n * osz > slab_size then estimate_loop slab_size osz align (n - 1) else Some n)"

text \<open>The results are the remainder and the number of objects.\<close>

definition cache_estimate :: "nat \<Rightarrow> 32 word \<Rightarrow> 32 word \<Rightarrow> bool \<Rightarrow> (32 word \<times> 32 word) res" where
  "cache_estimate order osz align off =
     (let slab_size = push_bit order PGSIZE
      in if off then
           (let n = slab_size div osz; n' = (if n > SLAB_LIMIT then SLAB_LIMIT else n)
            in Inr (slab_size - n' * osz - 0, n'))
         else
           bindR (case estimate_loop slab_size osz align ((slab_size - SLAB_T_SIZE) div (osz + 4)) of None \<Rightarrow> Inl Spin | Some n \<Rightarrow> Inr n) (\<lambda>n.
           let n' = (if n > SLAB_LIMIT then SLAB_LIMIT else n)
           in Inr (slab_size - n' * osz - slab_mgmt_size n' align, n')))"

text \<open>The results are the number of objects, the order of the slab and what is left over.\<close>

function slab_order_from :: "nat \<Rightarrow> 32 word \<Rightarrow> 32 word \<Rightarrow> bool \<Rightarrow> (32 word \<times> nat \<times> 32 word) res" where
  "slab_order_from order osz align off =
     (if order \<le> KMALLOC_MAX_ORDER then
        bindR (cache_estimate order osz align off) (\<lambda>(remainder, num).
          if num \<noteq> 0 then
            if off \<and> num > (osz - SLAB_T_SIZE) div 4 then Inl (Panic ''off_slab: objsize, num'')
            else if remainder * 8 \<le> push_bit order PGSIZE then Inr (num, order, remainder)
            else slab_order_from (order + 1) osz align off
          else slab_order_from (order + 1) osz align off)
      else Inl (Panic ''calculate_slab_over: failed.''))"
  by pat_completeness auto
termination by (relation "measure (\<lambda>(order, _). Suc KMALLOC_MAX_ORDER - order)") auto

definition calculate_slab_order :: "32 word \<Rightarrow> 32 word \<Rightarrow> bool \<Rightarrow> (32 word \<times> nat \<times> 32 word) res" where
  "calculate_slab_order osz align off = slab_order_from 0 osz align off"

function size_order_from :: "nat \<Rightarrow> 32 word \<Rightarrow> 32 word \<Rightarrow> nat res" where
  "size_order_from order order_size n =
     (if order \<le> MAX_SIZE_ORDER then
        if n \<le> order_size then Inr order else size_order_from (order + 1) (push_bit 1 order_size) n
      else Inl (Panic ''getorder failed.''))"
  by pat_completeness auto
termination by (relation "measure (\<lambda>(order, _). Suc MAX_SIZE_ORDER - order)") auto

definition size_order :: "32 word \<Rightarrow> nat res" where
  "size_order n = size_order_from MIN_SIZE_ORDER (push_bit MIN_SIZE_ORDER 1) n"

declare slab_order_from.simps [simp del] size_order_from.simps [simp del]
declare estimate_loop.simps [code]

text \<open>\<open>slab_cachep\<close> is assigned only when the control blocks are not in the slabs.\<close>

definition init_kmem_cache :: "nat \<Rightarrow> 32 word \<Rightarrow> 32 word \<Rightarrow> slab_st \<Rightarrow> slab_st res" where
  "init_kmem_cache i osz align s =
     (let osz' = ROUNDUP osz align; off = (osz' \<ge> drop_bit 3 PGSIZE)
      in bindR (calculate_slab_order osz' align off) (\<lambda>(num, order, left_over).
         bindR (assertR (num > 0) ''cachep->num > 0'') (\<lambda>_.
         let mgmt = slab_mgmt_size num align; off' = (off \<and> \<not> left_over \<ge> mgmt);
             c = (cache s i)\<lparr>slabs_full := [], slabs_notfull := [], objsize := osz', objnum := num, page_order := order, off_slab := off'\<rparr>
         in if off' then
              bindR (size_order mgmt) (\<lambda>k. Inr (upd_cache i (\<lambda>_. c\<lparr>objoffset := 0, slab_cachep := k - MIN_SIZE_ORDER\<rparr>) s))
            else Inr (upd_cache i (\<lambda>_. c\<lparr>objoffset := mgmt\<rparr>) s))))"

fun init_caches :: "nat \<Rightarrow> slab_st \<Rightarrow> slab_st res" where
  "init_caches 0 s = Inr s"
| "init_caches (Suc i) s = bindR (init_caches i s) (init_kmem_cache i (push_bit (i + MIN_SIZE_ORDER) 1) 16)"

text \<open>\<open>slab_init\<close> without the self test.\<close>

definition slab_init :: "slab_st \<Rightarrow> slab_st res" where
  "slab_init s = init_caches SLAB_CACHE_NUM s"

definition cache_size_info :: "kmem_cache \<Rightarrow> 32 word \<times> 32 word \<times> 32 word \<times> bool \<times> nat \<times> nat" where
  "cache_size_info c = (objsize c, objnum c, objoffset c, off_slab c, page_order c, slab_cachep c)"

section \<open>Allocation\<close>

abbreviation PageSlab :: "slab_st \<Rightarrow> nat \<Rightarrow> bool" where
  "PageSlab s p \<equiv> page_test PG_slab (pages (phys s) p)"

definition page2kva :: "nat \<Rightarrow> slab_st \<Rightarrow> 32 word res" where
  "page2kva p s = (if p \<ge> npage (phys s) then Inl (Panic ''KADDR called with invalid pa'') else Inr (push_bit 12 (of_nat p) + KERNBASE))"

definition kva2page :: "32 word \<Rightarrow> slab_st \<Rightarrow> nat res" where
  "kva2page kva s = bindR (PADDR kva) (\<lambda>pa.
     if PPN pa \<ge> npage (phys s) then Inl (Panic ''pa2page called with invalid pa'') else Inr (PPN pa))"

text \<open>\<open>alloc\<close> is \<open>kmem_cache_alloc\<close>; null stands for no memory.\<close>

type_synonym cache_alloc = "nat \<Rightarrow> slab_st \<Rightarrow> (32 word \<times> slab_st) res"

definition kmem_cache_slabmgmt :: "cache_alloc \<Rightarrow> nat \<Rightarrow> nat \<Rightarrow> slab_st \<Rightarrow> (32 word \<times> slab_st) res" where
  "kmem_cache_slabmgmt alloc i page s =
     bindR (page2kva page s) (\<lambda>objp.
     bindR (if off_slab (cache s i) then alloc (slab_cachep (cache s i)) s else Inr (objp, s)) (\<lambda>(slabp, s1).
       if slabp = 0 then Inr (0, s1)
       else let off = objoffset (cache s1 i)
            in Inr (slabp, upd_ctl slabp (\<lambda>t. t\<lparr>s_inuse := 0, s_offset := off, s_mem := objp + off\<rparr>) s1)))"

fun set_slab_pages :: "nat \<Rightarrow> 32 word \<Rightarrow> nat \<Rightarrow> nat \<Rightarrow> slab_st \<Rightarrow> slab_st" where
  "set_slab_pages i slabp page 0 s = s"
| "set_slab_pages i slabp page (Suc n) s =
     set_slab_pages i slabp (page + 1) n
       (s\<lparr>page_cache := (page_cache s)(page := i), page_slab := (page_slab s)(page := slabp), phys := upd_page page (page_set PG_slab) (phys s)\<rparr>)"

fun fill_bufctl :: "nat \<Rightarrow> (nat \<Rightarrow> 32 word) \<Rightarrow> nat \<Rightarrow> 32 word" where
  "fill_bufctl 0 a = a"
| "fill_bufctl (Suc n) a = (fill_bufctl n a)(n := of_nat (n + 1))"

definition kmem_cache_grow :: "cache_alloc \<Rightarrow> nat \<Rightarrow> slab_st \<Rightarrow> (bool \<times> slab_st) res" where
  "kmem_cache_grow alloc i s =
     bindR (buddy_alloc_pages (2 ^ page_order (cache s i)) (phys s)) (\<lambda>(page, b).
       let s1 = s\<lparr>phys := b\<rparr>
       in case page of
            None \<Rightarrow> Inr (False, s1)
          | Some p \<Rightarrow>
              bindR (kmem_cache_slabmgmt alloc i p s1) (\<lambda>(slabp, s2).
                if slabp = 0 then
                  bindR (buddy_free_pages p (2 ^ page_order (cache s2 i)) (phys s2)) (\<lambda>b'. Inr (False, s2\<lparr>phys := b'\<rparr>))
                else
                  let s3 = set_slab_pages i slabp p (2 ^ page_order (cache s2 i)) s2;
                      num = unat (objnum (cache s3 i));
                      s4 = s3\<lparr>bufctl := (bufctl s3)(slabp := (fill_bufctl num (bufctl s3 slabp))(num - 1 := BUFCTL_END))\<rparr>;
                      s5 = upd_ctl slabp (\<lambda>t. t\<lparr>s_free := 0\<rparr>) s4
                  in Inr (True, upd_cache i (\<lambda>c. c\<lparr>slabs_notfull := slabp # slabs_notfull c\<rparr>) s5)))"

text \<open>\<open>list_del\<close> takes a slab out of the list it is in.\<close>

definition unlink_slab :: "32 word \<Rightarrow> kmem_cache \<Rightarrow> kmem_cache" where
  "unlink_slab p c = c\<lparr>slabs_full := remove1 p (slabs_full c), slabs_notfull := remove1 p (slabs_notfull c)\<rparr>"

definition kmem_cache_alloc_one :: "nat \<Rightarrow> 32 word \<Rightarrow> slab_st \<Rightarrow> 32 word \<times> slab_st" where
  "kmem_cache_alloc_one i slabp s =
     (let t = ctl s slabp; objp = s_mem t + s_free t * objsize (cache s i); nf = bufctl s slabp (unat (s_free t));
          s1 = upd_ctl slabp (\<lambda>t. t\<lparr>s_inuse := s_inuse t + 1, s_free := nf\<rparr>) s
      in (objp, if nf = BUFCTL_END
                then upd_cache i (\<lambda>c. let c' = unlink_slab slabp c in c'\<lparr>slabs_full := slabp # slabs_full c'\<rparr>) s1
                else s1))"

text \<open>The first argument bounds the nesting: an attempt after \<open>kmem_cache_grow\<close>, and a control block from another
  cache.\<close>

fun kmem_cache_alloc :: "nat \<Rightarrow> nat \<Rightarrow> slab_st \<Rightarrow> (32 word \<times> slab_st) res" where
  "kmem_cache_alloc 0 i s = Inl Spin"
| "kmem_cache_alloc (Suc d) i s =
     (case slabs_notfull (cache s i) of
        slabp # _ \<Rightarrow> Inr (kmem_cache_alloc_one i slabp s)
      | [] \<Rightarrow> bindR (kmem_cache_grow (kmem_cache_alloc d) i s) (\<lambda>(ok, s1).
                if ok then kmem_cache_alloc d i s1 else Inr (0, s1)))"

definition kmalloc :: "32 word \<Rightarrow> slab_st \<Rightarrow> (32 word \<times> slab_st) res" where
  "kmalloc osz s =
     bindR (assertR (osz > 0) ''size > 0'') (\<lambda>_.
     bindR (size_order osz) (\<lambda>order.
       if order > MAX_SIZE_ORDER then Inr (0, s) else kmem_cache_alloc 3 (order - MIN_SIZE_ORDER) s))"

section \<open>Freeing\<close>

type_synonym cache_free = "nat \<Rightarrow> 32 word \<Rightarrow> slab_st \<Rightarrow> slab_st res"

fun clear_slab_pages :: "nat \<Rightarrow> nat \<Rightarrow> slab_st \<Rightarrow> slab_st res" where
  "clear_slab_pages page 0 s = Inr s"
| "clear_slab_pages page (Suc n) s =
     bindR (assertR (PageSlab s page) ''PageSlab(p)'') (\<lambda>_.
       clear_slab_pages (page + 1) n (s\<lparr>phys := upd_page page (page_clear PG_slab) (phys s)\<rparr>))"

definition kmem_slab_destroy :: "cache_free \<Rightarrow> nat \<Rightarrow> 32 word \<Rightarrow> slab_st \<Rightarrow> slab_st res" where
  "kmem_slab_destroy cfree i slabp s =
     bindR (kva2page (s_mem (ctl s slabp) - s_offset (ctl s slabp)) s) (\<lambda>page.
     let n = 2 ^ page_order (cache s i)
     in bindR (clear_slab_pages page n s) (\<lambda>s1.
        bindR (buddy_free_pages page n (phys s1)) (\<lambda>b.
        let s2 = s1\<lparr>phys := b\<rparr>
        in if off_slab (cache s2 i) then cfree (slab_cachep (cache s2 i)) slabp s2 else Inr s2)))"

definition kmem_cache_free_one :: "cache_free \<Rightarrow> nat \<Rightarrow> 32 word \<Rightarrow> 32 word \<Rightarrow> slab_st \<Rightarrow> slab_st res" where
  "kmem_cache_free_one cfree i slabp objp s =
     (let objnr = (objp - s_mem (ctl s slabp)) div objsize (cache s i);
          s1 = s\<lparr>bufctl := (bufctl s)(slabp := (bufctl s slabp)(unat objnr := s_free (ctl s slabp)))\<rparr>;
          s2 = upd_ctl slabp (\<lambda>t. t\<lparr>s_free := objnr, s_inuse := s_inuse t - 1\<rparr>) s1
      in if s_inuse (ctl s2 slabp) = 0 then kmem_slab_destroy cfree i slabp (upd_cache i (unlink_slab slabp) s2)
         else if s_inuse (ctl s2 slabp) = objnum (cache s2 i) - 1 then
           Inr (upd_cache i (\<lambda>c. let c' = unlink_slab slabp c in c'\<lparr>slabs_notfull := slabp # slabs_notfull c'\<rparr>) s2)
         else Inr s2)"

fun kmem_cache_free :: "nat \<Rightarrow> nat \<Rightarrow> 32 word \<Rightarrow> slab_st \<Rightarrow> slab_st res" where
  "kmem_cache_free 0 i objp s = Inl Spin"
| "kmem_cache_free (Suc d) i objp s =
     bindR (kva2page objp s) (\<lambda>page.
       if \<not> PageSlab s page then Inl (Panic ''not a slab page'')
       else kmem_cache_free_one (kmem_cache_free d) i (page_slab s page) objp s)"

definition kfree :: "32 word \<Rightarrow> slab_st \<Rightarrow> slab_st res" where
  "kfree objp s = bindR (kva2page objp s) (\<lambda>page. kmem_cache_free 2 (page_cache s page) objp s)"

definition slab_allocated :: "slab_st \<Rightarrow> 32 word" where
  "slab_allocated s =
     foldl (\<lambda>total i. let c = cache s i
        in foldl (\<lambda>total p. total + s_inuse (ctl s p) * objsize c)
             (foldl (\<lambda>total p. total + objnum c * objsize c) total (slabs_full c)) (slabs_notfull c))
       0 [0..<SLAB_CACHE_NUM]"

section \<open>The caches after initialisation\<close>

text \<open>Size, number and offset of the objects, whether the control blocks are elsewhere, the order of the slabs, and the
  cache of the control blocks.\<close>

definition cache_sizes :: "kmem_cache \<Rightarrow> 32 word \<times> 32 word \<times> 32 word \<times> bool \<times> nat \<times> nat" where
  "cache_sizes c = (objsize c, objnum c, objoffset c, off_slab c, page_order c, slab_cachep c)"

definition size_table :: "(32 word \<times> 32 word \<times> 32 word \<times> bool \<times> nat \<times> nat) list" where
  "size_table =
     [(32, 113, 480, False, 0, 0), (64, 59, 272, False, 0, 0), (128, 30, 144, False, 0, 0), (256, 15, 96, False, 0, 0),
      (512, 8, 0, True, 0, 1), (1024, 4, 0, True, 0, 1), (2048, 2, 0, True, 0, 0), (4096, 1, 0, True, 0, 0),
      (8192, 1, 0, True, 1, 0), (16384, 1, 0, True, 2, 0), (32768, 1, 0, True, 3, 0), (65536, 1, 0, True, 4, 0),
      (131072, 1, 0, True, 5, 0)]"

lemma SLAB_CACHE_NUM_13 [simp]: "SLAB_CACHE_NUM = 13"
  by (simp add: SLAB_CACHE_NUM_def MAX_SIZE_ORDER_def MIN_SIZE_ORDER_def)

definition table_cache :: "nat \<Rightarrow> kmem_cache" where
  "table_cache i = (let (o1, n, off, b, order, cp) = size_table ! i
     in \<lparr>slabs_full = [], slabs_notfull = [], objsize = o1, objnum = n, objoffset = off, off_slab = b, page_order = order, slab_cachep = cp\<rparr>)"

text \<open>What \<open>init_kmem_cache\<close> makes of a cache depends on the state only in \<open>slab_cachep\<close>.\<close>

definition new_cache :: "32 word \<Rightarrow> 32 word \<Rightarrow> nat \<Rightarrow> kmem_cache res" where
  "new_cache osz align cp =
     (let osz' = ROUNDUP osz align; off = (osz' \<ge> drop_bit 3 PGSIZE)
      in bindR (calculate_slab_order osz' align off) (\<lambda>(num, order, left_over).
         bindR (assertR (num > 0) ''cachep->num > 0'') (\<lambda>_.
         let mgmt = slab_mgmt_size num align; off' = (off \<and> \<not> left_over \<ge> mgmt)
         in if off' then bindR (size_order mgmt) (\<lambda>k. Inr \<lparr>slabs_full = [], slabs_notfull = [], objsize = osz', objnum = num, objoffset = 0,
                off_slab = True, page_order = order, slab_cachep = k - MIN_SIZE_ORDER\<rparr>)
            else Inr \<lparr>slabs_full = [], slabs_notfull = [], objsize = osz', objnum = num, objoffset = mgmt, off_slab = False, page_order = order,
                slab_cachep = cp\<rparr>)))"

lemma init_new_cache:
  "init_kmem_cache i osz align s = bindR (new_cache osz align (slab_cachep (cache s i))) (\<lambda>c. Inr (upd_cache i (\<lambda>_. c) s))"
proof (cases "calculate_slab_order (ROUNDUP osz align) align (drop_bit 3 PGSIZE \<le> ROUNDUP osz align)")
  case (Inl e)
  then show ?thesis by (simp add: init_kmem_cache_def new_cache_def)
next
  case (Inr r)
  obtain num order left where r: "r = (num, order, left)" by (rule prod_cases3)
  show ?thesis using Inr r
    by (cases "drop_bit 3 PGSIZE \<le> ROUNDUP osz align"; cases "left \<ge> slab_mgmt_size num align"; cases "num > 0";
        cases "size_order (slab_mgmt_size num align)"; cases "cache s i")
      (simp_all add: init_kmem_cache_def new_cache_def assertR_def)
qed

lemma new_caches: "list_all (\<lambda>i. new_cache (push_bit (i + MIN_SIZE_ORDER) 1) 16 0 = Inr (table_cache i)) [0..<13]"
  by code_simp

lemma init_caches_spec:
  assumes "n \<le> 13" "\<forall>i<13. slab_cachep (cache s i) = 0"
  shows "init_caches n s = Inr (s\<lparr>cache := \<lambda>i. if i < n then table_cache i else cache s i\<rparr>)"
  using assms
proof (induction n)
  case (Suc n)
  have "new_cache (push_bit (n + MIN_SIZE_ORDER) 1) 16 0 = Inr (table_cache n)" using new_caches Suc.prems(1) by (simp add: list_all_iff)
  then show ?case using Suc by (auto simp: init_new_cache upd_cache_def fun_eq_iff)
qed simp

text \<open>The table is what the thirteen caches get.  No size needs more than 32 pages, objects and control fit in the slab, and
  control blocks outside are objects of the two smallest caches.\<close>

lemma upt_all: "list_all P [0..<n] \<Longrightarrow> i < n \<Longrightarrow> P i"
  by (simp add: list_all_iff)

lemma size_table_ok:
  assumes "i < 13" "size_table ! i = (o1, n, off, b, order, cp)"
  shows "unat o1 = 2 ^ (i + 5)" "0 < unat n" "unat n \<le> 113" "unat off + unat n * unat o1 \<le> 4096 * 2 ^ order" "order \<le> 5"
    "b \<Longrightarrow> cp \<le> 1 \<and> 24 + 4 * unat n \<le> 2 ^ (cp + 5)" "\<not> b \<Longrightarrow> 24 + 4 * unat n \<le> unat off" "b \<longleftrightarrow> 4 \<le> i"
proof -
  let ?P = "\<lambda>i. case size_table ! i of (o1, n, off, b, order, cp) \<Rightarrow>
      unat o1 = 2 ^ (i + 5) \<and> 0 < unat n \<and> unat n \<le> 113 \<and> unat off + unat n * unat o1 \<le> 4096 * 2 ^ order \<and> order \<le> 5 \<and>
      (b \<longrightarrow> cp \<le> 1 \<and> 24 + 4 * unat n \<le> 2 ^ (cp + 5)) \<and> (\<not> b \<longrightarrow> 24 + 4 * unat n \<le> unat off) \<and> b = (4 \<le> i)"
  have all: "list_all ?P [0..<13]" by (simp add: size_table_def upt_conv_Cons)
  have P: "?P i" by (rule upt_all [OF all assms(1)])
  show "unat o1 = 2 ^ (i + 5)" "0 < unat n" "unat n \<le> 113" "unat off + unat n * unat o1 \<le> 4096 * 2 ^ order" "order \<le> 5"
    "b \<Longrightarrow> cp \<le> 1 \<and> 24 + 4 * unat n \<le> 2 ^ (cp + 5)" "\<not> b \<Longrightarrow> 24 + 4 * unat n \<le> unat off" "b \<longleftrightarrow> 4 \<le> i"
    using P unfolding assms(2) prod.case by blast+
qed

text \<open>\<open>size_order\<close> finds the cache of a size; beyond 128 kilobytes there is none, and the kernel stops.\<close>

lemma size_order_eq:
  "size_order n =
     (if n \<le> 32 then Inr 5 else if n \<le> 64 then Inr 6 else if n \<le> 128 then Inr 7 else if n \<le> 256 then Inr 8 else if n \<le> 512 then Inr 9
      else if n \<le> 1024 then Inr 10 else if n \<le> 2048 then Inr 11 else if n \<le> 4096 then Inr 12 else if n \<le> 8192 then Inr 13
      else if n \<le> 16384 then Inr 14 else if n \<le> 32768 then Inr 15 else if n \<le> 65536 then Inr 16 else if n \<le> 131072 then Inr 17
      else Inl (Panic ''getorder failed.''))"
  by (simp add: size_order_def size_order_from.simps MIN_SIZE_ORDER_def MAX_SIZE_ORDER_def)

lemma size_order_spec:
  assumes "n \<le> 131072"
  shows "\<exists>i<13. size_order n = Inr (i + 5) \<and> unat n \<le> 2 ^ (i + 5)"
proof -
  have a: "\<exists>i<13. size_order n = Inr (i + 5) \<and> unat n \<le> 2 ^ (i + 5)" if "j < 13" "size_order n = Inr (j + 5)" "unat n \<le> 2 ^ (j + 5)" for j
    using that by blast
  consider "unat n \<le> 32" |
    "32 < unat n" "unat n \<le> 64" |
    "64 < unat n" "unat n \<le> 128" |
    "128 < unat n" "unat n \<le> 256" |
    "256 < unat n" "unat n \<le> 512" |
    "512 < unat n" "unat n \<le> 1024" |
    "1024 < unat n" "unat n \<le> 2048" |
    "2048 < unat n" "unat n \<le> 4096" |
    "4096 < unat n" "unat n \<le> 8192" |
    "8192 < unat n" "unat n \<le> 16384" |
    "16384 < unat n" "unat n \<le> 32768" |
    "32768 < unat n" "unat n \<le> 65536" |
    "65536 < unat n" "unat n \<le> 131072"
    using assms by (simp add: word_le_nat_alt) linarith
  then show ?thesis
  proof cases
    case 1
    then show ?thesis by (intro a [of 0]) (simp_all add: size_order_eq word_le_nat_alt)
  next
    case 2
    then show ?thesis by (intro a [of 1]) (simp_all add: size_order_eq word_le_nat_alt)
  next
    case 3
    then show ?thesis by (intro a [of 2]) (simp_all add: size_order_eq word_le_nat_alt)
  next
    case 4
    then show ?thesis by (intro a [of 3]) (simp_all add: size_order_eq word_le_nat_alt)
  next
    case 5
    then show ?thesis by (intro a [of 4]) (simp_all add: size_order_eq word_le_nat_alt)
  next
    case 6
    then show ?thesis by (intro a [of 5]) (simp_all add: size_order_eq word_le_nat_alt)
  next
    case 7
    then show ?thesis by (intro a [of 6]) (simp_all add: size_order_eq word_le_nat_alt)
  next
    case 8
    then show ?thesis by (intro a [of 7]) (simp_all add: size_order_eq word_le_nat_alt)
  next
    case 9
    then show ?thesis by (intro a [of 8]) (simp_all add: size_order_eq word_le_nat_alt)
  next
    case 10
    then show ?thesis by (intro a [of 9]) (simp_all add: size_order_eq word_le_nat_alt)
  next
    case 11
    then show ?thesis by (intro a [of 10]) (simp_all add: size_order_eq word_le_nat_alt)
  next
    case 12
    then show ?thesis by (intro a [of 11]) (simp_all add: size_order_eq word_le_nat_alt)
  next
    case 13
    then show ?thesis by (intro a [of 12]) (simp_all add: size_order_eq word_le_nat_alt)
  qed
qed

end
