(* ===== verification/Spec2Isabelle.thy ===== *)
theory Spec2Isabelle
  imports Cstring Printf Proc_Ops Wait_Queue Swap_Out Umalloc_Heap Slab
begin

text \<open>
  A verification of the kernel in this repository: a teaching kernel for the x86 with virtual
  memory, swapping, threads and a scheduler that serves real-time processes by earliest deadline.

  \<^bold>\<open>Parts and theories.\<close>
  \<^item> \<open>Prelude\<close>: results (\<open>'a res\<close>, an error or a value), the error values, \<open>assertR\<close>, checked
    integer arithmetic, the rounding macros of \<open>libs/types.h\<close>, facts on lists and words.
  \<^item> \<open>Clist\<close>: the linked lists of \<open>libs/list.h\<close> on a store of \<open>prev\<close> and \<open>next\<close> pointers.  The
    predicate that a head represents a HOL list carries every later use.
  \<^item> \<open>Prio_Heap\<close>: the array heap of \<open>kern/libs/heap.c\<close>, refined to a multiset of entries.
  \<^item> \<open>Proc_Struct\<close>, \<open>Sched_State\<close>: \<open>struct proc_struct\<close> and the state of \<open>kern/schedule/sched.c\<close>.
  \<^item> \<open>Sched_EDF\<close>, \<open>Sched_RR\<close>: the scheduling classes of \<open>sched_MY.c\<close>, \<open>sched_RR.c\<close>, \<open>sched_MLFQ.c\<close>.
    A class is a record of functions, \<open>sched_class\<close>, as in the source.
  \<^item> \<open>Timer_List\<close>, \<open>Sched_Core\<close>: the timer list with its relative times, \<open>wakeup_proc\<close>,
    \<open>schedule\<close>, \<open>proc_run\<close> and \<open>run_timer_list\<close>, for any class.
  \<^item> \<open>Sched_Kernel\<close>: the scheduler with the deadline class plugged in, as a step relation
    whose reachable states keep one invariant.
  \<^item> \<open>Cstring\<close>, \<open>Printf\<close>, \<open>Hash_Rand\<close>: \<open>libs/string.c\<close> with the assembly routines of
    \<open>libs/x86.h\<close> on a byte memory, \<open>libs/printfmt.c\<close>, \<open>kern/libs/readline.c\<close>, \<open>libs/hash.c\<close>, \<open>libs/rand.c\<close>.
  \<^item> \<open>Sync\<close>, \<open>Wait_Queue\<close>: atomic words and bits, the interrupt flag, locks as a step relation of
    competing threads, and the wait queues of \<open>kern/sync/wait.c\<close>.
  \<^item> \<open>Pid_Alloc\<close>, \<open>Proc_Table\<close>, \<open>Proc_Ops\<close>: \<open>kern/process/proc.c\<close>: pid allocation, the hash lists,
    the family links and the thread rings, and fork, exit, wait, kill, sleep and yield.
  \<^item> \<open>Mem_Layout\<close>, \<open>Buddy\<close>: address macros, and the page allocator of \<open>kern/mm/buddy_pmm.c\<close>
    with its free lists and page descriptors.
  \<^item> \<open>Swap\<close>: the swap cache of \<open>kern/mm/swap.c\<close>.
  \<^item> \<open>Page_Table\<close>: two-level page tables in page frames, \<open>kern/mm/pmm.c\<close>.
  \<^item> \<open>Rb_Tree\<close>, \<open>Shmem\<close>: \<open>kern/libs/rb_tree.c\<close> and \<open>kern/mm/shmem.c\<close>.
  \<^item> \<open>Vmm\<close>: \<open>kern/mm/vmm.c\<close>: address spaces (\<open>mm_struct\<close>), their areas (\<open>vma_struct\<close>), mapping and unmapping,
    the checks of user addresses, \<open>dup_mmap\<close>, and the page fault handler, on the page tables, the
    page allocator, the swap cache and the shared memory of the theories above.
    \<open>Vmm_Areas\<close>: the invariant of an address space and what lookup and insertion of areas do;
    \<open>Vmm_Unmap\<close>: unmapping; \<open>Vmm_Fault\<close>: the fault handler; \<open>Vmm_Props\<close>: their properties.
  \<^item> \<open>Mem_Calls\<close>: the system calls of \<open>kern/process/proc.c\<close> on the address space of a process: \<open>do_brk\<close>, \<open>do_mmap\<close>,
    \<open>do_munmap\<close>, \<open>do_shmem\<close>.
  \<^item> \<open>Umalloc\<close>, \<open>Umalloc_Heap\<close>: \<open>user/libs/malloc.c\<close>: the ring of free blocks, \<open>malloc\<close>, \<open>shmem_malloc\<close> and
    \<open>free\<close> in front of \<open>do_brk\<close>.
  \<^item> \<open>Swap_Cache\<close>: the invariant of the swap cache over its two lists, its hash lists and the reference counts
    of the swap entries, kept by every operation of \<open>Swap\<close>, and what happens to the contents of pages.
    \<open>Swap_Out\<close>: the part of \<open>kern/mm/swap.c\<close> that walks address spaces: \<open>swap_out_vma\<close>,
    \<open>swap_out_mm\<close> and the rounds of \<open>kswapd_main\<close>.

  \<^bold>\<open>Conventions.\<close>  A structure is a record; a pointer is a number that indexes a map of records, and a null
  pointer is \<open>None\<close> (or an argument of type option).  Operations take the state and return the new one.
  \<open>panic\<close>, a failed \<open>assert\<close>, a null dereference and an endless loop are the errors of the type
  \<open>'a res\<close>; an error return of the source is a negative integer, as in the source.  Unsigned fields are
  words; \<open>int\<close> fields are integers whose arithmetic is checked where it could overflow.
  Loops that walk pointers are \<open>partial_function\<close>s to option, or take the length of the walked
  list as fuel; what they return is proved for the states the invariants allow.
  Interrupts are disabled where the source disables them, so an operation is one step.

  \<^bold>\<open>What is shown.\<close>  The deadline scheduler switches to a process of least deadline and keeps its
  invariants in every reachable state; what the timer tick does to deadlines, including the ways
  it stops the kernel; timers expire when due; the other classes serve their queues in order.
  The heap refines a multiset; the lists refine HOL lists.  Fork creates what the process table
  says, wait reaps, a fresh pid is always found.  The string and print routines agree with their
  specifications, and stay in their buffers.  Locks exclude.  The page allocator takes and gives back
  exactly the pages it should; page tables translate what was mapped; copied private pages
  become read-only on both sides; swap counts and lists stay consistent.
  The areas of an address space stay sorted, disjoint and page aligned under mapping and unmapping, and
  pages are only mapped inside them; a fault is refused exactly when the area or its flags forbid it, a
  fresh page is mapped with the rights of its area, and a write to a shared private page copies it.
  The swap cache is consistent in every state its operations reach; laundering loses no page's contents, and what was
  swapped out is what comes back; swapping out replaces a present entry by the swap entry that holds
  the same page, and its loop over the processes ends.
  The break moves exactly as far as it says, and a mapping call gives exactly one free range its use.
  On top of it \<open>malloc\<close> hands out blocks that overlap nothing in use and loses no memory, and \<open>free\<close> gives
  them back; \<open>shmem_malloc\<close> does not keep this.
  The statements on areas are for address spaces whose areas are held in the list (the tree is built
  from 32 areas on, and \<open>mm_ok\<close> asks that it is not).

  \<^bold>\<open>Interfaces.\<close>  The contracts between components are locales, interpreted on the definitions of the
  model: lists, the priority queue, scheduling classes, the timer list, the page manager and the source of memory of the user's heap.

  \<^bold>\<open>Not modelled.\<close>  Port input and output (console, keyboard, disk, clock, interrupt controller), the boot loader,
  the kernel debugger and monitor, the self tests (\<open>check_*\<close>) and the user programs.  The disk answers
  are arguments.  An allocation that fails because memory is short is one attempt: waiting for
  \<open>kswapd\<close> (\<open>try_free_pages\<close>, \<open>kswapd_wakeup_all\<close>) is not modelled.  Page directories, memory for process blocks and
  \<open>kmalloc\<close> come from pools of addresses.

  \<^bold>\<open>Plan.\<close>  The slab allocator, program loading, system calls and traps.
\<close>

end
